(* ===== verification/Chitta_Base.thy ===== *)
theory Chitta_Base
  imports Complex_Main "HOL-Library.Word" "HOL-Library.Char_ord" "HOL-Library.List_Lexorder"
    "HOL-Library.Sublist" "HOL-Library.Multiset"
begin

unbundle bit_operations_syntax

text \<open>
  The prelude of the development: the machine types, the exceptions the C++ throws as
  values of a sum type, the error-propagating bind and list traversals the components
  share, and generic facts on lists and prefixes.  The named collections
  \<open>res_simps\<close> (how results propagate), \<open>om_simps\<close> (ordered maps), \<open>json_simps\<close> (JSON
  accessors) and \<open>wf_intros\<close> (preservation of well-formedness) carry the component proofs.
\<close>

named_theorems res_simps
named_theorems om_simps
named_theorems json_simps
named_theorems wf_intros

section \<open>Machine types\<close>

type_synonym u8 = "8 word"
type_synonym u16 = "16 word"
type_synonym u32 = "32 word"
type_synonym u64 = "64 word"

text \<open>A byte string: \<open>std::string\<close> and byte buffers, one \<open>u8\<close> per byte.\<close>

type_synonym bytes = "u8 list"

section \<open>Exceptions as values\<close>

text \<open>
  \<open>Type_error\<close> and \<open>Out_of_range\<close> are the two exceptions the JSON accessors raise;
  \<open>Invalid_argument\<close> and \<open>Runtime_error\<close> are thrown by the code itself with a message;
  \<open>Persist_failed\<close> is whatever the persistence callback threw.
\<close>

datatype exn =
    Type_error
  | Out_of_range
  | Invalid_argument string
  | Runtime_error string
  | Persist_failed

type_synonym 'a res = "exn + 'a"

definition rbind :: "'e + 'a \<Rightarrow> ('a \<Rightarrow> 'e + 'b) \<Rightarrow> 'e + 'b" where
  "rbind m f = (case m of Inl e \<Rightarrow> Inl e | Inr x \<Rightarrow> f x)"

definition guard_res :: "bool \<Rightarrow> 'e \<Rightarrow> 'e + unit" where
  "guard_res b e = (if b then Inr () else Inl e)"

lemma rbind_Inr [simp, res_simps]: "rbind (Inr x) f = f x"
  by (simp add: rbind_def)

lemma rbind_Inl [simp, res_simps]: "rbind (Inl e) f = Inl e"
  by (simp add: rbind_def)

lemma rbind_eq_Inr [res_simps]: "rbind m f = Inr y \<longleftrightarrow> (\<exists>x. m = Inr x \<and> f x = Inr y)"
  by (cases m) (auto simp: rbind_def)

lemma rbind_eq_Inl: "rbind m f = Inl e \<longleftrightarrow> m = Inl e \<or> (\<exists>x. m = Inr x \<and> f x = Inl e)"
  by (cases m) (auto simp: rbind_def)

lemma rbind_assoc: "rbind (rbind m f) g = rbind m (\<lambda>x. rbind (f x) g)"
  by (cases m) auto

lemma guard_res_eq_Inr [simp, res_simps]: "guard_res b e = Inr u \<longleftrightarrow> b"
  by (simp add: guard_res_def)

lemma guard_res_True [simp]: "guard_res True e = Inr ()"
  by (simp add: guard_res_def)

lemma guard_res_False [simp]: "guard_res False e = Inl e"
  by (simp add: guard_res_def)

fun res_map :: "('a \<Rightarrow> 'e + 'b) \<Rightarrow> 'a list \<Rightarrow> 'e + 'b list" where
  "res_map f [] = Inr []"
| "res_map f (x # xs) = rbind (f x) (\<lambda>y. rbind (res_map f xs) (\<lambda>ys. Inr (y # ys)))"

fun res_fold :: "('a \<Rightarrow> 's \<Rightarrow> 'e + 's) \<Rightarrow> 'a list \<Rightarrow> 's \<Rightarrow> 'e + 's" where
  "res_fold f [] s = Inr s"
| "res_fold f (x # xs) s = rbind (f x s) (res_fold f xs)"

fun res_filter :: "('a \<Rightarrow> 'e + bool) \<Rightarrow> 'a list \<Rightarrow> 'e + 'a list" where
  "res_filter p [] = Inr []"
| "res_filter p (x # xs) =
     rbind (p x) (\<lambda>b. rbind (res_filter p xs) (\<lambda>ys. Inr (if b then x # ys else ys)))"

lemma res_map_Inr_iff:
  "res_map f xs = Inr ys \<longleftrightarrow> list_all2 (\<lambda>x y. f x = Inr y) xs ys"
  by (induction xs arbitrary: ys) (auto simp: rbind_eq_Inr list_all2_Cons1)

lemma res_map_total:
  assumes "\<And>x. x \<in> set xs \<Longrightarrow> f x = Inr (g x)"
  shows "res_map f xs = Inr (map g xs)"
  using assms by (induction xs) auto

lemma res_filter_total:
  assumes "\<And>x. x \<in> set xs \<Longrightarrow> p x = Inr (q x)"
  shows "res_filter p xs = Inr (filter q xs)"
  using assms by (induction xs) auto

lemma res_fold_append:
  "res_fold f (xs @ ys) s = rbind (res_fold f xs s) (res_fold f ys)"
proof (induction xs arbitrary: s)
  case Nil
  then show ?case by simp
next
  case (Cons x xs)
  then show ?case by (cases "f x s") auto
qed

lemma res_fold_invariant:
  assumes "res_fold f xs s = Inr t" and "P s"
    and "\<And>x s t. x \<in> set xs \<Longrightarrow> P s \<Longrightarrow> f x s = Inr t \<Longrightarrow> P t"
  shows "P t"
  using assms
proof (induction xs arbitrary: s)
  case Nil
  then show ?case by simp
next
  case (Cons x xs)
  then obtain u where u: "f x s = Inr u" "res_fold f xs u = Inr t"
    by (auto simp: rbind_eq_Inr)
  from Cons.prems u(1) have "P u" by (meson list.set_intros(1))
  with u(2) show ?case using Cons.IH Cons.prems(3) by (meson list.set_intros(2))
qed

lemma res_fold_total:
  assumes "P s" and "\<And>x s. x \<in> set xs \<Longrightarrow> P s \<Longrightarrow> \<exists>t. f x s = Inr t \<and> P t"
  shows "\<exists>t. res_fold f xs s = Inr t \<and> P t"
  using assms
proof (induction xs arbitrary: s)
  case Nil
  then show ?case by simp
next
  case (Cons x xs)
  from Cons.prems obtain u where u: "f x s = Inr u" "P u"
    by (meson list.set_intros(1))
  with Cons.IH[of u] Cons.prems(2) show ?case by auto
qed

section \<open>Lists and prefixes\<close>

lemma take_append_drop_take: "take n xs @ take m (drop n xs) = take (n + m) xs"
  by (simp add: take_add)

lemma prefix_take_length: "prefix ys xs \<Longrightarrow> ys = take (length ys) xs"
  by (auto elim: prefixE)

lemma sorted_wrt_filter: "sorted_wrt P xs \<Longrightarrow> sorted_wrt P (filter q xs)"
  by (induction xs) auto

end
