(* ===== verification/Ordered_Map.thy ===== *)
theory Ordered_Map
  imports Chitta_Base
begin

text \<open>
  \<open>std::map\<close> and \<open>std::set\<close>: associative containers kept in key order, as association
  lists with strictly ascending keys, so that a loop over the container visits the keys
  in the order the C++ does.  The interface the clients rely on is the locale
  \<open>std_map\<close>; it is interpreted on the list representation here and its client lemmas
  (overwriting, replaying a list of writes) are proved once inside it.
\<close>

section \<open>The container\<close>

type_synonym ('k, 'v) omap = "('k \<times> 'v) list"
type_synonym 'k oset = "('k, unit) omap"

fun om_put :: "'k::linorder \<Rightarrow> 'v \<Rightarrow> ('k, 'v) omap \<Rightarrow> ('k, 'v) omap" where
  "om_put k v [] = [(k, v)]"
| "om_put k v ((k', v') # m) =
     (if k < k' then (k, v) # (k', v') # m
      else if k = k' then (k, v) # m
      else (k', v') # om_put k v m)"

definition om_del :: "'k \<Rightarrow> ('k, 'v) omap \<Rightarrow> ('k, 'v) omap" where
  "om_del k m = filter (\<lambda>p. fst p \<noteq> k) m"

definition om_get :: "('k, 'v) omap \<Rightarrow> 'k \<Rightarrow> 'v option" where
  "om_get = map_of"

definition om_inv :: "('k::linorder, 'v) omap \<Rightarrow> bool" where
  "om_inv m = sorted_wrt (<) (map fst m)"

definition om_keys :: "('k, 'v) omap \<Rightarrow> 'k list" where
  "om_keys m = map fst m"

definition om_of_list :: "('k::linorder \<times> 'v) list \<Rightarrow> ('k, 'v) omap" where
  "om_of_list kvs = foldr (\<lambda>(k, v). om_put k v) kvs []"

section \<open>The interface\<close>

locale std_map =
  fixes lkp :: "'m \<Rightarrow> 'k \<Rightarrow> 'v option"
    and ins :: "'k \<Rightarrow> 'v \<Rightarrow> 'm \<Rightarrow> 'm"
    and del :: "'k \<Rightarrow> 'm \<Rightarrow> 'm"
    and emp :: "'m"
    and ok :: "'m \<Rightarrow> bool"
  assumes lkp_emp: "lkp emp = Map.empty"
    and lkp_ins: "ok m \<Longrightarrow> lkp (ins k v m) = (lkp m)(k \<mapsto> v)"
    and lkp_del: "ok m \<Longrightarrow> lkp (del k m) = (lkp m)(k := None)"
    and ok_emp: "ok emp"
    and ok_ins: "ok m \<Longrightarrow> ok (ins k v m)"
    and ok_del: "ok m \<Longrightarrow> ok (del k m)"
    and ok_ext: "ok m \<Longrightarrow> ok m' \<Longrightarrow> lkp m = lkp m' \<Longrightarrow> m = m'"
begin

definition store :: "'k \<times> 'v option \<Rightarrow> 'm \<Rightarrow> 'm" where
  "store c m = (case snd c of None \<Rightarrow> del (fst c) m | Some v \<Rightarrow> ins (fst c) v m)"

lemma lkp_store: "ok m \<Longrightarrow> lkp (store c m) = (lkp m)(fst c := snd c)"
  by (auto simp: store_def lkp_ins lkp_del split: option.split)

lemma ok_store: "ok m \<Longrightarrow> ok (store c m)"
  by (auto simp: store_def ok_ins ok_del split: option.split)

lemma ok_stores: "ok m \<Longrightarrow> ok (fold store cs m)"
  by (induction cs arbitrary: m) (auto intro: ok_store)

lemma lkp_stores:
  "ok m \<Longrightarrow> lkp (fold store cs m) k = (case map_of (rev cs) k of None \<Rightarrow> lkp m k | Some v \<Rightarrow> v)"
proof (induction cs arbitrary: m)
  case Nil
  then show ?case by simp
next
  case (Cons c cs)
  then show ?case
    by (cases c) (auto simp: lkp_store ok_store map_add_def split: option.split)
qed

lemma stores_idem: "ok m \<Longrightarrow> fold store cs (fold store cs m) = fold store cs m"
  by (rule ok_ext) (auto simp: ok_stores lkp_stores fun_eq_iff split: option.split)

lemma ins_ins: "ok m \<Longrightarrow> ins k v (ins k w m) = ins k v m"
  by (rule ok_ext) (auto simp: ok_ins lkp_ins)

lemma del_absent: "ok m \<Longrightarrow> lkp m k = None \<Longrightarrow> del k m = m"
  by (rule ok_ext) (auto simp: ok_del lkp_del)

end

section \<open>The list representation provides it\<close>

lemma set_om_put_keys: "fst ` set (om_put k v m) = insert k (fst ` set m)"
proof (induction m)
  case Nil
  then show ?case by simp
next
  case (Cons p m)
  obtain j w where "p = (j, w)" by (cases p)
  with Cons.IH show ?case by (auto simp del: set_map)
qed

lemma om_get_Nil [simp, om_simps]: "om_get [] k = None"
  by (simp add: om_get_def)

lemma om_get_Cons [simp, om_simps]: "om_get ((k', v) # m) k = (if k = k' then Some v else om_get m k)"
  by (auto simp: om_get_def)

lemma om_inv_Nil [simp, om_simps]: "om_inv []"
  by (simp add: om_inv_def)

lemma om_inv_Cons: "om_inv ((k, v) # m) \<longleftrightarrow> (\<forall>k' \<in> fst ` set m. k < k') \<and> om_inv m"
  by (auto simp: om_inv_def)

lemma om_inv_put [simp, om_simps]: "om_inv m \<Longrightarrow> om_inv (om_put k v m)"
proof (induction m)
  case Nil
  then show ?case by (simp add: om_inv_def)
next
  case (Cons p m)
  obtain j w where p: "p = (j, w)" by (cases p)
  consider "k < j" | "k = j" | "j < k" by fastforce
  then show ?case
    using Cons by cases (auto simp: p om_inv_Cons set_om_put_keys)
qed

lemma om_get_notin: "k \<notin> fst ` set m \<Longrightarrow> om_get m k = None"
  unfolding om_get_def by (metis image_iff map_of_eq_None_iff)

lemma om_get_put_aux:
  "om_inv m \<Longrightarrow> om_get (om_put k v m) j = (if j = k then Some v else om_get m j)"
  by (induction m) (auto simp: om_inv_Cons om_get_Cons)

lemma om_get_put [simp, om_simps]: "om_inv m \<Longrightarrow> om_get (om_put k v m) = (om_get m)(k \<mapsto> v)"
  by (rule ext) (simp add: om_get_put_aux)

lemma om_get_del_aux: "om_get (om_del k m) j = (if j = k then None else om_get m j)"
  by (induction m) (auto simp: om_get_Cons om_del_def)

lemma om_get_del [simp, om_simps]: "om_get (om_del k m) = (om_get m)(k := None)"
  by (rule ext) (simp add: om_get_del_aux)

lemma om_inv_del [simp, om_simps]: "om_inv m \<Longrightarrow> om_inv (om_del k m)"
  by (induction m) (auto simp: om_inv_Cons om_del_def)

lemma om_inv_distinct: "om_inv m \<Longrightarrow> distinct (map fst m)"
  by (auto simp: om_inv_def strict_sorted_iff)

lemma om_get_Some_iff: "om_inv m \<Longrightarrow> om_get m k = Some v \<longleftrightarrow> (k, v) \<in> set m"
  by (simp add: om_get_def om_inv_distinct)

lemma om_get_SomeD: "om_get m k = Some v \<Longrightarrow> (k, v) \<in> set m"
  by (simp add: om_get_def map_of_SomeD)

lemma om_ext:
  assumes "om_inv m" "om_inv m'" "om_get m = om_get m'"
  shows "m = m'"
proof -
  have s: "set m = set m'"
    using assms by (auto simp: om_get_Some_iff [symmetric])
  have "map fst m = map fst m'"
    using assms(1,2) s by (intro strict_sorted_equal) (auto simp: om_inv_def)
  moreover have "inj_on fst (set m \<union> set m')"
    using om_inv_distinct[OF assms(1)] s by (simp add: distinct_map)
  ultimately show ?thesis by (rule map_inj_on)
qed

interpretation om: std_map om_get om_put om_del "[]" om_inv
  by unfold_locales (auto intro: om_ext)

section \<open>Iteration\<close>

lemma om_get_None_iff: "om_get m k = None \<longleftrightarrow> k \<notin> set (om_keys m)"
  by (simp add: om_get_def om_keys_def map_of_eq_None_iff)

lemma om_inv_of_list [simp]: "om_inv (om_of_list kvs)"
  unfolding om_of_list_def by (induction kvs) auto

lemma om_get_of_list [simp]: "om_get (om_of_list kvs) k = map_of kvs k"
proof (induction kvs)
  case Nil
  then show ?case by (simp add: om_of_list_def)
next
  case (Cons p kvs)
  obtain j v where p: "p = (j, v)" by (cases p)
  have "om_of_list (p # kvs) = om_put j v (om_of_list kvs)"
    by (simp add: om_of_list_def p)
  with Cons.IH show ?case by (simp add: p)
qed

lemma om_inv_filter [simp]: "om_inv m \<Longrightarrow> om_inv (filter p m)"
  by (induction m) (auto simp: om_inv_Cons)

lemma om_inv_map_snd: "map fst m' = map fst m \<Longrightarrow> om_inv m \<Longrightarrow> om_inv m'"
  by (simp add: om_inv_def)

lemma om_put_neq_Nil [simp]: "om_put k v m \<noteq> []"
  by (cases m) (auto split: if_splits)

lemma om_keys_set: "om_inv m \<Longrightarrow> set (om_keys m) = {k. \<exists>v. om_get m k = Some v}"
  by (force simp: om_keys_def om_get_Some_iff)

lemma om_len_put: "om_inv m \<Longrightarrow>
  length (om_put k v m) = (if om_get m k = None then Suc (length m) else length m)"
proof (induction m)
  case Nil
  then show ?case by simp
next
  case (Cons p m)
  obtain j w where p: "p = (j, w)" by (cases p)
  have "k < j \<Longrightarrow> om_get m k = None"
    using Cons.prems by (intro om_get_notin) (auto simp: p om_inv_Cons)
  with Cons show ?case by (auto simp: p om_get_Cons om_inv_Cons)
qed

end
