(* ===== verification/Json_Model.thy ===== *)
theory Json_Model
  imports Ordered_Map
begin

text \<open>
  The JSON values the handlers exchange (\<open>nlohmann::json\<close>) as a datatype, with the
  documented behaviour of the accessors the code calls: \<open>contains\<close>, \<open>at\<close>, \<open>value\<close>
  with a default of a given type, indexed reads and writes, the typed \<open>get\<close>s, equality
  and order.  An object keeps its fields in key order, as the library's \<open>std::map\<close>
  does.  A double is a rational number: the code only adds whole seconds to and compares
  timestamps, and rounding is not represented.  Printing and parsing a document are not
  defined here; the components that need them take them as fields of the record
  \<open>jlib\<close>.
\<close>

datatype json =
    JNull
  | JBool bool
  | JInt int
  | JFloat rat
  | JStr string
  | JArr "json list"
  | JObj "(string \<times> json) list"

record jlib =
  jdump :: "json \<Rightarrow> string"
  jparse :: "string \<Rightarrow> json option"
  fnmatch :: "string \<Rightarrow> string \<Rightarrow> bool"

section \<open>Kinds\<close>

fun is_object :: "json \<Rightarrow> bool" where
  "is_object (JObj m) = True"
| "is_object j = False"

fun is_string :: "json \<Rightarrow> bool" where
  "is_string (JStr s) = True"
| "is_string j = False"

fun is_number :: "json \<Rightarrow> bool" where
  "is_number (JInt i) = True"
| "is_number (JFloat r) = True"
| "is_number j = False"

fun jfields :: "json \<Rightarrow> (string \<times> json) list" where
  "jfields (JObj m) = m"
| "jfields j = []"

section \<open>Access\<close>

definition jfind :: "json \<Rightarrow> string \<Rightarrow> json option" where
  "jfind j k = om_get (jfields j) k"

definition jcontains :: "json \<Rightarrow> string \<Rightarrow> bool" where
  "jcontains j k = (jfind j k \<noteq> None)"

definition jat :: "json \<Rightarrow> string \<Rightarrow> json res" where
  "jat j k = (if \<not> is_object j then Inl Type_error
              else case jfind j k of None \<Rightarrow> Inl Out_of_range | Some v \<Rightarrow> Inr v)"

text \<open>An indexed read of a mutable value: a missing field reads as null.\<close>

definition jidx :: "json \<Rightarrow> string \<Rightarrow> json" where
  "jidx j k = (case jfind j k of None \<Rightarrow> JNull | Some v \<Rightarrow> v)"

fun jset :: "string \<Rightarrow> json \<Rightarrow> json \<Rightarrow> json" where
  "jset k v (JObj m) = JObj (om_put k v m)"
| "jset k v JNull = JObj [(k, v)]"
| "jset k v j = j"

definition jobj :: "(string \<times> json) list \<Rightarrow> json" where
  "jobj kvs = JObj (om_of_list kvs)"

section \<open>Typed reads\<close>

fun get_string :: "json \<Rightarrow> string res" where
  "get_string (JStr s) = Inr s"
| "get_string j = Inl Type_error"

fun get_bool :: "json \<Rightarrow> bool res" where
  "get_bool (JBool b) = Inr b"
| "get_bool j = Inl Type_error"

definition to_int32 :: "int \<Rightarrow> int" where
  "to_int32 i = sint (word_of_int i :: u32)"

definition trunc_rat :: "rat \<Rightarrow> int" where
  "trunc_rat r = (if r < 0 then \<lceil>r\<rceil> else \<lfloor>r\<rfloor>)"

fun get_int :: "json \<Rightarrow> int res" where
  "get_int (JInt i) = Inr (to_int32 i)"
| "get_int (JFloat r) = Inr (to_int32 (trunc_rat r))"
| "get_int (JBool b) = Inr (if b then 1 else 0)"
| "get_int j = Inl Type_error"

text \<open>Unlike \<open>get<int>\<close>, \<open>get<double>\<close> and \<open>get<uint64_t>\<close> do not take a boolean.\<close>

fun get_double :: "json \<Rightarrow> rat res" where
  "get_double (JInt i) = Inr (of_int i)"
| "get_double (JFloat r) = Inr r"
| "get_double j = Inl Type_error"

definition jvalue :: "json \<Rightarrow> string \<Rightarrow> json \<Rightarrow> json res" where
  "jvalue j k d = (if \<not> is_object j then Inl Type_error
                   else Inr (case jfind j k of None \<Rightarrow> d | Some v \<Rightarrow> v))"

definition jvalue_str :: "json \<Rightarrow> string \<Rightarrow> string \<Rightarrow> string res" where
  "jvalue_str j k d = rbind (jvalue j k (JStr d)) get_string"

definition jvalue_bool :: "json \<Rightarrow> string \<Rightarrow> bool \<Rightarrow> bool res" where
  "jvalue_bool j k d = rbind (jvalue j k (JBool d)) get_bool"

definition jvalue_int :: "json \<Rightarrow> string \<Rightarrow> int \<Rightarrow> int res" where
  "jvalue_int j k d = rbind (jvalue j k (JInt d)) get_int"

section \<open>Equality and order\<close>

fun jeq :: "json \<Rightarrow> json \<Rightarrow> bool"
  and jeq_list :: "json list \<Rightarrow> json list \<Rightarrow> bool"
  and jeq_obj :: "(string \<times> json) list \<Rightarrow> (string \<times> json) list \<Rightarrow> bool" where
  "jeq JNull y = (y = JNull)"
| "jeq (JBool b) y = (y = JBool b)"
| "jeq (JInt i) y = (case y of JInt k \<Rightarrow> i = k | JFloat r \<Rightarrow> of_int i = r | _ \<Rightarrow> False)"
| "jeq (JFloat q) y = (case y of JInt k \<Rightarrow> q = of_int k | JFloat r \<Rightarrow> q = r | _ \<Rightarrow> False)"
| "jeq (JStr s) y = (y = JStr s)"
| "jeq (JArr xs) y = (case y of JArr ys \<Rightarrow> jeq_list xs ys | _ \<Rightarrow> False)"
| "jeq (JObj xs) y = (case y of JObj ys \<Rightarrow> jeq_obj xs ys | _ \<Rightarrow> False)"
| "jeq_list [] ys = (ys = [])"
| "jeq_list (x # xs) ys = (case ys of [] \<Rightarrow> False | y # ys' \<Rightarrow> jeq x y \<and> jeq_list xs ys')"
| "jeq_obj [] ys = (ys = [])"
| "jeq_obj ((k, x) # xs) ys =
     (case ys of [] \<Rightarrow> False | (k', y) # ys' \<Rightarrow> k = k' \<and> jeq x y \<and> jeq_obj xs ys')"

fun jrank :: "json \<Rightarrow> nat" where
  "jrank JNull = 0"
| "jrank (JBool b) = 1"
| "jrank (JInt i) = 2"
| "jrank (JFloat r) = 2"
| "jrank (JObj m) = 3"
| "jrank (JArr xs) = 4"
| "jrank (JStr s) = 5"

text \<open>
  The order of two values: within a kind by value (numbers across integer and double),
  otherwise by the library's order of kinds.  Arrays and objects are compared
  lexicographically.
\<close>

function jless :: "json \<Rightarrow> json \<Rightarrow> bool"
  and jless_list :: "json list \<Rightarrow> json list \<Rightarrow> bool"
  and jless_obj :: "(string \<times> json) list \<Rightarrow> (string \<times> json) list \<Rightarrow> bool" where
  "jless x y =
     (case (x, y) of
        (JBool b, JBool c) \<Rightarrow> \<not> b \<and> c
      | (JInt i, JInt k) \<Rightarrow> i < k
      | (JInt i, JFloat r) \<Rightarrow> of_int i < r
      | (JFloat q, JInt k) \<Rightarrow> q < of_int k
      | (JFloat q, JFloat r) \<Rightarrow> q < r
      | (JStr s, JStr t) \<Rightarrow> s < t
      | (JArr xs, JArr ys) \<Rightarrow> jless_list xs ys
      | (JObj xs, JObj ys) \<Rightarrow> jless_obj xs ys
      | _ \<Rightarrow> jrank x < jrank y)"
| "jless_list xs ys =
     (case (xs, ys) of
        (x # xs', y # ys') \<Rightarrow> if jless x y then True else if jless y x then False
                              else jless_list xs' ys'
      | _ \<Rightarrow> xs = [] \<and> ys \<noteq> [])"
| "jless_obj xs ys =
     (case (xs, ys) of
        ((k, x) # xs', (k', y) # ys') \<Rightarrow>
           if k < k' then True else if k' < k then False
           else if jless x y then True else if jless y x then False
           else jless_obj xs' ys'
      | _ \<Rightarrow> xs = [] \<and> ys \<noteq> [])"
  by pat_completeness auto
termination
  by (relation "measure (\<lambda>s. case s of Inl (x, y) \<Rightarrow> 2 * (size x + size y)
        | Inr (Inl (xs, ys)) \<Rightarrow> 2 * (size_list size xs + size_list size ys) + 1
        | Inr (Inr (xs, ys)) \<Rightarrow> 2 * (size_list (size_prod (\<lambda>_. 0) size) xs
                                 + size_list (size_prod (\<lambda>_. 0) size) ys) + 1)") auto

declare jless.simps [simp del] jless_list.simps [simp del] jless_obj.simps [simp del]

section \<open>Facts the components use\<close>

lemma jat_obj [json_simps]:
  "jat (JObj m) k = (case om_get m k of None \<Rightarrow> Inl Out_of_range | Some v \<Rightarrow> Inr v)"
  by (simp add: jat_def jfind_def)

lemma jat_eq_Inr [json_simps]: "jat j k = Inr v \<longleftrightarrow> is_object j \<and> jfind j k = Some v"
  by (auto simp: jat_def split: option.splits)

lemma jfind_obj [json_simps]: "jfind (JObj m) k = om_get m k"
  by (simp add: jfind_def)

lemma jfind_jobj [json_simps, simp]: "jfind (jobj kvs) k = map_of kvs k"
  by (simp add: jobj_def jfind_def)

lemma is_object_jobj [simp]: "is_object (jobj kvs)"
  by (simp add: jobj_def)

lemma jobj_neq_null [simp]: "jobj kvs \<noteq> JNull"
  by (simp add: jobj_def)

lemma is_object_cases: "is_object j \<Longrightarrow> (\<And>m. j = JObj m \<Longrightarrow> P) \<Longrightarrow> P"
  by (cases j) auto

text \<open>A value whose objects list their fields in key order.\<close>

definition jok :: "json \<Rightarrow> bool" where
  "jok j = (is_object j \<and> om_inv (jfields j))"

lemma jok_jobj [simp, wf_intros]: "jok (jobj kvs)"
  by (simp add: jok_def jobj_def)

lemma jok_jset [simp, wf_intros]: "jok j \<Longrightarrow> jok (jset k v j)"
  by (cases j) (auto simp: jok_def)

lemma jok_object [simp]: "jok j \<Longrightarrow> is_object j"
  by (simp add: jok_def)

lemma jfind_jset [simp, json_simps]:
  "jok j \<Longrightarrow> jfind (jset k v j) k' = (if k' = k then Some v else jfind j k')"
  by (cases j) (auto simp: jok_def jfind_def)

lemma jok_neq_null: "jok j \<Longrightarrow> j \<noteq> JNull"
  by (auto simp: jok_def)

lemma jidx_jset [simp, json_simps]:
  "jok j \<Longrightarrow> jidx (jset k v j) k' = (if k' = k then v else jidx j k')"
  by (simp add: jidx_def)

lemma jeq_str [simp]: "jeq j (JStr s) \<longleftrightarrow> j = JStr s"
  by (cases j) auto

lemma jeq_null [simp]: "jeq j JNull \<longleftrightarrow> j = JNull"
  by (cases j) auto

lemma jeq_str_left: "jeq (JStr s) j \<longleftrightarrow> j = JStr s"
  by simp

lemma get_string_Inr [simp, json_simps]: "get_string j = Inr s \<longleftrightarrow> j = JStr s"
  by (cases j) auto

lemma jvalue_obj [json_simps]:
  "is_object j \<Longrightarrow> jvalue j k d = Inr (case jfind j k of None \<Rightarrow> d | Some v \<Rightarrow> v)"
  by (simp add: jvalue_def)

end
