(* ===== verification/Lexical_Path.thy ===== *)
theory Lexical_Path
  imports Chitta_Base
begin

text \<open>
  POSIX \<open>std::filesystem::path\<close>: splitting at slashes and \<open>lexically_normal\<close>, which
  removes dots, cancels a name against a following dot-dot, drops dot-dots after the
  root and keeps or drops the trailing slash as the standard prescribes.
\<close>

fun split_on :: "char \<Rightarrow> string \<Rightarrow> string \<Rightarrow> string list" where
  "split_on c acc [] = [rev acc]"
| "split_on c acc (x # xs) = (if x = c then rev acc # split_on c [] xs else split_on c (x # acc) xs)"

fun join_with :: "string \<Rightarrow> string list \<Rightarrow> string" where
  "join_with sep [] = []"
| "join_with sep [x] = x"
| "join_with sep (x # y # xs) = x @ sep @ join_with sep (y # xs)"

text \<open>
  The names of a path, processed left to right onto a stack (kept reversed).  The flag
  says whether the name just processed was removed, which leaves a trailing slash.
\<close>

fun normal_step :: "bool \<Rightarrow> string \<Rightarrow> string list \<times> bool \<Rightarrow> string list \<times> bool" where
  "normal_step rooted n (st, tr) =
     (if n = ''.'' then (st, True)
      else if n = ''..'' then
        (case st of
           [] \<Rightarrow> if rooted then ([], True) else ([''..''], False)
         | s # st' \<Rightarrow> if s = ''..'' then (''..'' # st, False) else (st', True))
      else (n # st, False))"

definition lexically_normal :: "string \<Rightarrow> string" where
  "lexically_normal p =
     (if p = [] then [] else
      let rooted = (hd p = CHR ''/'');
          names = filter (\<lambda>n. n \<noteq> []) (split_on (CHR ''/'') [] p);
          (st, removed) = fold (normal_step rooted) names ([], False);
          trailing = (removed \<or> last p = CHR ''/'') \<and> st \<noteq> [] \<and> hd st \<noteq> ''..'';
          body = (if rooted then ''/'' else []) @ join_with ''/'' (rev st)
                 @ (if trailing then ''/'' else [])
      in if body = [] then ''.'' else body)"

text \<open>
  Appending a path: an absolute right side replaces the left one, otherwise a separator is
  put between them unless there is one already.
\<close>

definition path_append :: "string \<Rightarrow> string \<Rightarrow> string" where
  "path_append p q =
     (if q \<noteq> [] \<and> hd q = CHR ''/'' then q
      else if p = [] \<or> List.last p = CHR ''/'' then p @ q else p @ ''/'' @ q)"

definition is_relative :: "string \<Rightarrow> bool" where
  "is_relative p = (p = [] \<or> hd p \<noteq> CHR ''/'')"

definition filename :: "string \<Rightarrow> string" where
  "filename p = rev (takeWhile (\<lambda>c. c \<noteq> CHR ''/'') (rev p))"

lemma lexically_normal_nonempty: "lexically_normal p = [] \<longleftrightarrow> p = []"
  by (auto simp: lexically_normal_def Let_def split: prod.splits)

section \<open>Normalising never lengthens a path\<close>

text \<open>The length of a list of names with one separator after each.\<close>

definition weight :: "string list \<Rightarrow> nat" where
  "weight ns = (\<Sum>n \<leftarrow> ns. Suc (length n))"

lemma weight_simps [simp]: "weight [] = 0" "weight (n # ns) = Suc (length n) + weight ns"
  by (simp_all add: weight_def)

lemma weight_append [simp]: "weight (xs @ ys) = weight xs + weight ys"
  by (simp add: weight_def)

lemma weight_rev [simp]: "weight (rev ns) = weight ns"
  by (induction ns) simp_all

lemma weight_names:
  "weight (filter (\<lambda>n. n \<noteq> []) (split_on c acc q)) + (if q = [] \<and> acc = [] \<or> q \<noteq> [] \<and> last q = c then 1 else 0)
   \<le> Suc (length acc + length q)"
proof (induction c acc q rule: split_on.induct)
  case (1 c acc)
  then show ?case by (cases acc) auto
next
  case (2 c acc x xs)
  then show ?case by (cases "x = c"; cases "acc = []") (auto split: if_splits)
qed

lemma normal_step_weight:
  assumes "normal_step rooted n (st, tr) = (st', tr')"
  shows "weight st' + of_bool tr' \<le> weight st + of_bool tr + Suc (length n)"
  using assms by (auto split: if_splits list.splits)

lemma normal_fold_weight:
  "fold (normal_step rooted) ns (st, tr) = (st', tr') \<Longrightarrow> weight st' + of_bool tr' \<le> weight st + of_bool tr + weight ns"
proof (induction ns arbitrary: st tr)
  case (Cons n ns)
  obtain st1 tr1 where s: "normal_step rooted n (st, tr) = (st1, tr1)" by fastforce
  with Cons.prems have "fold (normal_step rooted) ns (st1, tr1) = (st', tr')" by (simp del: normal_step.simps)
  from Cons.IH[OF this] normal_step_weight[OF s] show ?case by simp
qed simp

lemma length_join: "length (join_with [c] ns) = weight ns - 1"
proof (induction "[c]" ns rule: join_with.induct)
  case (3 x y xs)
  then show ?case by simp
qed simp_all

lemma length_lexically_normal: "length (lexically_normal p) \<le> length p"
proof (cases "p = []")
  case False
  define rooted where "rooted = (hd p = CHR ''/'')"
  define ns where "ns = filter (\<lambda>n. n \<noteq> []) (split_on (CHR ''/'') [] p)"
  obtain st tr where f: "fold (normal_step rooted) ns ([], False) = (st, tr)" by fastforce
  define slash where "slash = ((tr \<or> last p = CHR ''/'') \<and> st \<noteq> [] \<and> hd st \<noteq> ''..'')"
  define body where "body = (if rooted then ''/'' else []) @ join_with ''/'' (rev st) @ (if slash then ''/'' else [])"
  have n: "lexically_normal p = (if body = [] then ''.'' else body)"
    using False f by (simp add: lexically_normal_def Let_def rooted_def ns_def slash_def body_def)
  have w: "weight st + of_bool tr \<le> weight ns" using normal_fold_weight[OF f] by simp
  have "weight ns + of_bool (last p = CHR ''/'') + of_bool rooted \<le> Suc (length p)"
  proof (cases rooted)
    case True
    then obtain q where p: "p = CHR ''/'' # q" using False by (cases p) (auto simp: rooted_def)
    show ?thesis using weight_names[of "CHR ''/''" "[]" q] True by (auto simp: p ns_def split: if_splits)
  next
    case r: False
    show ?thesis using weight_names[of "CHR ''/''" "[]" p] r False by (auto simp: ns_def split: if_splits)
  qed
  moreover have "length body = of_bool rooted + (weight st - 1) + of_bool slash"
    by (simp add: body_def length_join)
  moreover have "0 < weight st" if "st \<noteq> []" using that by (cases st) auto
  moreover have p1: "Suc 0 \<le> length p" using False by (cases p) auto
  ultimately have "length body \<le> length p"
    using w by (cases "st = []"; cases tr; cases "last p = CHR ''/''"; cases rooted) (auto simp: slash_def split: if_splits)
  with n p1 show ?thesis by simp
qed (simp add: lexically_normal_def)

end
