(* ===== verification/Ledger_Tables.thy ===== *)
theory Ledger_Tables
  imports Json_Model Lexical_Path
begin

text \<open>
  The task ledger of the daemon (\<open>task_ledger.hpp\<close>): five tables of JSON rows with
  secondary indexes, and one entry point \<open>run\<close> that evaluates an operation against the
  current tables, collects the row changes it makes, validates them, hands the batch to
  the persistence callback and only then publishes it.  A failing operation is a value
  \<open>Inl e\<close>, which carries no ledger: the caller keeps the one it had.  The wall clock is
  the argument \<open>ts\<close> (seconds), the callback is \<open>persist\<close> (whether it returned
  normally), and printing and parsing JSON and \<open>fnmatch\<close> are the fields of \<open>lib\<close>.
\<close>

section \<open>Tables\<close>

record table =
  t_key :: string
  t_rows :: "(string, json) omap"
  t_indexes :: "(string, (string, string oset) omap) omap"

definition new_table :: "string \<Rightarrow> string list \<Rightarrow> table" where
  "new_table k flds = \<lparr>t_key = k, t_rows = [], t_indexes = om_of_list (map (\<lambda>f. (f, [])) flds)\<rparr>"

definition unindex :: "string \<Rightarrow> string \<Rightarrow> (string, string oset) omap \<Rightarrow> (string, string oset) omap" where
  "unindex v i idx =
     (case om_get idx v of
        None \<Rightarrow> idx
      | Some ids \<Rightarrow> if om_del i ids = [] then om_del v idx else om_put v (om_del i ids) idx)"

definition enindex :: "string \<Rightarrow> string \<Rightarrow> (string, string oset) omap \<Rightarrow> (string, string oset) omap" where
  "enindex v i idx =
     om_put v (om_put i () (case om_get idx v of None \<Rightarrow> [] | Some ids \<Rightarrow> ids)) idx"

definition put_field ::
    "jlib \<Rightarrow> string \<Rightarrow> json option \<Rightarrow> json \<Rightarrow> string \<Rightarrow> (string, string oset) omap
      \<Rightarrow> (string, string oset) omap res" where
  "put_field lib i old row f idx =
     rbind (case old of
              None \<Rightarrow> Inr idx
            | Some r \<Rightarrow> rbind (jat r f) (\<lambda>v. Inr (unindex (jdump lib v) i idx)))
       (\<lambda>idx'. if row = JNull then Inr idx'
               else rbind (jat row f) (\<lambda>v. Inr (enindex (jdump lib v) i idx')))"

definition table_put :: "jlib \<Rightarrow> string \<Rightarrow> json \<Rightarrow> table \<Rightarrow> table res" where
  "table_put lib i row t =
     rbind (res_map (\<lambda>(f, idx). rbind (put_field lib i (om_get (t_rows t) i) row f idx)
                                  (\<lambda>idx'. Inr (f, idx')))
              (t_indexes t))
       (\<lambda>ixs. Inr (t\<lparr>t_indexes := ixs,
                     t_rows := if row = JNull then om_del i (t_rows t)
                               else om_put i row (t_rows t)\<rparr>))"

definition table_get :: "table \<Rightarrow> string \<Rightarrow> json" where
  "table_get t i = (case om_get (t_rows t) i of None \<Rightarrow> JNull | Some r \<Rightarrow> r)"

text \<open>
  The loop of \<open>select\<close> over the filters: \<open>None\<close> is its early return of no rows,
  \<open>Some None\<close> that no filter is indexed, \<open>Some (Some ids)\<close> the smallest candidate set.
\<close>

fun candidates ::
    "jlib \<Rightarrow> (string, (string, string oset) omap) omap \<Rightarrow> (string \<times> json) list
      \<Rightarrow> string oset option \<Rightarrow> string oset option option" where
  "candidates lib ixs [] c = Some c"
| "candidates lib ixs ((f, v) # fs) c =
     (case om_get ixs f of
        None \<Rightarrow> candidates lib ixs fs c
      | Some idx \<Rightarrow>
          (case om_get idx (jdump lib v) of
             None \<Rightarrow> None
           | Some ids \<Rightarrow> candidates lib ixs fs
               (case c of None \<Rightarrow> Some ids
                | Some c' \<Rightarrow> if length ids < length c' then Some ids else Some c')))"

fun row_matches :: "(string \<times> json) list \<Rightarrow> json \<Rightarrow> bool res" where
  "row_matches [] row = Inr True"
| "row_matches ((f, v) # fs) row =
     rbind (jat row f) (\<lambda>w. if jeq w v then row_matches fs row else Inr False)"

definition row_at :: "table \<Rightarrow> string \<Rightarrow> json res" where
  "row_at t i = (case om_get (t_rows t) i of None \<Rightarrow> Inl Out_of_range | Some r \<Rightarrow> Inr r)"

definition table_select :: "jlib \<Rightarrow> (string \<times> json) list \<Rightarrow> table \<Rightarrow> json list res" where
  "table_select lib fs t =
     (case candidates lib (t_indexes t) fs None of
        None \<Rightarrow> Inr []
      | Some None \<Rightarrow> res_filter (row_matches fs) (map snd (t_rows t))
      | Some (Some ids) \<Rightarrow>
          rbind (res_map (row_at t) (om_keys ids)) (res_filter (row_matches fs)))"

section \<open>The ledger\<close>

record change =
  c_table :: string
  c_id :: string
  c_row :: json

record batch =
  b_revision :: u64
  b_changes :: "change list"

record ledger =
  l_tables :: "(string, table) omap"
  l_revision :: u64

definition ledger_init :: ledger where
  "ledger_init =
     \<lparr>l_tables = om_of_list
        [(''threads'', new_table ''thread_id'' [''realm'', ''status'']),
         (''thread_sessions'', new_table ''session_id''
            [''thread_id'', ''project_dir'', ''status'', ''repository'', ''stream_id'']),
         (''thread_leases'', new_table ''thread_id'' [''session_id'']),
         (''inbox'', new_table ''item_id'' [''delivery_state'', ''target_realm'']),
         (''artifacts'', new_table ''artifact_id'' [''task_id'', ''thread_id''])],
      l_revision = 0\<rparr>"

definition table_at :: "ledger \<Rightarrow> string \<Rightarrow> table res" where
  "table_at L n = (case om_get (l_tables L) n of None \<Rightarrow> Inl Out_of_range | Some t \<Rightarrow> Inr t)"

definition lrow :: "ledger \<Rightarrow> string \<Rightarrow> string \<Rightarrow> json res" where
  "lrow L n i = rbind (table_at L n) (\<lambda>t. Inr (table_get t i))"

definition lselect :: "jlib \<Rightarrow> ledger \<Rightarrow> string \<Rightarrow> (string \<times> json) list \<Rightarrow> json list res" where
  "lselect lib L n fs = rbind (table_at L n) (table_select lib fs)"

section \<open>Row upgrade and validation\<close>

definition repository_key :: "string \<Rightarrow> string" where
  "repository_key p =
     lexically_normal (if prefix ''/maps/projects/'' p then drop 5 p else p)"

definition handoff_of :: "jlib \<Rightarrow> string \<Rightarrow> json res" where
  "handoff_of lib ms =
     (case jparse lib ms of
        None \<Rightarrow> Inr (jobj [])
      | Some md \<Rightarrow> if is_object md then jvalue md ''handoff'' (jobj []) else Inr (jobj []))"

definition upgrade_row :: "jlib \<Rightarrow> string \<Rightarrow> json \<Rightarrow> json res" where
  "upgrade_row lib tb row =
     (if tb \<noteq> ''thread_sessions'' \<or> \<not> is_object row then Inr row
      else
        rbind (jvalue_str row ''metadata_json'' ''{}'') (\<lambda>ms.
        rbind (handoff_of lib ms) (\<lambda>cap.
        let row' = jset ''stream_id'' (JStr []) (jset ''repository'' (JStr []) row) in
        if \<not> is_object cap then Inr row'
        else
          rbind (jvalue_int cap ''version'' 0) (\<lambda>version.
          if version \<noteq> 2 then Inr row'
          else
            rbind (jvalue_str cap ''repository'' []) (\<lambda>repo.
            rbind (jvalue_str cap ''stream_id'' []) (\<lambda>stream.
            Inr (jset ''stream_id'' (JStr stream)
                   (jset ''repository'' (JStr (repository_key repo)) row'))))))))"

definition columns :: "string \<Rightarrow> string list res" where
  "columns tb =
     (case map_of
        [(''threads'',
          [''created_at'', ''last_active_at'', ''metadata_json'', ''parent_thread_id'', ''realm'',
           ''sealed_at'', ''status'', ''thread_id'', ''title'', ''topic_fingerprint'']),
         (''thread_sessions'',
          [''client'', ''ended_at'', ''last_active_at'', ''metadata_json'', ''project_dir'',
           ''repository'', ''session_id'', ''started_at'', ''status'', ''stream_id'',
           ''thread_id'', ''transcript_path'']),
         (''thread_leases'',
          [''acquired_at'', ''expires_at'', ''generation'', ''last_heartbeat_at'',
           ''session_id'', ''thread_id'']),
         (''inbox'',
          [''acked_at'', ''created_at'', ''delivered_at'', ''delivery_state'', ''digest'',
           ''event_type'', ''item_id'', ''payload_json'', ''target_realm'', ''task_id'',
           ''thread_id'']),
         (''artifacts'',
          [''artifact_id'', ''created_at'', ''kind'', ''md5'', ''metadata_json'', ''mtime'',
           ''parent_artifact_id'', ''path'', ''size'', ''task_id'', ''thread_id''])] tb of
        None \<Rightarrow> Inl Out_of_range | Some cs \<Rightarrow> Inr cs)"

definition numeric_columns :: "string list" where
  "numeric_columns =
     [''created_at'', ''last_active_at'', ''sealed_at'', ''started_at'', ''ended_at'',
      ''acquired_at'', ''last_heartbeat_at'', ''expires_at'', ''delivered_at'', ''acked_at'',
      ''mtime'', ''size'', ''generation'']"

definition nullable_columns :: "string list" where
  "nullable_columns =
     [''thread_id'', ''topic_fingerprint'', ''sealed_at'', ''ended_at'', ''parent_thread_id'',
      ''delivered_at'', ''acked_at'', ''mtime'', ''size'', ''md5'', ''parent_artifact_id'']"

definition check_column :: "json \<Rightarrow> string \<Rightarrow> unit res" where
  "check_column row k =
     (case jfind row k of
        None \<Rightarrow> Inl (Invalid_argument (''missing ledger field: '' @ k))
      | Some v \<Rightarrow>
          if k \<in> set nullable_columns \<and> v = JNull then Inr ()
          else guard_res (if k \<in> set numeric_columns then is_number v else is_string v)
                 (Invalid_argument (''invalid ledger field type: '' @ k)))"

definition status_allowed :: "string \<Rightarrow> string list" where
  "status_allowed tb =
     (if tb = ''threads'' then [''active'', ''sealed'', ''dormant'']
      else [''active'', ''ended'', ''interrupted'', ''completed''])"

definition delivery_states :: "string list" where
  "delivery_states = [''pending'', ''delivered'', ''acked'', ''suppressed'']"

definition validate_row :: "ledger \<Rightarrow> string \<Rightarrow> string \<Rightarrow> json \<Rightarrow> unit res" where
  "validate_row L tb i row =
     (if row = JNull then Inr ()
      else
        rbind (guard_res (is_object row) (Invalid_argument ''invalid ledger row keys'')) (\<lambda>_.
        rbind (columns tb) (\<lambda>cols.
        rbind (guard_res (length (jfields row) = length cols)
                 (Invalid_argument ''invalid ledger row keys'')) (\<lambda>_.
        rbind (res_fold (\<lambda>k _. check_column row k) cols ()) (\<lambda>_.
        rbind (table_at L tb) (\<lambda>t.
        rbind (jat row (t_key t)) (\<lambda>kv.
        rbind (guard_res (jeq kv (JStr i)) (Invalid_argument ''ledger primary key mismatch'')) (\<lambda>_.
        rbind (case jfind row ''status'' of
                 None \<Rightarrow> Inr ()
               | Some v \<Rightarrow> rbind (get_string v) (\<lambda>s.
                   guard_res (s \<in> set (status_allowed tb)) (Invalid_argument ''invalid ledger status'')))
          (\<lambda>_.
        (case jfind row ''delivery_state'' of
           None \<Rightarrow> Inr ()
         | Some v \<Rightarrow> rbind (get_string v) (\<lambda>s.
             guard_res (s \<in> set delivery_states) (Invalid_argument ''invalid inbox state''))))))))))))"

section \<open>Publishing a batch\<close>

definition apply_change :: "jlib \<Rightarrow> change \<Rightarrow> ledger \<Rightarrow> ledger res" where
  "apply_change lib c L =
     rbind (table_at L (c_table c)) (\<lambda>t.
     rbind (upgrade_row lib (c_table c) (c_row c)) (\<lambda>row.
     rbind (table_put lib (c_id c) row t) (\<lambda>t'.
     Inr (L\<lparr>l_tables := om_put (c_table c) t' (l_tables L)\<rparr>))))"

definition replay_locked :: "jlib \<Rightarrow> batch \<Rightarrow> ledger \<Rightarrow> ledger res" where
  "replay_locked lib b L =
     rbind (res_fold (apply_change lib) (b_changes b) L)
       (\<lambda>L'. Inr (L'\<lparr>l_revision := max (l_revision L') (b_revision b)\<rparr>))"

definition finish ::
    "jlib \<Rightarrow> (batch \<Rightarrow> bool) \<Rightarrow> ledger \<Rightarrow> json \<Rightarrow> change list \<Rightarrow> (json \<times> ledger \<times> batch option) res" where
  "finish lib persist L result changes =
     (if changes = [] then Inr (result, L, None)
      else
        let b = \<lparr>b_revision = l_revision L + 1, b_changes = changes\<rparr> in
        rbind (res_fold (\<lambda>c _. validate_row L (c_table c) (c_id c) (c_row c)) changes ()) (\<lambda>_.
        if \<not> persist b then Inl Persist_failed
        else rbind (replay_locked lib b L) (\<lambda>L'. Inr (result, L', Some b))))"

end
