(* ===== verification/Task_Ledger.thy ===== *)
theory Task_Ledger
  imports Ledger_Tables
begin

text \<open>
  The operations of \<open>TaskLedger::run\<close>, one definition per operation.  An operation
  returns its result together with the row changes it collected; \<open>run\<close> dispatches on the
  operation's name and passes both to \<open>finish\<close>.  Every early return of the C++ happens
  before the first collected change, so it is a result with no change.
\<close>

definition mk_change :: "jlib \<Rightarrow> string \<Rightarrow> string \<Rightarrow> json \<Rightarrow> change res" where
  "mk_change lib tb i row =
     rbind (upgrade_row lib tb row) (\<lambda>r. Inr \<lparr>c_table = tb, c_id = i, c_row = r\<rparr>)"

definition idarg :: "json \<Rightarrow> string \<Rightarrow> string res" where
  "idarg a n = rbind (jat a n) get_string"

definition require_ref :: "ledger \<Rightarrow> string \<Rightarrow> json \<Rightarrow> unit res" where
  "require_ref L tb j =
     (if j = JNull then Inr ()
      else rbind (get_string j) (\<lambda>i. rbind (lrow L tb i) (\<lambda>r.
        guard_res (r \<noteq> JNull) (Invalid_argument (''unknown '' @ tb @ '' reference'')))))"

definition valid_state :: "string \<Rightarrow> string list \<Rightarrow> unit res" where
  "valid_state v allowed = guard_res (v \<in> set allowed) (Invalid_argument ''invalid ledger state'')"

definition touch_lease :: "jlib \<Rightarrow> rat \<Rightarrow> bool \<Rightarrow> json \<Rightarrow> change res" where
  "touch_lease lib ts close lease =
     rbind (get_string (jidx lease ''thread_id'')) (\<lambda>tid.
     if close then mk_change lib ''thread_leases'' tid JNull
     else mk_change lib ''thread_leases'' tid
            (jset ''expires_at'' (JFloat (ts + 900)) (jset ''last_heartbeat_at'' (JFloat ts) lease)))"

definition touch_session ::
    "jlib \<Rightarrow> ledger \<Rightarrow> rat \<Rightarrow> string \<Rightarrow> bool \<Rightarrow> string \<Rightarrow> (bool \<times> change list) res" where
  "touch_session lib L ts sid close status =
     rbind (lrow L ''thread_sessions'' sid) (\<lambda>row.
     rbind (if row = JNull then Inr []
            else rbind (mk_change lib ''thread_sessions'' sid
                   (jset ''ended_at'' (if close then JFloat ts else JNull)
                     (jset ''status'' (JStr status) (jset ''last_active_at'' (JFloat ts) row))))
                   (\<lambda>c. Inr [c])) (\<lambda>cs.
     rbind (lselect lib L ''thread_leases'' [(''session_id'', JStr sid)]) (\<lambda>leases.
     rbind (res_map (touch_lease lib ts close) leases) (\<lambda>cs'.
     Inr (row \<noteq> JNull, cs @ cs')))))"

definition op_thread_create :: "jlib \<Rightarrow> ledger \<Rightarrow> json \<Rightarrow> rat \<Rightarrow> (json \<times> change list) res" where
  "op_thread_create lib L a ts =
     rbind (idarg a ''id'') (\<lambda>i.
     rbind (jvalue a ''parent'' JNull) (\<lambda>parent.
     rbind (require_ref L ''threads'' parent) (\<lambda>_.
     rbind (lrow L ''threads'' i) (\<lambda>old.
     if old \<noteq> JNull then Inr (JStr i, [])
     else
       rbind (jat a ''title'') (\<lambda>title.
       rbind (jvalue_str a ''realm'' []) (\<lambda>realm.
       rbind (jvalue a ''fingerprint'' JNull) (\<lambda>fp.
       rbind (mk_change lib ''threads'' i (jobj
         [(''thread_id'', JStr i), (''title'', title), (''realm'', JStr realm),
          (''status'', JStr ''active''), (''topic_fingerprint'', fp), (''created_at'', JFloat ts),
          (''last_active_at'', JFloat ts), (''sealed_at'', JNull), (''parent_thread_id'', parent),
          (''metadata_json'', JStr ''{}'')])) (\<lambda>c.
       Inr (JStr i, [c])))))))))"

definition op_row_get :: "ledger \<Rightarrow> string \<Rightarrow> string \<Rightarrow> json \<Rightarrow> (json \<times> change list) res" where
  "op_row_get L tb arg a =
     rbind (idarg a arg) (\<lambda>i. rbind (lrow L tb i) (\<lambda>r. Inr (r, [])))"

definition thread_update_keys :: "string list" where
  "thread_update_keys =
     [''title'', ''realm'', ''status'', ''topic_fingerprint'', ''last_active_at'',
      ''metadata_json'', ''parent_thread_id'']"

definition merge_fields :: "json \<Rightarrow> string list \<Rightarrow> json \<Rightarrow> json" where
  "merge_fields fs ks row =
     fold (\<lambda>k r. case jfind fs k of None \<Rightarrow> r | Some v \<Rightarrow> jset k v r) ks row"

definition put_thread :: "jlib \<Rightarrow> ledger \<Rightarrow> string \<Rightarrow> json \<Rightarrow> (json \<times> change list) res" where
  "put_thread lib L i row =
     rbind (jat row ''status'') (\<lambda>st. rbind (get_string st) (\<lambda>s.
     rbind (valid_state s [''active'', ''sealed'', ''dormant'']) (\<lambda>_.
     rbind (jat row ''parent_thread_id'') (\<lambda>p.
     rbind (require_ref L ''threads'' p) (\<lambda>_.
     rbind (mk_change lib ''threads'' i row) (\<lambda>c. Inr (JBool True, [c])))))))"

definition op_thread_update :: "jlib \<Rightarrow> ledger \<Rightarrow> json \<Rightarrow> rat \<Rightarrow> (json \<times> change list) res" where
  "op_thread_update lib L a ts =
     rbind (idarg a ''thread_id'') (\<lambda>i.
     rbind (lrow L ''threads'' i) (\<lambda>row.
     if row = JNull then Inr (JBool False, [])
     else rbind (jat a ''fields'') (\<lambda>fs.
       if \<not> (\<exists>k \<in> set thread_update_keys. jcontains fs k) then Inr (JBool False, [])
       else put_thread lib L i (merge_fields fs thread_update_keys row))))"

definition op_thread_seal :: "jlib \<Rightarrow> ledger \<Rightarrow> json \<Rightarrow> rat \<Rightarrow> (json \<times> change list) res" where
  "op_thread_seal lib L a ts =
     rbind (idarg a ''thread_id'') (\<lambda>i.
     rbind (lrow L ''threads'' i) (\<lambda>row.
     if row = JNull then Inr (JBool False, [])
     else put_thread lib L i
            (jset ''last_active_at'' (JFloat ts)
              (jset ''sealed_at'' (JFloat ts) (jset ''status'' (JStr ''sealed'') row)))))"

definition new_session_row :: "string \<Rightarrow> rat \<Rightarrow> json" where
  "new_session_row i ts = jobj
     [(''session_id'', JStr i), (''thread_id'', JNull), (''client'', JStr []),
      (''project_dir'', JStr []), (''transcript_path'', JStr []), (''status'', JStr ''active''),
      (''started_at'', JFloat ts), (''last_active_at'', JFloat ts), (''ended_at'', JNull),
      (''metadata_json'', JStr ''{}'')]"

definition set_nonempty :: "json \<Rightarrow> string \<Rightarrow> json \<Rightarrow> json res" where
  "set_nonempty a k row =
     rbind (jvalue_str a k []) (\<lambda>v. Inr (if v = [] then row else jset k (JStr v) row))"

definition merged_metadata :: "jlib \<Rightarrow> json \<Rightarrow> string \<Rightarrow> json" where
  "merged_metadata lib a ms =
     (let md = (case jparse lib ms of None \<Rightarrow> jobj []
                | Some m \<Rightarrow> if is_object m then m else jobj [])
      in case jfind a ''metadata'' of
           Some (JObj upd) \<Rightarrow> fold (\<lambda>(k, v). jset k v) upd md
         | _ \<Rightarrow> md)"

definition bind_thread :: "ledger \<Rightarrow> json \<Rightarrow> json \<Rightarrow> json res" where
  "bind_thread L a row =
     (case jfind a ''thread_id'' of
        None \<Rightarrow> Inr row
      | Some t \<Rightarrow> if t = JNull then Inr row
                  else rbind (require_ref L ''threads'' t) (\<lambda>_. Inr (jset ''thread_id'' t row)))"

definition op_session_bind :: "jlib \<Rightarrow> ledger \<Rightarrow> json \<Rightarrow> rat \<Rightarrow> (json \<times> change list) res" where
  "op_session_bind lib L a ts =
     rbind (idarg a ''session_id'') (\<lambda>i.
     if i = [] then Inr (JBool False, [])
     else
       rbind (lrow L ''thread_sessions'' i) (\<lambda>old.
       rbind (res_fold (set_nonempty a) [''client'', ''project_dir'', ''transcript_path'']
                (if old = JNull then new_session_row i ts else old)) (\<lambda>row.
       rbind (bind_thread L a row) (\<lambda>row1.
       rbind (get_string (jidx row1 ''metadata_json'')) (\<lambda>ms.
       rbind (jvalue_str a ''status'' ''active'') (\<lambda>st.
       rbind (valid_state st [''active'', ''ended'', ''interrupted'', ''completed'']) (\<lambda>_.
       rbind (mk_change lib ''thread_sessions'' i
                (jset ''ended_at'' JNull (jset ''last_active_at'' (JFloat ts)
                  (jset ''status'' (JStr st)
                    (jset ''metadata_json'' (JStr (jdump lib (merged_metadata lib a ms))) row1)))))
         (\<lambda>c. Inr (JBool True, [c])))))))))"

definition op_session_touch :: "jlib \<Rightarrow> ledger \<Rightarrow> bool \<Rightarrow> json \<Rightarrow> rat \<Rightarrow> (json \<times> change list) res" where
  "op_session_touch lib L close a ts =
     rbind (jvalue_str a ''status'' ''ended'') (\<lambda>s.
     let status = (if s \<noteq> ''ended'' \<and> s \<noteq> ''interrupted'' \<and> s \<noteq> ''completed'' then ''ended'' else s) in
     rbind (idarg a ''session_id'') (\<lambda>sid.
     rbind (touch_session lib L ts sid close (if close then status else ''active'')) (\<lambda>(found, cs).
     Inr (JBool found, cs))))"

definition lease_blocked :: "json \<Rightarrow> json \<Rightarrow> string \<Rightarrow> rat \<Rightarrow> bool res" where
  "lease_blocked a old sid ts =
     (if old = JNull \<or> jeq (jidx old ''session_id'') (JStr sid) then Inr False
      else rbind (get_double (jidx old ''expires_at'')) (\<lambda>e.
        if \<not> ts < e then Inr False
        else rbind (jvalue_bool a ''force'' False) (\<lambda>f. Inr (\<not> f))))"

text \<open>
  The generation is read back with its 32 bits.  Its increment is that of the integers: at the
  largest value of a C++ \<open>int\<close>, after two thousand million changes of owner, the source is undefined.
\<close>

definition op_lease_claim :: "jlib \<Rightarrow> ledger \<Rightarrow> json \<Rightarrow> rat \<Rightarrow> (json \<times> change list) res" where
  "op_lease_claim lib L a ts =
     rbind (idarg a ''thread_id'') (\<lambda>tid.
     rbind (idarg a ''session_id'') (\<lambda>sid.
     rbind (require_ref L ''threads'' (JStr tid)) (\<lambda>_.
     rbind (require_ref L ''thread_sessions'' (JStr sid)) (\<lambda>_.
     rbind (lrow L ''thread_leases'' tid) (\<lambda>old.
     rbind (lease_blocked a old sid ts) (\<lambda>blocked.
     if blocked then
       Inr (jobj [(''claimed'', JBool False), (''reason'', JStr ''live_owner''), (''thread_id'', JStr tid),
                  (''owner_session_id'', jidx old ''session_id''),
                  (''expires_at'', jidx old ''expires_at''), (''generation'', jidx old ''generation'')], [])
     else
       let same = (old \<noteq> JNull \<and> jeq (jidx old ''session_id'') (JStr sid)) in
       rbind (if old = JNull then Inr 1
              else rbind (get_int (jidx old ''generation'')) (\<lambda>g. Inr (g + (if same then 0 else 1)))) (\<lambda>gen.
       rbind (jvalue_int a ''ttl'' 900) (\<lambda>ttl.
       let expires = ts + of_int (max 30 ttl) in
       rbind (mk_change lib ''thread_leases'' tid (jobj
         [(''thread_id'', JStr tid), (''session_id'', JStr sid), (''generation'', JInt gen),
          (''acquired_at'', if same then jidx old ''acquired_at'' else JFloat ts),
          (''last_heartbeat_at'', JFloat ts), (''expires_at'', JFloat expires)])) (\<lambda>c1.
       rbind (lrow L ''thread_sessions'' sid) (\<lambda>row.
       rbind (mk_change lib ''thread_sessions'' sid
                (jset ''last_active_at'' (JFloat ts) (jset ''status'' (JStr ''active'')
                  (jset ''thread_id'' (JStr tid) row)))) (\<lambda>c2.
       Inr (jobj [(''claimed'', JBool True), (''thread_id'', JStr tid), (''session_id'', JStr sid),
                  (''expires_at'', JFloat expires), (''generation'', JInt gen)], [c1, c2]))))))))))))"

definition op_lease_release :: "jlib \<Rightarrow> ledger \<Rightarrow> json \<Rightarrow> (json \<times> change list) res" where
  "op_lease_release lib L a =
     rbind (idarg a ''session_id'') (\<lambda>sid.
     rbind (lselect lib L ''thread_leases'' [(''session_id'', JStr sid)]) (\<lambda>leases.
     rbind (res_map (\<lambda>row. rbind (get_string (jidx row ''thread_id'')) (\<lambda>tid.
                             mk_change lib ''thread_leases'' tid JNull))
              (filter (\<lambda>row. case jfind a ''thread_id'' of
                          None \<Rightarrow> True
                        | Some t \<Rightarrow> t = JNull \<or> t = JStr [] \<or> jeq (jidx row ''thread_id'') t) leases)) (\<lambda>cs.
     Inr (JBool (cs \<noteq> []), cs))))"

definition op_inbox_push :: "jlib \<Rightarrow> ledger \<Rightarrow> json \<Rightarrow> rat \<Rightarrow> (json \<times> change list) res" where
  "op_inbox_push lib L a ts =
     rbind (idarg a ''id'') (\<lambda>i.
     rbind (jvalue a ''thread_id'' JNull) (\<lambda>tid.
     rbind (require_ref L ''threads'' tid) (\<lambda>_.
     rbind (lrow L ''inbox'' i) (\<lambda>old.
     if old \<noteq> JNull then Inr (JStr i, [])
     else
       rbind (jvalue_str a ''task_id'' []) (\<lambda>task.
       rbind (jat a ''event_type'') (\<lambda>ev.
       rbind (jvalue_str a ''digest'' []) (\<lambda>digest.
       rbind (jvalue a ''payload'' (jobj [])) (\<lambda>payload.
       rbind (jvalue_str a ''target_realm'' []) (\<lambda>realm.
       rbind (mk_change lib ''inbox'' i (jobj
         [(''item_id'', JStr i), (''task_id'', JStr task), (''thread_id'', tid), (''event_type'', ev),
          (''digest'', JStr digest),
          (''payload_json'', JStr (if payload = JNull then ''{}'' else jdump lib payload)),
          (''target_realm'', JStr realm), (''created_at'', JFloat ts),
          (''delivery_state'', JStr ''pending''), (''delivered_at'', JNull), (''acked_at'', JNull)])) (\<lambda>c.
       Inr (JStr i, [c])))))))))))"

definition op_inbox_ack :: "jlib \<Rightarrow> ledger \<Rightarrow> json \<Rightarrow> rat \<Rightarrow> (json \<times> change list) res" where
  "op_inbox_ack lib L a ts =
     rbind (idarg a ''item_id'') (\<lambda>i.
     rbind (lrow L ''inbox'' i) (\<lambda>row.
     if row = JNull then Inr (JBool False, [])
     else
       rbind (jvalue_str a ''new_state'' ''acked'') (\<lambda>st.
       rbind (valid_state st delivery_states) (\<lambda>_.
       rbind (mk_change lib ''inbox'' i
                (jset (if st = ''acked'' then ''acked_at'' else ''delivered_at'') (JFloat ts)
                  (jset ''delivery_state'' (JStr st) row))) (\<lambda>c.
       Inr (JBool True, [c]))))))"

definition op_artifact_register :: "jlib \<Rightarrow> ledger \<Rightarrow> json \<Rightarrow> rat \<Rightarrow> (json \<times> change list) res" where
  "op_artifact_register lib L a ts =
     rbind (idarg a ''id'') (\<lambda>i.
     rbind (jvalue a ''thread_id'' JNull) (\<lambda>tid.
     rbind (require_ref L ''threads'' tid) (\<lambda>_.
     rbind (jvalue a ''parent_artifact_id'' JNull) (\<lambda>parent.
     rbind (require_ref L ''artifacts'' parent) (\<lambda>_.
     rbind (lrow L ''artifacts'' i) (\<lambda>old.
     if old \<noteq> JNull then Inr (JStr i, [])
     else
       rbind (jvalue_str a ''task_id'' []) (\<lambda>task.
       rbind (jat a ''path'') (\<lambda>path.
       rbind (jvalue_str a ''kind'' ''file'') (\<lambda>kind.
       rbind (jvalue a ''mtime'' JNull) (\<lambda>mtime.
       rbind (jvalue a ''size'' JNull) (\<lambda>sz.
       rbind (jvalue a ''md5'' JNull) (\<lambda>md5.
       rbind (mk_change lib ''artifacts'' i (jobj
         [(''artifact_id'', JStr i), (''task_id'', JStr task), (''path'', path), (''kind'', JStr kind),
          (''thread_id'', tid), (''parent_artifact_id'', parent), (''mtime'', mtime), (''size'', sz),
          (''md5'', md5), (''created_at'', JFloat ts), (''metadata_json'', JStr ''{}'')])) (\<lambda>c.
       Inr (JStr i, [c]))))))))))))))"

definition op_artifact_link :: "jlib \<Rightarrow> ledger \<Rightarrow> json \<Rightarrow> (json \<times> change list) res" where
  "op_artifact_link lib L a =
     rbind (idarg a ''child_id'') (\<lambda>i.
     rbind (lrow L ''artifacts'' i) (\<lambda>row.
     if row = JNull then Inr (JBool False, [])
     else
       rbind (jat a ''parent_id'') (\<lambda>p.
       rbind (require_ref L ''artifacts'' p) (\<lambda>_.
       rbind (mk_change lib ''artifacts'' i (jset ''parent_artifact_id'' p row)) (\<lambda>c.
       Inr (JBool True, [c]))))))"

text \<open>
  The lineage walk: \<open>seen\<close> is extended before the page bound of 100 rows is tested, as
  the loop condition does.
\<close>

function lineage_loop :: "table \<Rightarrow> string \<Rightarrow> string list \<Rightarrow> json list \<Rightarrow> (json list \<times> string) res" where
  "lineage_loop t i seen acc =
     (if i \<noteq> [] \<and> i \<notin> set seen \<and> length acc < 100 then
        let row = table_get t i in
        if row = JNull then Inr (acc, [])
        else if jidx row ''parent_artifact_id'' = JNull then lineage_loop t [] (i # seen) (acc @ [row])
        else rbind (get_string (jidx row ''parent_artifact_id''))
               (\<lambda>p. lineage_loop t p (i # seen) (acc @ [row]))
      else Inr (acc, i))"
  by pat_completeness auto
termination
  by (relation "measure (\<lambda>(t, i, seen, acc). 100 - length acc)") auto

declare lineage_loop.simps [simp del]

definition op_artifact_lineage :: "ledger \<Rightarrow> json \<Rightarrow> (json \<times> change list) res" where
  "op_artifact_lineage L a =
     rbind (idarg a ''artifact_id'') (\<lambda>i.
     rbind (table_at L ''artifacts'') (\<lambda>t.
     rbind (lineage_loop t i [] []) (\<lambda>(rs, nxt).
     Inr (jobj [(''rows'', JArr rs), (''next_id'', JStr nxt)], []))))"

definition op_import :: "jlib \<Rightarrow> ledger \<Rightarrow> json \<Rightarrow> (json \<times> change list) res" where
  "op_import lib L a =
     rbind (idarg a ''table'') (\<lambda>tb.
     rbind (table_at L tb) (\<lambda>t.
     rbind (jat a ''row'') (\<lambda>row.
     rbind (jat row (t_key t)) (\<lambda>iv.
     rbind (get_string iv) (\<lambda>i.
     if table_get t i \<noteq> JNull then Inr (JBool False, [])
     else rbind (mk_change lib tb i row) (\<lambda>c. Inr (JBool True, [c])))))))"

definition op_counts :: "ledger \<Rightarrow> (json \<times> change list) res" where
  "op_counts L = Inr (jobj (map (\<lambda>(n, t). (n, JInt (int (length (t_rows t))))) (l_tables L)), [])"

section \<open>Listing with a cursor\<close>

definition list_tables :: "(string \<times> string) list" where
  "list_tables =
     [(''thread_list'', ''threads''), (''session_list'', ''thread_sessions''),
      (''lease_list'', ''thread_leases''), (''inbox_list'', ''inbox''), (''artifact_list'', ''artifacts'')]"

definition order_field :: "string \<Rightarrow> string" where
  "order_field opn =
     (if opn = ''thread_list'' \<or> opn = ''session_list'' then ''last_active_at''
      else if opn = ''lease_list'' then ''last_heartbeat_at'' else ''created_at'')"

definition row_less :: "string \<Rightarrow> string \<Rightarrow> json \<Rightarrow> json \<Rightarrow> bool" where
  "row_less ord key x y =
     (if \<not> jeq (jidx x ord) (jidx y ord) then jless (jidx y ord) (jidx x ord)
      else jless (jidx x key) (jidx y key))"

definition after_less :: "string \<Rightarrow> string \<Rightarrow> json \<Rightarrow> json \<Rightarrow> bool res" where
  "after_less ord key after row =
     rbind (jat after ord) (\<lambda>x.
     if \<not> jeq x (jidx row ord) then Inr (jless (jidx row ord) x)
     else rbind (jat after key) (\<lambda>k. Inr (jless k (jidx row key))))"

fun insert_row :: "(json \<Rightarrow> json \<Rightarrow> bool) \<Rightarrow> json \<Rightarrow> json list \<Rightarrow> json list" where
  "insert_row lt x [] = [x]"
| "insert_row lt x (y # ys) = (if lt y x then y # insert_row lt x ys else x # y # ys)"

definition sort_rows :: "(json \<Rightarrow> json \<Rightarrow> bool) \<Rightarrow> json list \<Rightarrow> json list" where
  "sort_rows lt xs = foldr (insert_row lt) xs []"

definition list_page :: "string \<Rightarrow> string \<Rightarrow> nat \<Rightarrow> json list \<Rightarrow> json list \<times> json" where
  "list_page ord key lmt rs =
     (let n = min (length rs) lmt;
          page = take n (sort_rows (row_less ord key) rs)
      in (page, if n < length rs \<and> n \<noteq> 0
                then jobj [(ord, jidx (last page) ord), (key, jidx (last page) key)] else JNull))"

definition list_filters :: "string \<Rightarrow> json \<Rightarrow> table \<Rightarrow> (string \<times> json) list res" where
  "list_filters opn a t =
     (let fs = om_of_list (concat (map (\<lambda>(f, _).
                 case jfind a f of
                   None \<Rightarrow> []
                 | Some v \<Rightarrow> if v = JNull \<or> (opn = ''artifact_list'' \<and> v = JStr []) then [] else [(f, v)])
               (t_indexes t)))
      in rbind (case om_get fs ''repository'' of
                  Some v \<Rightarrow> if opn = ''session_list''
                            then rbind (get_string v) (\<lambda>s. Inr (om_put ''repository'' (JStr (repository_key s)) fs))
                            else Inr fs
                | None \<Rightarrow> Inr fs) (\<lambda>fs1.
         if opn = ''inbox_list''
         then rbind (jvalue_str a ''state'' ''pending'')
                (\<lambda>s. Inr (om_put ''delivery_state'' (JStr s) (om_del ''target_realm'' fs1)))
         else Inr fs1))"

definition inbox_realm :: "string \<Rightarrow> json \<Rightarrow> json option" where
  "inbox_realm opn a =
     (if opn = ''inbox_list'' then
        (case jfind a ''target_realm'' of None \<Rightarrow> None | Some v \<Rightarrow> if v = JNull then None else Some v)
      else None)"

definition list_candidates ::
    "jlib \<Rightarrow> string \<Rightarrow> json \<Rightarrow> table \<Rightarrow> (string \<times> json) list \<Rightarrow> json list res" where
  "list_candidates lib opn a t fs =
     (case inbox_realm opn a of
        None \<Rightarrow> table_select lib fs t
      | Some realm \<Rightarrow>
          rbind (table_select lib (om_put ''target_realm'' realm fs) t) (\<lambda>rs.
          if realm = JStr [] then Inr rs
          else rbind (table_select lib (om_put ''target_realm'' (JStr []) fs) t)
                 (\<lambda>glob. Inr (rs @ glob))))"

definition list_keep :: "jlib \<Rightarrow> string \<Rightarrow> json \<Rightarrow> rat \<Rightarrow> json \<Rightarrow> bool res" where
  "list_keep lib opn a ts row =
     rbind (if opn = ''lease_list'' then
              rbind (jvalue_bool a ''active_only'' True) (\<lambda>act.
              if act then rbind (get_double (jidx row ''expires_at'')) (\<lambda>e. Inr (e \<le> ts)) else Inr False)
            else Inr False) (\<lambda>expired.
     if expired then Inr False
     else
       (case inbox_realm opn a of
          Some realm \<Rightarrow>
            Inr (\<not> (jidx row ''target_realm'' \<noteq> JStr [] \<and> \<not> jeq (jidx row ''target_realm'') realm))
        | None \<Rightarrow>
            if opn = ''artifact_list'' then
              (case jfind a ''path_glob'' of
                 None \<Rightarrow> Inr True
               | Some g \<Rightarrow> if g = JNull \<or> g = JStr [] then Inr True
                           else rbind (get_string g) (\<lambda>gs. rbind (get_string (jidx row ''path'')) (\<lambda>p.
                                  Inr (fnmatch lib gs p))))
            else Inr True))"

definition op_list :: "jlib \<Rightarrow> ledger \<Rightarrow> string \<Rightarrow> json \<Rightarrow> rat \<Rightarrow> (json \<times> change list) res" where
  "op_list lib L opn a ts =
     (case map_of list_tables opn of
        None \<Rightarrow> Inl (Invalid_argument (''unknown ledger op: '' @ opn))
      | Some tb \<Rightarrow>
          rbind (table_at L tb) (\<lambda>t.
          rbind (list_filters opn a t) (\<lambda>fs.
          rbind (list_candidates lib opn a t fs) (\<lambda>rs.
          rbind (res_filter (list_keep lib opn a ts) rs) (\<lambda>rs1.
          rbind (case jfind a ''after'' of
                   None \<Rightarrow> Inr rs1
                 | Some after \<Rightarrow> if after = JNull then Inr rs1
                     else res_filter (after_less (order_field opn) (t_key t) after) rs1) (\<lambda>rs2.
          rbind (jvalue_int a ''limit'' 100) (\<lambda>lmt.
          let (page, cursor) = list_page (order_field opn) (t_key t) (nat (max 1 (min 100 lmt))) rs2 in
          Inr (jobj [(''rows'', JArr page), (''after'', cursor)], []))))))))"

section \<open>Dispatch\<close>

definition is_read :: "string \<Rightarrow> bool" where
  "is_read opn =
     (opn \<in> set [''thread_get'', ''thread_list'', ''session_get'', ''session_list'', ''lease_list'',
        ''inbox_list'', ''artifact_list'', ''artifact_lineage'', ''counts'',
        ''hook_handoff_prepare'', ''hook_handoff_context'', ''hook_task_context'',
        ''hook_session_context'', ''hook_stop_checkpoint'', ''hook_stop_progress'', ''hook_post_tool'',
        ''hook_pre_compact'', ''hook_compact_restore'', ''hook_saddle'', ''hook_pre_tool'',
        ''hook_ancillary'', ''hook_session_start''])"

definition dispatch :: "jlib \<Rightarrow> ledger \<Rightarrow> string \<Rightarrow> json \<Rightarrow> rat \<Rightarrow> (json \<times> change list) res" where
  "dispatch lib L opn a ts =
     (if opn = ''thread_create'' then op_thread_create lib L a ts
      else if opn = ''thread_get'' then op_row_get L ''threads'' ''thread_id'' a
      else if opn = ''session_get'' then op_row_get L ''thread_sessions'' ''session_id'' a
      else if opn = ''thread_update'' then op_thread_update lib L a ts
      else if opn = ''thread_seal'' then op_thread_seal lib L a ts
      else if opn = ''session_bind'' then op_session_bind lib L a ts
      else if opn = ''session_touch'' then op_session_touch lib L False a ts
      else if opn = ''session_close'' then op_session_touch lib L True a ts
      else if opn = ''lease_claim'' then op_lease_claim lib L a ts
      else if opn = ''lease_release'' then op_lease_release lib L a
      else if opn = ''inbox_push'' then op_inbox_push lib L a ts
      else if opn = ''inbox_ack'' then op_inbox_ack lib L a ts
      else if opn = ''artifact_register'' then op_artifact_register lib L a ts
      else if opn = ''artifact_link'' then op_artifact_link lib L a
      else if opn = ''artifact_lineage'' then op_artifact_lineage L a
      else if opn = ''import'' then op_import lib L a
      else if opn = ''counts'' then op_counts L
      else op_list lib L opn a ts)"

definition run ::
    "jlib \<Rightarrow> (batch \<Rightarrow> bool) \<Rightarrow> rat \<Rightarrow> ledger \<Rightarrow> string \<Rightarrow> json \<Rightarrow> (json \<times> ledger \<times> batch option) res" where
  "run lib persist ts L opn a =
     rbind (dispatch lib L opn a ts) (\<lambda>(result, changes). finish lib persist L result changes)"

end
