(* ===== verification/Ledger_Table_Facts.thy ===== *)
theory Ledger_Table_Facts
  imports Ledger_Tables
begin

text \<open>
  The invariant of a ledger table (every secondary index lists exactly the rows that
  carry the value, and no empty entry), its preservation by \<open>table_put\<close>, and the
  equivalence of the indexed \<open>table_select\<close> with a scan over all rows.
\<close>

section \<open>Indexes as relations\<close>

definition idx_mem :: "(string, string oset) omap \<Rightarrow> string \<Rightarrow> string \<Rightarrow> bool" where
  "idx_mem idx v i = (\<exists>ids. om_get idx v = Some ids \<and> om_get ids i = Some ())"

definition idx_struct :: "(string, string oset) omap \<Rightarrow> bool" where
  "idx_struct idx = (om_inv idx \<and> (\<forall>v ids. om_get idx v = Some ids \<longrightarrow> om_inv ids \<and> ids \<noteq> []))"

lemma oset_Nil_iff: "om_inv ids \<Longrightarrow> ids = [] \<longleftrightarrow> (\<forall>i. om_get ids i = None)"
  using om_ext[of ids "[]"] by (auto simp: fun_eq_iff)

lemma idx_struct_unindex: "idx_struct idx \<Longrightarrow> idx_struct (unindex v i idx)"
  by (auto simp: idx_struct_def unindex_def split: option.split if_splits)

lemma idx_mem_unindex:
  assumes "idx_struct idx"
  shows "idx_mem (unindex v i idx) v' i' \<longleftrightarrow> idx_mem idx v' i' \<and> \<not> (v' = v \<and> i' = i)"
proof (cases "om_get idx v")
  case None
  then show ?thesis by (auto simp: idx_mem_def unindex_def)
next
  case (Some ids)
  with assms have inv: "om_inv idx" "om_inv ids" by (auto simp: idx_struct_def)
  show ?thesis
  proof (cases "om_del i ids = []")
    case True
    then have "\<forall>j. om_get (om_del i ids) j \<noteq> Some ()" by simp
    then have "\<forall>j. j \<noteq> i \<longrightarrow> om_get ids j \<noteq> Some ()" by (auto split: if_splits)
    with Some inv True show ?thesis by (auto simp: idx_mem_def unindex_def)
  next
    case False
    with Some inv show ?thesis by (auto simp: idx_mem_def unindex_def)
  qed
qed

lemma idx_struct_enindex: "idx_struct idx \<Longrightarrow> idx_struct (enindex v i idx)"
  by (auto simp: idx_struct_def enindex_def split: option.split)

lemma idx_mem_enindex:
  "idx_struct idx \<Longrightarrow> idx_mem (enindex v i idx) v' i' \<longleftrightarrow> idx_mem idx v' i' \<or> (v' = v \<and> i' = i)"
  by (cases "om_get idx v") (auto simp: idx_mem_def idx_struct_def enindex_def)

section \<open>Well-formed tables\<close>

definition keyed :: "jlib \<Rightarrow> (string, json) omap \<Rightarrow> string \<Rightarrow> string \<Rightarrow> string \<Rightarrow> bool" where
  "keyed lib rs f v i = (\<exists>row w. om_get rs i = Some row \<and> jfind row f = Some w \<and> jdump lib w = v)"

definition index_ok :: "jlib \<Rightarrow> (string, json) omap \<Rightarrow> string \<Rightarrow> (string, string oset) omap \<Rightarrow> bool" where
  "index_ok lib rs f idx = (idx_struct idx \<and> (\<forall>v i. idx_mem idx v i \<longleftrightarrow> keyed lib rs f v i))"

definition row_ok :: "string list \<Rightarrow> json \<Rightarrow> bool" where
  "row_ok flds row =
     (jok row \<and> (\<forall>f \<in> set flds. \<exists>w. jfind row f = Some w \<and> (w = JNull \<or> is_string w)))"

definition wf_table :: "jlib \<Rightarrow> table \<Rightarrow> bool" where
  "wf_table lib t =
     (om_inv (t_rows t) \<and> om_inv (t_indexes t)
      \<and> (\<forall>i row. om_get (t_rows t) i = Some row \<longrightarrow> row_ok (om_keys (t_indexes t)) row)
      \<and> (\<forall>(f, idx) \<in> set (t_indexes t). index_ok lib (t_rows t) f idx))"

lemma wf_tableD:
  assumes "wf_table lib t"
  shows "om_inv (t_rows t)" "om_inv (t_indexes t)"
    and "om_get (t_rows t) i = Some row \<Longrightarrow> row_ok (om_keys (t_indexes t)) row"
    and "(f, idx) \<in> set (t_indexes t) \<Longrightarrow> index_ok lib (t_rows t) f idx"
  using assms by (auto simp: wf_table_def)

lemma wf_new_table: "wf_table lib (new_table k flds)"
proof -
  have "idx = []" if "(f, idx) \<in> set (om_of_list (map (\<lambda>f. (f, [])) flds))"
    for f :: string and idx :: "(string, string oset) omap"
  proof -
    from that have "om_get (om_of_list (map (\<lambda>f. (f, [])) flds)) f = Some idx"
      by (subst om_get_Some_iff) auto
    then show ?thesis by (auto dest!: map_of_SomeD)
  qed
  then have "\<forall>(f, idx) \<in> set (om_of_list (map (\<lambda>f. (f, [])) flds)). index_ok lib [] f idx"
    by (fastforce simp: index_ok_def idx_struct_def idx_mem_def keyed_def)
  then show ?thesis
    by (simp add: wf_table_def new_table_def)
qed

section \<open>Preservation by put\<close>

definition put_rows :: "string \<Rightarrow> json \<Rightarrow> (string, json) omap \<Rightarrow> (string, json) omap" where
  "put_rows i row rs = (if row = JNull then om_del i rs else om_put i row rs)"

lemma om_get_put_rows [simp]:
  "om_inv rs \<Longrightarrow> om_get (put_rows i row rs) = (om_get rs)(i := if row = JNull then None else Some row)"
  by (auto simp: put_rows_def)

lemma put_field_total:
  assumes "index_ok lib rs f idx" and "om_inv rs"
    and old: "\<forall>r. om_get rs i = Some r \<longrightarrow> is_object r \<and> jfind r f \<noteq> None"
    and new: "row \<noteq> JNull \<longrightarrow> is_object row \<and> jfind row f \<noteq> None"
  shows "\<exists>idx'. put_field lib i (om_get rs i) row f idx = Inr idx' \<and> index_ok lib (put_rows i row rs) f idx'"
proof -
  define clean where "clean = (\<lambda>idx1. idx_struct idx1 \<and>
     (\<forall>v j. idx_mem idx1 v j \<longleftrightarrow> keyed lib rs f v j \<and> j \<noteq> i))"
  have s: "idx_struct idx" and mem: "\<And>v j. idx_mem idx v j \<longleftrightarrow> keyed lib rs f v j"
    using assms(1) by (auto simp: index_ok_def)
  have "\<exists>idx1. (case om_get rs i of None \<Rightarrow> Inr idx
        | Some r \<Rightarrow> rbind (jat r f) (\<lambda>v. Inr (unindex (jdump lib v) i idx))) = Inr idx1 \<and> clean idx1"
  proof (cases "om_get rs i")
    case None
    then show ?thesis using s mem by (auto simp: clean_def keyed_def)
  next
    case (Some r)
    with old obtain w where w: "is_object r" "jfind r f = Some w" by auto
    then have "jat r f = Inr w" by (simp add: jat_def)
    moreover have "clean (unindex (jdump lib w) i idx)"
      using s mem w Some by (auto simp: clean_def idx_struct_unindex idx_mem_unindex keyed_def)
    ultimately show ?thesis using Some by auto
  qed
  then obtain idx1 where idx1: "(case om_get rs i of None \<Rightarrow> Inr idx
        | Some r \<Rightarrow> rbind (jat r f) (\<lambda>v. Inr (unindex (jdump lib v) i idx))) = Inr idx1"
    and c: "clean idx1" by blast
  show ?thesis
  proof (cases "row = JNull")
    case True
    with idx1 c assms(2) show ?thesis
      by (auto simp: put_field_def index_ok_def clean_def keyed_def)
  next
    case False
    with new obtain w where "is_object row" "jfind row f = Some w" by auto
    then have "jat row f = Inr w" by (simp add: jat_def)
    with idx1 c assms(2) False \<open>jfind row f = Some w\<close> show ?thesis
      by (auto simp: put_field_def index_ok_def clean_def keyed_def idx_struct_enindex idx_mem_enindex)
  qed
qed

lemma row_okD:
  assumes "row_ok flds r" and "f \<in> set flds"
  shows "is_object r" and "\<exists>w. jfind r f = Some w \<and> (w = JNull \<or> is_string w)"
  using assms by (auto simp: row_ok_def)

lemma res_map_keep_fst:
  assumes "\<And>f x. (f, x) \<in> set xs \<Longrightarrow> \<exists>y. g f x = Inr y \<and> P f y"
  shows "\<exists>ys. res_map (\<lambda>(f, x). rbind (g f x) (\<lambda>y. Inr (f, y))) xs = Inr ys
    \<and> map fst ys = map fst xs \<and> (\<forall>(f, y) \<in> set ys. P f y)"
  using assms
proof (induction xs)
  case Nil
  then show ?case by simp
next
  case (Cons p xs)
  obtain f x where p: "p = (f, x)" by (cases p)
  from Cons.prems[of f x] p obtain y where "g f x = Inr y" "P f y" by auto
  moreover obtain ys where "res_map (\<lambda>(f, x). rbind (g f x) (\<lambda>y. Inr (f, y))) xs = Inr ys"
    "map fst ys = map fst xs" "\<forall>(f, y) \<in> set ys. P f y"
    using Cons.IH Cons.prems by auto
  ultimately show ?case by (auto simp: p)
qed

lemma table_put_total:
  assumes wf: "wf_table lib t" and row: "row = JNull \<or> row_ok (om_keys (t_indexes t)) row"
  shows "\<exists>t'. table_put lib i row t = Inr t' \<and> wf_table lib t'
    \<and> t_rows t' = put_rows i row (t_rows t) \<and> t_key t' = t_key t
    \<and> om_keys (t_indexes t') = om_keys (t_indexes t)"
proof -
  note wfd = wf_tableD[OF wf]
  have "\<exists>idx'. put_field lib i (om_get (t_rows t) i) row f idx = Inr idx'
      \<and> index_ok lib (put_rows i row (t_rows t)) f idx'"
    if "(f, idx) \<in> set (t_indexes t)" for f idx
  proof (rule put_field_total[OF wfd(4)[OF that] wfd(1)])
    have f: "f \<in> set (om_keys (t_indexes t))"
      using that by (force simp: om_keys_def)
    show "\<forall>r. om_get (t_rows t) i = Some r \<longrightarrow> is_object r \<and> jfind r f \<noteq> None"
      using wfd(3) row_okD f by blast
    show "row \<noteq> JNull \<longrightarrow> is_object row \<and> jfind row f \<noteq> None"
      using row row_okD f by blast
  qed
  from res_map_keep_fst[where xs = "t_indexes t"
      and g = "\<lambda>f idx. put_field lib i (om_get (t_rows t) i) row f idx", OF this]
  obtain ixs where ixs:
    "res_map (\<lambda>(f, idx). rbind (put_field lib i (om_get (t_rows t) i) row f idx)
        (\<lambda>idx'. Inr (f, idx'))) (t_indexes t) = Inr ixs"
    "map fst ixs = map fst (t_indexes t)"
    "\<forall>(f, idx) \<in> set ixs. index_ok lib (put_rows i row (t_rows t)) f idx" by blast
  define t' where "t' = t\<lparr>t_indexes := ixs, t_rows := put_rows i row (t_rows t)\<rparr>"
  have "table_put lib i row t = Inr t'"
    using ixs(1) by (simp add: table_put_def t'_def put_rows_def)
  moreover have "wf_table lib t'"
    unfolding wf_table_def
  proof (intro conjI allI impI)
    show "om_inv (t_rows t')" using wfd(1) by (simp add: t'_def put_rows_def)
    show "om_inv (t_indexes t')" using wfd(2) ixs(2) by (simp add: t'_def om_inv_def)
    show "row_ok (om_keys (t_indexes t')) r" if "om_get (t_rows t') j = Some r" for j r
      using that wfd(1,3) row ixs(2) by (auto simp: t'_def om_keys_def split: if_splits)
    show "\<forall>(f, idx) \<in> set (t_indexes t'). index_ok lib (t_rows t') f idx"
      using ixs(3) by (simp add: t'_def)
  qed
  ultimately show ?thesis using ixs(2) by (auto simp: t'_def om_keys_def)
qed

section \<open>Selection\<close>

definition row_sat :: "(string \<times> json) list \<Rightarrow> json \<Rightarrow> bool" where
  "row_sat fs row = (\<forall>(f, v) \<in> set fs. \<exists>w. jfind row f = Some w \<and> jeq w v)"

text \<open>The reference: scan every row in key order and keep those that satisfy the filters.\<close>

lemma row_sat_code [code]:
  "row_sat fs row = list_all (\<lambda>(f, v). case jfind row f of None \<Rightarrow> False | Some w \<Rightarrow> jeq w v) fs"
  by (induction fs) (auto simp: row_sat_def split: option.splits)

definition scan_select :: "(string \<times> json) list \<Rightarrow> table \<Rightarrow> json list" where
  "scan_select fs t = filter (row_sat fs) (map snd (t_rows t))"

lemma row_matches_sat:
  assumes "is_object row" and "\<forall>(f, v) \<in> set fs. jfind row f \<noteq> None"
  shows "row_matches fs row = Inr (row_sat fs row)"
  using assms
proof (induction fs)
  case Nil
  then show ?case by (simp add: row_sat_def)
next
  case (Cons p fs)
  obtain f v where p: "p = (f, v)" by (cases p)
  with Cons.prems obtain w where "jfind row f = Some w" by auto
  with Cons p show ?case by (auto simp: jat_def row_sat_def)
qed

lemma scalar_jeq: "w = JNull \<or> is_string w \<Longrightarrow> jeq w v \<Longrightarrow> w = v"
  by (cases w) auto

lemma candidates_None:
  "candidates lib ixs fs c = None \<Longrightarrow>
     \<exists>f v idx. (f, v) \<in> set fs \<and> om_get ixs f = Some idx \<and> om_get idx (jdump lib v) = None"
proof (induction fs arbitrary: c)
  case Nil
  then show ?case by simp
next
  case (Cons p fs)
  obtain f v where p: "p = (f, v)" by (cases p)
  from Cons.prems Cons.IH show ?case
    unfolding p by (auto split: option.splits if_splits) (metis option.distinct(1))+
qed

lemma candidates_Some:
  "candidates lib ixs fs c = Some (Some ids) \<Longrightarrow> c = Some ids \<or>
     (\<exists>f v idx. (f, v) \<in> set fs \<and> om_get ixs f = Some idx \<and> om_get idx (jdump lib v) = Some ids)"
proof (induction fs arbitrary: c)
  case Nil
  then show ?case by simp
next
  case (Cons p fs)
  obtain f v where p: "p = (f, v)" by (cases p)
  from Cons.prems Cons.IH show ?case
    unfolding p by (simp split: option.splits if_splits) (metis option.inject)+
qed

lemma keyed_rows_in_order:
  assumes "om_inv rs" and "om_inv ids" and "\<And>i. om_get ids i = Some () \<longleftrightarrow> (\<exists>r. om_get rs i = Some r \<and> p r)"
  shows "om_keys ids = map fst (filter (\<lambda>q. p (snd q)) rs)"
proof (rule strict_sorted_equal)
  show "sorted_wrt (<) (om_keys ids)" using assms(2) by (simp add: om_inv_def om_keys_def)
  show "sorted_wrt (<) (map fst (filter (\<lambda>q. p (snd q)) rs))"
    using om_inv_filter[OF assms(1)] by (simp add: om_inv_def)
  show "set (om_keys ids) = set (map fst (filter (\<lambda>q. p (snd q)) rs))"
    unfolding om_keys_set[OF assms(2)] using assms(3)
    by (force simp: om_get_Some_iff[OF assms(1)] image_iff)
qed

lemma res_map_row_at:
  assumes "om_inv (t_rows t)" and "set qs \<subseteq> set (t_rows t)"
  shows "res_map (row_at t) (map fst qs) = Inr (map snd qs)"
  using assms(2)
proof (induction qs)
  case Nil
  then show ?case by simp
next
  case (Cons q qs)
  then have "om_get (t_rows t) (fst q) = Some (snd q)"
    using assms(1) by (simp add: om_get_Some_iff)
  with Cons show ?case by (simp add: row_at_def)
qed

lemma table_select_scan:
  assumes wf: "wf_table lib t" and fs: "\<forall>(f, v) \<in> set fs. f \<in> set (om_keys (t_indexes t))"
  shows "table_select lib fs t = Inr (scan_select fs t)"
proof -
  note wfd = wf_tableD[OF wf]
  have rowok: "row_ok (om_keys (t_indexes t)) r" if "(i, r) \<in> set (t_rows t)" for i r
    using that wfd(3) by (simp add: om_get_Some_iff[OF wfd(1), symmetric])
  have dom: "is_object r \<and> (\<forall>(f, v) \<in> set fs. jfind r f \<noteq> None)" if "(i, r) \<in> set (t_rows t)" for i r
  proof (intro conjI ballI)
    show "is_object r" using rowok[OF that] by (simp add: row_ok_def)
    fix p assume "p \<in> set fs"
    moreover obtain f v where p: "p = (f, v)" by (cases p)
    ultimately have "f \<in> set (om_keys (t_indexes t))" using fs by auto
    with row_okD(2)[OF rowok[OF that]] show "case p of (f, v) \<Rightarrow> jfind r f \<noteq> None"
      by (auto simp: p)
  qed
  have filt: "res_filter (row_matches fs) (map snd qs) = Inr (filter (row_sat fs) (map snd qs))"
    if "set qs \<subseteq> set (t_rows t)" for qs
    by (rule res_filter_total, rule row_matches_sat) (use that dom in force)+
  have hit: "keyed lib (t_rows t) f (jdump lib v) i"
    if "(i, r) \<in> set (t_rows t)" "row_sat fs r" "(f, v) \<in> set fs" for i r f v
  proof -
    from that(2,3) obtain w where w: "jfind r f = Some w" "jeq w v" by (auto simp: row_sat_def)
    from fs that(3) have "f \<in> set (om_keys (t_indexes t))" by auto
    from row_okD(2)[OF rowok[OF that(1)] this] w(1) have "w = JNull \<or> is_string w" by simp
    from scalar_jeq[OF this w(2)] have "w = v" .
    with w that(1) show ?thesis by (auto simp: keyed_def om_get_Some_iff[OF wfd(1)])
  qed
  show ?thesis
  proof (cases "candidates lib (t_indexes t) fs None")
    case None
    from candidates_None[OF None]
    obtain f v idx where m: "(f, v) \<in> set fs" "(f, idx) \<in> set (t_indexes t)" "om_get idx (jdump lib v) = None"
      by (auto dest: om_get_SomeD)
    have "\<not> keyed lib (t_rows t) f (jdump lib v) i" for i
    proof -
      have "idx_mem idx (jdump lib v) i \<longleftrightarrow> keyed lib (t_rows t) f (jdump lib v) i"
        using wfd(4)[OF m(2)] by (simp add: index_ok_def)
      with m(3) show ?thesis by (simp add: idx_mem_def)
    qed
    with hit m(1) have "\<not> row_sat fs r" if "(i, r) \<in> set (t_rows t)" for i r
      using that by blast
    then have "scan_select fs t = []"
      by (fastforce simp: scan_select_def filter_empty_conv)
    with None show ?thesis by (simp add: table_select_def)
  next
    case (Some c)
    show ?thesis
    proof (cases c)
      case None
      with Some filt[of "t_rows t"] show ?thesis by (simp add: table_select_def scan_select_def)
    next
      case ids: (Some ids)
      from candidates_Some[of lib "t_indexes t" fs None ids] Some ids
      obtain f v idx where m: "(f, v) \<in> set fs" "(f, idx) \<in> set (t_indexes t)"
        "om_get idx (jdump lib v) = Some ids" by (auto dest: om_get_SomeD)
      have ix: "index_ok lib (t_rows t) f idx" by (rule wfd(4)[OF m(2)])
      define p where "p = (\<lambda>r. \<exists>w. jfind r f = Some w \<and> jdump lib w = jdump lib v)"
      define qs where "qs = filter (\<lambda>q. p (snd q)) (t_rows t)"
      have keys: "om_keys ids = map fst qs"
        unfolding qs_def
      proof (rule keyed_rows_in_order[OF wfd(1)])
        show "om_inv ids" using ix m(3) by (auto simp: index_ok_def idx_struct_def)
        show "om_get ids i = Some () \<longleftrightarrow> (\<exists>r. om_get (t_rows t) i = Some r \<and> p r)" for i
        proof -
          have "idx_mem idx (jdump lib v) i \<longleftrightarrow> keyed lib (t_rows t) f (jdump lib v) i"
            using ix by (simp add: index_ok_def)
          with m(3) show ?thesis by (auto simp: idx_mem_def keyed_def p_def)
        qed
      qed
      have sub: "set qs \<subseteq> set (t_rows t)" by (auto simp: qs_def)
      have "filter (row_sat fs) (map snd qs) = filter (row_sat fs) (map snd (t_rows t))"
      proof -
        have "filter (\<lambda>q. row_sat fs (snd q)) qs = filter (\<lambda>q. row_sat fs (snd q)) (t_rows t)"
          unfolding qs_def filter_filter
        proof (rule filter_cong[OF refl])
          fix q assume q: "q \<in> set (t_rows t)"
          have "p (snd q)" if "row_sat fs (snd q)"
          proof -
            from q have q': "(fst q, snd q) \<in> set (t_rows t)" by simp
            then have "om_get (t_rows t) (fst q) = Some (snd q)"
              by (subst om_get_Some_iff[OF wfd(1)])
            with hit[OF q' that m(1)] show ?thesis
              by (auto simp: keyed_def p_def)
          qed
          then show "(p (snd q) \<and> row_sat fs (snd q)) = row_sat fs (snd q)" by auto
        qed
        then show ?thesis by (simp add: filter_map comp_def)
      qed
      with Some ids keys filt[OF sub] res_map_row_at[OF wfd(1) sub] show ?thesis
        by (simp add: table_select_def scan_select_def)
    qed
  qed
qed

end
