(* ===== verification/Task_Ledger_Facts.thy ===== *)
theory Task_Ledger_Facts
  imports Task_Ledger Ledger_Table_Facts
begin

text \<open>
  The invariant of the whole ledger and the effect of \<open>finish\<close>: a batch collected by any
  operation is canonical, validation makes it publishable, publishing never throws and
  leaves every row as the last change of the batch says.
\<close>

section \<open>The invariant\<close>

definition schema :: "string \<Rightarrow> (string \<times> string list) option" where
  "schema = map_of
     [(''threads'', (''thread_id'', [''realm'', ''status''])),
      (''thread_sessions'', (''session_id'',
         [''project_dir'', ''repository'', ''status'', ''stream_id'', ''thread_id''])),
      (''thread_leases'', (''thread_id'', [''session_id''])),
      (''inbox'', (''item_id'', [''delivery_state'', ''target_realm''])),
      (''artifacts'', (''artifact_id'', [''task_id'', ''thread_id'']))]"

definition wf_ledger :: "jlib \<Rightarrow> ledger \<Rightarrow> bool" where
  "wf_ledger lib L =
     (om_inv (l_tables L) \<and>
      (\<forall>n. case schema n of
             None \<Rightarrow> om_get (l_tables L) n = None
           | Some (k, flds) \<Rightarrow> \<exists>t. om_get (l_tables L) n = Some t \<and> wf_table lib t
               \<and> t_key t = k \<and> om_keys (t_indexes t) = flds))"

definition row_of :: "ledger \<Rightarrow> string \<Rightarrow> string \<Rightarrow> json option" where
  "row_of L tb i = (case om_get (l_tables L) tb of None \<Rightarrow> None | Some t \<Rightarrow> om_get (t_rows t) i)"

lemma wf_ledgerD:
  assumes "wf_ledger lib L" and "schema n = Some (k, flds)"
  obtains t where "om_get (l_tables L) n = Some t" "wf_table lib t" "t_key t = k"
    "om_keys (t_indexes t) = flds"
proof -
  have "case schema n of
             None \<Rightarrow> om_get (l_tables L) n = None
           | Some (k, flds) \<Rightarrow> \<exists>t. om_get (l_tables L) n = Some t \<and> wf_table lib t
               \<and> t_key t = k \<and> om_keys (t_indexes t) = flds"
    using assms(1) unfolding wf_ledger_def by blast
  with assms(2) that show thesis by auto
qed

lemma wf_ledger_inv: "wf_ledger lib L \<Longrightarrow> om_inv (l_tables L)"
  by (simp add: wf_ledger_def)

lemma table_at_schema:
  "wf_ledger lib L \<Longrightarrow> table_at L n = Inr t \<Longrightarrow>
     \<exists>k flds. schema n = Some (k, flds) \<and> om_get (l_tables L) n = Some t \<and> wf_table lib t
       \<and> t_key t = k \<and> om_keys (t_indexes t) = flds"
  unfolding wf_ledger_def table_at_def
  by (drule conjunct2, drule spec[of _ n]) (auto split: option.splits)

lemma wf_ledger_init: "wf_ledger lib ledger_init"
proof -
  have keys: "om_keys (t_indexes (new_table ''thread_id'' [''realm'', ''status''])) = [''realm'', ''status'']"
    "om_keys (t_indexes (new_table ''session_id''
       [''thread_id'', ''project_dir'', ''status'', ''repository'', ''stream_id'']))
     = [''project_dir'', ''repository'', ''status'', ''stream_id'', ''thread_id'']"
    "om_keys (t_indexes (new_table ''thread_id'' [''session_id''])) = [''session_id'']"
    "om_keys (t_indexes (new_table ''item_id'' [''delivery_state'', ''target_realm'']))
     = [''delivery_state'', ''target_realm'']"
    "om_keys (t_indexes (new_table ''artifact_id'' [''task_id'', ''thread_id'']))
     = [''task_id'', ''thread_id'']"
    by code_simp+
  have kk: "t_key (new_table k flds) = k" for k flds by (simp add: new_table_def)
  show ?thesis
    unfolding wf_ledger_def ledger_init_def schema_def
    by (auto simp: wf_new_table keys kk split: option.splits if_splits)
qed

lemma lrow_row_of:
  "wf_ledger lib L \<Longrightarrow> schema tb \<noteq> None \<Longrightarrow>
     lrow L tb i = Inr (case row_of L tb i of None \<Rightarrow> JNull | Some r \<Rightarrow> r)"
  by (auto simp: lrow_def table_at_def row_of_def table_get_def elim: wf_ledgerD)

lemma lrow_Inr: "lrow L tb i = Inr r \<Longrightarrow> r = (case row_of L tb i of None \<Rightarrow> JNull | Some r \<Rightarrow> r)"
  by (auto simp: lrow_def table_at_def row_of_def table_get_def rbind_eq_Inr split: option.splits)

lemma row_of_ok:
  assumes "wf_ledger lib L" and "row_of L tb i = Some r"
  shows "\<exists>k flds. schema tb = Some (k, flds) \<and> row_ok flds r"
proof -
  from assms(2) obtain t where t: "om_get (l_tables L) tb = Some t" "om_get (t_rows t) i = Some r"
    by (auto simp: row_of_def split: option.splits)
  then have "table_at L tb = Inr t" by (simp add: table_at_def)
  from table_at_schema[OF assms(1) this] t(2) show ?thesis by (auto dest: wf_tableD(3))
qed

lemma row_of_jok: "wf_ledger lib L \<Longrightarrow> row_of L tb i = Some r \<Longrightarrow> jok r"
  by (drule (1) row_of_ok) (auto simp: row_ok_def)

section \<open>Canonical rows and the upgrade\<close>

definition jcan :: "json \<Rightarrow> bool" where
  "jcan j = om_inv (jfields j)"

lemma jcan_simps [simp]: "jcan JNull" "jcan (jobj kvs)"
  by (simp_all add: jcan_def jobj_def)

lemma jok_jcan: "jok j \<Longrightarrow> jcan j"
  by (simp add: jcan_def jok_def)

lemma jok_iff: "jok j \<longleftrightarrow> is_object j \<and> jcan j"
  by (simp add: jok_def jcan_def)

lemma json_ext: "jok j \<Longrightarrow> jok j' \<Longrightarrow> (\<And>k. jfind j k = jfind j' k) \<Longrightarrow> j = j'"
  by (cases j; cases j') (auto simp: jok_def jfind_def intro: om_ext)

definition set2 :: "string \<Rightarrow> string \<Rightarrow> json \<Rightarrow> json" where
  "set2 p s row = jset ''stream_id'' (JStr s) (jset ''repository'' (JStr p) row)"

lemma jok_set2 [simp]: "jok row \<Longrightarrow> jok (set2 p s row)"
  by (simp add: set2_def)

lemma jfind_set2 [simp]: "jok row \<Longrightarrow> jfind (set2 p s row) k =
    (if k = ''stream_id'' then Some (JStr s) else if k = ''repository'' then Some (JStr p) else jfind row k)"
  by (simp add: set2_def)

lemma set2_set2: "jok row \<Longrightarrow> set2 p s (set2 p' s' row) = set2 p s row"
  by (rule json_ext) auto

lemma upgrade_other [simp]: "tb \<noteq> ''thread_sessions'' \<Longrightarrow> upgrade_row lib tb row = Inr row"
  by (simp add: upgrade_row_def)

lemma upgrade_nonobject [simp]: "\<not> is_object row \<Longrightarrow> upgrade_row lib tb row = Inr row"
  by (simp add: upgrade_row_def)

lemma upgrade_shape:
  assumes "jok row" and "upgrade_row lib ''thread_sessions'' row = Inr r"
  shows "\<exists>p s. r = set2 p s row \<and>
    (\<forall>row'. jok row' \<longrightarrow> jfind row' ''metadata_json'' = jfind row ''metadata_json'' \<longrightarrow>
       upgrade_row lib ''thread_sessions'' row' = Inr (set2 p s row'))"
proof -
  from assms obtain ms cap where m: "jvalue_str row ''metadata_json'' ''{}'' = Inr ms"
    "handoff_of lib ms = Inr cap"
    by (auto simp: upgrade_row_def rbind_eq_Inr)
  have same: "jvalue_str row' ''metadata_json'' ''{}'' = Inr ms"
    if "jok row'" "jfind row' ''metadata_json'' = jfind row ''metadata_json''" for row'
    using m(1) that assms(1) by (simp add: jvalue_str_def jvalue_def)
  have up: "upgrade_row lib ''thread_sessions'' row' =
      (if \<not> is_object cap then Inr (set2 [] [] row')
       else rbind (jvalue_int cap ''version'' 0) (\<lambda>version.
          if version \<noteq> 2 then Inr (set2 [] [] row')
          else rbind (jvalue_str cap ''repository'' []) (\<lambda>repo.
            rbind (jvalue_str cap ''stream_id'' []) (\<lambda>stream.
            Inr (set2 (repository_key repo) stream (set2 [] [] row'))))))"
    if "jok row'" "jfind row' ''metadata_json'' = jfind row ''metadata_json''" for row'
    unfolding upgrade_row_def Let_def set2_def using same[OF that] m(2) that(1)
    by simp
  note r = assms(2)[unfolded up[OF assms(1) refl]]
  show ?thesis
  proof (cases "is_object cap \<and> jvalue_int cap ''version'' 0 = Inr 2")
    case True
    with r obtain repo stream where rs: "jvalue_str cap ''repository'' [] = Inr repo"
      "jvalue_str cap ''stream_id'' [] = Inr stream"
      by (auto simp: rbind_eq_Inr)
    from True rs have "upgrade_row lib ''thread_sessions'' row' = Inr (set2 (repository_key repo) stream row')"
      if "jok row'" "jfind row' ''metadata_json'' = jfind row ''metadata_json''" for row'
      by (simp add: up[OF that] set2_set2 that(1))
    with this[OF assms(1) refl] assms(2) show ?thesis by auto
  next
    case False
    with r have "\<not> is_object cap \<or> (\<exists>v. jvalue_int cap ''version'' 0 = Inr v \<and> v \<noteq> 2)"
      by (auto simp: rbind_eq_Inr split: if_splits)
    then have "upgrade_row lib ''thread_sessions'' row' = Inr (set2 [] [] row')"
      if "jok row'" "jfind row' ''metadata_json'' = jfind row ''metadata_json''" for row'
      by (auto simp: up[OF that])
    with this[OF assms(1) refl] assms(2) show ?thesis by auto
  qed
qed

lemma upgrade_facts:
  assumes "jcan row" and "upgrade_row lib tb row = Inr r"
  shows "jcan r" "is_object r = is_object row" "upgrade_row lib tb r = Inr r"
    and "(row = JNull) = (r = JNull)"
    and "k \<noteq> ''stream_id'' \<Longrightarrow> k \<noteq> ''repository'' \<Longrightarrow> jfind r k = jfind row k"
    and "tb \<noteq> ''thread_sessions'' \<Longrightarrow> r = row"
proof -
  have A: "r = row \<or> (tb = ''thread_sessions'' \<and> jok row)"
    using assms by (cases "tb = ''thread_sessions''"; cases "is_object row") (auto simp: jok_iff)
  have B: "jcan r \<and> is_object r = is_object row \<and> upgrade_row lib tb r = Inr r \<and>
     ((row = JNull) = (r = JNull)) \<and>
     (k \<noteq> ''stream_id'' \<longrightarrow> k \<noteq> ''repository'' \<longrightarrow> jfind r k = jfind row k)"
  proof (cases "tb = ''thread_sessions'' \<and> jok row")
    case True
    with upgrade_shape[of row lib r] assms(2) obtain p s where
      r: "r = set2 p s row" and up: "\<And>row'. jok row' \<Longrightarrow>
        jfind row' ''metadata_json'' = jfind row ''metadata_json'' \<Longrightarrow>
       upgrade_row lib ''thread_sessions'' row' = Inr (set2 p s row')" by auto
    have "jok r" "row \<noteq> JNull" "r \<noteq> JNull" using True r jok_neq_null[of row] jok_neq_null[of r] by auto
    with up[of r] True r show ?thesis
      by (auto simp: set2_set2 dest: jok_object intro: jok_jcan)
  next
    case False
    with A have "r = row" by auto
    with assms show ?thesis by simp
  qed
  then show "jcan r" "is_object r = is_object row" "upgrade_row lib tb r = Inr r"
    "(row = JNull) = (r = JNull)"
    "k \<noteq> ''stream_id'' \<Longrightarrow> k \<noteq> ''repository'' \<Longrightarrow> jfind r k = jfind row k" by auto
  show "tb \<noteq> ''thread_sessions'' \<Longrightarrow> r = row" using A by auto
qed

section \<open>Collected changes\<close>

definition good_change :: "jlib \<Rightarrow> change \<Rightarrow> bool" where
  "good_change lib c = (jcan (c_row c) \<and> upgrade_row lib (c_table c) (c_row c) = Inr (c_row c))"

lemma mk_change_good:
  assumes "mk_change lib tb i row = Inr c" and "jcan row"
  shows "good_change lib c" "c_table c = tb" "c_id c = i" "(c_row c = JNull) = (row = JNull)"
    and "k \<noteq> ''stream_id'' \<Longrightarrow> k \<noteq> ''repository'' \<Longrightarrow> jfind (c_row c) k = jfind row k"
    and "tb \<noteq> ''thread_sessions'' \<Longrightarrow> c_row c = row"
proof -
  from assms(1) obtain r where r: "upgrade_row lib tb row = Inr r" "c = \<lparr>c_table = tb, c_id = i, c_row = r\<rparr>"
    by (auto simp: mk_change_def rbind_eq_Inr)
  note up = upgrade_facts[OF assms(2) r(1)]
  show "good_change lib c" "c_table c = tb" "c_id c = i" "(c_row c = JNull) = (row = JNull)"
    using up(1,3,4) by (simp_all add: r(2) good_change_def)
  show "jfind (c_row c) k = jfind row k" if "k \<noteq> ''stream_id''" "k \<noteq> ''repository''"
    using up(5)[OF that] by (simp add: r(2))
  show "c_row c = row" if "tb \<noteq> ''thread_sessions''"
    using up(6)[OF that] by (simp add: r(2))
qed

lemma jcan_jset [simp]: "jcan j \<Longrightarrow> jcan (jset k v j)"
  by (cases j) (auto simp: jcan_def om_inv_Cons)

lemma jcan_merge_fields [simp]: "jcan row \<Longrightarrow> jcan (merge_fields fs ks row)"
  unfolding merge_fields_def by (induction ks arbitrary: row) (auto split: option.splits)

text \<open>The row an import carries is an object in canonical form.\<close>

definition args_ok :: "json \<Rightarrow> bool" where
  "args_ok a = (\<forall>v. jfind a ''row'' = Some v \<longrightarrow> jcan v)"

lemma args_ok_code [code]: "args_ok a = (case jfind a ''row'' of None \<Rightarrow> True | Some v \<Rightarrow> jcan v)"
  by (simp add: args_ok_def split: option.split)

lemma lrow_can: "wf_ledger lib L \<Longrightarrow> lrow L tb i = Inr r \<Longrightarrow> jcan r"
  by (drule lrow_Inr) (auto dest: row_of_jok intro: jok_jcan split: option.splits)

lemma lselect_rows:
  assumes "wf_ledger lib L" and "lselect lib L ''thread_leases'' [(''session_id'', v)] = Inr rs" and "r \<in> set rs"
  shows "jok r \<and> (\<exists>w. jfind r ''session_id'' = Some w \<and> jeq w v) \<and> (\<exists>i. row_of L ''thread_leases'' i = Some r)"
proof -
  have sc: "schema ''thread_leases'' = Some (''thread_id'', [''session_id''])" by (simp add: schema_def)
  from wf_ledgerD[OF assms(1) sc] obtain t where t: "om_get (l_tables L) ''thread_leases'' = Some t"
    "wf_table lib t" "om_keys (t_indexes t) = [''session_id'']" by blast
  from table_select_scan[OF t(2), of "[(''session_id'', v)]"] t(1,3) assms(2,3)
  have "r \<in> set (scan_select [(''session_id'', v)] t)" by (simp add: lselect_def table_at_def)
  then obtain i where i: "(i, r) \<in> set (t_rows t)" and sat: "row_sat [(''session_id'', v)] r"
    by (auto simp: scan_select_def)
  from i wf_tableD(1)[OF t(2)] have "om_get (t_rows t) i = Some r" by (simp add: om_get_Some_iff)
  with t(1) have ro: "row_of L ''thread_leases'' i = Some r" by (simp add: row_of_def)
  with row_of_jok[OF assms(1) ro] sat show ?thesis by (auto simp: row_sat_def)
qed

lemma res_map_all:
  assumes "res_map f xs = Inr ys" and "\<And>x y. x \<in> set xs \<Longrightarrow> f x = Inr y \<Longrightarrow> P y" and "y \<in> set ys"
  shows "P y"
proof -
  from assms(1) have l2: "list_all2 (\<lambda>x y. f x = Inr y) xs ys" by (simp add: res_map_Inr_iff)
  from assms(3) obtain k where "k < length ys" "y = ys ! k" by (auto simp: in_set_conv_nth)
  with l2 have "f (xs ! k) = Inr y" "xs ! k \<in> set xs" by (auto simp: list_all2_conv_all_nth)
  with assms(2) show ?thesis by blast
qed

section \<open>Every operation collects canonical changes\<close>

lemma jcan_new_session [simp]: "jcan (new_session_row i ts)"
  by (simp add: new_session_row_def)

lemma set_nonempty_can: "set_nonempty a k r = Inr r' \<Longrightarrow> jcan r \<Longrightarrow> jcan r'"
  by (auto simp: set_nonempty_def rbind_eq_Inr split: if_splits)

lemma bind_thread_can: "bind_thread L a r = Inr r' \<Longrightarrow> jcan r \<Longrightarrow> jcan r'"
  by (auto simp: bind_thread_def rbind_eq_Inr split: option.splits if_splits)

lemma put_thread_good:
  "put_thread lib L i row = Inr (r, cs) \<Longrightarrow> jcan row \<Longrightarrow>
     \<exists>c. cs = [c] \<and> good_change lib c \<and> c_table c = ''threads''"
  by (auto simp: put_thread_def rbind_eq_Inr dest: mk_change_good(1,2))

lemma touch_lease_good:
  assumes "touch_lease lib ts close lease = Inr c" and "jok lease"
  shows "good_change lib c" "c_table c = ''thread_leases''" "jfind lease ''thread_id'' = Some (JStr (c_id c))"
    and "c_row c = (if close then JNull
       else jset ''expires_at'' (JFloat (ts + 900)) (jset ''last_heartbeat_at'' (JFloat ts) lease))"
proof -
  from assms(1) obtain tid where t: "jidx lease ''thread_id'' = JStr tid"
    and m: "mk_change lib ''thread_leases'' tid (if close then JNull
       else jset ''expires_at'' (JFloat (ts + 900)) (jset ''last_heartbeat_at'' (JFloat ts) lease)) = Inr c"
    by (auto simp: touch_lease_def rbind_eq_Inr split: if_splits)
  have can: "jcan (if close then JNull
       else jset ''expires_at'' (JFloat (ts + 900)) (jset ''last_heartbeat_at'' (JFloat ts) lease))"
    using jok_jcan[OF assms(2)] by simp
  note g = mk_change_good[OF m can]
  show "good_change lib c" "c_table c = ''thread_leases''" using g(1,2) .
  show "jfind lease ''thread_id'' = Some (JStr (c_id c))"
    using t g(3) by (auto simp: jidx_def split: option.splits)
  show "c_row c = (if close then JNull
       else jset ''expires_at'' (JFloat (ts + 900)) (jset ''last_heartbeat_at'' (JFloat ts) lease))"
    using g(6) by simp
qed

lemma touch_session_split:
  assumes wf: "wf_ledger lib L" and t: "touch_session lib L ts sid close st = Inr (b, cs)"
  shows "\<exists>cs1 cs2 leases. cs = cs1 @ cs2
    \<and> (\<forall>c \<in> set cs1. good_change lib c \<and> c_table c = ''thread_sessions'' \<and> c_id c = sid)
    \<and> lselect lib L ''thread_leases'' [(''session_id'', JStr sid)] = Inr leases
    \<and> res_map (touch_lease lib ts close) leases = Inr cs2 \<and> (\<forall>r \<in> set leases. jok r)"
proof -
  from t obtain row cs1 leases cs2 where
    row: "lrow L ''thread_sessions'' sid = Inr row"
    and cs1: "(if row = JNull then Inr [] else rbind (mk_change lib ''thread_sessions'' sid
                   (jset ''ended_at'' (if close then JFloat ts else JNull)
                     (jset ''status'' (JStr st) (jset ''last_active_at'' (JFloat ts) row))))
                   (\<lambda>c. Inr [c])) = Inr cs1"
    and ls: "lselect lib L ''thread_leases'' [(''session_id'', JStr sid)] = Inr leases"
    and cs2: "res_map (touch_lease lib ts close) leases = Inr cs2" and cs: "cs = cs1 @ cs2"
    unfolding touch_session_def by (auto simp: rbind_eq_Inr)
  have "jcan row" using lrow_can[OF wf row] .
  with cs1 have "\<forall>c \<in> set cs1. good_change lib c \<and> c_table c = ''thread_sessions'' \<and> c_id c = sid"
    by (auto simp: rbind_eq_Inr split: if_splits dest: mk_change_good(1,2,3))
  with cs ls cs2 lselect_rows[OF wf ls] show ?thesis by blast
qed

lemma touch_session_good:
  assumes "wf_ledger lib L" and "touch_session lib L ts sid close st = Inr (b, cs)" and "c \<in> set cs"
  shows "good_change lib c"
proof -
  from touch_session_split[OF assms(1,2)] obtain cs1 cs2 leases where
    s: "cs = cs1 @ cs2" "\<forall>c \<in> set cs1. good_change lib c"
    "res_map (touch_lease lib ts close) leases = Inr cs2" "\<forall>r \<in> set leases. jok r" by blast
  show ?thesis
  proof (cases "c \<in> set cs1")
    case True
    with s(2) show ?thesis by blast
  next
    case False
    with assms(3) s(1) have "c \<in> set cs2" by simp
    then show ?thesis by (rule res_map_all[OF s(3), rotated]) (use s(4) touch_lease_good(1) in blast)
  qed
qed

lemma read_ops_no_change:
  "op_row_get L tb arg a = Inr (r, cs) \<Longrightarrow> cs = []"
  "op_artifact_lineage L a = Inr (r, cs) \<Longrightarrow> cs = []"
  "op_counts L = Inr (r, cs) \<Longrightarrow> cs = []"
  "op_list lib L opn a ts = Inr (r, cs) \<Longrightarrow> cs = []"
  by (auto simp: op_row_get_def op_artifact_lineage_def op_counts_def op_list_def
      rbind_eq_Inr case_prod_beta Let_def split: option.splits)

lemma dispatch_good:
  assumes wf: "wf_ledger lib L" and a: "args_ok a" and d: "dispatch lib L opn a ts = Inr (r, cs)"
    and c: "c \<in> set cs"
  shows "good_change lib c"
proof -
  have can: "jcan row" if "lrow L tb i = Inr row" for tb i row using lrow_can[OF wf that] .
  have create: "good_change lib c" if "op_thread_create lib L a ts = Inr (r, cs)"
    using that c by (auto simp: op_thread_create_def rbind_eq_Inr split: if_splits dest: mk_change_good(1))
  have upd: "good_change lib c" if "op_thread_update lib L a ts = Inr (r, cs)"
    using that c can by (auto simp: op_thread_update_def rbind_eq_Inr split: if_splits dest!: put_thread_good)
  have seal: "good_change lib c" if "op_thread_seal lib L a ts = Inr (r, cs)"
    using that c can by (auto simp: op_thread_seal_def rbind_eq_Inr split: if_splits dest!: put_thread_good)
  have bind: "good_change lib c" if op: "op_session_bind lib L a ts = Inr (r, cs)"
  proof -
    from op c obtain i old row row1 ms st where
      b: "lrow L ''thread_sessions'' i = Inr old"
      "res_fold (set_nonempty a) [''client'', ''project_dir'', ''transcript_path'']
          (if old = JNull then new_session_row i ts else old) = Inr row"
      "bind_thread L a row = Inr row1"
      "mk_change lib ''thread_sessions'' i
          (jset ''ended_at'' JNull (jset ''last_active_at'' (JFloat ts)
            (jset ''status'' (JStr st)
              (jset ''metadata_json'' (JStr (jdump lib (merged_metadata lib a ms))) row1)))) = Inr c"
      unfolding op_session_bind_def
      by (auto simp: rbind_eq_Inr simp del: res_fold.simps split: if_splits)
    have "jcan (if old = JNull then new_session_row i ts else old)" using can[OF b(1)] by simp
    with b(2) have "jcan row" by (rule res_fold_invariant) (rule set_nonempty_can)
    with b(3) have "jcan row1" by (rule bind_thread_can)
    with mk_change_good(1)[OF b(4)] show ?thesis by simp
  qed
  have touch: "good_change lib c" if "op_session_touch lib L close a ts = Inr (r, cs)" for close
    using that c unfolding op_session_touch_def
    by (auto simp: rbind_eq_Inr Let_def dest: touch_session_good[OF wf])
  have claim: "good_change lib c" if "op_lease_claim lib L a ts = Inr (r, cs)"
    using that c can unfolding op_lease_claim_def
    by (auto simp: rbind_eq_Inr Let_def split: if_splits dest!: mk_change_good(1))
  have rel: "good_change lib c" if "op_lease_release lib L a = Inr (r, cs)"
  proof -
    from that obtain leases where
      m: "res_map (\<lambda>row. rbind (get_string (jidx row ''thread_id'')) (\<lambda>tid.
              mk_change lib ''thread_leases'' tid JNull)) leases = Inr cs"
      by (auto simp: op_lease_release_def rbind_eq_Inr)
    show ?thesis
      by (rule res_map_all[OF m _ c]) (auto simp: rbind_eq_Inr dest: mk_change_good(1))
  qed
  have push: "good_change lib c" if "op_inbox_push lib L a ts = Inr (r, cs)"
    using that c unfolding op_inbox_push_def
    by (auto simp: rbind_eq_Inr split: if_splits dest: mk_change_good(1))
  have ack: "good_change lib c" if "op_inbox_ack lib L a ts = Inr (r, cs)"
    using that c can unfolding op_inbox_ack_def
    by (auto simp: rbind_eq_Inr split: if_splits dest!: mk_change_good(1))
  have reg: "good_change lib c" if "op_artifact_register lib L a ts = Inr (r, cs)"
    using that c unfolding op_artifact_register_def
    by (auto simp: rbind_eq_Inr split: if_splits dest: mk_change_good(1))
  have link: "good_change lib c" if "op_artifact_link lib L a = Inr (r, cs)"
    using that c can unfolding op_artifact_link_def
    by (auto simp: rbind_eq_Inr split: if_splits dest!: mk_change_good(1))
  have imp: "good_change lib c" if "op_import lib L a = Inr (r, cs)"
    using that c a unfolding op_import_def
    by (auto simp: rbind_eq_Inr jat_eq_Inr args_ok_def split: if_splits dest: mk_change_good(1))
  have ro: "cs = []" if "op_row_get L tb arg a = Inr (r, cs) \<or> op_artifact_lineage L a = Inr (r, cs)
      \<or> op_counts L = Inr (r, cs) \<or> op_list lib L opn a ts = Inr (r, cs)" for tb arg
    using that read_ops_no_change by blast
  show ?thesis
    using d c ro create upd seal bind touch claim rel push ack reg link imp
    unfolding dispatch_def by (fastforce split: if_splits)
qed

end
