(* ===== verification/Task_Ledger_Effect.thy ===== *)
theory Task_Ledger_Effect
  imports Task_Ledger_Facts
begin

text \<open>
  What publishing a validated batch does: validation makes a canonical row fit its
  table, applying a fitting change never throws and changes exactly one row, and so
  \<open>finish\<close> either leaves the ledger alone or moves it to the ledger whose rows are the
  last change of the batch.
\<close>

section \<open>Validation\<close>

definition fits :: "jlib \<Rightarrow> change \<Rightarrow> bool" where
  "fits lib c = (upgrade_row lib (c_table c) (c_row c) = Inr (c_row c) \<and>
     (\<exists>k flds. schema (c_table c) = Some (k, flds) \<and> (c_row c = JNull \<or> row_ok flds (c_row c))))"

lemma res_fold_unit_all:
  "res_fold (\<lambda>k _. f k) ks () = Inr u \<longleftrightarrow> (\<forall>k \<in> set ks. f k = Inr ())"
  by (induction ks) (auto simp: rbind_eq_Inr)

lemma check_column_string:
  assumes "check_column row k = Inr u" and "k \<notin> set numeric_columns"
  shows "\<exists>w. jfind row k = Some w \<and> (w = JNull \<or> is_string w)"
  using assms by (auto simp: check_column_def split: option.splits if_splits)

lemma schema_columns:
  assumes "schema tb = Some (k, flds)" and "columns tb = Inr cols" and "f \<in> set flds"
  shows "f \<in> set cols" "f \<notin> set numeric_columns"
proof -
  consider "tb = ''threads''" | "tb = ''thread_sessions''" | "tb = ''thread_leases''"
    | "tb = ''inbox''" | "tb = ''artifacts''"
    using assms(1) by (auto simp: schema_def split: if_splits)
  then have "f \<in> set cols \<and> f \<notin> set numeric_columns"
    by cases (use assms in \<open>auto simp: schema_def columns_def numeric_columns_def\<close>)
  then show "f \<in> set cols" "f \<notin> set numeric_columns" by auto
qed

lemma validate_row_fits:
  assumes "wf_ledger lib L" and "validate_row L (c_table c) (c_id c) (c_row c) = Inr u"
    and "good_change lib c" and "schema (c_table c) \<noteq> None"
  shows "fits lib c"
proof -
  from assms(4) obtain k flds where sc: "schema (c_table c) = Some (k, flds)" by auto
  have "row_ok flds (c_row c)" if nn: "c_row c \<noteq> JNull"
  proof -
    from assms(2) nn obtain cols where cols: "columns (c_table c) = Inr cols" "is_object (c_row c)"
      "\<forall>k \<in> set cols. check_column (c_row c) k = Inr ()"
      by (auto simp: validate_row_def rbind_eq_Inr res_fold_unit_all)
    have "jok (c_row c)" using assms(3) cols(2) by (simp add: good_change_def jok_iff)
    moreover have "\<exists>w. jfind (c_row c) f = Some w \<and> (w = JNull \<or> is_string w)" if "f \<in> set flds" for f
      using check_column_string schema_columns[OF sc cols(1) that] cols(3) by blast
    ultimately show ?thesis by (simp add: row_ok_def)
  qed
  with sc assms(3) show ?thesis by (auto simp: fits_def good_change_def)
qed

text \<open>A change is only validated for a table the ledger has.\<close>

lemma validate_row_table:
  assumes "wf_ledger lib L" and "validate_row L tb i row = Inr u" and "row \<noteq> JNull"
  shows "schema tb \<noteq> None"
  using assms by (auto simp: validate_row_def rbind_eq_Inr dest: table_at_schema)

section \<open>Applying changes\<close>

definition row_after :: "change list \<Rightarrow> string \<Rightarrow> string \<Rightarrow> json option \<Rightarrow> json option" where
  "row_after cs tb i old =
     fold (\<lambda>c q. if c_table c = tb \<and> c_id c = i
                 then (if c_row c = JNull then None else Some (c_row c)) else q) cs old"

lemma row_after_simps [simp]:
  "row_after [] tb i q = q"
  "row_after (c # cs) tb i q = row_after cs tb i
     (if c_table c = tb \<and> c_id c = i then (if c_row c = JNull then None else Some (c_row c)) else q)"
  by (simp_all add: row_after_def)

lemma row_after_append: "row_after (cs @ cs') tb i q = row_after cs' tb i (row_after cs tb i q)"
  by (simp add: row_after_def)

lemma row_after_untouched:
  "\<forall>c \<in> set cs. \<not> (c_table c = tb \<and> c_id c = i) \<Longrightarrow> row_after cs tb i q = q"
  by (induction cs arbitrary: q) auto

lemma apply_change_total:
  assumes wf: "wf_ledger lib L" and c: "fits lib c"
  shows "\<exists>L'. apply_change lib c L = Inr L' \<and> wf_ledger lib L' \<and> l_revision L' = l_revision L
    \<and> (\<forall>tb i. row_of L' tb i = row_after [c] tb i (row_of L tb i))"
proof -
  from c obtain k flds where sc: "schema (c_table c) = Some (k, flds)"
    and row: "c_row c = JNull \<or> row_ok flds (c_row c)"
    and up: "upgrade_row lib (c_table c) (c_row c) = Inr (c_row c)" by (auto simp: fits_def)
  from wf_ledgerD[OF wf sc] obtain t where t: "om_get (l_tables L) (c_table c) = Some t"
    "wf_table lib t" "t_key t = k" "om_keys (t_indexes t) = flds" by blast
  from table_put_total[OF t(2)] row t(4) obtain t' where t':
    "table_put lib (c_id c) (c_row c) t = Inr t'" "wf_table lib t'"
    "t_rows t' = put_rows (c_id c) (c_row c) (t_rows t)" "t_key t' = k" "om_keys (t_indexes t') = flds"
    using t(3) by metis
  define L' where "L' = L\<lparr>l_tables := om_put (c_table c) t' (l_tables L)\<rparr>"
  have inv: "om_inv (l_tables L)" using wf by (rule wf_ledger_inv)
  have "apply_change lib c L = Inr L'"
    using t(1) up t'(1) by (simp add: apply_change_def table_at_def L'_def)
  moreover have "wf_ledger lib L'"
    unfolding wf_ledger_def
  proof (intro conjI allI)
    show "om_inv (l_tables L')" using inv by (simp add: L'_def)
    fix n
    have "case schema n of
             None \<Rightarrow> om_get (l_tables L) n = None
           | Some (k, flds) \<Rightarrow> \<exists>t. om_get (l_tables L) n = Some t \<and> wf_table lib t
               \<and> t_key t = k \<and> om_keys (t_indexes t) = flds"
      using wf unfolding wf_ledger_def by blast
    then show "case schema n of
             None \<Rightarrow> om_get (l_tables L') n = None
           | Some (k, flds) \<Rightarrow> \<exists>t. om_get (l_tables L') n = Some t \<and> wf_table lib t
               \<and> t_key t = k \<and> om_keys (t_indexes t) = flds"
      using sc t' inv by (cases "n = c_table c") (auto simp: L'_def split: option.splits)
  qed
  moreover have "row_of L' tb i = row_after [c] tb i (row_of L tb i)" for tb i
    using t(1) t'(3) inv wf_tableD(1)[OF t(2)] by (auto simp: row_of_def L'_def)
  ultimately show ?thesis by (auto simp: L'_def)
qed

lemma apply_changes_total:
  assumes "wf_ledger lib L" and "\<forall>c \<in> set cs. fits lib c"
  shows "\<exists>L'. res_fold (apply_change lib) cs L = Inr L' \<and> wf_ledger lib L' \<and> l_revision L' = l_revision L
    \<and> (\<forall>tb i. row_of L' tb i = row_after cs tb i (row_of L tb i))"
  using assms
proof (induction cs arbitrary: L)
  case Nil
  then show ?case by simp
next
  case (Cons c cs)
  from apply_change_total[OF Cons.prems(1)] Cons.prems(2) obtain L1 where
    L1: "apply_change lib c L = Inr L1" "wf_ledger lib L1" "l_revision L1 = l_revision L"
    "\<forall>tb i. row_of L1 tb i = row_after [c] tb i (row_of L tb i)" by (metis list.set_intros(1))
  from Cons.IH[OF L1(2)] Cons.prems(2) obtain L' where
    "res_fold (apply_change lib) cs L1 = Inr L'" "wf_ledger lib L'" "l_revision L' = l_revision L1"
    "\<forall>tb i. row_of L' tb i = row_after cs tb i (row_of L1 tb i)" by auto
  with L1 show ?case by auto
qed

lemma wf_ledger_revision: "wf_ledger lib (L\<lparr>l_revision := n\<rparr>) = wf_ledger lib L"
  by (simp add: wf_ledger_def cong: option.case_cong)

lemma row_of_revision [simp]: "row_of (L\<lparr>l_revision := n\<rparr>) = row_of L"
  by (simp add: row_of_def fun_eq_iff)

section \<open>The effect of an operation\<close>

definition batch_of :: "ledger \<Rightarrow> change list \<Rightarrow> batch" where
  "batch_of L cs = \<lparr>b_revision = l_revision L + 1, b_changes = cs\<rparr>"

lemma finish_Nil [simp]: "finish lib persist L r [] = Inr (r, L, None)"
  by (simp add: finish_def)

lemma finish_Inr:
  assumes wf: "wf_ledger lib L" and good: "\<forall>c \<in> set cs. good_change lib c \<and> schema (c_table c) \<noteq> None"
    and f: "finish lib persist L r cs = Inr (r', L', ob)"
  shows "r' = r" and "wf_ledger lib L'"
    and "row_of L' tb i = row_after cs tb i (row_of L tb i)"
    and "cs = [] \<Longrightarrow> L' = L \<and> ob = None"
    and "cs \<noteq> [] \<Longrightarrow> ob = Some (batch_of L cs) \<and> persist (batch_of L cs)
           \<and> replay_locked lib (batch_of L cs) L = Inr L'
           \<and> l_revision L' = max (l_revision L) (l_revision L + 1)"
proof -
  have A: "r' = r \<and> wf_ledger lib L' \<and> (\<forall>tb i. row_of L' tb i = row_after cs tb i (row_of L tb i))
     \<and> ob = Some (batch_of L cs) \<and> persist (batch_of L cs) \<and> replay_locked lib (batch_of L cs) L = Inr L'
     \<and> l_revision L' = max (l_revision L) (l_revision L + 1)"
    if ne: "cs \<noteq> []"
  proof -
    from f ne have v: "\<forall>c \<in> set cs. validate_row L (c_table c) (c_id c) (c_row c) = Inr ()"
      by (auto simp: finish_def rbind_eq_Inr Let_def res_fold_unit_all split: if_splits)
    then have "\<forall>c \<in> set cs. fits lib c" using validate_row_fits[OF wf] good by blast
    from apply_changes_total[OF wf this] obtain L1 where
      L1: "res_fold (apply_change lib) cs L = Inr L1" "wf_ledger lib L1" "l_revision L1 = l_revision L"
      "\<forall>tb i. row_of L1 tb i = row_after cs tb i (row_of L tb i)" by blast
    from L1(1,3) have rep: "replay_locked lib (batch_of L cs) L
        = Inr (L1\<lparr>l_revision := max (l_revision L) (l_revision L + 1)\<rparr>)"
      by (simp add: replay_locked_def batch_of_def)
    with f ne have "r' = r" "persist (batch_of L cs)" "ob = Some (batch_of L cs)"
      "L' = L1\<lparr>l_revision := max (l_revision L) (l_revision L + 1)\<rparr>"
      by (auto simp: finish_def rbind_eq_Inr Let_def batch_of_def split: if_splits)
    with L1 rep show ?thesis by (simp add: wf_ledger_revision)
  qed
  have B: "r' = r \<and> L' = L \<and> ob = None" if "cs = []" using f that by simp
  show "r' = r" using A B by blast
  show "wf_ledger lib L'" using A B wf by (cases "cs = []") auto
  show "row_of L' tb i = row_after cs tb i (row_of L tb i)" using A B by (cases "cs = []") auto
  show "cs = [] \<Longrightarrow> L' = L \<and> ob = None" using B by blast
  show "cs \<noteq> [] \<Longrightarrow> ob = Some (batch_of L cs) \<and> persist (batch_of L cs)
           \<and> replay_locked lib (batch_of L cs) L = Inr L'
           \<and> l_revision L' = max (l_revision L) (l_revision L + 1)" using A by blast
qed

text \<open>The tables an operation writes to: each of the five, and for an import the named one.\<close>

lemma import_schema:
  assumes wf: "wf_ledger lib L" and op: "op_import lib L a = Inr (r, cs)" and c: "c \<in> set cs"
    and a: "args_ok a"
  shows "schema (c_table c) \<noteq> None" and "row_of L (c_table c) (c_id c) = None"
proof -
  from op c a obtain tb t row i where t: "table_at L tb = Inr t" and new: "table_get t i = JNull"
    and m: "mk_change lib tb i row = Inr c" and row: "jcan row"
    by (auto simp: op_import_def rbind_eq_Inr jat_eq_Inr args_ok_def split: if_splits)
  note g = mk_change_good(2,3)[OF m row]
  from table_at_schema[OF wf t] g show "schema (c_table c) \<noteq> None" by auto
  from t new g have "row_of L (c_table c) (c_id c) \<in> {None, Some JNull}"
    by (auto simp: row_of_def table_at_def table_get_def split: option.splits)
  then show "row_of L (c_table c) (c_id c) = None"
    using row_of_jok[OF wf, of "c_table c" "c_id c" JNull] by (auto simp: jok_def)
qed

end
