(* ===== verification/Task_Ledger_Reach.thy ===== *)
theory Task_Ledger_Reach
  imports Task_Ledger_Effect
begin

text \<open>
  The ledgers a sequence of operations reaches, together with the journal of batches
  handed to the persistence callback on the way, and what holds of all of them: the
  table invariant, and that every stored row still passes the validation it passed when
  it was written.
\<close>

section \<open>The tables an operation writes\<close>

lemma mk_change_table: "mk_change lib tb i row = Inr c \<Longrightarrow> c_table c = tb \<and> c_id c = i"
  by (auto simp: mk_change_def rbind_eq_Inr)

lemma put_thread_table:
  "put_thread lib L i row = Inr (r, cs) \<Longrightarrow> c \<in> set cs \<Longrightarrow> c_table c = ''threads'' \<and> c_id c = i"
  by (auto simp: put_thread_def rbind_eq_Inr dest: mk_change_table)

lemma touch_lease_table: "touch_lease lib ts close row = Inr c \<Longrightarrow> c_table c = ''thread_leases''"
  by (auto simp: touch_lease_def rbind_eq_Inr split: if_splits dest: mk_change_table)

lemma touch_session_table:
  assumes "wf_ledger lib L" and "touch_session lib L ts sid close st = Inr (b, cs)" and "c \<in> set cs"
  shows "c_table c = ''thread_sessions'' \<and> c_id c = sid \<or> c_table c = ''thread_leases''"
proof -
  from touch_session_split[OF assms(1,2)] obtain cs1 cs2 leases where "cs = cs1 @ cs2"
    "\<forall>c \<in> set cs1. c_table c = ''thread_sessions'' \<and> c_id c = sid"
    and cs2: "res_map (touch_lease lib ts close) leases = Inr cs2" by blast
  with res_map_all[OF cs2, of "\<lambda>c. c_table c = ''thread_leases''"] touch_lease_table assms(3)
  show ?thesis by auto
qed

lemma release_table:
  assumes "op_lease_release lib L a = Inr (r, cs)" and "c \<in> set cs"
  shows "c_table c = ''thread_leases''"
proof -
  from assms(1) obtain leases where
    m: "res_map (\<lambda>row. rbind (get_string (jidx row ''thread_id'')) (\<lambda>tid.
            mk_change lib ''thread_leases'' tid JNull)) leases = Inr cs"
    by (auto simp: op_lease_release_def rbind_eq_Inr)
  show ?thesis by (rule res_map_all[OF m _ assms(2)]) (auto simp: rbind_eq_Inr dest: mk_change_table)
qed

text \<open>
  Which operations write to which table; every other pair of an operation and a table
  leaves the table alone.
\<close>

definition writes :: "string \<Rightarrow> string list" where
  "writes opn =
     (if opn \<in> set [''thread_create'', ''thread_update'', ''thread_seal''] then [''threads'']
      else if opn = ''session_bind'' then [''thread_sessions'']
      else if opn \<in> set [''session_touch'', ''session_close'', ''lease_claim'']
        then [''thread_sessions'', ''thread_leases'']
      else if opn = ''lease_release'' then [''thread_leases'']
      else if opn \<in> set [''inbox_push'', ''inbox_ack''] then [''inbox'']
      else if opn \<in> set [''artifact_register'', ''artifact_link''] then [''artifacts'']
      else if opn = ''import'' then [''threads'', ''thread_sessions'', ''thread_leases'', ''inbox'', ''artifacts'']
      else [])"

lemma schema_names:
  "schema tb \<noteq> None \<longleftrightarrow> tb \<in> set [''threads'', ''thread_sessions'', ''thread_leases'', ''inbox'', ''artifacts'']"
  by (auto simp: schema_def)

lemma dispatch_writes:
  assumes wf: "wf_ledger lib L" and a: "args_ok a" and d: "dispatch lib L opn a ts = Inr (r, cs)"
    and c: "c \<in> set cs"
  shows "c_table c \<in> set (writes opn)"
proof -
  have create: "c_table c = ''threads''" if "op_thread_create lib L a ts = Inr (r, cs)"
    using that c by (auto simp: op_thread_create_def rbind_eq_Inr split: if_splits dest: mk_change_table)
  have upd: "c_table c = ''threads''" if "op_thread_update lib L a ts = Inr (r, cs)"
    using that c by (auto simp: op_thread_update_def rbind_eq_Inr split: if_splits dest: put_thread_table)
  have seal: "c_table c = ''threads''" if "op_thread_seal lib L a ts = Inr (r, cs)"
    using that c by (auto simp: op_thread_seal_def rbind_eq_Inr split: if_splits dest: put_thread_table)
  have bind: "c_table c = ''thread_sessions''" if "op_session_bind lib L a ts = Inr (r, cs)"
    using that c unfolding op_session_bind_def
    by (auto simp: rbind_eq_Inr simp del: res_fold.simps split: if_splits dest: mk_change_table)
  have touch: "c_table c \<in> {''thread_sessions'', ''thread_leases''}"
    if "op_session_touch lib L close a ts = Inr (r, cs)" for close
    using that c unfolding op_session_touch_def
    by (auto simp: rbind_eq_Inr Let_def dest: touch_session_table[OF wf])
  have claim: "c_table c \<in> {''thread_sessions'', ''thread_leases''}" if "op_lease_claim lib L a ts = Inr (r, cs)"
    using that c unfolding op_lease_claim_def
    by (auto simp: rbind_eq_Inr Let_def split: if_splits dest!: mk_change_table)
  have push: "c_table c = ''inbox''" if "op_inbox_push lib L a ts = Inr (r, cs)"
    using that c unfolding op_inbox_push_def
    by (auto simp: rbind_eq_Inr split: if_splits dest: mk_change_table)
  have ack: "c_table c = ''inbox''" if "op_inbox_ack lib L a ts = Inr (r, cs)"
    using that c unfolding op_inbox_ack_def
    by (auto simp: rbind_eq_Inr split: if_splits dest!: mk_change_table)
  have reg: "c_table c = ''artifacts''" if "op_artifact_register lib L a ts = Inr (r, cs)"
    using that c unfolding op_artifact_register_def
    by (auto simp: rbind_eq_Inr split: if_splits dest: mk_change_table)
  have link: "c_table c = ''artifacts''" if "op_artifact_link lib L a = Inr (r, cs)"
    using that c unfolding op_artifact_link_def
    by (auto simp: rbind_eq_Inr split: if_splits dest!: mk_change_table)
  have imp: "schema (c_table c) \<noteq> None" if "op_import lib L a = Inr (r, cs)"
    by (rule import_schema(1)[OF wf that c a])
  have ro: False if "op_row_get L tb arg a = Inr (r, cs)" for tb arg
    using read_ops_no_change(1)[OF that] c by simp
  have ro': False if "op_artifact_lineage L a = Inr (r, cs)"
    using read_ops_no_change(2)[OF that] c by simp
  have ro'': False if "op_counts L = Inr (r, cs)"
    using read_ops_no_change(3)[OF that] c by simp
  have ro3: False if "op_list lib L opn a ts = Inr (r, cs)"
    using read_ops_no_change(4)[OF that] c by simp
  have rel: "c_table c = ''thread_leases''" if "op_lease_release lib L a = Inr (r, cs)"
    using release_table[OF that c] .
  show ?thesis
    using d unfolding dispatch_def writes_def
    by (auto split: if_split_asm dest: ro ro' ro'' ro3 create upd seal bind touch claim rel push ack reg link
        imp[unfolded schema_names])
qed

lemma dispatch_schema:
  assumes "wf_ledger lib L" and "args_ok a" and "dispatch lib L opn a ts = Inr (r, cs)" and "c \<in> set cs"
  shows "schema (c_table c) \<noteq> None"
proof -
  have "set (writes opn) \<subseteq> set [''threads'', ''thread_sessions'', ''thread_leases'', ''inbox'', ''artifacts'']"
    by (auto simp: writes_def)
  with dispatch_writes[OF assms] show ?thesis unfolding schema_names by blast
qed

section \<open>The effect of one operation\<close>

lemma run_effect:
  assumes wf: "wf_ledger lib L" and a: "args_ok a"
    and run: "run lib persist ts L opn a = Inr (r, L', ob)"
  obtains cs where "dispatch lib L opn a ts = Inr (r, cs)" "wf_ledger lib L'"
    "\<And>tb i. row_of L' tb i = row_after cs tb i (row_of L tb i)"
    "cs = [] \<Longrightarrow> L' = L \<and> ob = None"
    "cs \<noteq> [] \<Longrightarrow> ob = Some (batch_of L cs) \<and> persist (batch_of L cs)
       \<and> replay_locked lib (batch_of L cs) L = Inr L' \<and> l_revision L' = max (l_revision L) (l_revision L + 1)"
    "\<And>c. c \<in> set cs \<Longrightarrow> validate_row L (c_table c) (c_id c) (c_row c) = Inr ()"
proof -
  from run obtain r0 cs where d: "dispatch lib L opn a ts = Inr (r0, cs)"
    and f: "finish lib persist L r0 cs = Inr (r, L', ob)"
    by (auto simp: run_def rbind_eq_Inr)
  have good: "\<forall>c \<in> set cs. good_change lib c \<and> schema (c_table c) \<noteq> None"
    using dispatch_good[OF wf a d] dispatch_schema[OF wf a d] by blast
  note e = finish_Inr[OF wf good f]
  have v: "validate_row L (c_table c) (c_id c) (c_row c) = Inr ()" if "c \<in> set cs" for c
    using f that by (cases "cs = []") (auto simp: finish_def rbind_eq_Inr Let_def res_fold_unit_all split: if_splits)
  show thesis by (rule that[of cs]) (use d e v in auto)
qed

lemma publish_never_throws:
  assumes wf: "wf_ledger lib L" and a: "args_ok a" and d: "dispatch lib L opn a ts = Inr (r, cs)"
    and v: "\<forall>c \<in> set cs. validate_row L (c_table c) (c_id c) (c_row c) = Inr ()"
  shows "\<exists>L'. replay_locked lib (batch_of L cs) L = Inr L'"
proof -
  have "\<forall>c \<in> set cs. fits lib c"
    using validate_row_fits[OF wf] v dispatch_good[OF wf a d] dispatch_schema[OF wf a d] by blast
  from apply_changes_total[OF wf this] show ?thesis by (auto simp: replay_locked_def batch_of_def)
qed

section \<open>Reachable ledgers and their journals\<close>

inductive reach :: "jlib \<Rightarrow> ledger \<Rightarrow> batch list \<Rightarrow> bool" for lib where
  start: "reach lib ledger_init []"
| step: "reach lib L bs \<Longrightarrow> args_ok a \<Longrightarrow> run lib persist ts L opn a = Inr (r, L', ob) \<Longrightarrow>
     reach lib L' (bs @ (case ob of None \<Rightarrow> [] | Some b \<Rightarrow> [b]))"

lemma reach_wf: "reach lib L bs \<Longrightarrow> wf_ledger lib L"
proof (induction rule: reach.induct)
  case start
  show ?case by (rule wf_ledger_init)
next
  case step
  then show ?case by (metis run_effect)
qed

lemma reach_replay: "reach lib L bs \<Longrightarrow> res_fold (replay_locked lib) bs ledger_init = Inr L"
proof (induction rule: reach.induct)
  case start
  show ?case by simp
next
  case (step L bs a persist ts opn r L' ob)
  from step.hyps(2,3) reach_wf[OF step.hyps(1)] obtain cs where
    "cs = [] \<Longrightarrow> L' = L \<and> ob = None"
    "cs \<noteq> [] \<Longrightarrow> ob = Some (batch_of L cs) \<and> replay_locked lib (batch_of L cs) L = Inr L'"
    by (metis run_effect)
  with step.IH show ?case by (cases "cs = []") (auto simp: res_fold_append)
qed

lemma reach_revisions:
  "reach lib L bs \<Longrightarrow> length bs < 2 ^ 64 \<Longrightarrow>
     l_revision L = of_nat (length bs) \<and> map b_revision bs = map of_nat [1..<Suc (length bs)]"
proof (induction rule: reach.induct)
  case start
  show ?case by (simp add: ledger_init_def)
next
  case (step L bs a persist ts opn r L' ob)
  from step.hyps(2,3) reach_wf[OF step.hyps(1)] obtain cs where
    cs: "cs = [] \<Longrightarrow> L' = L \<and> ob = None"
    "cs \<noteq> [] \<Longrightarrow> ob = Some (batch_of L cs) \<and> l_revision L' = max (l_revision L) (l_revision L + 1)"
    by (metis run_effect)
  show ?case
  proof (cases "cs = []")
    case True
    with cs step.IH step.prems show ?thesis by simp
  next
    case False
    with cs step.prems have n: "length bs + 1 < 2 ^ 64" by simp
    with step.IH have IH: "l_revision L = of_nat (length bs)"
      "map b_revision bs = map of_nat [1..<Suc (length bs)]" by auto
    have lt: "(of_nat (length bs) :: u64) < of_nat (length bs + 1)"
      using n by (subst of_nat_word_less_iff) (simp add: take_bit_nat_eq_self)
    then have "(of_nat (length bs) :: u64) \<le> of_nat (length bs) + 1" by (simp add: add.commute)
    with cs False IH have "l_revision L' = of_nat (length bs + 1)" by (simp add: max_def)
    with cs False IH show ?thesis by (simp add: batch_of_def add.commute)
  qed
qed

section \<open>Stored rows stay valid\<close>

lemma validate_row_cong:
  assumes "wf_ledger lib L" and "wf_ledger lib L'"
  shows "validate_row L tb i r = validate_row L' tb i r"
proof -
  have tabs: "(\<exists>t t'. table_at L tb = Inr t \<and> table_at L' tb = Inr t' \<and> t_key t = t_key t')
      \<or> (table_at L tb = Inl Out_of_range \<and> table_at L' tb = Inl Out_of_range)"
  proof (cases "schema tb")
    case None
    with assms have "om_get (l_tables L) tb = None" "om_get (l_tables L') tb = None"
      unfolding wf_ledger_def by (metis (mono_tags, lifting) option.simps(4))+
    then show ?thesis by (simp add: table_at_def)
  next
    case (Some p)
    obtain k flds where sc: "schema tb = Some (k, flds)" using Some by (cases p) auto
    from wf_ledgerD[OF assms(1) sc] wf_ledgerD[OF assms(2) sc] show ?thesis
      by (metis table_at_def option.simps(5))
  qed
  then show ?thesis unfolding validate_row_def by (elim disjE exE conjE) simp_all
qed

definition valid_rows :: "ledger \<Rightarrow> bool" where
  "valid_rows L = (\<forall>tb i r. row_of L tb i = Some r \<longrightarrow> validate_row L tb i r = Inr ())"

lemma row_after_cases:
  "row_after cs tb i q = q \<or> (\<exists>c \<in> set cs. c_table c = tb \<and> c_id c = i
      \<and> row_after cs tb i q = (if c_row c = JNull then None else Some (c_row c)))"
proof (induction cs arbitrary: q)
  case (Cons c cs)
  show ?case
    using Cons.IH[of "if c_table c = tb \<and> c_id c = i
      then (if c_row c = JNull then None else Some (c_row c)) else q"]
    by (metis (no_types, lifting) list.set_intros row_after_simps(2))
qed simp

lemma row_of_ledger_init: "row_of ledger_init tb i = None"
proof -
  have "\<forall>(n, t) \<in> set (l_tables ledger_init). t_rows t = []"
    by (simp add: ledger_init_def om_of_list_def new_table_def)
  then show ?thesis
    using om_get_SomeD by (fastforce simp: row_of_def split: option.splits)
qed

lemma reach_valid_rows: "reach lib L bs \<Longrightarrow> valid_rows L"
proof (induction rule: reach.induct)
  case start
  show ?case by (simp add: valid_rows_def row_of_ledger_init)
next
  case (step L bs a persist ts opn r L' ob)
  have wf: "wf_ledger lib L" by (rule reach_wf[OF step.hyps(1)])
  from run_effect[OF wf step.hyps(2,3)] obtain cs where cs: "wf_ledger lib L'"
    "\<And>tb i. row_of L' tb i = row_after cs tb i (row_of L tb i)"
    "\<And>c. c \<in> set cs \<Longrightarrow> validate_row L (c_table c) (c_id c) (c_row c) = Inr ()" by metis
  have "validate_row L tb i row = Inr ()" if "row_of L' tb i = Some row" for tb i row
    using row_after_cases[of cs tb i "row_of L tb i"] that cs(2,3) step.IH
    by (auto simp: valid_rows_def split: if_splits)
  then show ?case by (simp add: valid_rows_def validate_row_cong[OF cs(1) wf])
qed

section \<open>A concrete journal\<close>

text \<open>
  A printer that quotes strings and one sequence of operations, used as the concrete input
  of the witnesses below.
\<close>

definition demo_lib :: jlib where
  "demo_lib = \<lparr>jdump = (\<lambda>j. case j of JStr s \<Rightarrow> ''q'' @ s @ ''q'' | _ \<Rightarrow> ''null''),
     jparse = (\<lambda>_. None), fnmatch = (=)\<rparr>"

definition demo_ops :: "(rat \<times> string \<times> json) list" where
  "demo_ops =
     [(0, ''thread_create'', jobj [(''id'', JStr ''t1''), (''title'', JStr ''T'')]),
      (1, ''session_bind'', jobj [(''session_id'', JStr ''s1'')]),
      (2, ''session_bind'', jobj [(''session_id'', JStr ''s2'')]),
      (3, ''lease_claim'', jobj [(''thread_id'', JStr ''t1''), (''session_id'', JStr ''s1'')])]"

definition demo_step :: "rat \<times> string \<times> json \<Rightarrow> ledger \<times> batch list \<Rightarrow> ledger \<times> batch list" where
  "demo_step q S = (case q of (ts, opn, a) \<Rightarrow> case S of (L, bs) \<Rightarrow>
     (case run demo_lib (\<lambda>_. True) ts L opn a of
        Inl _ \<Rightarrow> (L, bs)
      | Inr (r, L', ob) \<Rightarrow> (L', bs @ (case ob of None \<Rightarrow> [] | Some b \<Rightarrow> [b]))))"

definition demo :: "ledger \<times> batch list" where
  "demo = fold demo_step demo_ops (ledger_init, [])"

lemma demo_step_reach:
  "reach demo_lib (fst S) (snd S) \<Longrightarrow> args_ok (snd (snd q)) \<Longrightarrow>
     reach demo_lib (fst (demo_step q S)) (snd (demo_step q S))"
  by (auto simp: demo_step_def split: prod.split sum.split intro: reach.step)

lemma demo_fold_reach:
  "\<forall>q \<in> set qs. args_ok (snd (snd q)) \<Longrightarrow> reach demo_lib (fst S) (snd S) \<Longrightarrow>
     reach demo_lib (fst (fold demo_step qs S)) (snd (fold demo_step qs S))"
  by (induction qs arbitrary: S) (simp_all add: demo_step_reach)

lemma demo_reach: "reach demo_lib (fst demo) (snd demo)"
  unfolding demo_def
  by (rule demo_fold_reach) (auto simp: demo_ops_def args_ok_def intro: reach.start)

section \<open>Properties of reachable ledgers\<close>

text \<open>
  C1: recovery.  Replaying the journal of a reachable ledger from the empty ledger gives
  exactly that ledger, tables, indexes and revision; and the journal's revisions are
  1, 2, 3, ... with none missing, as long as the 64-bit counter does not wrap.
\<close>

theorem journal_recovery:
  assumes "reach lib L bs"
  shows "res_fold (replay_locked lib) bs ledger_init = Inr L
    \<and> (length bs < 2 ^ 64 \<longrightarrow> l_revision L = of_nat (length bs)
         \<and> map b_revision bs = map of_nat [1..<Suc (length bs)])"
  using reach_replay[OF assms] reach_revisions[OF assms] by blast

theorem journal_recovery_witness:
  "res_fold (replay_locked demo_lib) (snd demo) ledger_init = Inr (fst demo)
    \<and> l_revision (fst demo) = 4 \<and> map b_revision (snd demo) = [1, 2, 3, 4]"
proof -
  have "length (snd demo) = 4" by code_simp
  then show ?thesis using journal_recovery[OF demo_reach] by (simp add: upt_rec)
qed

text \<open>
  C5: the type invariant.  Every row of a reachable ledger is stored in one of the five
  tables and passes the validation of its table: all columns and no other, each of its
  type, the primary key equal to the row's id, the states within their sets.
\<close>

theorem stored_rows_valid:
  assumes "reach lib L bs" and "row_of L tb i = Some row"
  shows "validate_row L tb i row = Inr () \<and> schema tb \<noteq> None \<and> row \<noteq> JNull"
  using reach_valid_rows[OF assms(1)] row_of_ok[OF reach_wf[OF assms(1)] assms(2)]
    row_of_jok[OF reach_wf[OF assms(1)] assms(2)] assms(2)
  by (auto simp: valid_rows_def jok_neq_null)

theorem stored_rows_valid_witness:
  "validate_row (fst demo) ''thread_leases'' ''t1'' (the (row_of (fst demo) ''thread_leases'' ''t1'')) = Inr ()
    \<and> schema ''thread_leases'' \<noteq> None \<and> the (row_of (fst demo) ''thread_leases'' ''t1'') \<noteq> JNull"
  by (rule stored_rows_valid[OF demo_reach]) code_simp

text \<open>
  C4: the indexed selection.  On a reachable ledger, \<open>select\<close> with filters on indexed
  columns never throws and returns, in key order, exactly the rows a scan of the whole
  table keeps.
\<close>

theorem indexed_select:
  assumes "reach lib L bs" and "table_at L tb = Inr t"
    and "\<forall>(f, v) \<in> set fs. f \<in> set (om_keys (t_indexes t))"
  shows "table_select lib fs t = Inr (scan_select fs t)"
proof -
  from table_at_schema[OF reach_wf[OF assms(1)] assms(2)] have "wf_table lib t" by blast
  then show ?thesis using assms(3) by (rule table_select_scan)
qed

theorem indexed_select_witness:
  "table_select demo_lib [(''status'', JStr ''active'')]
      (the (om_get (l_tables (fst demo)) ''thread_sessions''))
    = Inr (scan_select [(''status'', JStr ''active'')]
        (the (om_get (l_tables (fst demo)) ''thread_sessions'')))
   \<and> length (scan_select [(''status'', JStr ''active'')]
        (the (om_get (l_tables (fst demo)) ''thread_sessions''))) = 2"
  by (rule conjI, rule indexed_select[OF demo_reach, of "''thread_sessions''"]) code_simp+

text \<open>
  C3: publishing is total.  When an operation has evaluated, its changes are valid and the
  callback has persisted the batch, publishing cannot throw any more: the operation
  returns, and every row is what the last change of the batch says.
\<close>

theorem persisted_is_published:
  assumes "reach lib L bs" and "args_ok a" and "dispatch lib L opn a ts = Inr (r, cs)" and "cs \<noteq> []"
    and "\<forall>c \<in> set cs. validate_row L (c_table c) (c_id c) (c_row c) = Inr ()"
    and "persist \<lparr>b_revision = l_revision L + 1, b_changes = cs\<rparr>"
  shows "\<exists>L'. run lib persist ts L opn a = Inr (r, L', Some \<lparr>b_revision = l_revision L + 1, b_changes = cs\<rparr>)
    \<and> (\<forall>tb i. row_of L' tb i = row_after cs tb i (row_of L tb i))"
proof -
  have wf: "wf_ledger lib L" by (rule reach_wf[OF assms(1)])
  from publish_never_throws[OF wf assms(2,3,5)] obtain L' where
    L': "replay_locked lib (batch_of L cs) L = Inr L'" ..
  have "res_fold (\<lambda>c _. validate_row L (c_table c) (c_id c) (c_row c)) cs () = Inr ()"
    using assms(5) by (subst res_fold_unit_all) simp
  then have run: "run lib persist ts L opn a = Inr (r, L', Some (batch_of L cs))"
    using assms(3,4,6) L' by (simp add: run_def finish_def Let_def batch_of_def)
  from run_effect[OF wf assms(2) run] assms(3)
  have "row_of L' tb i = row_after cs tb i (row_of L tb i)" for tb i
    by (metis Inr_inject prod.inject)
  with run show ?thesis by (auto simp: batch_of_def)
qed

theorem persisted_is_published_witness:
  "let cs = snd (projr (dispatch demo_lib (fst demo) ''session_close'' (jobj [(''session_id'', JStr ''s1'')]) 5)) in
   length cs = 2 \<and>
   (\<exists>L'. run demo_lib (\<lambda>_. True) 5 (fst demo) ''session_close'' (jobj [(''session_id'', JStr ''s1'')])
      = Inr (JBool True, L', Some \<lparr>b_revision = l_revision (fst demo) + 1, b_changes = cs\<rparr>)
    \<and> (\<forall>tb i. row_of L' tb i = row_after cs tb i (row_of (fst demo) tb i)))"
  unfolding Let_def
  by (rule conjI[OF _ persisted_is_published[OF demo_reach]]) code_simp+

end
