(* ===== verification/Task_Ledger_Lease.thy ===== *)
theory Task_Ledger_Lease
  imports Task_Ledger_Reach
begin

text \<open>
  Leases on reachable ledgers: a live lease keeps its owner until the owner gives it up or
  somebody forces a claim, a claim against a live owner is refused without a change, a
  granted claim binds lease and session together, and closing a session takes all of its
  leases with it.
\<close>

section \<open>The shape of a stored lease\<close>

lemma validate_row_field:
  assumes "validate_row L tb i row = Inr u" and "columns tb = Inr cols" and "k \<in> set cols" and "row \<noteq> JNull"
  shows "check_column row k = Inr ()"
  using assms by (auto simp: validate_row_def rbind_eq_Inr res_fold_unit_all)

lemma lease_columns: "columns ''thread_leases'' = Inr [''acquired_at'', ''expires_at'', ''generation'',
    ''last_heartbeat_at'', ''session_id'', ''thread_id'']"
  by (simp add: columns_def)

lemma lease_schema: "schema ''thread_leases'' = Some (''thread_id'', [''session_id''])"
  by (simp add: schema_def)

lemma number_get: "is_number v \<Longrightarrow> \<exists>e. get_double v = Inr e" "is_number v \<Longrightarrow> \<exists>g. get_int v = Inr g"
  by (cases v; simp)+

lemma lease_row:
  assumes r: "reach lib L bs" and row: "row_of L ''thread_leases'' i = Some r"
  shows "jok r" and "jfind r ''thread_id'' = Some (JStr i)" and "\<exists>s. jfind r ''session_id'' = Some (JStr s)"
    and "\<exists>e. get_double (jidx r ''expires_at'') = Inr e" and "\<exists>g. get_int (jidx r ''generation'') = Inr g"
proof -
  have wf: "wf_ledger lib L" by (rule reach_wf[OF r])
  show jok: "jok r" by (rule row_of_jok[OF wf row])
  have nn: "r \<noteq> JNull" using jok by (rule jok_neq_null)
  have v: "validate_row L ''thread_leases'' i r = Inr ()"
    using reach_valid_rows[OF r] row by (simp add: valid_rows_def)
  from wf_ledgerD[OF wf lease_schema] obtain t where
    "om_get (l_tables L) ''thread_leases'' = Some t" "t_key t = ''thread_id''" by blast
  then show "jfind r ''thread_id'' = Some (JStr i)"
    using v nn by (auto simp: validate_row_def rbind_eq_Inr table_at_def jat_eq_Inr)
  note col = validate_row_field[OF v lease_columns _ nn]
  show "\<exists>s. jfind r ''session_id'' = Some (JStr s)"
    using col[of "''session_id''"]
    by (auto simp: check_column_def nullable_columns_def numeric_columns_def
        split: option.splits elim: is_string.elims)
  show "\<exists>e. get_double (jidx r ''expires_at'') = Inr e"
    using col[of "''expires_at''"]
    by (auto simp: check_column_def nullable_columns_def numeric_columns_def jidx_def number_get
        split: option.splits)
  show "\<exists>g. get_int (jidx r ''generation'') = Inr g"
    using col[of "''generation''"]
    by (auto simp: check_column_def nullable_columns_def numeric_columns_def jidx_def number_get
        split: option.splits)
qed

text \<open>The leases selected for a session are the stored ones it owns.\<close>

lemma select_leases:
  assumes "reach lib L bs"
  shows "\<exists>rs. lselect lib L ''thread_leases'' [(''session_id'', JStr sid)] = Inr rs
    \<and> (\<forall>r. r \<in> set rs \<longleftrightarrow> (\<exists>i. row_of L ''thread_leases'' i = Some r \<and> jfind r ''session_id'' = Some (JStr sid)))"
proof -
  have wf: "wf_ledger lib L" by (rule reach_wf[OF assms])
  from wf_ledgerD[OF wf lease_schema] obtain t where t: "om_get (l_tables L) ''thread_leases'' = Some t"
    "wf_table lib t" "om_keys (t_indexes t) = [''session_id'']" by blast
  have "lselect lib L ''thread_leases'' [(''session_id'', JStr sid)]
      = Inr (scan_select [(''session_id'', JStr sid)] t)"
    using table_select_scan[OF t(2)] t(1,3) by (simp add: lselect_def table_at_def)
  moreover have "r \<in> set (scan_select [(''session_id'', JStr sid)] t) \<longleftrightarrow>
      (\<exists>i. row_of L ''thread_leases'' i = Some r \<and> jfind r ''session_id'' = Some (JStr sid))" for r
    using t(1) wf_tableD(1)[OF t(2)]
    by (auto simp: scan_select_def row_sat_def row_of_def om_get_Some_iff image_iff Bex_def)
  ultimately show ?thesis by blast
qed

section \<open>Changes to leases, operation by operation\<close>

definition owns :: "ledger \<Rightarrow> string \<Rightarrow> string \<Rightarrow> bool" where
  "owns L tid s = (\<exists>r. row_of L ''thread_leases'' tid = Some r \<and> jfind r ''session_id'' = Some (JStr s))"

lemma touch_lease_change:
  assumes r: "reach lib L bs" and t: "touch_session lib L ts sid close st = Inr (b, cs)"
    and c: "c \<in> set cs" "c_table c = ''thread_leases''"
  shows "\<exists>lease. row_of L ''thread_leases'' (c_id c) = Some lease \<and> jok lease
    \<and> jfind lease ''session_id'' = Some (JStr sid)
    \<and> c_row c = (if close then JNull
       else jset ''expires_at'' (JFloat (ts + 900)) (jset ''last_heartbeat_at'' (JFloat ts) lease))"
proof -
  from touch_session_split[OF reach_wf[OF r] t] obtain cs1 cs2 leases where s:
    "cs = cs1 @ cs2" "\<forall>c \<in> set cs1. c_table c = ''thread_sessions''"
    "lselect lib L ''thread_leases'' [(''session_id'', JStr sid)] = Inr leases"
    "res_map (touch_lease lib ts close) leases = Inr cs2" by blast
  from c s(1,2) have "c \<in> set cs2" by auto
  then show ?thesis
  proof (rule res_map_all[OF s(4), rotated])
    fix lease c assume lease: "lease \<in> set leases" and tl: "touch_lease lib ts close lease = Inr c"
    from lease select_leases[OF r, of sid] s(3) obtain i where
      i: "row_of L ''thread_leases'' i = Some lease" "jfind lease ''session_id'' = Some (JStr sid)" by auto
    note lr = lease_row(1,2)[OF r i(1)]
    note tg = touch_lease_good(3,4)[OF tl lr(1)]
    from tg(1) lr(2) have "c_id c = i" by simp
    with i lr(1) tg(2) show "\<exists>lease. row_of L ''thread_leases'' (c_id c) = Some lease \<and> jok lease
      \<and> jfind lease ''session_id'' = Some (JStr sid)
      \<and> c_row c = (if close then JNull
         else jset ''expires_at'' (JFloat (ts + 900)) (jset ''last_heartbeat_at'' (JFloat ts) lease))"
      by blast
  qed
qed

lemma release_change:
  assumes r: "reach lib L bs" and op: "op_lease_release lib L a = Inr (q, cs)" and c: "c \<in> set cs"
  shows "c_row c = JNull \<and> (\<exists>sid. jfind a ''session_id'' = Some (JStr sid) \<and> owns L (c_id c) sid)"
proof -
  from op obtain sid leases where sid: "jfind a ''session_id'' = Some (JStr sid)"
    and ls: "lselect lib L ''thread_leases'' [(''session_id'', JStr sid)] = Inr leases"
    and m: "res_map (\<lambda>row. rbind (get_string (jidx row ''thread_id'')) (\<lambda>tid.
            mk_change lib ''thread_leases'' tid JNull))
        (filter (\<lambda>row. case jfind a ''thread_id'' of
            None \<Rightarrow> True | Some t \<Rightarrow> t = JNull \<or> t = JStr [] \<or> jeq (jidx row ''thread_id'') t) leases) = Inr cs"
    by (auto simp: op_lease_release_def rbind_eq_Inr idarg_def jat_eq_Inr)
  show ?thesis
  proof (rule res_map_all[OF m _ c])
    fix row c
    assume row: "row \<in> set (filter (\<lambda>row. case jfind a ''thread_id'' of
            None \<Rightarrow> True | Some t \<Rightarrow> t = JNull \<or> t = JStr [] \<or> jeq (jidx row ''thread_id'') t) leases)"
      and mk: "rbind (get_string (jidx row ''thread_id'')) (\<lambda>tid. mk_change lib ''thread_leases'' tid JNull) = Inr c"
    from row select_leases[OF r, of sid] ls obtain i where
      i: "row_of L ''thread_leases'' i = Some row" "jfind row ''session_id'' = Some (JStr sid)" by auto
    with mk lease_row(2)[OF r i(1)] have "c_id c = i" "c_row c = JNull"
      by (auto simp: rbind_eq_Inr jidx_def mk_change_def)
    with i sid show "c_row c = JNull \<and> (\<exists>sid. jfind a ''session_id'' = Some (JStr sid) \<and> owns L (c_id c) sid)"
      by (auto simp: owns_def)
  qed
qed

text \<open>A claim either is refused with no change or writes the lease and the session row.\<close>

lemma claim_cases:
  assumes op: "op_lease_claim lib L a ts = Inr (res, cs)" and r: "reach lib L bs"
  obtains (blocked) tid sid lease where "cs = []" "jfind a ''thread_id'' = Some (JStr tid)"
      "jfind a ''session_id'' = Some (JStr sid)" "row_of L ''thread_leases'' tid = Some lease"
      "jfind res ''claimed'' = Some (JBool False)"
  | (granted) tid sid old gen ttl row c1 c2 where "cs = [c1, c2]" "jfind a ''thread_id'' = Some (JStr tid)"
      "jfind a ''session_id'' = Some (JStr sid)"
      "old = (case row_of L ''thread_leases'' tid of None \<Rightarrow> JNull | Some x \<Rightarrow> x)"
      "lease_blocked a old sid ts = Inr False"
      "gen = (if old = JNull then 1 else case get_int (jidx old ''generation'') of
                Inl _ \<Rightarrow> 0 | Inr g \<Rightarrow> g + (if jfind old ''session_id'' = Some (JStr sid) then 0 else 1))"
      "c1 = \<lparr>c_table = ''thread_leases'', c_id = tid, c_row = jobj
         [(''thread_id'', JStr tid), (''session_id'', JStr sid), (''generation'', JInt gen),
          (''acquired_at'', if old \<noteq> JNull \<and> jfind old ''session_id'' = Some (JStr sid)
                            then jidx old ''acquired_at'' else JFloat ts),
          (''last_heartbeat_at'', JFloat ts), (''expires_at'', JFloat (ts + of_int (max 30 ttl)))]\<rparr>"
      "row_of L ''thread_sessions'' sid = Some row"
      "mk_change lib ''thread_sessions'' sid (jset ''last_active_at'' (JFloat ts)
         (jset ''status'' (JStr ''active'') (jset ''thread_id'' (JStr tid) row))) = Inr c2"
      "jfind res ''claimed'' = Some (JBool True)" "jfind res ''expires_at'' = Some (JFloat (ts + of_int (max 30 ttl)))"
      "jfind res ''generation'' = Some (JInt gen)"
proof -
  have wf: "wf_ledger lib L" by (rule reach_wf[OF r])
  have eq: "jeq (jidx old ''session_id'') (JStr sid) \<longleftrightarrow> jfind old ''session_id'' = Some (JStr sid)" for old sid
    by (auto simp: jidx_def split: option.splits)
  from op obtain tid sid old blk where args: "jfind a ''thread_id'' = Some (JStr tid)"
      "jfind a ''session_id'' = Some (JStr sid)"
    and ref: "require_ref L ''thread_sessions'' (JStr sid) = Inr ()"
    and old: "lrow L ''thread_leases'' tid = Inr old" and blk: "lease_blocked a old sid ts = Inr blk"
    and rest: "(if blk then
       Inr (jobj [(''claimed'', JBool False), (''reason'', JStr ''live_owner''), (''thread_id'', JStr tid),
                  (''owner_session_id'', jidx old ''session_id''),
                  (''expires_at'', jidx old ''expires_at''), (''generation'', jidx old ''generation'')], [])
     else
       let same = (old \<noteq> JNull \<and> jeq (jidx old ''session_id'') (JStr sid)) in
       rbind (if old = JNull then Inr 1
              else rbind (get_int (jidx old ''generation'')) (\<lambda>g. Inr (g + (if same then 0 else 1)))) (\<lambda>gen.
       rbind (jvalue_int a ''ttl'' 900) (\<lambda>ttl.
       let expires = ts + of_int (max 30 ttl) in
       rbind (mk_change lib ''thread_leases'' tid (jobj
         [(''thread_id'', JStr tid), (''session_id'', JStr sid), (''generation'', JInt gen),
          (''acquired_at'', if same then jidx old ''acquired_at'' else JFloat ts),
          (''last_heartbeat_at'', JFloat ts), (''expires_at'', JFloat expires)])) (\<lambda>c1.
       rbind (lrow L ''thread_sessions'' sid) (\<lambda>row.
       rbind (mk_change lib ''thread_sessions'' sid
                (jset ''last_active_at'' (JFloat ts) (jset ''status'' (JStr ''active'')
                  (jset ''thread_id'' (JStr tid) row)))) (\<lambda>c2.
       Inr (jobj [(''claimed'', JBool True), (''thread_id'', JStr tid), (''session_id'', JStr sid),
                  (''expires_at'', JFloat expires), (''generation'', JInt gen)], [c1, c2]))))))) = Inr (res, cs)"
    unfolding op_lease_claim_def by (auto simp: rbind_eq_Inr idarg_def jat_eq_Inr simp del: jeq_str)
  have old': "old = (case row_of L ''thread_leases'' tid of None \<Rightarrow> JNull | Some x \<Rightarrow> x)"
    by (rule lrow_Inr[OF old])
  show thesis
  proof (cases blk)
    case True
    with blk have "old \<noteq> JNull" by (auto simp: lease_blocked_def)
    with old' obtain lease where "row_of L ''thread_leases'' tid = Some lease" by (auto split: option.splits)
    with True rest args show thesis by (intro blocked[of tid sid lease]) auto
  next
    case False
    let ?same = "jfind old ''session_id'' = Some (JStr sid)"
    from False rest[unfolded eq] obtain gen ttl c1 row c2 where
      gen: "(if old = JNull then Inr 1
             else rbind (get_int (jidx old ''generation'')) (\<lambda>g. Inr (g + (if old \<noteq> JNull \<and> ?same then 0 else 1)))) = Inr gen"
      and c1: "mk_change lib ''thread_leases'' tid (jobj
         [(''thread_id'', JStr tid), (''session_id'', JStr sid), (''generation'', JInt gen),
          (''acquired_at'', if old \<noteq> JNull \<and> ?same then jidx old ''acquired_at'' else JFloat ts),
          (''last_heartbeat_at'', JFloat ts), (''expires_at'', JFloat (ts + of_int (max 30 ttl)))]) = Inr c1"
      and row: "lrow L ''thread_sessions'' sid = Inr row"
      and c2: "mk_change lib ''thread_sessions'' sid (jset ''last_active_at'' (JFloat ts)
         (jset ''status'' (JStr ''active'') (jset ''thread_id'' (JStr tid) row))) = Inr c2"
      and res: "res = jobj [(''claimed'', JBool True), (''thread_id'', JStr tid), (''session_id'', JStr sid),
                  (''expires_at'', JFloat (ts + of_int (max 30 ttl))), (''generation'', JInt gen)]" "cs = [c1, c2]"
      by (auto simp: rbind_eq_Inr Let_def)
    from ref row have "row \<noteq> JNull" by (auto simp: require_ref_def rbind_eq_Inr)
    with lrow_Inr[OF row] have row': "row_of L ''thread_sessions'' sid = Some row" by (auto split: option.splits)
    have gen': "gen = (if old = JNull then 1 else case get_int (jidx old ''generation'') of
                Inl _ \<Rightarrow> 0 | Inr g \<Rightarrow> g + (if ?same then 0 else 1))"
      using gen by (auto simp: rbind_eq_Inr split: if_splits)
    show thesis
      by (rule granted[OF res(2) args old' _ gen' _ row' c2])
        (use blk False c1 res(1) in \<open>auto simp: mk_change_def\<close>)
  qed
qed

section \<open>Exclusion\<close>

lemma writes_leases:
  "''thread_leases'' \<in> set (writes opn) \<Longrightarrow> opn = ''session_touch'' \<or> opn = ''session_close''
     \<or> opn = ''lease_claim'' \<or> opn = ''lease_release'' \<or> opn = ''import''"
  unfolding writes_def by (simp split: if_split_asm) (elim disjE, simp_all)

lemma owner_change:
  assumes r: "reach lib L bs" and a: "args_ok a" and d: "dispatch lib L opn a ts = Inr (res, cs)"
    and row: "row_of L ''thread_leases'' tid = Some lease" and own: "jfind lease ''session_id'' = Some (JStr s)"
    and exp: "get_double (jidx lease ''expires_at'') = Inr e" and live: "ts < e"
  shows "(\<exists>lease'. row_after cs ''thread_leases'' tid (Some lease) = Some lease'
            \<and> jfind lease' ''session_id'' = Some (JStr s))
    \<or> (opn = ''lease_claim'' \<and> jfind a ''thread_id'' = Some (JStr tid) \<and> jfind a ''force'' = Some (JBool True))
    \<or> (opn \<in> {''session_close'', ''lease_release''} \<and> jfind a ''session_id'' = Some (JStr s))"
proof (cases "\<exists>c \<in> set cs. c_table c = ''thread_leases'' \<and> c_id c = tid")
  case False
  with own show ?thesis by (simp add: row_after_untouched)
next
  case True
  then obtain c where c: "c \<in> set cs" "c_table c = ''thread_leases''" "c_id c = tid"
    and after: "row_after cs ''thread_leases'' tid (Some lease) = Some lease
      \<or> row_after cs ''thread_leases'' tid (Some lease) = (if c_row c = JNull then None else Some (c_row c))"
    using row_after_cases[of cs "''thread_leases''" tid "Some lease"] by metis
  have touch: ?thesis if op: "op_session_touch lib L close a ts = Inr (res, cs)"
    and n: "close \<Longrightarrow> opn = ''session_close''" for close
  proof -
    from op obtain sid st b where sid: "jfind a ''session_id'' = Some (JStr sid)"
      and t: "touch_session lib L ts sid close st = Inr (b, cs)"
      by (auto simp: op_session_touch_def rbind_eq_Inr Let_def idarg_def jat_eq_Inr)
    from touch_lease_change[OF r t c(1,2)] c(3) row own sid after n show ?thesis
      by (auto simp: jok_neq_null split: if_splits)
  qed
  have claim: ?thesis if op: "op_lease_claim lib L a ts = Inr (res, cs)" and n: "opn = ''lease_claim''"
  proof (cases rule: claim_cases[OF op r])
    case (2 tid' sid old gen ttl row' c1 c2)
    from 2(9) have "c_table c2 = ''thread_sessions''" using mk_change_table by blast
    with 2(1,7) c have cc: "c = c1" "tid' = tid" by auto
    with 2(4) row lease_row(1)[OF r row] have old: "old = lease" "old \<noteq> JNull" by (auto simp: jok_neq_null)
    show ?thesis
    proof (cases "sid = s")
      case True
      with 2(7) cc after own show ?thesis by auto
    next
      case False
      with 2(5) old own exp live have "jvalue_bool a ''force'' False = Inr True"
        by (auto simp: lease_blocked_def rbind_eq_Inr jidx_def split: if_splits)
      then have "jfind a ''force'' = Some (JBool True)"
        by (auto simp: jvalue_bool_def jvalue_def rbind_eq_Inr split: if_splits option.splits elim: get_bool.elims)
      with n 2(2) cc(2) show ?thesis by blast
    qed
  qed (use c in simp)
  have rel: ?thesis if "op_lease_release lib L a = Inr (res, cs)" and "opn = ''lease_release''"
    using release_change[OF r that(1) c(1)] c(3) row own that(2) by (auto simp: owns_def)
  have imp: ?thesis if "op_import lib L a = Inr (res, cs)"
    using import_schema(2)[OF reach_wf[OF r] that c(1) a] c(2,3) row by simp
  have "''thread_leases'' \<in> set (writes opn)" using dispatch_writes[OF reach_wf[OF r] a d c(1)] c(2) by simp
  from writes_leases[OF this] show ?thesis
  proof (elim disjE)
    assume "opn = ''session_touch''"
    with d have "op_session_touch lib L False a ts = Inr (res, cs)" by (simp add: dispatch_def)
    then show ?thesis by (rule touch) simp
  next
    assume n: "opn = ''session_close''"
    with d have "op_session_touch lib L True a ts = Inr (res, cs)" by (simp add: dispatch_def)
    then show ?thesis by (rule touch) (rule n)
  next
    assume n: "opn = ''lease_claim''"
    with d have "op_lease_claim lib L a ts = Inr (res, cs)" by (simp add: dispatch_def)
    then show ?thesis using n by (rule claim)
  next
    assume n: "opn = ''lease_release''"
    with d have "op_lease_release lib L a = Inr (res, cs)" by (simp add: dispatch_def)
    then show ?thesis using n by (rule rel)
  next
    assume n: "opn = ''import''"
    with d have "op_import lib L a = Inr (res, cs)" by (simp add: dispatch_def)
    then show ?thesis by (rule imp)
  qed
qed

text \<open>
  C2: a live lease is stable.  On a reachable ledger, whatever operation runs at a time
  before the lease's expiry, the lease of the thread keeps its owner, unless the operation
  is a claim of this thread with \<open>force\<close>, or the owner itself releases the lease or
  closes its session.
\<close>

theorem live_lease_stable:
  assumes "reach lib L bs" and "args_ok a" and "run lib persist ts L opn a = Inr (res, L', ob)"
    and "row_of L ''thread_leases'' tid = Some lease" and "jfind lease ''session_id'' = Some (JStr s)"
    and "get_double (jidx lease ''expires_at'') = Inr e" and "ts < e"
  shows "owns L' tid s
    \<or> (opn = ''lease_claim'' \<and> jfind a ''thread_id'' = Some (JStr tid) \<and> jfind a ''force'' = Some (JBool True))
    \<or> (opn \<in> {''session_close'', ''lease_release''} \<and> jfind a ''session_id'' = Some (JStr s))"
proof -
  from run_effect[OF reach_wf[OF assms(1)] assms(2,3)] obtain cs where
    d: "dispatch lib L opn a ts = Inr (res, cs)"
    and rows: "row_of L' ''thread_leases'' tid = row_after cs ''thread_leases'' tid (Some lease)"
    using assms(4) by metis
  from owner_change[OF assms(1,2) d assms(4-7)] rows show ?thesis by (simp add: owns_def)
qed

lemma demo_lease:
  "row_of (fst demo) ''thread_leases'' ''t1'' = Some (the (row_of (fst demo) ''thread_leases'' ''t1''))"
  "jfind (the (row_of (fst demo) ''thread_leases'' ''t1'')) ''session_id'' = Some (JStr ''s1'')"
  "get_double (jidx (the (row_of (fst demo) ''thread_leases'' ''t1'')) ''expires_at'') = Inr 903"
  by code_simp+

theorem live_lease_stable_witness:
  "case run demo_lib (\<lambda>_. True) 10 (fst demo) ''session_close'' (jobj [(''session_id'', JStr ''s2'')]) of
     Inl _ \<Rightarrow> False
   | Inr (res, L', ob) \<Rightarrow> ob \<noteq> None \<and> owns L' ''t1'' ''s1''"
proof -
  let ?a = "jobj [(''session_id'', JStr ''s2'')]"
  have "case run demo_lib (\<lambda>_. True) 10 (fst demo) ''session_close'' ?a of
     Inl _ \<Rightarrow> False | Inr (res, L', ob) \<Rightarrow> ob \<noteq> None" by code_simp
  then obtain res L' b where run: "run demo_lib (\<lambda>_. True) 10 (fst demo) ''session_close'' ?a = Inr (res, L', Some b)"
    by (auto split: sum.splits)
  from live_lease_stable[OF demo_reach _ run demo_lease] have "owns L' ''t1'' ''s1''"
    by (simp add: args_ok_def)
  with run show ?thesis by simp
qed

text \<open>
  a claim against another session's live lease, without \<open>force\<close>, is refused: the
  answer names the owner, no batch is written and the ledger is the same.
\<close>

theorem claim_refused:
  assumes "reach lib L bs" and "is_object a"
    and "jfind a ''thread_id'' = Some (JStr tid)" and "jfind a ''session_id'' = Some (JStr sid)"
    and "jfind a ''force'' \<in> {None, Some (JBool False)}"
    and "row_of L ''threads'' tid \<noteq> None" and "row_of L ''thread_sessions'' sid \<noteq> None"
    and "row_of L ''thread_leases'' tid = Some lease" and "jfind lease ''session_id'' = Some (JStr s)"
    and "s \<noteq> sid" and "get_double (jidx lease ''expires_at'') = Inr e" and "ts < e"
  shows "\<exists>res. run lib persist ts L ''lease_claim'' a = Inr (res, L, None)
    \<and> jfind res ''claimed'' = Some (JBool False) \<and> jfind res ''owner_session_id'' = Some (JStr s)"
proof -
  have wf: "wf_ledger lib L" by (rule reach_wf[OF assms(1)])
  have lrows: "lrow L tb i = Inr (case row_of L tb i of None \<Rightarrow> JNull | Some r \<Rightarrow> r)"
    if "tb \<in> {''threads'', ''thread_sessions'', ''thread_leases''}" for tb i
    using that lrow_row_of[OF wf] schema_names[of tb] by auto
  have nn: "\<forall>tb i r. row_of L tb i = Some r \<longrightarrow> r \<noteq> JNull" using row_of_jok[OF wf] jok_neq_null by blast
  have refs: "require_ref L ''threads'' (JStr tid) = Inr ()" "require_ref L ''thread_sessions'' (JStr sid) = Inr ()"
    using assms(6,7) nn by (auto simp: require_ref_def lrows)
  have "jvalue_bool a ''force'' False = Inr False"
    using assms(2,5) by (auto simp: jvalue_bool_def jvalue_def)
  then have "lease_blocked a lease sid ts = Inr True"
    using assms(8-12) nn by (auto simp: lease_blocked_def jidx_def)
  then show ?thesis
    using assms(2-4,8,9) refs nn
    by (auto simp: run_def dispatch_def op_lease_claim_def idarg_def jat_def lrows jidx_def)
qed

theorem claim_refused_witness:
  "\<exists>res. run demo_lib (\<lambda>_. True) 10 (fst demo) ''lease_claim''
        (jobj [(''thread_id'', JStr ''t1''), (''session_id'', JStr ''s2'')]) = Inr (res, fst demo, None)
    \<and> jfind res ''claimed'' = Some (JBool False) \<and> jfind res ''owner_session_id'' = Some (JStr ''s1'')"
  by (rule claim_refused[OF demo_reach _ _ _ _ _ _ demo_lease(1,2) _ demo_lease(3)]) code_simp+

text \<open>
  C8: a granted claim.  If a claim answers \<open>claimed\<close>, then afterwards the claiming session
  owns the thread's lease until at least thirty seconds from now, with generation one for a
  first claim, the old generation when the session already owned it and the next one when
  it takes the lease over; and in the same batch the session row is bound to the thread.
\<close>

theorem claim_granted:
  assumes r: "reach lib L bs" and a: "args_ok a"
    and run: "run lib persist ts L ''lease_claim'' a = Inr (res, L', ob)"
    and res: "jfind res ''claimed'' = Some (JBool True)"
  shows "\<exists>tid sid lease e row. jfind a ''thread_id'' = Some (JStr tid) \<and> jfind a ''session_id'' = Some (JStr sid)
    \<and> row_of L' ''thread_leases'' tid = Some lease \<and> jfind lease ''session_id'' = Some (JStr sid)
    \<and> jfind lease ''expires_at'' = Some (JFloat e) \<and> ts + 30 \<le> e
    \<and> jfind lease ''generation'' = Some (JInt (case row_of L ''thread_leases'' tid of
        None \<Rightarrow> 1
      | Some old \<Rightarrow> (case get_int (jidx old ''generation'') of Inl _ \<Rightarrow> 0 | Inr g \<Rightarrow>
          if jfind old ''session_id'' = Some (JStr sid) then g else g + 1)))
    \<and> row_of L' ''thread_sessions'' sid = Some row \<and> jfind row ''thread_id'' = Some (JStr tid)
    \<and> jfind row ''status'' = Some (JStr ''active'')
    \<and> (\<exists>b. ob = Some b \<and> length (b_changes b) = 2)"
proof -
  have wf: "wf_ledger lib L" by (rule reach_wf[OF r])
  from run_effect[OF wf a run] obtain cs where
    d: "dispatch lib L ''lease_claim'' a ts = Inr (res, cs)"
    and rows: "\<And>tb i. row_of L' tb i = row_after cs tb i (row_of L tb i)"
    and ob: "cs \<noteq> [] \<Longrightarrow> ob = Some (batch_of L cs)" by metis
  have op: "op_lease_claim lib L a ts = Inr (res, cs)" using d by (simp add: dispatch_def)
  show ?thesis
  proof (cases rule: claim_cases[OF op r])
    case 1
    with res show ?thesis by simp
  next
    case (2 tid sid old gen ttl row c1 c2)
    let ?row = "jset ''last_active_at'' (JFloat ts) (jset ''status'' (JStr ''active'') (jset ''thread_id'' (JStr tid) row))"
    have jrow: "jok row" by (rule row_of_jok[OF wf 2(8)])
    then have jcan: "jcan ?row" by (simp add: jok_jcan)
    have row_nn: "?row \<noteq> JNull" using jrow jok_neq_null by simp
    note m = mk_change_good[OF 2(9) jcan]
    from m(4) row_nn have c2: "c_row c2 \<noteq> JNull" by blast
    have L1: "row_of L' ''thread_leases'' tid = Some (c_row c1)" using rows 2(1,7) m(2) by simp
    have L2: "row_of L' ''thread_sessions'' sid = Some (c_row c2)" using rows 2(1,7) m(2,3) c2 by simp
    have f: "jfind (c_row c2) ''thread_id'' = Some (JStr tid)" "jfind (c_row c2) ''status'' = Some (JStr ''active'')"
      using m(5) jrow by auto
    have nn: "old = JNull \<longleftrightarrow> row_of L ''thread_leases'' tid = None"
      using 2(4) lease_row(1)[OF r] jok_neq_null by (auto split: option.splits)
    have gen: "gen = (case row_of L ''thread_leases'' tid of
        None \<Rightarrow> 1
      | Some old \<Rightarrow> (case get_int (jidx old ''generation'') of Inl _ \<Rightarrow> 0 | Inr g \<Rightarrow>
          if jfind old ''session_id'' = Some (JStr sid) then g else g + 1))"
      using 2(4,6) nn by (auto split: option.splits sum.splits)
    have "ts + 30 \<le> ts + rat_of_int (max 30 ttl)" by (simp add: le_max_iff_disj)
    then show ?thesis
      by (intro exI[of _ tid] exI[of _ sid] exI[of _ "c_row c1"] exI[of _ "ts + rat_of_int (max 30 ttl)"]
          exI[of _ "c_row c2"] conjI)
        (use 2(1-3,7) L1 L2 f gen ob in \<open>simp_all add: batch_of_def\<close>)
  qed
qed

theorem claim_granted_witness:
  "\<exists>res L' ob lease. run demo_lib (\<lambda>_. True) 1000 (fst demo) ''lease_claim''
        (jobj [(''thread_id'', JStr ''t1''), (''session_id'', JStr ''s2'')]) = Inr (res, L', ob)
    \<and> row_of L' ''thread_leases'' ''t1'' = Some lease \<and> jfind lease ''session_id'' = Some (JStr ''s2'')
    \<and> jfind lease ''generation'' = Some (JInt 2)"
proof -
  let ?a = "jobj [(''thread_id'', JStr ''t1''), (''session_id'', JStr ''s2'')]"
  have "case run demo_lib (\<lambda>_. True) 1000 (fst demo) ''lease_claim'' ?a of
     Inl _ \<Rightarrow> False | Inr (res, L', ob) \<Rightarrow> jfind res ''claimed'' = Some (JBool True)" by code_simp
  then obtain res L' ob where run: "run demo_lib (\<lambda>_. True) 1000 (fst demo) ''lease_claim'' ?a = Inr (res, L', ob)"
    and res: "jfind res ''claimed'' = Some (JBool True)"
    by (auto split: sum.splits)
  define old where "old = the (row_of (fst demo) ''thread_leases'' ''t1'')"
  have old: "row_of (fst demo) ''thread_leases'' ''t1'' = Some old" "jfind old ''session_id'' = Some (JStr ''s1'')"
    unfolding old_def by (rule demo_lease)+
  have gen: "get_int (jidx old ''generation'') = Inr 1" unfolding old_def by code_simp
  have "args_ok ?a" by (simp add: args_ok_def)
  from claim_granted[OF demo_reach this run res] obtain lease where
    "row_of L' ''thread_leases'' ''t1'' = Some lease" "jfind lease ''session_id'' = Some (JStr ''s2'')"
    "jfind lease ''generation'' = Some (JInt 2)" by (auto simp: old gen)
  with run show ?thesis by blast
qed

lemma res_map_hit: "res_map f xs = Inr ys \<Longrightarrow> x \<in> set xs \<Longrightarrow> \<exists>y \<in> set ys. f x = Inr y"
  by (induction xs arbitrary: ys) (auto simp: rbind_eq_Inr)

lemma row_after_hit:
  assumes "\<exists>c \<in> set cs. c_table c = tb \<and> c_id c = i"
  shows "\<exists>c \<in> set cs. c_table c = tb \<and> c_id c = i
    \<and> row_after cs tb i q = (if c_row c = JNull then None else Some (c_row c))"
  using assms
proof (induction cs arbitrary: q)
  case (Cons c cs)
  show ?case
  proof (cases "\<exists>c \<in> set cs. c_table c = tb \<and> c_id c = i")
    case True
    from Cons.IH[OF True] show ?thesis by (metis list.set_intros(2) row_after_simps(2))
  next
    case False
    with Cons.prems row_after_untouched[of cs tb i] show ?thesis by auto
  qed
qed simp

lemma touch_session_row:
  assumes wf: "wf_ledger lib L" and t: "touch_session lib L ts sid close st = Inr (b, cs)"
    and row: "row_of L ''thread_sessions'' sid = Some row"
  shows "\<exists>c \<in> set cs. c_table c = ''thread_sessions'' \<and> c_id c = sid"
    and "c \<in> set cs \<Longrightarrow> c_table c = ''thread_sessions'' \<Longrightarrow> c_row c \<noteq> JNull
      \<and> jfind (c_row c) ''status'' = Some (JStr st)
      \<and> jfind (c_row c) ''ended_at'' = Some (if close then JFloat ts else JNull)"
proof -
  let ?row = "jset ''ended_at'' (if close then JFloat ts else JNull)
    (jset ''status'' (JStr st) (jset ''last_active_at'' (JFloat ts) row))"
  have jrow: "jok row" by (rule row_of_jok[OF wf row])
  have "lrow L ''thread_sessions'' sid = Inr row"
    using lrow_row_of[OF wf, of "''thread_sessions''"] row by (simp add: schema_def)
  then obtain c1 cs2 leases where c1: "mk_change lib ''thread_sessions'' sid ?row = Inr c1"
    and cs2: "res_map (touch_lease lib ts close) leases = Inr cs2" and cs: "cs = c1 # cs2"
    using t jok_neq_null[OF jrow] by (auto simp: touch_session_def rbind_eq_Inr)
  have jcan: "jcan ?row" using jrow by (simp add: jok_jcan)
  note g = mk_change_good[OF c1 jcan]
  have nn: "?row \<noteq> JNull" using jrow jok_neq_null by simp
  show "\<exists>c \<in> set cs. c_table c = ''thread_sessions'' \<and> c_id c = sid" using cs g(2,3) by auto
  assume c: "c \<in> set cs" "c_table c = ''thread_sessions''"
  have "c_table c = ''thread_leases''" if "c \<in> set cs2"
    using that by (rule res_map_all[OF cs2, rotated]) (rule touch_lease_table)
  with c cs have "c = c1" by auto
  then show "c_row c \<noteq> JNull \<and> jfind (c_row c) ''status'' = Some (JStr st)
      \<and> jfind (c_row c) ''ended_at'' = Some (if close then JFloat ts else JNull)"
    using g(4,5) nn jrow by auto
qed

lemma touch_session_leases:
  assumes r: "reach lib L bs" and t: "touch_session lib L ts sid close st = Inr (b, cs)" and own: "owns L tid sid"
  shows "\<exists>c \<in> set cs. c_table c = ''thread_leases'' \<and> c_id c = tid"
proof -
  from own obtain lease where lease: "row_of L ''thread_leases'' tid = Some lease"
    "jfind lease ''session_id'' = Some (JStr sid)" by (auto simp: owns_def)
  from touch_session_split[OF reach_wf[OF r] t] obtain cs1 cs2 leases where s:
    "cs = cs1 @ cs2" "lselect lib L ''thread_leases'' [(''session_id'', JStr sid)] = Inr leases"
    "res_map (touch_lease lib ts close) leases = Inr cs2" by blast
  from lease select_leases[OF r, of sid] s(2) have "lease \<in> set leases" by auto
  from res_map_hit[OF s(3) this] obtain c where
    c: "c \<in> set cs2" "touch_lease lib ts close lease = Inr c" ..
  note g = touch_lease_good(2,3)[OF c(2) lease_row(1)[OF r lease(1)]]
  from g(2) lease_row(2)[OF r lease(1)] have "c_id c = tid" by simp
  with c(1) s(1) g(1) show ?thesis by auto
qed

text \<open>
  C6: closing a session releases its leases.  After a successful \<open>session_close\<close> the session
  owns no lease, and a lease of any other session is the same row as before; a session that
  existed is marked ended, and that row and the deletion of every lease it owned are one
  batch of the journal.
\<close>

theorem close_releases:
  assumes r: "reach lib L bs" and a: "args_ok a"
    and run: "run lib persist ts L ''session_close'' a = Inr (res, L', ob)"
    and sid: "jfind a ''session_id'' = Some (JStr sid)"
  shows "(\<forall>tid. \<not> owns L' tid sid)
    \<and> (\<forall>tid. \<not> owns L tid sid \<longrightarrow> row_of L' ''thread_leases'' tid = row_of L ''thread_leases'' tid)
    \<and> (row_of L ''thread_sessions'' sid \<noteq> None \<longrightarrow>
      (\<exists>row b. row_of L' ''thread_sessions'' sid = Some row \<and> jfind row ''ended_at'' = Some (JFloat ts)
        \<and> jfind row ''status'' \<in> Some ` JStr ` {''ended'', ''interrupted'', ''completed''}
        \<and> ob = Some b \<and> (\<forall>tid. owns L tid sid \<longrightarrow>
             (\<exists>c \<in> set (b_changes b). c_table c = ''thread_leases'' \<and> c_id c = tid \<and> c_row c = JNull))))"
proof -
  have wf: "wf_ledger lib L" by (rule reach_wf[OF r])
  from run_effect[OF wf a run] obtain cs where
    d: "dispatch lib L ''session_close'' a ts = Inr (res, cs)"
    and rows: "\<And>tb i. row_of L' tb i = row_after cs tb i (row_of L tb i)"
    and ob: "cs \<noteq> [] \<Longrightarrow> ob = Some (batch_of L cs)" by metis
  have "op_session_touch lib L True a ts = Inr (res, cs)" using d by (simp add: dispatch_def)
  then obtain st b where st: "st \<in> {''ended'', ''interrupted'', ''completed''}"
    and t: "touch_session lib L ts sid True st = Inr (b, cs)"
    using sid by (auto simp: op_session_touch_def rbind_eq_Inr Let_def idarg_def jat_eq_Inr split: if_splits)
  note lc = touch_lease_change[OF r t]
  have gone: "row_of L' ''thread_leases'' tid = None" if "owns L tid sid" for tid
    using row_after_hit[OF touch_session_leases[OF r t that], of "row_of L ''thread_leases'' tid"] lc rows
    by fastforce
  have same: "row_of L' ''thread_leases'' tid = row_of L ''thread_leases'' tid" if "\<not> owns L tid sid" for tid
    using row_after_untouched[of cs "''thread_leases''" tid] lc that rows unfolding owns_def by metis
  have "\<not> owns L' tid sid" for tid
    using gone[of tid] same[of tid] by (cases "owns L tid sid") (auto simp: owns_def)
  moreover have "\<exists>row b. row_of L' ''thread_sessions'' sid = Some row \<and> jfind row ''ended_at'' = Some (JFloat ts)
        \<and> jfind row ''status'' \<in> Some ` JStr ` {''ended'', ''interrupted'', ''completed''}
        \<and> ob = Some b \<and> (\<forall>tid. owns L tid sid \<longrightarrow>
             (\<exists>c \<in> set (b_changes b). c_table c = ''thread_leases'' \<and> c_id c = tid \<and> c_row c = JNull))"
    if row: "row_of L ''thread_sessions'' sid = Some row0" for row0
  proof -
    note ts = touch_session_row[OF wf t row]
    from row_after_hit[OF ts(1), of "Some row0"] ts(2) rows row obtain c where
      c: "c \<in> set cs" "row_of L' ''thread_sessions'' sid = Some (c_row c)"
      "jfind (c_row c) ''status'' = Some (JStr st)" "jfind (c_row c) ''ended_at'' = Some (JFloat ts)" by fastforce
    have "\<exists>c \<in> set cs. c_table c = ''thread_leases'' \<and> c_id c = tid \<and> c_row c = JNull" if "owns L tid sid" for tid
      using touch_session_leases[OF r t that] lc by fastforce
    moreover have "ob = Some (batch_of L cs)" using ob c(1) by fastforce
    ultimately show ?thesis using c st by (intro exI[of _ "c_row c"] exI[of _ "batch_of L cs"]) (auto simp: batch_of_def)
  qed
  ultimately show ?thesis using same by blast
qed

theorem close_releases_witness:
  "\<exists>res L' ob. run demo_lib (\<lambda>_. True) 10 (fst demo) ''session_close'' (jobj [(''session_id'', JStr ''s1'')])
       = Inr (res, L', ob)
    \<and> owns (fst demo) ''t1'' ''s1'' \<and> (\<forall>tid. \<not> owns L' tid ''s1'')"
proof -
  let ?a = "jobj [(''session_id'', JStr ''s1'')]"
  have "case run demo_lib (\<lambda>_. True) 10 (fst demo) ''session_close'' ?a of
     Inl _ \<Rightarrow> False | Inr (res, L', ob) \<Rightarrow> ob \<noteq> None" by code_simp
  then obtain res L' ob where run: "run demo_lib (\<lambda>_. True) 10 (fst demo) ''session_close'' ?a = Inr (res, L', ob)"
    by (auto split: sum.splits)
  with close_releases[OF demo_reach _ run] demo_lease show ?thesis
    by (auto simp: args_ok_def owns_def)
qed

end
