(* ===== verification/Task_Ledger_List.thy ===== *)
theory Task_Ledger_List
  imports Task_Ledger_Lease
begin

text \<open>
  The listing operations: the order of the rows, the cursor of a page, and that a client
  which follows the cursors sees every matching row exactly once; the lineage walk; reads;
  and retried creations.
\<close>

section \<open>Sorting under a strict order\<close>

locale row_order =
  fixes lt :: "json \<Rightarrow> json \<Rightarrow> bool" and key :: "json \<Rightarrow> json" and ok :: "json \<Rightarrow> bool"
  assumes irrefl: "ok x \<Longrightarrow> \<not> lt x x"
    and trans: "ok x \<Longrightarrow> ok y \<Longrightarrow> ok z \<Longrightarrow> lt x y \<Longrightarrow> lt y z \<Longrightarrow> lt x z"
    and total: "ok x \<Longrightarrow> ok y \<Longrightarrow> key x \<noteq> key y \<Longrightarrow> lt x y \<or> lt y x"
begin

lemma mset_insert: "mset (insert_row lt x xs) = add_mset x (mset xs)"
  by (induction xs) auto

lemma mset_sort: "mset (sort_rows lt xs) = mset xs"
  by (induction xs) (auto simp: sort_rows_def mset_insert)

lemma set_sort: "set (sort_rows lt xs) = set xs"
  using mset_eq_setD[OF mset_sort] .

lemma length_sort: "length (sort_rows lt xs) = length xs"
  using mset_eq_length[OF mset_sort] .

lemma set_insert: "set (insert_row lt x xs) = insert x (set xs)"
  using arg_cong[OF mset_insert, of set_mset] by simp

lemma sorted_insert:
  assumes "sorted_wrt lt xs" and "ok x" and "\<forall>y \<in> set xs. ok y \<and> key y \<noteq> key x"
  shows "sorted_wrt lt (insert_row lt x xs)"
  using assms
proof (induction xs)
  case (Cons y ys)
  then have sorted: "sorted_wrt lt (insert_row lt x ys)" and y: "ok y" "key y \<noteq> key x" by auto
  show ?case
  proof (cases "lt y x")
    case True
    with sorted Cons.prems(1) show ?thesis by (auto simp: set_insert)
  next
    case False
    with total[OF y(1) Cons.prems(2) y(2)] have "lt x y" by blast
    moreover have "lt x z" if "z \<in> set ys" for z
      using trans[OF Cons.prems(2) y(1) _ \<open>lt x y\<close>] Cons.prems(1,3) that by auto
    ultimately show ?thesis using False Cons.prems(1) by auto
  qed
qed simp

lemma sorted_sort:
  "\<forall>x \<in> set xs. ok x \<Longrightarrow> distinct (map key xs) \<Longrightarrow> sorted_wrt lt (sort_rows lt xs)"
proof (induction xs)
  case (Cons x xs)
  have sort: "sort_rows lt (x # xs) = insert_row lt x (sort_rows lt xs)" by (simp add: sort_rows_def)
  have "key x \<notin> key ` set xs" using Cons.prems(2) by simp
  then have "key y \<noteq> key x" if "y \<in> set xs" for y using imageI[OF that, of key] by metis
  then have "\<forall>y \<in> set xs. ok y \<and> key y \<noteq> key x" using Cons.prems(1) by simp
  then show ?case unfolding sort
    by (intro sorted_insert) (use Cons in \<open>simp_all add: set_sort\<close>)
qed (simp add: sort_rows_def)

lemma sorted_unique:
  "sorted_wrt lt xs \<Longrightarrow> sorted_wrt lt ys \<Longrightarrow> mset xs = mset ys \<Longrightarrow> \<forall>x \<in> set xs. ok x \<Longrightarrow> xs = ys"
proof (induction xs arbitrary: ys)
  case (Cons x xs)
  then obtain y ys' where ys: "ys = y # ys'" by (cases ys) auto
  have set: "set (x # xs) = set ys" using mset_eq_setD[OF Cons.prems(3)] .
  have "x = y"
  proof (rule ccontr)
    assume "x \<noteq> y"
    with set ys have "y \<in> set xs" "x \<in> set ys'" by auto
    with Cons.prems(1,2) ys have "lt x y" "lt y x" by auto
    with Cons.prems(4) set ys trans irrefl show False by (metis list.set_intros(1))
  qed
  with Cons ys show ?case by auto
qed simp

lemma filter_after:
  assumes "sorted_wrt lt xs" and "\<forall>x \<in> set xs. ok x" and "m < length xs"
  shows "filter (lt (xs ! m)) xs = drop (Suc m) xs"
proof -
  have split: "xs = take m xs @ xs ! m # drop (Suc m) xs" using assms(3) by (rule id_take_nth_drop)
  have p: "ok (xs ! m)" using assms(2,3) by simp
  from assms(1) have s: "sorted_wrt lt (take m xs @ xs ! m # drop (Suc m) xs)" by (subst split[symmetric])
  have "filter (lt (xs ! m)) (take m xs) = []"
  proof (rule filter_False, rule ballI)
    fix x assume x: "x \<in> set (take m xs)"
    with s have "lt x (xs ! m)" by (auto simp: sorted_wrt_append)
    moreover have "ok x" using x assms(2) by (meson in_set_takeD)
    ultimately show "\<not> lt (xs ! m) x" using trans[OF p _ p] irrefl[OF p] by blast
  qed
  moreover have "filter (lt (xs ! m)) (drop (Suc m) xs) = drop (Suc m) xs"
    using s by (auto simp: sorted_wrt_append)
  ultimately show ?thesis using irrefl[OF p] by (subst (2) split) simp
qed

text \<open>The rows after the last row of a page, sorted, are the rest of the sorted rows.\<close>

lemma sort_after:
  assumes "\<forall>x \<in> set xs. ok x" and "distinct (map key xs)" and "m < length xs"
  shows "sort_rows lt (filter (lt (sort_rows lt xs ! m)) xs) = drop (Suc m) (sort_rows lt xs)"
proof (rule sorted_unique)
  let ?S = "sort_rows lt xs" and ?P = "lt (sort_rows lt xs ! m)"
  have S: "sorted_wrt lt ?S" "\<forall>x \<in> set ?S. ok x" "m < length ?S"
    using sorted_sort[OF assms(1,2)] assms by (auto simp: set_sort length_sort)
  have ok: "\<forall>x \<in> set (filter ?P xs). ok x" using assms(1) by simp
  have "distinct (map key (filter ?P xs))" using assms(2) by (rule distinct_map_filter)
  with ok show "sorted_wrt lt (sort_rows lt (filter ?P xs))" by (rule sorted_sort)
  show "sorted_wrt lt (drop (Suc m) ?S)" using S(1) by (rule sorted_wrt_drop)
  show "\<forall>x \<in> set (sort_rows lt (filter ?P xs)). ok x" using ok by (simp add: set_sort)
  have "mset (filter ?P ?S) = mset (filter ?P xs)" by (simp add: mset_filter mset_sort)
  then show "mset (sort_rows lt (filter ?P xs)) = mset (drop (Suc m) ?S)"
    using filter_after[OF S] by (simp add: mset_sort)
qed

end

section \<open>The order of rows\<close>

definition row_shape :: "string \<Rightarrow> string \<Rightarrow> json \<Rightarrow> bool" where
  "row_shape ord key r = (is_number (jidx r ord) \<and> is_string (jidx r key))"

fun num :: "json \<Rightarrow> rat" where
  "num (JInt i) = of_int i"
| "num (JFloat r) = r"
| "num j = 0"

fun str :: "json \<Rightarrow> string" where
  "str (JStr s) = s"
| "str j = []"

lemma jless_num: "is_number x \<Longrightarrow> is_number y \<Longrightarrow> jless x y \<longleftrightarrow> num x < num y"
  by (cases x; cases y) (simp_all add: jless.simps)

lemma jeq_num: "is_number x \<Longrightarrow> is_number y \<Longrightarrow> jeq x y \<longleftrightarrow> num x = num y"
  by (cases x; cases y) simp_all

lemma jless_str: "is_string x \<Longrightarrow> is_string y \<Longrightarrow> jless x y \<longleftrightarrow> str x < str y"
  by (cases x; cases y) (simp_all add: jless.simps)

lemma str_inj: "is_string x \<Longrightarrow> is_string y \<Longrightarrow> str x = str y \<longleftrightarrow> x = y"
  by (cases x; cases y) simp_all

lemma row_less_iff:
  "row_shape ord key x \<Longrightarrow> row_shape ord key y \<Longrightarrow> row_less ord key x y \<longleftrightarrow>
     num (jidx y ord) < num (jidx x ord)
     \<or> num (jidx x ord) = num (jidx y ord) \<and> str (jidx x key) < str (jidx y key)"
  by (auto simp: row_less_def row_shape_def jless_num jeq_num jless_str)

interpretation rows: row_order "row_less ord key" "\<lambda>r. jidx r key" "row_shape ord key" for ord key
proof
  fix x y z
  assume x: "row_shape ord key x"
  show "\<not> row_less ord key x x" using x by (simp add: row_less_iff)
  assume y: "row_shape ord key y"
  show "row_less ord key x y \<or> row_less ord key y x" if "jidx x key \<noteq> jidx y key"
    using x y that str_inj[of "jidx x key" "jidx y key"]
    by (auto simp: row_less_iff row_shape_def)
  assume z: "row_shape ord key z"
  show "row_less ord key x z" if "row_less ord key x y" "row_less ord key y z"
    using that x y z by (auto simp: row_less_iff)
qed

section \<open>The rows a listing matches\<close>

definition list_matches :: "jlib \<Rightarrow> string \<Rightarrow> json \<Rightarrow> rat \<Rightarrow> table \<Rightarrow> json list res" where
  "list_matches lib opn a ts t =
     rbind (list_filters opn a t) (\<lambda>fs. rbind (list_candidates lib opn a t fs)
       (res_filter (list_keep lib opn a ts)))"

lemma stored_key:
  assumes r: "reach lib L bs" and t: "table_at L tb = Inr t" and row: "(i, row) \<in> set (t_rows t)"
  shows "row_of L tb i = Some row" and "jfind row (t_key t) = Some (JStr i)" and "jok row"
    and "validate_row L tb i row = Inr ()"
proof -
  from table_at_schema[OF reach_wf[OF r] t] have tab: "om_get (l_tables L) tb = Some t" "wf_table lib t" by auto
  show ro: "row_of L tb i = Some row"
    using tab row wf_tableD(1)[OF tab(2)] by (simp add: row_of_def om_get_Some_iff)
  show jok: "jok row" by (rule row_of_jok[OF reach_wf[OF r] ro])
  show v: "validate_row L tb i row = Inr ()" using reach_valid_rows[OF r] ro by (simp add: valid_rows_def)
  with t jok_neq_null[OF jok] show "jfind row (t_key t) = Some (JStr i)"
    by (auto simp: validate_row_def rbind_eq_Inr jat_eq_Inr)
qed

lemma order_column:
  assumes "map_of list_tables opn = Some tb"
  shows "\<exists>cols. columns tb = Inr cols \<and> order_field opn \<in> set cols"
    and "order_field opn \<in> set numeric_columns" and "order_field opn \<notin> set nullable_columns"
  using assms
  by (auto simp: list_tables_def columns_def order_field_def numeric_columns_def nullable_columns_def
      split: if_splits)

lemma stored_shape:
  assumes "reach lib L bs" and "table_at L tb = Inr t" and "(i, row) \<in> set (t_rows t)"
    and "map_of list_tables opn = Some tb"
  shows "row_shape (order_field opn) (t_key t) row"
proof -
  note sk = stored_key[OF assms(1-3)]
  from order_column(1)[OF assms(4)] obtain cols where
    "columns tb = Inr cols" "order_field opn \<in> set cols" by blast
  from validate_row_field[OF sk(4) this jok_neq_null[OF sk(3)]]
  have "is_number (jidx row (order_field opn))"
    using order_column(2,3)[OF assms(4)] by (auto simp: check_column_def jidx_def split: option.splits)
  with sk(2) show ?thesis by (simp add: row_shape_def jidx_def)
qed

lemma scan_keys:
  assumes r: "reach lib L bs" and t: "table_at L tb = Inr t"
  shows "distinct (map (\<lambda>r. jidx r (t_key t)) (scan_select fs t))" and "set (scan_select fs t) \<subseteq> snd ` set (t_rows t)"
proof -
  from table_at_schema[OF reach_wf[OF r] t] have wf: "wf_table lib t" by auto
  have "map (\<lambda>r. jidx r (t_key t)) (map snd (t_rows t)) = map (JStr \<circ> fst) (t_rows t)"
    using stored_key(2)[OF r t] by (auto simp: jidx_def)
  moreover have "distinct (map (JStr \<circ> fst) (t_rows t))"
    using om_inv_distinct[OF wf_tableD(1)[OF wf]] by (simp add: distinct_map comp_inj_on inj_on_def)
  ultimately show "distinct (map (\<lambda>r. jidx r (t_key t)) (scan_select fs t))"
    unfolding scan_select_def by (metis distinct_map_filter)
  show "set (scan_select fs t) \<subseteq> snd ` set (t_rows t)" by (auto simp: scan_select_def)
qed

lemma list_filters_indexed:
  assumes f: "list_filters opn a t = Inr fs" and inv: "om_inv (t_indexes t)"
    and inbox: "opn = ''inbox_list'' \<Longrightarrow> ''delivery_state'' \<in> set (om_keys (t_indexes t))"
  shows "om_inv fs" and "om_get fs k = Some v \<Longrightarrow> k \<in> set (om_keys (t_indexes t))"
proof -
  let ?q = "concat (map (\<lambda>(f, _). case jfind a f of None \<Rightarrow> []
      | Some v \<Rightarrow> if v = JNull \<or> (opn = ''artifact_list'' \<and> v = JStr []) then [] else [(f, v)]) (t_indexes t))"
  have base: "k \<in> set (om_keys (t_indexes t))" if "om_get (om_of_list ?q) k = Some v" for k v
    using that by (force dest!: map_of_SomeD simp: om_keys_def split: option.splits if_splits)
  define q where "q = om_of_list ?q"
  from f obtain fs1 where s1: "(case om_get q ''repository'' of
                  Some v \<Rightarrow> if opn = ''session_list''
                            then rbind (get_string v) (\<lambda>s. Inr (om_put ''repository'' (JStr (repository_key s)) q))
                            else Inr q
                | None \<Rightarrow> Inr q) = Inr fs1"
    and s2: "(if opn = ''inbox_list''
         then rbind (jvalue_str a ''state'' ''pending'')
                (\<lambda>s. Inr (om_put ''delivery_state'' (JStr s) (om_del ''target_realm'' fs1)))
         else Inr fs1) = Inr fs"
    unfolding list_filters_def Let_def q_def rbind_eq_Inr by blast
  have q: "om_inv q" by (simp add: q_def)
  from s1 q have fs1: "om_inv fs1" "\<And>k v. om_get fs1 k = Some v \<Longrightarrow> om_get q k \<noteq> None"
    by (auto simp: rbind_eq_Inr split: option.splits if_splits)
  from s2 have fs: "fs = (if opn = ''inbox_list'' then fs else fs1)"
      "opn = ''inbox_list'' \<Longrightarrow> \<exists>s. fs = om_put ''delivery_state'' (JStr s) (om_del ''target_realm'' fs1)"
    by (auto simp: rbind_eq_Inr split: if_splits)
  show "om_inv fs" using fs fs1(1) by (cases "opn = ''inbox_list''") auto
  show "k \<in> set (om_keys (t_indexes t))" if "om_get fs k = Some v"
  proof (cases "opn = ''inbox_list''")
    case True
    with fs(2) fs1 base that inbox show ?thesis by (fastforce simp: q_def split: if_splits)
  next
    case False
    with fs(1) fs1(2) base that show ?thesis by (fastforce simp: q_def)
  qed
qed

lemma res_filter_eq: "res_filter p xs = Inr ys \<Longrightarrow> ys = filter (\<lambda>x. p x = Inr True) xs"
  by (induction xs arbitrary: ys) (auto simp: rbind_eq_Inr split: if_splits)

lemma list_table_schema:
  assumes "wf_ledger lib L" and "map_of list_tables opn = Some tb" and "table_at L tb = Inr t"
  shows "wf_table lib t" and "''after'' \<notin> set (om_keys (t_indexes t))"
    and "opn = ''inbox_list'' \<Longrightarrow> om_keys (t_indexes t) = [''delivery_state'', ''target_realm'']"
proof -
  from table_at_schema[OF assms(1,3)] obtain k flds where
    t: "schema tb = Some (k, flds)" "wf_table lib t" "om_keys (t_indexes t) = flds" by blast
  show "wf_table lib t" by (rule t(2))
  show "''after'' \<notin> set (om_keys (t_indexes t))"
    using t(1) unfolding t(3) by (auto simp: schema_def split: if_splits)
  show "om_keys (t_indexes t) = [''delivery_state'', ''target_realm'']" if "opn = ''inbox_list''"
    using t(1) assms(2) that unfolding t(3) by (auto simp: schema_def list_tables_def)
qed

lemma om_indexed: "om_inv fs \<Longrightarrow> (\<And>k v. om_get fs k = Some v \<Longrightarrow> k \<in> F) \<Longrightarrow> \<forall>(f, v) \<in> set fs. f \<in> F"
  by (auto simp: om_get_Some_iff)

lemma candidates_distinct:
  assumes r: "reach lib L bs" and m: "map_of list_tables opn = Some tb" and t: "table_at L tb = Inr t"
    and f: "list_filters opn a t = Inr fs" and c: "list_candidates lib opn a t fs = Inr rs"
  shows "distinct (map (\<lambda>r. jidx r (t_key t)) rs)" and "set rs \<subseteq> snd ` set (t_rows t)"
proof -
  note s = list_table_schema[OF reach_wf[OF r] m t]
  have inv: "om_inv (t_indexes t)" by (rule wf_tableD(2)[OF s(1)])
  note fi = list_filters_indexed[OF f inv]
  note sk = scan_keys[OF r t]
  have "distinct (map (\<lambda>r. jidx r (t_key t)) rs) \<and> set rs \<subseteq> snd ` set (t_rows t)"
  proof (cases "inbox_realm opn a")
    case None
    have "table_select lib fs t = Inr (scan_select fs t)"
      by (rule table_select_scan[OF s(1)], rule om_indexed) (use fi s(3) in auto)
    with c None have "rs = scan_select fs t" by (simp add: list_candidates_def)
    with sk show ?thesis by simp
  next
    case (Some realm)
    then have inbox: "opn = ''inbox_list''" by (auto simp: inbox_realm_def split: if_splits)
    note keys = s(3)[OF inbox]
    define fr where "fr v = om_put ''target_realm'' v fs" for v
    have fr: "om_inv (fr v)" "om_get (fr v) ''target_realm'' = Some v" for v
      using fi(1) keys by (simp_all add: fr_def)
    have sel: "table_select lib (fr v) t = Inr (scan_select (fr v) t)" for v
      by (rule table_select_scan[OF s(1)], rule om_indexed)
        (use fi keys in \<open>auto simp: fr_def split: if_splits\<close>)
    have rs: "rs = scan_select (fr realm) t @ (if realm = JStr [] then [] else scan_select (fr (JStr [])) t)"
      using c Some by (auto simp: list_candidates_def sel[unfolded fr_def] fr_def split: if_splits)
    have realm: "\<exists>w. jfind row ''target_realm'' = Some w \<and> jeq w v" if "row \<in> set (scan_select (fr v) t)" for row v
      using that fr[of v] by (auto simp: scan_select_def row_sat_def om_get_Some_iff)
    have same: "x = y" if "x \<in> set (scan_select (fr realm) t)" "y \<in> set (scan_select (fr (JStr [])) t)"
        "jidx x (t_key t) = jidx y (t_key t)" for x y
    proof -
      from subsetD[OF sk(2) that(1)] subsetD[OF sk(2) that(2)] obtain i j where
        "(i, x) \<in> set (t_rows t)" "(j, y) \<in> set (t_rows t)" by auto
      then have "row_of L tb i = Some x" "row_of L tb j = Some y"
        "jidx x (t_key t) = JStr i" "jidx y (t_key t) = JStr j"
        using stored_key(1,2)[OF r t] by (simp_all add: jidx_def)
      with that(3) show ?thesis by simp
    qed
    have "jidx x (t_key t) \<noteq> jidx y (t_key t)" if "realm \<noteq> JStr []"
        "x \<in> set (scan_select (fr realm) t)" "y \<in> set (scan_select (fr (JStr [])) t)" for x y
    proof
      assume "jidx x (t_key t) = jidx y (t_key t)"
      with same[OF that(2,3)] have "x = y" .
      with realm[OF that(2)] realm[OF that(3)] that(1) show False by (auto simp: jeq_str_left)
    qed
    then have "(\<lambda>r. jidx r (t_key t)) ` set (scan_select (fr realm) t)
        \<inter> (\<lambda>r. jidx r (t_key t)) ` set (scan_select (fr (JStr [])) t) = {}" if "realm \<noteq> JStr []"
      using that by auto
    then show ?thesis unfolding rs using sk by simp
  qed
  then show "distinct (map (\<lambda>r. jidx r (t_key t)) rs)" "set rs \<subseteq> snd ` set (t_rows t)" by auto
qed

lemma matches_ok:
  assumes r: "reach lib L bs" and m: "map_of list_tables opn = Some tb" and t: "table_at L tb = Inr t"
    and ms: "list_matches lib opn a ts t = Inr rs"
  shows "distinct (map (\<lambda>r. jidx r (t_key t)) rs)"
    and "\<forall>x \<in> set rs. row_shape (order_field opn) (t_key t) x"
proof -
  from ms obtain fs cs where "list_filters opn a t = Inr fs" "list_candidates lib opn a t fs = Inr cs"
    and rs: "rs = filter (\<lambda>x. list_keep lib opn a ts x = Inr True) cs"
    by (auto simp: list_matches_def rbind_eq_Inr dest: res_filter_eq)
  note cd = candidates_distinct[OF r m t this(1,2)]
  show "distinct (map (\<lambda>r. jidx r (t_key t)) rs)" unfolding rs using cd(1) by (rule distinct_map_filter)
  show "\<forall>x \<in> set rs. row_shape (order_field opn) (t_key t) x"
    using cd(2) stored_shape[OF r t _ m] unfolding rs by auto
qed

lemma matches_after:
  assumes "jok a" and "''after'' \<notin> set (om_keys (t_indexes t))"
  shows "list_matches lib opn (jset ''after'' v a) ts t = list_matches lib opn a ts t"
proof -
  have mp: "map (\<lambda>(f, _). case jfind (jset ''after'' v a) f of None \<Rightarrow> []
      | Some v \<Rightarrow> if v = JNull \<or> (opn = ''artifact_list'' \<and> v = JStr []) then [] else [(f, v)]) (t_indexes t)
    = map (\<lambda>(f, _). case jfind a f of None \<Rightarrow> []
      | Some v \<Rightarrow> if v = JNull \<or> (opn = ''artifact_list'' \<and> v = JStr []) then [] else [(f, v)]) (t_indexes t)"
    by (rule map_cong) (use assms in \<open>force simp: om_keys_def split: prod.split\<close>)+
  have st: "jvalue_str (jset ''after'' v a) ''state'' d = jvalue_str a ''state'' d" for d
    using assms(1) by (simp add: jvalue_str_def jvalue_def)
  have ao: "jvalue_bool (jset ''after'' v a) ''active_only'' b = jvalue_bool a ''active_only'' b" for b
    using assms(1) by (simp add: jvalue_bool_def jvalue_def)
  have ir: "inbox_realm opn (jset ''after'' v a) = inbox_realm opn a"
    using assms(1) by (simp add: inbox_realm_def)
  have pg: "jfind (jset ''after'' v a) ''path_glob'' = jfind a ''path_glob''" using assms(1) by simp
  have "list_filters opn (jset ''after'' v a) t = list_filters opn a t"
    by (simp only: list_filters_def mp st)
  moreover have "list_candidates lib opn (jset ''after'' v a) t = list_candidates lib opn a t"
    by (rule ext) (simp only: list_candidates_def ir)
  moreover have "list_keep lib opn (jset ''after'' v a) ts = list_keep lib opn a ts"
    by (rule ext) (simp only: list_keep_def ir ao pg)
  ultimately show ?thesis by (simp add: list_matches_def)
qed

section \<open>Following the cursors\<close>

text \<open>
  The client of a listing: it passes the cursor of each answer as \<open>after\<close> of the next
  request until an answer has none.  \<open>None\<close> is an error, or more pages than the fuel.
\<close>

fun follow :: "jlib \<Rightarrow> ledger \<Rightarrow> string \<Rightarrow> rat \<Rightarrow> nat \<Rightarrow> json \<Rightarrow> json list option" where
  "follow lib L opn ts 0 a = None"
| "follow lib L opn ts (Suc n) a =
     (case op_list lib L opn a ts of
        Inl _ \<Rightarrow> None
      | Inr (r, _) \<Rightarrow>
          (case jfind r ''rows'' of
             Some (JArr page) \<Rightarrow>
               if jidx r ''after'' = JNull then Some page
               else map_option ((@) page) (follow lib L opn ts n (jset ''after'' (jidx r ''after'') a))
           | _ \<Rightarrow> None))"

definition cursor_of :: "string \<Rightarrow> string \<Rightarrow> json \<Rightarrow> json" where
  "cursor_of ord key r = jobj [(ord, jidx r ord), (key, jidx r key)]"

lemma after_less_cursor:
  "ord \<noteq> key \<Longrightarrow> after_less ord key (cursor_of ord key p) row = Inr (row_less ord key p row)"
  by (simp add: after_less_def cursor_of_def row_less_def jat_def)

lemma res_filter_Inr: "res_filter (\<lambda>x. Inr (P x)) xs = Inr (filter P xs)"
  by (induction xs) auto

lemma op_list_eq:
  assumes "map_of list_tables opn = Some tb" and "table_at L tb = Inr t"
  shows "op_list lib L opn a ts =
    rbind (list_matches lib opn a ts t) (\<lambda>rs1.
    rbind (case jfind a ''after'' of
             None \<Rightarrow> Inr rs1
           | Some after \<Rightarrow> if after = JNull then Inr rs1
               else res_filter (after_less (order_field opn) (t_key t) after) rs1) (\<lambda>rs2.
    rbind (jvalue_int a ''limit'' 100) (\<lambda>lmt.
    let (page, cursor) = list_page (order_field opn) (t_key t) (nat (max 1 (min 100 lmt))) rs2 in
    Inr (jobj [(''rows'', JArr page), (''after'', cursor)], []))))"
  using assms by (simp add: op_list_def list_matches_def rbind_assoc)

text \<open>One page, when the rows left after the cursor are, sorted, the rows \<open>D\<close>.\<close>

lemma list_page_eq:
  assumes "sort_rows (row_less ord key) rs = D" and "0 < n"
  shows "list_page ord key n rs
    = (take n D, if n < length D then cursor_of ord key (D ! (n - 1)) else JNull)"
proof -
  have len: "length rs = length D" using assms(1) rows.length_sort by metis
  show ?thesis
  proof (cases "n < length D")
    case True
    then have "last (take n D) = D ! (n - 1)" using assms(2) by (subst last_conv_nth) auto
    with True len assms show ?thesis by (simp add: list_page_def Let_def cursor_of_def)
  next
    case False
    with len assms show ?thesis by (simp add: list_page_def Let_def)
  qed
qed

lemma order_not_key:
  assumes "wf_ledger lib L" and "map_of list_tables opn = Some tb" and "table_at L tb = Inr t"
  shows "order_field opn \<noteq> t_key t"
proof -
  from table_at_schema[OF assms(1,3)] obtain flds where "schema tb = Some (t_key t, flds)" by blast
  then have "t_key t \<in> {''thread_id'', ''session_id'', ''item_id'', ''artifact_id''}"
    by (auto simp: schema_def split: if_splits)
  moreover have "order_field opn \<in> {''last_active_at'', ''last_heartbeat_at'', ''created_at''}"
    by (simp add: order_field_def)
  ultimately show ?thesis by fastforce
qed

lemma jset_jset: "jok a \<Longrightarrow> jset k v (jset k w a) = jset k v a"
  by (rule json_ext) auto

lemma take_drop_split: "take m (drop (Suc k) S) @ drop (Suc (k + m)) S = drop (Suc k) S"
  by (metis add.commute add_Suc_right append_take_drop_id drop_drop)

lemma follow_rest:
  assumes r: "reach lib L bs" and m: "map_of list_tables opn = Some tb" and t: "table_at L tb = Inr t"
    and a: "jok a" and ms: "list_matches lib opn a ts t = Inr rs" and lmt: "jvalue_int a ''limit'' 100 = Inr lmt"
    and S: "S = sort_rows (row_less (order_field opn) (t_key t)) rs"
    and k: "k < length S" and fuel: "length S - Suc k < n"
  shows "follow lib L opn ts n (jset ''after'' (cursor_of (order_field opn) (t_key t) (S ! k)) a)
    = Some (drop (Suc k) S)"
  using k fuel
proof (induction n arbitrary: k)
  case (Suc n)
  let ?ord = "order_field opn" and ?key = "t_key t"
  let ?a = "jset ''after'' (cursor_of ?ord ?key (S ! k)) a"
  define lm where "lm = nat (max 1 (min 100 lmt))"
  have lm: "0 < lm" by (simp add: lm_def)
  note wf = reach_wf[OF r]
  note ok = matches_ok[OF r m t ms]
  have len: "length S = length rs" by (simp add: S rows.length_sort)
  have rest: "sort_rows (row_less ?ord ?key) (filter (row_less ?ord ?key (S ! k)) rs) = drop (Suc k) S"
    unfolding S by (rule rows.sort_after[OF ok(2,1)]) (use Suc.prems(1) len in simp)
  have cur: "cursor_of ?ord ?key p \<noteq> JNull" for p by (simp add: cursor_of_def)
  have "res_filter (after_less ?ord ?key (cursor_of ?ord ?key (S ! k))) rs
      = Inr (filter (row_less ?ord ?key (S ! k)) rs)"
    unfolding after_less_cursor[OF order_not_key[OF wf m t], abs_def] by (rule res_filter_Inr)
  moreover have "jvalue_int ?a ''limit'' 100 = Inr lmt" using lmt a by (simp add: jvalue_int_def jvalue_def)
  moreover have "list_matches lib opn ?a ts t = Inr rs"
    using matches_after[OF a list_table_schema(2)[OF wf m t]] ms by simp
  ultimately have page: "op_list lib L opn ?a ts = Inr (jobj [(''rows'', JArr (take lm (drop (Suc k) S))),
      (''after'', if lm < length (drop (Suc k) S) then cursor_of ?ord ?key (drop (Suc k) S ! (lm - 1)) else JNull)], [])"
    using a cur list_page_eq[OF rest lm] by (simp add: op_list_eq[OF m t] lm_def)
  show ?case
  proof (cases "lm < length (drop (Suc k) S)")
    case True
    have nxt: "drop (Suc k) S ! (lm - 1) = S ! (k + lm)" using True lm by simp
    have "follow lib L opn ts n (jset ''after'' (cursor_of ?ord ?key (S ! (k + lm))) a) = Some (drop (Suc (k + lm)) S)"
      by (rule Suc.IH) (use True Suc.prems lm in auto)
    with page True nxt cur a show ?thesis
      by (simp add: jidx_def jset_jset take_drop_split)
  next
    case False
    with page show ?thesis by (simp add: jidx_def)
  qed
qed simp

text \<open>What a client that follows the cursors gets.\<close>

lemma follow_all:
  assumes r: "reach lib L bs" and m: "map_of list_tables opn = Some tb" and t: "table_at L tb = Inr t"
    and a: "jok a" and no: "jfind a ''after'' \<in> {None, Some JNull}"
    and ms: "list_matches lib opn a ts t = Inr rs" and lmt: "jvalue_int a ''limit'' 100 = Inr lmt"
  shows "\<exists>out. follow lib L opn ts (Suc (length rs)) a = Some out
    \<and> mset out = mset rs \<and> distinct out \<and> sorted_wrt (row_less (order_field opn) (t_key t)) out"
proof -
  let ?ord = "order_field opn" and ?key = "t_key t"
  define S where "S = sort_rows (row_less ?ord ?key) rs"
  define lm where "lm = nat (max 1 (min 100 lmt))"
  have lm: "0 < lm" by (simp add: lm_def)
  note ok = matches_ok[OF r m t ms]
  have len: "length S = length rs" by (simp add: S_def rows.length_sort)
  have page: "op_list lib L opn a ts = Inr (jobj [(''rows'', JArr (take lm S)),
      (''after'', if lm < length S then cursor_of ?ord ?key (S ! (lm - 1)) else JNull)], [])"
    using ms lmt no list_page_eq[OF S_def[symmetric] lm] by (auto simp: op_list_eq[OF m t] lm_def)
  have "follow lib L opn ts (Suc (length rs)) a = Some S"
  proof (cases "lm < length S")
    case True
    have "follow lib L opn ts (length rs) (jset ''after'' (cursor_of ?ord ?key (S ! (lm - 1))) a)
        = Some (drop (Suc (lm - 1)) S)"
      by (rule follow_rest[OF r m t a ms lmt S_def]) (use True lm len in auto)
    with page True lm show ?thesis by (simp add: jidx_def cursor_of_def)
  next
    case False
    with page show ?thesis by (simp add: jidx_def)
  qed
  moreover have "distinct rs" using ok(1) by (simp add: distinct_map)
  then have "distinct S" by (metis S_def rows.mset_sort mset_eq_imp_distinct_iff)
  ultimately show ?thesis
    using rows.sorted_sort[OF ok(2,1)] by (simp add: S_def rows.mset_sort)
qed

text \<open>
  C7: listings.  On a reachable ledger a client that starts without a cursor and follows
  the cursors of the answers gets, after at most one page per matching row, every
  matching row exactly once, the most recent first and ties in key order.
\<close>

theorem list_pages:
  assumes r: "reach lib L bs" and m: "map_of list_tables opn = Some tb" and t: "table_at L tb = Inr t"
    and a: "jok a" and no: "jfind a ''after'' \<in> {None, Some JNull}"
    and ms: "list_matches lib opn a ts t = Inr rs" and lmt: "jvalue_int a ''limit'' 100 = Inr lmt"
  shows "\<exists>out. follow lib L opn ts (Suc (length rs)) a = Some out
    \<and> mset out = mset rs \<and> distinct out \<and> sorted_wrt (row_less (order_field opn) (t_key t)) out"
  using assms by (rule follow_all)

theorem list_pages_witness:
  "\<exists>out. follow demo_lib (fst demo) ''session_list'' 10 3 (jobj [(''limit'', JInt 1)]) = Some out
    \<and> length out = 2 \<and> distinct out \<and> sorted_wrt (row_less ''last_active_at'' ''session_id'') out"
proof -
  define t where "t = the (om_get (l_tables (fst demo)) ''thread_sessions'')"
  have t: "table_at (fst demo) ''thread_sessions'' = Inr t" "t_key t = ''session_id''"
    unfolding t_def by code_simp+
  have "case list_matches demo_lib ''session_list'' (jobj [(''limit'', JInt 1)]) 10 t of
      Inl _ \<Rightarrow> False | Inr rs \<Rightarrow> length rs = 2" unfolding t_def by code_simp
  then obtain rs where rs: "list_matches demo_lib ''session_list'' (jobj [(''limit'', JInt 1)]) 10 t = Inr rs"
    "length rs = 2" by (auto split: sum.splits)
  have "map_of list_tables ''session_list'' = Some ''thread_sessions''" by code_simp
  moreover have "jvalue_int (jobj [(''limit'', JInt 1)]) ''limit'' 100 = Inr 1" by code_simp
  moreover have "order_field ''session_list'' = ''last_active_at''" by code_simp
  ultimately show ?thesis
    using list_pages[OF demo_reach _ t(1), of "''session_list''" "jobj [(''limit'', JInt 1)]" 10 rs 1] rs t(2)
    by (auto simp: numeral_3_eq_3 dest: mset_eq_length)
qed

section \<open>Lineage\<close>

abbreviation artifact_link :: "json \<Rightarrow> json \<Rightarrow> bool" where
  "artifact_link x y \<equiv> jidx x ''parent_artifact_id'' = jidx y ''artifact_id''"

lemma artifact_row:
  assumes r: "reach lib L bs" and t: "table_at L ''artifacts'' = Inr t" and row: "table_get t i = row" "row \<noteq> JNull"
  shows "jidx row ''artifact_id'' = JStr i"
    and "jidx row ''parent_artifact_id'' = JNull \<or> (\<exists>p. jidx row ''parent_artifact_id'' = JStr p)"
proof -
  have key: "t_key t = ''artifact_id''" using table_at_schema[OF reach_wf[OF r] t] by (auto simp: schema_def)
  have wf: "wf_table lib t" using table_at_schema[OF reach_wf[OF r] t] by blast
  from row have "(i, row) \<in> set (t_rows t)"
    by (auto simp: table_get_def dest: om_get_SomeD split: option.splits)
  note sk = stored_key[OF r t this]
  show "jidx row ''artifact_id'' = JStr i" using sk(2) key by (simp add: jidx_def)
  have "columns ''artifacts'' = Inr [''artifact_id'', ''created_at'', ''kind'', ''md5'', ''metadata_json'', ''mtime'',
           ''parent_artifact_id'', ''path'', ''size'', ''task_id'', ''thread_id'']" by (simp add: columns_def)
  from validate_row_field[OF sk(4) this _ row(2), of "''parent_artifact_id''"]
  show "jidx row ''parent_artifact_id'' = JNull \<or> (\<exists>p. jidx row ''parent_artifact_id'' = JStr p)"
    by (auto simp: check_column_def jidx_def numeric_columns_def elim: is_string.elims split: option.splits if_splits)
qed

definition lineage_state :: "string \<Rightarrow> string \<Rightarrow> string list \<Rightarrow> json list \<Rightarrow> bool" where
  "lineage_state i0 i seen acc =
     (distinct seen \<and> map (\<lambda>r. jidx r ''artifact_id'') acc = map JStr (rev seen) \<and> length acc \<le> 100
      \<and> successively artifact_link acc
      \<and> (acc = [] \<longrightarrow> i = i0) \<and> (acc \<noteq> [] \<longrightarrow> jidx (hd acc) ''artifact_id'' = JStr i0)
      \<and> (acc \<noteq> [] \<longrightarrow> i \<noteq> [] \<longrightarrow> jidx (last acc) ''parent_artifact_id'' = JStr i))"

lemma lineage_state_step:
  assumes st: "lineage_state i0 i seen acc" and i: "i \<noteq> []" "i \<notin> set seen" "length acc < 100"
    and row: "jidx row ''artifact_id'' = JStr i" and p: "p \<noteq> [] \<Longrightarrow> jidx row ''parent_artifact_id'' = JStr p"
  shows "lineage_state i0 p (i # seen) (acc @ [row])"
proof (cases "acc = []")
  case True
  with assms show ?thesis by (simp add: lineage_state_def)
next
  case False
  with assms show ?thesis by (auto simp: lineage_state_def successively_append_iff)
qed

lemma lineage_loop_total:
  assumes r: "reach lib L bs" and t: "table_at L ''artifacts'' = Inr t"
  shows "lineage_state i0 i seen acc \<Longrightarrow> \<exists>rs nxt q seen'. lineage_loop t i seen acc = Inr (rs, nxt)
    \<and> lineage_state i0 q seen' rs
    \<and> (nxt = q \<and> (q = [] \<or> q \<in> set seen' \<or> length rs = 100) \<or> nxt = [] \<and> table_get t q = JNull)"
proof (induction "100 - length acc" arbitrary: i seen acc rule: less_induct)
  case less
  show ?case
  proof (cases "i \<noteq> [] \<and> i \<notin> set seen \<and> length acc < 100")
    case False
    then have "lineage_loop t i seen acc = Inr (acc, i)" by (subst lineage_loop.simps) auto
    moreover have "i = [] \<or> i \<in> set seen \<or> length acc = 100"
      using False less.prems by (auto simp: lineage_state_def)
    ultimately show ?thesis using less.prems by blast
  next
    case go: True
    show ?thesis
    proof (cases "table_get t i = JNull")
      case True
      with go have "lineage_loop t i seen acc = Inr (acc, [])" by (subst lineage_loop.simps) auto
      with True less.prems show ?thesis by blast
    next
      case False
      note row = artifact_row[OF r t refl False]
      from row(2) obtain p where p: "p \<noteq> [] \<Longrightarrow> jidx (table_get t i) ''parent_artifact_id'' = JStr p"
        and loop: "lineage_loop t i seen acc = lineage_loop t p (i # seen) (acc @ [table_get t i])"
      proof (elim disjE exE)
        assume "jidx (table_get t i) ''parent_artifact_id'' = JNull"
        with go False have "lineage_loop t i seen acc = lineage_loop t [] (i # seen) (acc @ [table_get t i])"
          by (subst lineage_loop.simps) simp
        with that[of "[]"] show thesis by simp
      next
        fix p assume p: "jidx (table_get t i) ''parent_artifact_id'' = JStr p"
        with go False have "lineage_loop t i seen acc = lineage_loop t p (i # seen) (acc @ [table_get t i])"
          by (subst lineage_loop.simps) simp
        with p that[of p] show thesis by simp
      qed
      have "lineage_state i0 p (i # seen) (acc @ [table_get t i])"
        by (rule lineage_state_step[OF less.prems]) (use go row(1) p in auto)
      moreover have "100 - length (acc @ [table_get t i]) < 100 - length acc" using go by auto
      ultimately show ?thesis unfolding loop by (rule less.hyps[rotated])
    qed
  qed
qed

text \<open>
  C9: artifact lineage.  On a reachable ledger the walk always returns, with at most 100
  rows: a chain of distinct artifacts in which each row's parent is the next one, starting
  at the requested artifact.  A non-empty \<open>next_id\<close> is the parent of the last row, and
  is given only when the page is full or when the parent was already visited (a cycle).
\<close>

theorem lineage_walk:
  assumes "reach lib L bs" and "table_at L ''artifacts'' = Inr t"
  shows "\<exists>rs nxt. lineage_loop t i [] [] = Inr (rs, nxt) \<and> length rs \<le> 100
    \<and> distinct (map (\<lambda>r. jidx r ''artifact_id'') rs) \<and> successively artifact_link rs
    \<and> (rs \<noteq> [] \<longrightarrow> jidx (hd rs) ''artifact_id'' = JStr i)
    \<and> (rs \<noteq> [] \<longrightarrow> nxt \<noteq> [] \<longrightarrow> jidx (last rs) ''parent_artifact_id'' = JStr nxt
         \<and> (length rs = 100 \<or> JStr nxt \<in> (\<lambda>r. jidx r ''artifact_id'') ` set rs))"
proof -
  have "lineage_state i i [] []" by (simp add: lineage_state_def)
  from lineage_loop_total[OF assms this] obtain rs nxt q seen where
    l: "lineage_loop t i [] [] = Inr (rs, nxt)" and st: "lineage_state i q seen rs"
    and nxt: "nxt = q \<and> (q = [] \<or> q \<in> set seen \<or> length rs = 100) \<or> nxt = [] \<and> table_get t q = JNull" by blast
  have ids: "map (\<lambda>r. jidx r ''artifact_id'') rs = map JStr (rev seen)" "distinct seen"
    using st by (auto simp: lineage_state_def)
  have "distinct (map (\<lambda>r. jidx r ''artifact_id'') rs)" unfolding ids(1) using ids(2)
    by (simp add: distinct_map inj_on_def)
  moreover have "JStr q \<in> (\<lambda>r. jidx r ''artifact_id'') ` set rs" if "q \<in> set seen"
    using that arg_cong[OF ids(1), of set] by simp
  ultimately show ?thesis
    using l st nxt by (intro exI[of _ rs] exI[of _ nxt]) (auto simp: lineage_state_def)
qed

definition demo_artifacts :: "ledger \<times> batch list" where
  "demo_artifacts = fold demo_step
     [(0, ''artifact_register'', jobj [(''id'', JStr ''a''), (''path'', JStr ''p'')]),
      (1, ''artifact_register'', jobj [(''id'', JStr ''b''), (''path'', JStr ''p''), (''parent_artifact_id'', JStr ''a'')])]
     (ledger_init, [])"

theorem lineage_walk_witness:
  "\<exists>rs nxt. lineage_loop (the (om_get (l_tables (fst demo_artifacts)) ''artifacts'')) ''b'' [] [] = Inr (rs, nxt)
    \<and> length rs = 2 \<and> successively artifact_link rs"
proof -
  let ?t = "the (om_get (l_tables (fst demo_artifacts)) ''artifacts'')"
  have reach: "reach demo_lib (fst demo_artifacts) (snd demo_artifacts)"
    unfolding demo_artifacts_def by (rule demo_fold_reach) (auto simp: args_ok_def intro: reach.start)
  have t: "table_at (fst demo_artifacts) ''artifacts'' = Inr ?t" by code_simp
  have "case lineage_loop ?t ''b'' [] [] of Inl _ \<Rightarrow> False | Inr (rs, _) \<Rightarrow> length rs = 2" by code_simp
  with lineage_walk[OF reach t, of "''b''"] show ?thesis by auto
qed

section \<open>Reads and retries\<close>

text \<open>
  the operations classified as reads, which skip the write lock and the durable sync,
  never write a batch and leave the ledger as it is.
\<close>

theorem reads_do_not_write:
  assumes "is_read opn" and "run lib persist ts L opn a = Inr (r, L', ob)"
  shows "L' = L \<and> ob = None"
proof -
  from assms(2) obtain cs where d: "dispatch lib L opn a ts = Inr (r, cs)"
    and f: "finish lib persist L r cs = Inr (r, L', ob)"
    by (auto simp: run_def rbind_eq_Inr finish_def Let_def split: if_splits)
  have "opn \<notin> {''thread_create'', ''thread_update'', ''thread_seal'', ''session_bind'', ''session_touch'',
      ''session_close'', ''lease_claim'', ''lease_release'', ''inbox_push'', ''inbox_ack'',
      ''artifact_register'', ''artifact_link'', ''import''}"
    using assms(1) unfolding is_read_def by (auto simp del: list.inject)
  with d have "cs = []" unfolding dispatch_def by (auto split: if_split_asm dest: read_ops_no_change)
  with f show ?thesis by simp
qed

theorem reads_do_not_write_witness:
  "\<exists>r. run demo_lib (\<lambda>_. True) 10 (fst demo) ''thread_get'' (jobj [(''thread_id'', JStr ''t1'')]) = Inr (r, fst demo, None)"
proof -
  have "case run demo_lib (\<lambda>_. True) 10 (fst demo) ''thread_get'' (jobj [(''thread_id'', JStr ''t1'')]) of
      Inl _ \<Rightarrow> False | Inr _ \<Rightarrow> True" by code_simp
  then obtain r L' ob where
    "run demo_lib (\<lambda>_. True) 10 (fst demo) ''thread_get'' (jobj [(''thread_id'', JStr ''t1'')]) = Inr (r, L', ob)"
    by (auto split: sum.splits)
  with reads_do_not_write[OF _ this] show ?thesis by (simp add: is_read_def)
qed

lemma require_ref_kept:
  assumes "wf_ledger lib L" and "wf_ledger lib L'" and "require_ref L tb j = Inr ()"
    and "\<And>i. row_of L tb i \<noteq> None \<Longrightarrow> row_of L' tb i \<noteq> None"
  shows "require_ref L' tb j = Inr ()"
proof (cases "j = JNull")
  case False
  with assms(3) obtain i row where j: "j = JStr i" and row: "lrow L tb i = Inr row" "row \<noteq> JNull"
    by (auto simp: require_ref_def rbind_eq_Inr)
  from row have "schema tb \<noteq> None" using table_at_schema[OF assms(1)] by (fastforce simp: lrow_def rbind_eq_Inr)
  then have l: "lrow L' tb i = Inr (case row_of L' tb i of None \<Rightarrow> JNull | Some r \<Rightarrow> r)"
    by (rule lrow_row_of[OF assms(2)])
  from lrow_Inr[OF row(1)] row(2) have "row_of L tb i \<noteq> None" by (auto split: option.splits)
  then obtain r where "row_of L' tb i = Some r" using assms(4) by blast
  with l j row_of_jok[OF assms(2), of tb i r] show ?thesis by (auto simp: require_ref_def jok_neq_null)
qed (simp add: require_ref_def)

lemma row_after_keeps: "\<forall>c \<in> set cs. c_row c \<noteq> JNull \<Longrightarrow> q \<noteq> None \<Longrightarrow> row_after cs tb i q \<noteq> None"
  by (induction cs arbitrary: q) auto

lemma lrow_kept:
  assumes "wf_ledger lib L'" and "schema tb \<noteq> None" and "row_of L' tb i \<noteq> None"
  shows "\<exists>row. lrow L' tb i = Inr row \<and> row \<noteq> JNull"
  using lrow_row_of[OF assms(1,2)] assms(3) row_of_jok[OF assms(1)] jok_neq_null by fastforce

text \<open>What the three creating operations have in common: the id, the references, the change.\<close>

lemma create_cases:
  assumes "opn \<in> {''thread_create'', ''inbox_push'', ''artifact_register''}"
    and "dispatch lib L opn a ts = Inr (r, cs)"
  shows "\<exists>tb i. tb \<in> {''threads'', ''inbox'', ''artifacts''} \<and> r = JStr i
    \<and> (cs \<noteq> [] \<longrightarrow> (\<exists>c. cs = [c] \<and> c_table c = tb \<and> c_id c = i \<and> c_row c \<noteq> JNull))
    \<and> (cs = [] \<longrightarrow> (\<exists>row. lrow L tb i = Inr row \<and> row \<noteq> JNull))
    \<and> (\<forall>L' ts'. (\<forall>tb j. require_ref L tb j = Inr () \<longrightarrow> require_ref L' tb j = Inr ()) \<longrightarrow>
          (\<exists>row. lrow L' tb i = Inr row \<and> row \<noteq> JNull) \<longrightarrow> dispatch lib L' opn a ts' = Inr (JStr i, []))"
proof -
  have nn: "mk_change lib tb i (jobj kvs) = Inr c \<Longrightarrow> c_row c \<noteq> JNull \<and> c_table c = tb \<and> c_id c = i" for tb i kvs c
    using mk_change_good(2,3,4)[of lib tb i "jobj kvs" c] by simp
  consider "opn = ''thread_create''" | "opn = ''inbox_push''" | "opn = ''artifact_register''" using assms(1) by auto
  then show ?thesis
  proof cases
    case 1
    with assms(2) obtain i where i: "idarg a ''id'' = Inr i" by (auto simp: dispatch_def op_thread_create_def rbind_eq_Inr)
    with 1 assms(2) show ?thesis
      by - (rule exI[of _ "''threads''"], rule exI[of _ i], auto simp: dispatch_def op_thread_create_def rbind_eq_Inr split: if_splits dest!: nn)
  next
    case 2
    with assms(2) obtain i where i: "idarg a ''id'' = Inr i" by (auto simp: dispatch_def op_inbox_push_def rbind_eq_Inr)
    with 2 assms(2) show ?thesis
      by - (rule exI[of _ "''inbox''"], rule exI[of _ i], auto simp: dispatch_def op_inbox_push_def rbind_eq_Inr split: if_splits dest!: nn)
  next
    case 3
    with assms(2) obtain i where i: "idarg a ''id'' = Inr i" by (auto simp: dispatch_def op_artifact_register_def rbind_eq_Inr)
    with 3 assms(2) show ?thesis
      by - (rule exI[of _ "''artifacts''"], rule exI[of _ i], auto simp: dispatch_def op_artifact_register_def rbind_eq_Inr split: if_splits dest!: nn)
  qed
qed

text \<open>
  retries.  Creating a thread, pushing an inbox item or registering an artifact is
  idempotent: the same request sent again at any later time returns the same id, writes no
  batch and leaves the ledger as it is.
\<close>

theorem create_idempotent:
  assumes r: "reach lib L bs" and a: "args_ok a"
    and opn: "opn \<in> {''thread_create'', ''inbox_push'', ''artifact_register''}"
    and run: "run lib persist ts L opn a = Inr (res, L', ob)"
  shows "run lib persist' ts' L' opn a = Inr (res, L', None)"
proof -
  have wf: "wf_ledger lib L" by (rule reach_wf[OF r])
  from run_effect[OF wf a run] obtain cs where d: "dispatch lib L opn a ts = Inr (res, cs)"
    and wf': "wf_ledger lib L'" and rows: "\<And>tb i. row_of L' tb i = row_after cs tb i (row_of L tb i)" by metis
  from create_cases[OF opn d] obtain tb i where tb: "tb \<in> {''threads'', ''inbox'', ''artifacts''}"
    and res: "res = JStr i"
    and cs: "cs \<noteq> [] \<Longrightarrow> \<exists>c. cs = [c] \<and> c_table c = tb \<and> c_id c = i \<and> c_row c \<noteq> JNull"
    and old: "cs = [] \<Longrightarrow> \<exists>row. lrow L tb i = Inr row \<and> row \<noteq> JNull"
    and again: "\<And>L' ts'. (\<forall>tb j. require_ref L tb j = Inr () \<longrightarrow> require_ref L' tb j = Inr ()) \<Longrightarrow>
          \<exists>row. lrow L' tb i = Inr row \<and> row \<noteq> JNull \<Longrightarrow> dispatch lib L' opn a ts' = Inr (JStr i, [])"
    by blast
  have keep: "row_of L' tb i \<noteq> None" if "row_of L tb i \<noteq> None" for tb i
    using rows row_after_keeps[of cs _ tb i, OF _ that] cs by (cases "cs = []") auto
  have "row_of L' tb i \<noteq> None"
  proof (cases "cs = []")
    case True
    with old have "row_of L tb i \<noteq> None" by (auto dest!: lrow_Inr split: option.splits)
    then show ?thesis by (rule keep)
  next
    case False
    with cs rows show ?thesis by auto
  qed
  moreover have "schema tb \<noteq> None" using tb by (auto simp: schema_def)
  ultimately have "\<exists>row. lrow L' tb i = Inr row \<and> row \<noteq> JNull" using lrow_kept[OF wf'] by blast
  with again[of L'] require_ref_kept[OF wf wf'] keep have "dispatch lib L' opn a ts' = Inr (JStr i, [])" by blast
  then show ?thesis by (simp add: run_def res)
qed

theorem create_idempotent_witness:
  "\<exists>L' b. run demo_lib (\<lambda>_. True) 0 ledger_init ''thread_create'' (jobj [(''id'', JStr ''t1''), (''title'', JStr ''T'')])
       = Inr (JStr ''t1'', L', Some b)
    \<and> run demo_lib (\<lambda>_. True) 7 L' ''thread_create'' (jobj [(''id'', JStr ''t1''), (''title'', JStr ''T'')])
       = Inr (JStr ''t1'', L', None)"
proof -
  let ?a = "jobj [(''id'', JStr ''t1''), (''title'', JStr ''T'')]"
  have "case run demo_lib (\<lambda>_. True) 0 ledger_init ''thread_create'' ?a of
      Inl _ \<Rightarrow> False | Inr (r, L', ob) \<Rightarrow> r = JStr ''t1'' \<and> ob \<noteq> None" by code_simp
  then obtain L' b where run: "run demo_lib (\<lambda>_. True) 0 ledger_init ''thread_create'' ?a = Inr (JStr ''t1'', L', Some b)"
    by (auto split: sum.splits)
  have "args_ok ?a" by (simp add: args_ok_def)
  from create_idempotent[OF reach.start this _ run, of "\<lambda>_. True" 7] run show ?thesis by auto
qed

end
