(* ===== verification/Text_Codec.thy ===== *)
theory Text_Codec
  imports Chitta_Base
begin

text \<open>
  Characters and numbers as text, as the C library's \<open>printf\<close>, \<open>scanf\<close> and \<open>stoi\<close>
  treat them: hexadecimal with a field width, decimal, white space, signs.  A string is
  the sequence of its bytes.
\<close>

section \<open>Characters\<close>

definition cc :: "nat \<Rightarrow> char" where
  "cc n = char_of n"

definition is_space :: "char \<Rightarrow> bool" where
  "is_space c = (of_char c \<in> set [32, 9, 10, 11, 12, 13 :: nat])"

definition is_digit :: "char \<Rightarrow> bool" where
  "is_digit c = (48 \<le> (of_char c :: nat) \<and> (of_char c :: nat) \<le> 57)"

definition is_upper :: "char \<Rightarrow> bool" where
  "is_upper c = (65 \<le> (of_char c :: nat) \<and> (of_char c :: nat) \<le> 90)"

definition is_lower :: "char \<Rightarrow> bool" where
  "is_lower c = (97 \<le> (of_char c :: nat) \<and> (of_char c :: nat) \<le> 122)"

definition is_alpha :: "char \<Rightarrow> bool" where
  "is_alpha c = (is_upper c \<or> is_lower c)"

definition is_alnum :: "char \<Rightarrow> bool" where
  "is_alnum c = (is_alpha c \<or> is_digit c)"

definition to_lower :: "char \<Rightarrow> char" where
  "to_lower c = (if is_upper c then cc (of_char c + 32) else c)"

definition nul :: char where
  "nul = CHR 0x00"

text \<open>The part of a string a C function sees: up to the first NUL byte.\<close>

definition c_str :: "string \<Rightarrow> string" where
  "c_str s = takeWhile (\<lambda>c. c \<noteq> nul) s"

section \<open>Hexadecimal\<close>

definition hexd :: "nat \<Rightarrow> char" where
  "hexd n = ''0123456789abcdef'' ! n"

definition hexval :: "char \<Rightarrow> nat option" where
  "hexval c =
     (let k = (of_char c :: nat) in
      if 48 \<le> k \<and> k \<le> 57 then Some (k - 48)
      else if 97 \<le> k \<and> k \<le> 102 then Some (k - 87)
      else if 65 \<le> k \<and> k \<le> 70 then Some (k - 55) else None)"

fun hex_of :: "nat \<Rightarrow> string" where
  "hex_of v = (if v < 16 then [hexd v] else hex_of (v div 16) @ [hexd (v mod 16)])"

declare hex_of.simps [simp del]

text \<open>The conversion \<open>%0wx\<close>: at least \<open>w\<close> digits, padded with zeros on the left.\<close>

definition hexfmt :: "nat \<Rightarrow> nat \<Rightarrow> string" where
  "hexfmt w v = replicate (w - length (hex_of v)) (CHR ''0'') @ hex_of v"

definition hexnum :: "string \<Rightarrow> nat" where
  "hexnum s = fold (\<lambda>c n. 16 * n + (case hexval c of Some k \<Rightarrow> k | None \<Rightarrow> 0)) s 0"

text \<open>
  The conversion \<open>%wx\<close> of \<open>scanf\<close>: skip white space, then within \<open>w\<close> characters an
  optional sign, an optional \<open>0x\<close>, and at least one digit.
\<close>

definition scan_hex :: "nat \<Rightarrow> string \<Rightarrow> (u64 \<times> string) option" where
  "scan_hex w s =
     (let s1 = dropWhile is_space s;
          sgn = (case s1 of c # _ \<Rightarrow> 0 < w \<and> (c = CHR ''-'' \<or> c = CHR ''+'') | [] \<Rightarrow> False);
          neg = (sgn \<and> hd s1 = CHR ''-'');
          s2 = (if sgn then tl s1 else s1);
          w2 = (if sgn then w - 1 else w);
          px = (2 \<le> w2 \<and> (take 2 s2 = ''0x'' \<or> take 2 s2 = ''0X''));
          s3 = (if px then drop 2 s2 else s2);
          w3 = (if px then w2 - 2 else w2);
          ds = takeWhile (\<lambda>c. hexval c \<noteq> None) (take w3 s3)
      in if ds = [] then None
         else Some (if neg then - of_nat (hexnum ds) else of_nat (hexnum ds), drop (length ds) s3))"

lemma hexval_hexd [simp]: "n < 16 \<Longrightarrow> hexval (hexd n) = Some n"
proof -
  have "list_all (\<lambda>n. hexval (hexd n) = Some n) [0..<16]" by code_simp
  then show "n < 16 \<Longrightarrow> hexval (hexd n) = Some n" by (simp add: list_all_iff)
qed

lemma hexd_plain: "n < 16 \<Longrightarrow> \<not> is_space (hexd n) \<and> hexd n \<notin> set ''-+xX'' \<and> hexd n \<noteq> nul"
proof -
  have "list_all (\<lambda>n. \<not> is_space (hexd n) \<and> hexd n \<notin> set ''-+xX'' \<and> hexd n \<noteq> nul) [0..<16]" by code_simp
  then show "n < 16 \<Longrightarrow> \<not> is_space (hexd n) \<and> hexd n \<notin> set ''-+xX'' \<and> hexd n \<noteq> nul"
    by (simp add: list_all_iff)
qed

definition is_hexd :: "char \<Rightarrow> bool" where
  "is_hexd c = (\<exists>n < 16. c = hexd n)"

lemma is_hexdI [intro]: "n < 16 \<Longrightarrow> is_hexd (hexd n)"
  by (auto simp: is_hexd_def)

lemma is_hexd_plain:
  "is_hexd c \<Longrightarrow> \<not> is_space c \<and> c \<noteq> CHR ''-'' \<and> c \<noteq> CHR ''+'' \<and> c \<noteq> CHR ''x'' \<and> c \<noteq> CHR ''X''
     \<and> c \<noteq> nul \<and> hexval c \<noteq> None"
  by (auto simp: is_hexd_def dest: hexd_plain)

lemma hex_of_digits: "c \<in> set (hex_of v) \<Longrightarrow> is_hexd c"
proof (induction v rule: hex_of.induct)
  case (1 v)
  then show ?case by (subst (asm) (2) hex_of.simps) (auto split: if_splits)
qed

lemma hexd_0: "hexd 0 = CHR ''0''"
  by (simp add: hexd_def)

lemma hexfmt_digits: "c \<in> set (hexfmt w v) \<Longrightarrow> is_hexd c"
  by (auto simp: hexfmt_def hexd_0[symmetric] dest: hex_of_digits)

lemma hexnum_snoc: "n < 16 \<Longrightarrow> hexnum (s @ [hexd n]) = 16 * hexnum s + n"
  by (simp add: hexnum_def)

lemma hexnum_hex_of: "hexnum (hex_of v) = v"
proof (induction v rule: hex_of.induct)
  case (1 v)
  show ?case
  proof (cases "v < 16")
    case True
    then show ?thesis by (subst hex_of.simps) (simp add: hexnum_def)
  next
    case False
    with 1 show ?thesis by (subst hex_of.simps) (simp add: hexnum_snoc)
  qed
qed

lemma hexnum_zeros: "hexnum (replicate k (CHR ''0'') @ s) = hexnum s"
proof -
  have "hexval (CHR ''0'') = Some 0" by code_simp
  then show ?thesis by (induction k) (simp_all add: hexnum_def)
qed

lemma hexnum_hexfmt: "hexnum (hexfmt w v) = v"
  by (simp add: hexfmt_def hexnum_zeros hexnum_hex_of)

lemma length_hex_of: "0 < w \<Longrightarrow> v < 16 ^ w \<Longrightarrow> length (hex_of v) \<le> w"
proof (induction w arbitrary: v)
  case (Suc w)
  show ?case
  proof (cases "v < 16")
    case True
    then show ?thesis by (subst hex_of.simps) simp
  next
    case False
    with Suc.prems have "v div 16 < 16 ^ w" "0 < w" by (auto simp: less_mult_imp_div_less mult.commute intro: gr0I)
    from Suc.IH[OF this(2,1)] False show ?thesis by (subst hex_of.simps) simp
  qed
qed simp

lemma length_hexfmt: "0 < w \<Longrightarrow> v < 16 ^ w \<Longrightarrow> length (hexfmt w v) = w"
  using length_hex_of[of w v] by (simp add: hexfmt_def)

lemma takeWhile_all: "\<forall>c \<in> set ds. P c \<Longrightarrow> (rest = [] \<or> \<not> P (hd rest)) \<Longrightarrow> takeWhile P (ds @ rest) = ds"
  by (cases rest) (simp_all add: takeWhile_append2)

text \<open>Scanning a printed number of the field's width reads it back and leaves the rest.\<close>

lemma scan_hexfmt:
  assumes "1 < w" and "v < 16 ^ w"
  shows "scan_hex w (hexfmt w v @ rest) = Some (of_nat v, rest)"
proof -
  have len: "length (hexfmt w v) = w" using assms by (simp add: length_hexfmt)
  have dig: "\<forall>c \<in> set (hexfmt w v). is_hexd c" using hexfmt_digits by blast
  with len assms(1) obtain c d ds where cd: "hexfmt w v = c # d # ds" "is_hexd c" "is_hexd d"
    by (cases "hexfmt w v" rule: list.exhaust; cases "tl (hexfmt w v)" rule: list.exhaust) auto
  note pc = is_hexd_plain[OF cd(2)] and pd = is_hexd_plain[OF cd(3)]
  have s1: "dropWhile is_space (hexfmt w v @ rest) = hexfmt w v @ rest" using cd pc by simp
  have px: "\<not> (take 2 (hexfmt w v @ rest) = ''0x'' \<or> take 2 (hexfmt w v @ rest) = ''0X'')"
    using cd pd by simp
  have ds: "takeWhile (\<lambda>c. hexval c \<noteq> None) (take w (hexfmt w v @ rest)) = hexfmt w v"
    using len dig is_hexd_plain by (simp add: takeWhile_eq_all_conv)
  have sgn: "(case hexfmt w v @ rest of c # _ \<Rightarrow> 0 < w \<and> (c = CHR ''-'' \<or> c = CHR ''+'') | [] \<Rightarrow> False) = False"
    using cd pc by simp
  have px': "(2 \<le> w \<and> (take 2 (hexfmt w v @ rest) = ''0x'' \<or> take 2 (hexfmt w v @ rest) = ''0X'')) = False"
    using px by blast
  have ne: "hexfmt w v \<noteq> []" using cd(1) by simp
  show ?thesis
    unfolding scan_hex_def Let_def s1 sgn if_False simp_thms px' ds
    using ne len by (simp add: hexnum_hexfmt)
qed

section \<open>Decimal\<close>

definition decd :: "nat \<Rightarrow> char" where
  "decd n = cc (48 + n)"

fun dec_of :: "nat \<Rightarrow> string" where
  "dec_of v = (if v < 10 then [decd v] else dec_of (v div 10) @ [decd (v mod 10)])"

declare dec_of.simps [simp del]

definition dec_of_int :: "int \<Rightarrow> string" where
  "dec_of_int i = (if i < 0 then CHR ''-'' # dec_of (nat (- i)) else dec_of (nat i))"

definition decnum :: "string \<Rightarrow> nat" where
  "decnum s = fold (\<lambda>c n. 10 * n + ((of_char c :: nat) - 48)) s 0"

text \<open>
  \<open>std::stoi\<close>: skip white space, an optional sign, and the longest run of digits.  No
  digit and a value outside the range of \<open>int\<close> are the exceptions, here \<open>None\<close>.
\<close>

definition stoi :: "string \<Rightarrow> int option" where
  "stoi s =
     (let s1 = dropWhile is_space (c_str s);
          sgn = (case s1 of c # _ \<Rightarrow> c = CHR ''-'' \<or> c = CHR ''+'' | [] \<Rightarrow> False);
          ds = takeWhile is_digit (if sgn then tl s1 else s1);
          v = (if sgn \<and> hd s1 = CHR ''-'' then - int (decnum ds) else int (decnum ds))
      in if ds = [] \<or> v < - (2 ^ 31) \<or> 2 ^ 31 \<le> v then None else Some v)"

text \<open>
  \<open>std::strtol\<close> in base 10 on a C string: \<open>None\<close> when no digit is consumed, otherwise the
  value saturated to the range of \<open>long\<close>.
\<close>

definition strtol :: "string \<Rightarrow> int option" where
  "strtol s =
     (let s1 = dropWhile is_space s;
          sgn = (case s1 of c # _ \<Rightarrow> c = CHR ''-'' \<or> c = CHR ''+'' | [] \<Rightarrow> False);
          ds = takeWhile is_digit (if sgn then tl s1 else s1);
          v = (if sgn \<and> hd s1 = CHR ''-'' then - int (decnum ds) else int (decnum ds))
      in if ds = [] then None else Some (max (- (2 ^ 63)) (min (2 ^ 63 - 1) v)))"

lemma of_char_cc: "n < 256 \<Longrightarrow> (of_char (cc n) :: nat) = n"
  by (simp add: cc_def)

lemma decd_plain:
  "n < 10 \<Longrightarrow> is_digit (decd n) \<and> (of_char (decd n) :: nat) = 48 + n \<and> \<not> is_space (decd n)
     \<and> decd n \<noteq> CHR ''-'' \<and> decd n \<noteq> CHR ''+'' \<and> decd n \<noteq> nul \<and> decd n \<noteq> CHR '',''"
proof -
  have "list_all (\<lambda>n. is_digit (decd n) \<and> (of_char (decd n) :: nat) = 48 + n \<and> \<not> is_space (decd n)
     \<and> decd n \<noteq> CHR ''-'' \<and> decd n \<noteq> CHR ''+'' \<and> decd n \<noteq> nul \<and> decd n \<noteq> CHR '','') [0..<10]" by code_simp
  then show "n < 10 \<Longrightarrow> ?thesis" by (simp add: list_all_iff)
qed

lemma dec_of_digit: "c \<in> set (dec_of v) \<Longrightarrow> \<exists>n < 10. c = decd n"
proof (induction v rule: dec_of.induct)
  case (1 v)
  show ?case
  proof (cases "v < 10")
    case True
    with 1(2) show ?thesis by (subst (asm) dec_of.simps) auto
  next
    case False
    with 1(2) have "c \<in> set (dec_of (v div 10)) \<or> c = decd (v mod 10)" by (subst (asm) dec_of.simps) auto
    then show ?thesis
    proof
      assume "c \<in> set (dec_of (v div 10))"
      then show ?thesis by (rule 1(1)[OF False])
    next
      assume "c = decd (v mod 10)"
      moreover have "v mod 10 < 10" by simp
      ultimately show ?thesis by blast
    qed
  qed
qed

lemma dec_of_plain:
  "c \<in> set (dec_of v) \<Longrightarrow> is_digit c \<and> \<not> is_space c \<and> c \<noteq> CHR ''-'' \<and> c \<noteq> CHR ''+'' \<and> c \<noteq> nul \<and> c \<noteq> CHR '',''"
  by (drule dec_of_digit) (auto simp: decd_plain)

lemma dec_of_neq_Nil [simp]: "dec_of v \<noteq> []"
  by (subst dec_of.simps) simp

lemma decnum_dec_of [simp]: "decnum (dec_of v) = v"
proof (induction v rule: dec_of.induct)
  case (1 v)
  have snoc: "n < 10 \<Longrightarrow> decnum (s @ [decd n]) = 10 * decnum s + n" for s n
    using decd_plain[of n] by (simp add: decnum_def)
  show ?case
  proof (cases "v < 10")
    case True
    then show ?thesis using snoc[of v "[]"] by (subst dec_of.simps) (simp add: decnum_def)
  next
    case False
    with 1 show ?thesis by (subst dec_of.simps) (simp add: snoc)
  qed
qed

lemma stoi_dec_of: "v < 2 ^ 31 \<Longrightarrow> stoi (dec_of v) = Some (int v)"
proof -
  assume v: "v < 2 ^ 31"
  obtain c s where cs: "dec_of v = c # s" by (cases "dec_of v") auto
  have all: "\<forall>c \<in> set (dec_of v). is_digit c \<and> \<not> is_space c \<and> c \<noteq> nul" using dec_of_plain by blast
  have c: "c \<noteq> CHR ''-''" "c \<noteq> CHR ''+''" "\<not> is_space c" using dec_of_plain[of c v] cs by auto
  have "c_str (dec_of v) = dec_of v" using all by (simp add: c_str_def takeWhile_eq_all_conv)
  moreover have "takeWhile is_digit (dec_of v) = dec_of v" using all by (simp add: takeWhile_eq_all_conv)
  moreover have "int v < 2 ^ 31" using v by (metis of_nat_less_iff of_nat_numeral of_nat_power)
  moreover have "decnum (c # s) = v" using decnum_dec_of[of v] by (simp only: cs)
  ultimately show ?thesis using c by (simp add: stoi_def Let_def cs)
qed

end
