(* ===== verification/Utf8_Text.thy ===== *)
theory Utf8_Text
  imports Text_Codec "HOL-Library.Log_Nat"
begin

text \<open>
  Bytes that travel as JSON text: the sanitizer of the RPC protocol (\<open>protocol.hpp\<close>), the
  one of the model client (\<open>llm_http.hpp\<close>), truncation at a character boundary and the
  token estimate (\<open>text_utils.hpp\<close>).  A unit is a lead byte followed by the number of
  continuation bytes it announces; a strict unit is in addition one that the UTF-8
  standard allows.
\<close>

section \<open>Bytes\<close>

abbreviation code :: "char \<Rightarrow> nat" where
  "code c \<equiv> of_char c"

definition cont :: "char \<Rightarrow> bool" where
  "cont c = (code c AND 0xC0 = 0x80)"

definition lead2 :: "char \<Rightarrow> bool" where
  "lead2 c = (code c AND 0xE0 = 0xC0)"

definition lead3 :: "char \<Rightarrow> bool" where
  "lead3 c = (code c AND 0xF0 = 0xE0)"

definition lead4 :: "char \<Rightarrow> bool" where
  "lead4 c = (code c AND 0xF8 = 0xF0)"

definition repl :: string where
  "repl = [cc 0xEF, cc 0xBF, cc 0xBD]"

lemma and_mask: "(n :: nat) AND push_bit k (mask m) = 2 ^ k * (n div 2 ^ k mod 2 ^ m)"
proof -
  have "n AND push_bit k (mask m) = push_bit k (take_bit m (drop_bit k n))"
    by (rule bit_eqI) (auto simp: bit_simps)
  then show ?thesis by (simp add: push_bit_eq_mult take_bit_eq_mod drop_bit_eq_div mult.commute)
qed

lemma lead_masks:
  "(0xC0 :: nat) = push_bit 6 (mask 2)" "(0xE0 :: nat) = push_bit 5 (mask 3)"
  "(0xF0 :: nat) = push_bit 4 (mask 4)" "(0xF8 :: nat) = push_bit 3 (mask 5)"
  by (simp_all add: push_bit_eq_mult mask_eq_exp_minus_1)

lemma div_range: "0 < k \<Longrightarrow> (n :: nat) div k = q \<longleftrightarrow> q * k \<le> n \<and> n < q * k + k"
proof
  assume k: "0 < k" and "n div k = q"
  then show "q * k \<le> n \<and> n < q * k + k"
    using times_div_less_eq_dividend[of n k] dividend_less_div_times[OF k, of n] by (auto simp: mult.commute)
next
  assume "0 < k" "q * k \<le> n \<and> n < q * k + k"
  then show "n div k = q" by (intro div_nat_eqI) (auto simp: mult.commute)
qed

lemma masked_range:
  assumes "0 < (k :: nat)" and "n < k * m" and "v = k * q" and "lo = q * k" and "hi = q * k + k"
  shows "k * (n div k mod m) = v \<longleftrightarrow> lo \<le> n \<and> n < hi"
proof -
  have "n div k < m" using assms(1,2) by (simp add: less_mult_imp_div_less mult.commute)
  then show ?thesis using div_range[OF assms(1), of n q] assms by simp
qed

lemma byte_ranges:
  "cont c \<longleftrightarrow> 128 \<le> code c \<and> code c < 192"
  "lead2 c \<longleftrightarrow> 192 \<le> code c \<and> code c < 224"
  "lead3 c \<longleftrightarrow> 224 \<le> code c \<and> code c < 240"
  "lead4 c \<longleftrightarrow> 240 \<le> code c \<and> code c < 248"
proof -
  have b: "code c < 256" by simp
  have "code c AND 0xC0 = 2 ^ 6 * (code c div 2 ^ 6 mod 2 ^ 2)"
    by (subst lead_masks(1)) (rule and_mask)
  moreover have "(2 :: nat) ^ 6 = 64" "(2 :: nat) ^ 2 = 4" by simp_all
  ultimately have e: "code c AND 0xC0 = 64 * (code c div 64 mod 4)"
    by (simp only:)
  show "cont c \<longleftrightarrow> 128 \<le> code c \<and> code c < 192"
    unfolding cont_def e by (rule masked_range[where q = 2]) (use b in simp_all)
  have "code c AND 0xE0 = 2 ^ 5 * (code c div 2 ^ 5 mod 2 ^ 3)"
    by (subst lead_masks(2)) (rule and_mask)
  moreover have "(2 :: nat) ^ 5 = 32" "(2 :: nat) ^ 3 = 8" by simp_all
  ultimately have e: "code c AND 0xE0 = 32 * (code c div 32 mod 8)"
    by (simp only:)
  show "lead2 c \<longleftrightarrow> 192 \<le> code c \<and> code c < 224"
    unfolding lead2_def e by (rule masked_range[where q = 6]) (use b in simp_all)
  have "code c AND 0xF0 = 2 ^ 4 * (code c div 2 ^ 4 mod 2 ^ 4)"
    by (subst lead_masks(3)) (rule and_mask)
  moreover have "(2 :: nat) ^ 4 = 16" "(2 :: nat) ^ 4 = 16" by simp_all
  ultimately have e: "code c AND 0xF0 = 16 * (code c div 16 mod 16)"
    by (simp only:)
  show "lead3 c \<longleftrightarrow> 224 \<le> code c \<and> code c < 240"
    unfolding lead3_def e by (rule masked_range[where q = 14]) (use b in simp_all)
  have "code c AND 0xF8 = 2 ^ 3 * (code c div 2 ^ 3 mod 2 ^ 5)"
    by (subst lead_masks(4)) (rule and_mask)
  moreover have "(2 :: nat) ^ 3 = 8" "(2 :: nat) ^ 5 = 32" by simp_all
  ultimately have e: "code c AND 0xF8 = 8 * (code c div 8 mod 32)"
    by (simp only:)
  show "lead4 c \<longleftrightarrow> 240 \<le> code c \<and> code c < 248"
    unfolding lead4_def e by (rule masked_range[where q = 30]) (use b in simp_all)
qed

declare byte_ranges [code]

section \<open>The sanitizers\<close>

fun sanitize_utf8 :: "string \<Rightarrow> string" where
  "sanitize_utf8 [] = []"
| "sanitize_utf8 (c # s) =
     (if code c < 0x80 then c # sanitize_utf8 s
      else if lead2 c then
        (case s of a # t \<Rightarrow> if cont a then c # a # sanitize_utf8 t else repl @ sanitize_utf8 s
         | [] \<Rightarrow> repl @ sanitize_utf8 s)
      else if lead3 c then
        (case s of a # b # t \<Rightarrow> if cont a \<and> cont b then c # a # b # sanitize_utf8 t else repl @ sanitize_utf8 s
         | _ \<Rightarrow> repl @ sanitize_utf8 s)
      else if lead4 c then
        (case s of a # b # d # t \<Rightarrow>
             if cont a \<and> cont b \<and> cont d then c # a # b # d # sanitize_utf8 t else repl @ sanitize_utf8 s
         | _ \<Rightarrow> repl @ sanitize_utf8 s)
      else repl @ sanitize_utf8 s)"

definition printable :: "char \<Rightarrow> char" where
  "printable c = (if code c < 0x20 \<and> code c \<noteq> 10 \<and> code c \<noteq> 13 \<and> code c \<noteq> 9 then CHR '' '' else c)"

fun sanitize_llm :: "string \<Rightarrow> string" where
  "sanitize_llm [] = []"
| "sanitize_llm (c # s) =
     (if code c < 0x80 then printable c # sanitize_llm s
      else
        (case s of
           a # t \<Rightarrow>
             if lead2 c \<and> cont a then c # a # sanitize_llm t
             else (case t of
                     b # t' \<Rightarrow>
                       if lead3 c \<and> cont a \<and> cont b then c # a # b # sanitize_llm t'
                       else (case t' of
                               d # t'' \<Rightarrow>
                                 if lead4 c \<and> cont a \<and> cont b \<and> cont d then c # a # b # d # sanitize_llm t''
                                 else CHR '' '' # sanitize_llm s
                             | [] \<Rightarrow> CHR '' '' # sanitize_llm s)
                   | [] \<Rightarrow> CHR '' '' # sanitize_llm s)
         | [] \<Rightarrow> CHR '' '' # sanitize_llm s))"

section \<open>Units\<close>

definition utf8_unit :: "string \<Rightarrow> bool" where
  "utf8_unit u =
     (case u of
        [c] \<Rightarrow> code c < 128
      | [c, a] \<Rightarrow> lead2 c \<and> cont a
      | [c, a, b] \<Rightarrow> lead3 c \<and> cont a \<and> cont b
      | [c, a, b, d] \<Rightarrow> lead4 c \<and> cont a \<and> cont b \<and> cont d
      | _ \<Rightarrow> False)"

definition strict_unit :: "string \<Rightarrow> bool" where
  "strict_unit u =
     (utf8_unit u \<and>
      (case u of
         [c, a] \<Rightarrow> 0xC2 \<le> code c
       | [c, a, b] \<Rightarrow> (code c = 0xE0 \<longrightarrow> 0xA0 \<le> code a) \<and> (code c = 0xED \<longrightarrow> code a \<le> 0x9F)
       | [c, a, b, d] \<Rightarrow> code c \<le> 0xF4 \<and> (code c = 0xF0 \<longrightarrow> 0x90 \<le> code a) \<and> (code c = 0xF4 \<longrightarrow> code a \<le> 0x8F)
       | _ \<Rightarrow> True))"

definition units :: "(string \<Rightarrow> bool) \<Rightarrow> string \<Rightarrow> bool" where
  "units p s = (\<exists>us. s = concat us \<and> (\<forall>u \<in> set us. p u))"

lemma units_Nil [simp, intro]: "units p []"
  by (auto simp: units_def intro: exI[of _ "[]"])

lemma units_unit: "p u \<Longrightarrow> units p s \<Longrightarrow> units p (u @ s)"
proof -
  assume "p u" "units p s"
  then obtain us where "s = concat us" "\<forall>u \<in> set us. p u" by (auto simp: units_def)
  with \<open>p u\<close> show ?thesis by (auto simp: units_def intro!: exI[of _ "u # us"])
qed

lemma units_mono: "units p s \<Longrightarrow> (\<And>u. p u \<Longrightarrow> q u) \<Longrightarrow> units q s"
  by (auto simp: units_def)

lemma units_cases:
  assumes "units p s"
  obtains "s = []" | u t where "s = u @ t" "p u" "units p t"
proof -
  from assms obtain us where us: "s = concat us" "\<forall>u \<in> set us. p u" by (auto simp: units_def)
  show thesis
  proof (cases us)
    case Nil
    with us that(1) show thesis by simp
  next
    case (Cons u us')
    with us have "units p (concat us')" by (auto simp: units_def)
    with Cons us that(2) show thesis by auto
  qed
qed

lemma units_induct [consumes 1, case_names Nil unit]:
  assumes "units p s" and "P []" and "\<And>u t. p u \<Longrightarrow> units p t \<Longrightarrow> P t \<Longrightarrow> P (u @ t)"
  shows "P s"
proof -
  from assms(1) obtain us where s: "s = concat us" and us: "\<forall>u \<in> set us. p u" by (auto simp: units_def)
  from us have "P (concat us)"
  proof (induction us)
    case (Cons u us)
    moreover have "units p (concat us)" using Cons.prems by (auto simp: units_def)
    ultimately show ?case using assms(3) by simp
  qed (simp add: assms(2))
  with s show ?thesis by simp
qed

lemma utf8_unit_cases:
  assumes "utf8_unit u"
  obtains (one) c where "u = [c]" "code c < 128"
  | (two) c a where "u = [c, a]" "lead2 c" "cont a"
  | (three) c a b where "u = [c, a, b]" "lead3 c" "cont a" "cont b"
  | (four) c a b d where "u = [c, a, b, d]" "lead4 c" "cont a" "cont b" "cont d"
  using assms by (auto simp: utf8_unit_def split: list.splits)

lemma unit_intros:
  "code c < 128 \<Longrightarrow> units utf8_unit s \<Longrightarrow> units utf8_unit (c # s)"
  "lead2 c \<Longrightarrow> cont a \<Longrightarrow> units utf8_unit s \<Longrightarrow> units utf8_unit (c # a # s)"
  "lead3 c \<Longrightarrow> cont a \<Longrightarrow> cont b \<Longrightarrow> units utf8_unit s \<Longrightarrow> units utf8_unit (c # a # b # s)"
  "lead4 c \<Longrightarrow> cont a \<Longrightarrow> cont b \<Longrightarrow> cont d \<Longrightarrow> units utf8_unit s \<Longrightarrow> units utf8_unit (c # a # b # d # s)"
  using units_unit[of utf8_unit "[c]" s] units_unit[of utf8_unit "[c, a]" s]
    units_unit[of utf8_unit "[c, a, b]" s] units_unit[of utf8_unit "[c, a, b, d]" s]
  by (simp_all add: utf8_unit_def)

lemma unit_repl: "units utf8_unit s \<Longrightarrow> units utf8_unit (repl @ s)"
proof (rule units_unit)
  show "utf8_unit repl" by code_simp
qed

lemma sanitize_units: "units utf8_unit (sanitize_utf8 s)"
proof (induction s rule: measure_induct_rule[where f = length])
  case (less s)
  show ?case
  proof (cases s)
    case (Cons c t)
    note IH = less.IH[unfolded Cons]
    show ?thesis unfolding Cons sanitize_utf8.simps
      by (simp add: unit_intros unit_repl IH del: sanitize_utf8.simps split: list.split)
  qed simp
qed

lemma sanitize_unit: "utf8_unit u \<Longrightarrow> sanitize_utf8 (u @ s) = u @ sanitize_utf8 s"
  by (erule utf8_unit_cases) (auto simp: byte_ranges)

lemma sanitize_id: "units utf8_unit s \<Longrightarrow> sanitize_utf8 s = s"
  by (induction rule: units_induct) (simp_all add: sanitize_unit)

text \<open>
  the RPC sanitizer.  Its output consists of complete units only, a text of complete
  units (in particular every well-formed UTF-8 text) passes unchanged, and so sanitizing
  twice is sanitizing once.
\<close>

theorem sanitize_utf8_spec:
  "units utf8_unit (sanitize_utf8 s)
   \<and> (units strict_unit s \<longrightarrow> sanitize_utf8 s = s)
   \<and> sanitize_utf8 (sanitize_utf8 s) = sanitize_utf8 s"
  using sanitize_units sanitize_id units_mono[of strict_unit s utf8_unit] by (auto simp: strict_unit_def)

lemma strict_demo: "units strict_unit [CHR ''a'', cc 0xC3, cc 0xA9]"
proof -
  have "strict_unit [CHR ''a'']" "strict_unit [cc 0xC3, cc 0xA9]" by code_simp+
  then show ?thesis by (auto simp: units_def intro!: exI[of _ "[[CHR ''a''], [cc 0xC3, cc 0xA9]]"])
qed

theorem sanitize_utf8_spec_witness:
  "sanitize_utf8 [CHR ''a'', cc 0xC3, cc 0xA9] = [CHR ''a'', cc 0xC3, cc 0xA9]"
  using sanitize_utf8_spec[of "[CHR ''a'', cc 0xC3, cc 0xA9]"] strict_demo by blast

text \<open>
  the sanitizer is weaker than its description.  Although every call is described as
  giving valid UTF-8, the overlong pair \<open>C0 80\<close> and the out-of-range sequence
  \<open>F5 80 80 80\<close> pass unchanged, and neither is well-formed.
\<close>

theorem sanitize_keeps_malformed:
  "sanitize_utf8 [cc 0xC0, cc 0x80] = [cc 0xC0, cc 0x80]
   \<and> \<not> units strict_unit [cc 0xC0, cc 0x80]
   \<and> sanitize_utf8 [cc 0xF5, cc 0x80, cc 0x80, cc 0x80] = [cc 0xF5, cc 0x80, cc 0x80, cc 0x80]
   \<and> \<not> units strict_unit [cc 0xF5, cc 0x80, cc 0x80, cc 0x80]"
proof -
  have first: "\<exists>u t. s = u @ t \<and> strict_unit u" if "units strict_unit s" "s \<noteq> []" for s
    using that by (auto elim: units_cases)
  have "\<not> units strict_unit [cc 0xC0, cc 0x80]"
  proof
    assume "units strict_unit [cc 0xC0, cc 0x80]"
    from first[OF this] obtain u t where "[cc 0xC0, cc 0x80] = u @ t" "strict_unit u" by auto
    then have "strict_unit [cc 0xC0] \<or> strict_unit [cc 0xC0, cc 0x80] \<or> strict_unit []"
      by (auto simp: Cons_eq_append_conv)
    moreover have "\<not> strict_unit [cc 0xC0] \<and> \<not> strict_unit [cc 0xC0, cc 0x80] \<and> \<not> strict_unit []" by code_simp
    ultimately show False by blast
  qed
  moreover have "\<not> units strict_unit [cc 0xF5, cc 0x80, cc 0x80, cc 0x80]"
  proof
    assume "units strict_unit [cc 0xF5, cc 0x80, cc 0x80, cc 0x80]"
    from first[OF this] obtain u t where "[cc 0xF5, cc 0x80, cc 0x80, cc 0x80] = u @ t" "strict_unit u" by auto
    then have "strict_unit [] \<or> strict_unit [cc 0xF5] \<or> strict_unit [cc 0xF5, cc 0x80]
        \<or> strict_unit [cc 0xF5, cc 0x80, cc 0x80] \<or> strict_unit [cc 0xF5, cc 0x80, cc 0x80, cc 0x80]"
      by (auto simp: Cons_eq_append_conv)
    moreover have "\<not> strict_unit [] \<and> \<not> strict_unit [cc 0xF5] \<and> \<not> strict_unit [cc 0xF5, cc 0x80]
        \<and> \<not> strict_unit [cc 0xF5, cc 0x80, cc 0x80] \<and> \<not> strict_unit [cc 0xF5, cc 0x80, cc 0x80, cc 0x80]" by code_simp
    ultimately show False by blast
  qed
  moreover have "sanitize_utf8 [cc 0xC0, cc 0x80] = [cc 0xC0, cc 0x80]"
    "sanitize_utf8 [cc 0xF5, cc 0x80, cc 0x80, cc 0x80] = [cc 0xF5, cc 0x80, cc 0x80, cc 0x80]" by code_simp+
  ultimately show ?thesis by blast
qed

definition control :: "char \<Rightarrow> bool" where
  "control c = (code c < 0x20 \<and> code c \<noteq> 10 \<and> code c \<noteq> 13 \<and> code c \<noteq> 9)"

lemma printable_facts: "code c < 128 \<Longrightarrow> code (printable c) < 128" "\<not> control (printable c)"
  by (auto simp: printable_def control_def)

lemma not_control: "128 \<le> code c \<Longrightarrow> \<not> control c" "\<not> control (CHR '' '')" "code (CHR '' '') < 128"
  by (auto simp: control_def)

lemma high_bytes: "cont c \<Longrightarrow> 128 \<le> code c" "lead2 c \<Longrightarrow> 128 \<le> code c" "lead3 c \<Longrightarrow> 128 \<le> code c"
    "lead4 c \<Longrightarrow> 128 \<le> code c"
  by (simp_all add: byte_ranges)

lemma llm_cases:
  obtains (ascii) "code c < 128" "sanitize_llm (c # t) = printable c # sanitize_llm t"
  | (two) a r where "t = a # r" "lead2 c" "cont a" "sanitize_llm (c # t) = c # a # sanitize_llm r"
  | (three) a b r where "t = a # b # r" "lead3 c" "cont a" "cont b" "sanitize_llm (c # t) = c # a # b # sanitize_llm r"
  | (four) a b d r where "t = a # b # d # r" "lead4 c" "cont a" "cont b" "cont d"
      "sanitize_llm (c # t) = c # a # b # d # sanitize_llm r"
  | (bad) "sanitize_llm (c # t) = CHR '' '' # sanitize_llm t"
proof -
  define w where "w = sanitize_llm t"
  note def = sanitize_llm.simps(2)[of c t, folded w_def]
  show thesis
    using that def[symmetric] unfolding w_def[symmetric]
    by (auto simp del: sanitize_llm.simps split: if_splits list.splits)
qed

lemma llm_step:
  "\<exists>u r. sanitize_llm (c # t) = u @ sanitize_llm r \<and> length u + length r = Suc (length t)
     \<and> u \<noteq> [] \<and> utf8_unit u \<and> (\<forall>x \<in> set u. \<not> control x)"
proof (cases rule: llm_cases[of c t])
  case ascii
  then show ?thesis
    by (intro exI[of _ "[printable c]"] exI[of _ t]) (simp add: utf8_unit_def printable_facts)
next
  case (two a r)
  then show ?thesis by (intro exI[of _ "[c, a]"] exI[of _ r]) (simp add: utf8_unit_def not_control high_bytes)
next
  case (three a b r)
  then show ?thesis by (intro exI[of _ "[c, a, b]"] exI[of _ r]) (simp add: utf8_unit_def not_control high_bytes)
next
  case (four a b d r)
  then show ?thesis by (intro exI[of _ "[c, a, b, d]"] exI[of _ r]) (simp add: utf8_unit_def not_control high_bytes)
next
  case bad
  then show ?thesis by (intro exI[of _ "[CHR '' '']"] exI[of _ t]) (simp add: utf8_unit_def not_control)
qed

text \<open>
  the sanitizer of the model client.  Its output consists of complete units only, has
  no control character other than newline, carriage return and tab, and is never longer
  than its input.
\<close>

theorem sanitize_llm_spec:
  "units utf8_unit (sanitize_llm s) \<and> length (sanitize_llm s) \<le> length s \<and> \<not> (\<exists>c \<in> set (sanitize_llm s). control c)"
proof (induction s rule: measure_induct_rule[where f = length])
  case (less s)
  show ?case
  proof (cases s)
    case (Cons c t)
    from llm_step[of c t] obtain u r where ur: "sanitize_llm s = u @ sanitize_llm r" "length u + length r = length s"
      "u \<noteq> []" "utf8_unit u" "\<forall>x \<in> set u. \<not> control x" unfolding Cons by auto
    from ur(2,3) have "length r < length s" by (cases u) auto
    from less.IH[OF this] ur show ?thesis by (auto intro: units_unit)
  qed simp
qed

section \<open>Truncation\<close>

fun trunc_pos :: "string \<Rightarrow> nat \<Rightarrow> nat" where
  "trunc_pos s 0 = 0"
| "trunc_pos s (Suc i) = (if cont (s ! Suc i) then trunc_pos s i else Suc i)"

definition utf8_trunc :: "string \<Rightarrow> nat \<Rightarrow> string" where
  "utf8_trunc s max_bytes =
     (if length s \<le> max_bytes then s else take (trunc_pos s max_bytes) s)"

lemma trunc_pos_le: "trunc_pos s i \<le> i"
  by (induction i) (auto intro: le_SucI)

lemma trunc_pos_boundary: "trunc_pos s i = 0 \<or> \<not> cont (s ! trunc_pos s i)"
  by (induction i) auto

lemma trunc_pos_skipped: "trunc_pos s i < j \<Longrightarrow> j \<le> i \<Longrightarrow> cont (s ! j)"
proof (induction i)
  case (Suc i)
  then show ?case by (cases "j = Suc i") (auto split: if_splits)
qed simp

lemma unit_cont: "utf8_unit u \<Longrightarrow> 0 < i \<Longrightarrow> i < length u \<Longrightarrow> cont (u ! i)"
  by (erule utf8_unit_cases) (auto simp: nth_Cons' less_Suc_eq)

lemma unit_head: "utf8_unit u \<Longrightarrow> u \<noteq> [] \<and> \<not> cont (hd u) \<and> length u \<le> 4"
  by (erule utf8_unit_cases) (auto simp: byte_ranges)

lemma units_take:
  assumes "units p s" and pu: "\<And>u. p u \<Longrightarrow> utf8_unit u"
  shows "i \<le> length s \<Longrightarrow> (i < length s \<Longrightarrow> i = 0 \<or> \<not> cont (s ! i)) \<Longrightarrow> units p (take i s)"
  using assms(1)
proof (induction arbitrary: i rule: units_induct)
  case (unit u t)
  show ?case
  proof (cases "i < length u")
    case True
    have "i = 0"
    proof (rule ccontr)
      assume "i \<noteq> 0"
      with True unit_cont[OF pu[OF unit.hyps(1)]] have "cont ((u @ t) ! i)" by (simp add: nth_append)
      with unit.prems(2) True \<open>i \<noteq> 0\<close> show False by simp
    qed
    then show ?thesis by simp
  next
    case False
    have "i - length u < length t \<Longrightarrow> i < length (u @ t)" using False by auto
    then have "units p (take (i - length u) t)"
      by (intro unit.IH) (use unit.prems False in \<open>auto simp: nth_append\<close>)
    with False unit.hyps(1) show ?thesis by (simp add: units_unit)
  qed
qed simp

text \<open>
  truncation at a character boundary.  The result is a prefix of at most the given
  number of bytes, is everything up to the last boundary (only continuation bytes are
  given up), and is well-formed UTF-8 when the text is.
\<close>

theorem utf8_trunc_spec:
  "utf8_trunc s n = take (length (utf8_trunc s n)) s \<and> length (utf8_trunc s n) \<le> n
   \<and> (\<forall>j. length (utf8_trunc s n) < j \<and> j \<le> n \<and> n < length s \<longrightarrow> cont (s ! j))
   \<and> (units strict_unit s \<longrightarrow> units strict_unit (utf8_trunc s n))"
proof (cases "length s \<le> n")
  case True
  then show ?thesis by (simp add: utf8_trunc_def)
next
  case False
  let ?k = "trunc_pos s n"
  have k: "?k \<le> n" by (rule trunc_pos_le)
  have res: "utf8_trunc s n = take ?k s" "length (utf8_trunc s n) = ?k"
    using False k by (simp_all add: utf8_trunc_def)
  have "units strict_unit (take ?k s)" if "units strict_unit s"
    by (rule units_take[OF that]) (use False k trunc_pos_boundary[of s n] in \<open>auto simp: strict_unit_def\<close>)
  with k res trunc_pos_skipped[of s n] show ?thesis by auto
qed

theorem utf8_trunc_spec_witness:
  "utf8_trunc [CHR ''a'', cc 0xC3, cc 0xA9] 2 = ''a'' \<and> units strict_unit (utf8_trunc [CHR ''a'', cc 0xC3, cc 0xA9] 2)"
proof
  show "utf8_trunc [CHR ''a'', cc 0xC3, cc 0xA9] 2 = ''a''" by code_simp
  show "units strict_unit (utf8_trunc [CHR ''a'', cc 0xC3, cc 0xA9] 2)"
    using utf8_trunc_spec[of "[CHR ''a'', cc 0xC3, cc 0xA9]" 2] strict_demo by blast
qed

section \<open>Estimating tokens\<close>

text \<open>
  The product with the single-precision constant \<open>1.3f\<close>, which is 10905190 / 2^23: every
  intermediate value is an integral multiple of 2^-23, rounded to 24 significant bits with
  ties to even, and truncated to an integer at the end.
\<close>

definition f32_round :: "nat \<Rightarrow> nat" where
  "f32_round n =
     (if n < 2 ^ 24 then n
      else let e = floorlog 2 n - 24; q = n div 2 ^ e; r = n mod 2 ^ e; half = 2 ^ (e - 1)
           in (if r > half \<or> (r = half \<and> odd q) then q + 1 else q) * 2 ^ e)"

fun count_words :: "bool \<Rightarrow> string \<Rightarrow> nat" where
  "count_words in_word [] = 0"
| "count_words in_word (c # s) =
     (if is_space c then count_words False s
      else if \<not> in_word then Suc (count_words True s) else count_words in_word s)"

definition estimate_tokens :: "string \<Rightarrow> nat" where
  "estimate_tokens s =
     (if s = [] then 0 else f32_round (f32_round (count_words False s) * 10905190) div 2 ^ 23)"

end
