(* ===== verification/Core_Types.thy ===== *)
theory Core_Types
  imports Text_Codec
begin

text \<open>
  The value types of \<open>types.hpp\<close> that do not compute with floating-point numbers: node
  identifiers and their textual form, sparse vectors (sorted sets of active dimensions)
  with their similarity and their textual form, the node types, and \<open>safe_save\<close>, the
  atomic replacement of a file.
\<close>

section \<open>Node identifiers\<close>

record node_id =
  high :: u64
  low :: u64

definition node_zero :: node_id where
  "node_zero = \<lparr>high = 0, low = 0\<rparr>"

definition node_less :: "node_id \<Rightarrow> node_id \<Rightarrow> bool" where
  "node_less a b = (high a < high b \<or> (high a = high b \<and> low a < low b))"

definition node_valid :: "node_id \<Rightarrow> bool" where
  "node_valid i = (high i \<noteq> 0 \<or> low i \<noteq> 0)"

definition node_to_string :: "node_id \<Rightarrow> string" where
  "node_to_string i = take 36
     (hexfmt 8 (unat (ucast (drop_bit 32 (high i)) :: u32)) @ ''-'' @
      hexfmt 4 (unat (ucast (drop_bit 16 (high i)) :: u16)) @ ''-'' @
      hexfmt 4 (unat (ucast (high i) :: u16)) @ ''-'' @
      hexfmt 4 (unat (ucast (drop_bit 48 (low i)) :: u16)) @ ''-'' @
      hexfmt 12 (unat (low i AND 0xFFFFFFFFFFFF)))"

definition scan_dash :: "string \<Rightarrow> string option" where
  "scan_dash s = (case s of c # r \<Rightarrow> if c = CHR ''-'' then Some r else None | [] \<Rightarrow> None)"

definition scan_uuid :: "string \<Rightarrow> (u32 \<times> u16 \<times> u16 \<times> u16 \<times> u64) option" where
  "scan_uuid s =
     Option.bind (scan_hex 8 s) (\<lambda>(a, s1). Option.bind (scan_dash s1) (\<lambda>s2.
     Option.bind (scan_hex 4 s2) (\<lambda>(b, s3). Option.bind (scan_dash s3) (\<lambda>s4.
     Option.bind (scan_hex 4 s4) (\<lambda>(c, s5). Option.bind (scan_dash s5) (\<lambda>s6.
     Option.bind (scan_hex 4 s6) (\<lambda>(d, s7). Option.bind (scan_dash s7) (\<lambda>s8.
     Option.bind (scan_hex 12 s8) (\<lambda>(e, _).
     Some (ucast a, ucast b, ucast c, ucast d, e))))))))))"

definition node_from_string :: "string \<Rightarrow> node_id" where
  "node_from_string s =
     (if length s < 36 then node_zero
      else case scan_uuid (c_str s) of
             None \<Rightarrow> node_zero
           | Some (a, b, c, d, e) \<Rightarrow>
               \<lparr>high = (push_bit 32 (ucast a) OR push_bit 16 (ucast b)) OR ucast c,
                low = push_bit 48 (ucast d) OR e\<rparr>)"

lemma unat_lt16: "unat (w :: u16) < 65536"
proof -
  have "unat w < 2 ^ LENGTH(16)" by (rule unsigned_less)
  then show ?thesis by simp
qed

lemma unat_lt32: "unat (w :: u32) < 4294967296"
proof -
  have "unat w < 2 ^ LENGTH(32)" by (rule unsigned_less)
  then show ?thesis by simp
qed

lemma unat_lt48: "unat ((w :: u64) AND 0xFFFFFFFFFFFF) < 281474976710656"
proof -
  have "w AND 0xFFFFFFFFFFFF = take_bit 48 w" by (simp add: take_bit_eq_mask mask_eq_exp_minus_1)
  then have "unat (w AND 0xFFFFFFFFFFFF) = take_bit 48 (unat w)" by (simp add: unsigned_take_bit_eq)
  also have "\<dots> < 2 ^ 48" by (rule take_bit_nat_less_exp)
  finally show ?thesis by simp
qed

lemma node_string:
  "node_to_string i =
      hexfmt 8 (unat (ucast (drop_bit 32 (high i)) :: u32)) @ ''-'' @
      hexfmt 4 (unat (ucast (drop_bit 16 (high i)) :: u16)) @ ''-'' @
      hexfmt 4 (unat (ucast (high i) :: u16)) @ ''-'' @
      hexfmt 4 (unat (ucast (drop_bit 48 (low i)) :: u16)) @ ''-'' @
      hexfmt 12 (unat (low i AND 0xFFFFFFFFFFFF))"
  unfolding node_to_string_def
  by (simp add: length_hexfmt unat_lt16 unat_lt32 unat_lt48)

lemma node_string_length: "length (node_to_string i) = 36"
  unfolding node_string
  by (simp add: length_hexfmt unat_lt16 unat_lt32 unat_lt48)

lemma node_string_chars: "c \<in> set (node_to_string i) \<Longrightarrow> c \<noteq> nul"
proof -
  assume "c \<in> set (node_to_string i)"
  then have "is_hexd c \<or> c = CHR ''-''" unfolding node_string by (auto dest: hexfmt_digits)
  then show "c \<noteq> nul" using is_hexd_plain by (auto simp: nul_def)
qed

lemma ucast_back: "ucast (ucast (w :: u16) :: u64) = w" "ucast (ucast (v :: u32) :: u64) = v"
  by (rule bit_word_eqI, simp add: bit_simps)+

lemma scan_printed:
  "scan_uuid (node_to_string i) = Some
     (ucast (drop_bit 32 (high i)), ucast (drop_bit 16 (high i)), ucast (high i),
      ucast (drop_bit 48 (low i)), low i AND 0xFFFFFFFFFFFF)"
proof -
  have e: "scan_hex 12 (hexfmt 12 v) = Some (of_nat v, [])" if "v < 281474976710656" for v
    using scan_hexfmt[of 12 v "[]"] that by simp
  show ?thesis
    unfolding scan_uuid_def node_string
    by (simp add: scan_hexfmt e unat_lt16 unat_lt32 unat_lt48 scan_dash_def ucast_back)
qed

lemma join_high:
  fixes h :: u64
  shows "(push_bit 32 (ucast (ucast (drop_bit 32 h) :: u32)) OR push_bit 16 (ucast (ucast (drop_bit 16 h) :: u16)))
    OR ucast (ucast h :: u16) = h"
proof (rule bit_word_eqI)
  fix n assume "n < LENGTH(64)"
  then show "bit ((push_bit 32 (ucast (ucast (drop_bit 32 h) :: u32))
      OR push_bit 16 (ucast (ucast (drop_bit 16 h) :: u16))) OR (ucast (ucast h :: u16) :: u64)) n = bit h n"
    by (cases "n < 16"; cases "n < 32") (auto simp: bit_simps)
qed

lemma join_low:
  fixes l :: u64
  shows "push_bit 48 (ucast (ucast (drop_bit 48 l) :: u16)) OR (l AND 0xFFFFFFFFFFFF) = l"
proof -
  have m: "(0xFFFFFFFFFFFF :: u64) = mask 48" by (simp add: mask_eq_exp_minus_1)
  show ?thesis unfolding m by (rule bit_word_eqI) (auto simp: bit_simps)
qed

text \<open>
  node identifiers survive their textual form.  Every identifier prints to exactly 36
  characters, and reading that text back gives the same identifier.
\<close>

theorem node_id_roundtrip: "length (node_to_string i) = 36 \<and> node_from_string (node_to_string i) = i"
proof -
  have "c_str (node_to_string i) = node_to_string i"
    using node_string_chars by (simp add: c_str_def takeWhile_eq_all_conv)
  then show ?thesis
    by (simp add: node_from_string_def node_string_length scan_printed join_high join_low)
qed

section \<open>Sparse vectors\<close>

text \<open>The two-pointer loop of \<open>iou\<close>: how many positions of the two lists meet.\<close>

fun iou_loop :: "u16 list \<Rightarrow> u16 list \<Rightarrow> nat \<Rightarrow> nat" where
  "iou_loop (a # as) (b # bs) hits =
     (if a = b then iou_loop as bs (hits + 1)
      else if a < b then iou_loop as (b # bs) hits
      else iou_loop (a # as) bs hits)"
| "iou_loop as bs hits = hits"

definition iou :: "u16 list \<Rightarrow> u16 list \<Rightarrow> rat" where
  "iou as bs =
     (if as = [] \<and> bs = [] then 1
      else let hits = iou_loop as bs 0;
               union_sz = length as + length bs - hits
           in if union_sz \<noteq> 0 then of_nat hits / of_nat union_sz else 0)"

fun serialize_sdr :: "u16 list \<Rightarrow> string" where
  "serialize_sdr [] = []"
| "serialize_sdr [a] = dec_of (unat a)"
| "serialize_sdr (a # b # as) = dec_of (unat a) @ CHR '','' # serialize_sdr (b # as)"

text \<open>The tokens of \<open>std::getline\<close> with the delimiter \<open>','\<close>.\<close>

function getline_tokens :: "char \<Rightarrow> string \<Rightarrow> string list" where
  "getline_tokens d s =
     (if s = [] then []
      else let tok = takeWhile (\<lambda>c. c \<noteq> d) s;
               rest = dropWhile (\<lambda>c. c \<noteq> d) s
           in tok # (if rest = [] then [] else getline_tokens d (tl rest)))"
  by pat_completeness auto
termination
proof (relation "measure (\<lambda>(d, s). length s)")
  fix d :: char and s tok rest :: string
  assume r: "rest = dropWhile (\<lambda>c. c \<noteq> d) s" and "rest \<noteq> []" and "s \<noteq> []"
  then have "length (tl rest) < length rest" by (cases rest) auto
  also have "\<dots> \<le> length s" unfolding r by (rule length_dropWhile_le)
  finally show "((d, tl rest), d, s) \<in> measure (\<lambda>(d, s). length s)" by simp
qed simp

declare getline_tokens.simps [simp del]

definition deserialize_sdr :: "string \<Rightarrow> u16 list" where
  "deserialize_sdr s =
     (if s = [] then []
      else sorted_list_of_set (set (concat (map (\<lambda>tok.
             if tok = [] then []
             else case stoi tok of None \<Rightarrow> [] | Some v \<Rightarrow> [word_of_int v])
           (getline_tokens (CHR '','') s)))))"

lemma iou_loop_card:
  "sorted_wrt (<) as \<Longrightarrow> sorted_wrt (<) bs \<Longrightarrow> iou_loop as bs k = k + card (set as \<inter> set bs)"
proof (induction as bs k rule: iou_loop.induct)
  case (1 a as b bs k)
  consider (eq) "a = b" | (lt) "a < b" | (gt) "b < a" by fastforce
  then show ?case
  proof cases
    case eq
    with "1.prems" have "a \<notin> set bs" "a \<notin> set as" by auto
    with eq have "set (a # as) \<inter> set (b # bs) = insert a (set as \<inter> set bs)" "a \<notin> set as \<inter> set bs" by auto
    with 1 eq show ?thesis by simp
  next
    case lt
    with "1.prems" have "a \<notin> set (b # bs)" by auto
    then have "set (a # as) \<inter> set (b # bs) = set as \<inter> set (b # bs)" by auto
    with 1 lt show ?thesis by simp
  next
    case gt
    with "1.prems" have "b \<notin> set (a # as)" by auto
    then have "set (a # as) \<inter> set (b # bs) = set (a # as) \<inter> set bs" by auto
    with 1 gt show ?thesis by auto
  qed
qed simp_all

lemma strict_sorted_card: "sorted_wrt (<) (as :: u16 list) \<Longrightarrow> length as = card (set as)"
  by (simp add: distinct_card strict_sorted_iff)

text \<open>
  the similarity of two sparse vectors.  For sorted, duplicate-free index lists, the
  two-pointer loop computes intersection over union of the two index sets (1 for two empty
  vectors); hence it is symmetric and lies between 0 and 1.
\<close>

theorem iou_is_jaccard:
  assumes "sorted_wrt (<) as" and "sorted_wrt (<) bs"
  shows "iou as bs = (if set as \<union> set bs = {} then 1
    else of_nat (card (set as \<inter> set bs)) / of_nat (card (set as \<union> set bs)))"
proof -
  have sz: "length as + length bs - card (set as \<inter> set bs) = card (set as \<union> set bs)"
    using card_Un_Int[of "set as" "set bs"] strict_sorted_card[OF assms(1)] strict_sorted_card[OF assms(2)] by simp
  have ne: "card (set as \<union> set bs) \<noteq> 0" if "set as \<union> set bs \<noteq> {}" using that by simp
  show ?thesis
    unfolding iou_def Let_def iou_loop_card[OF assms] add_0 sz using ne by auto
qed

theorem iou_is_jaccard_witness: "iou [1, 5, 9] [5, 7, 9, 11] = 2 / 5"
  using iou_is_jaccard[of "[1, 5, 9]" "[5, 7, 9, 11]"] by (simp add: insert_commute Int_insert_left)

lemma getline_tokens_Nil [simp]: "getline_tokens d [] = []"
  by (subst getline_tokens.simps) simp

lemma getline_tokens_last: "s \<noteq> [] \<Longrightarrow> d \<notin> set s \<Longrightarrow> getline_tokens d s = [s]"
proof -
  assume "s \<noteq> []" "d \<notin> set s"
  moreover from this have "takeWhile (\<lambda>c. c \<noteq> d) s = s" "dropWhile (\<lambda>c. c \<noteq> d) s = []"
    by (auto simp: takeWhile_eq_all_conv)
  ultimately show ?thesis by (subst getline_tokens.simps) (simp add: Let_def)
qed

lemma getline_tokens_cons: "d \<notin> set s \<Longrightarrow> getline_tokens d (s @ d # rest) = s # getline_tokens d rest"
proof -
  assume d: "d \<notin> set s"
  have "takeWhile (\<lambda>c. c \<noteq> d) (s @ d # rest) = s" using d by (subst takeWhile_append2) auto
  moreover have "dropWhile (\<lambda>c. c \<noteq> d) (s @ d # rest) = d # rest" using d by (subst dropWhile_append2) auto
  ultimately have "takeWhile (\<lambda>c. c \<noteq> d) (s @ d # rest) = s" "dropWhile (\<lambda>c. c \<noteq> d) (s @ d # rest) = d # rest" .
  then show ?thesis by (subst getline_tokens.simps) (simp add: Let_def)
qed

lemma no_comma: "CHR '','' \<notin> set (dec_of v)"
  using dec_of_plain[of "CHR '',''" v] by auto

lemma serialize_tokens: "getline_tokens (CHR '','') (serialize_sdr as) = map (\<lambda>a. dec_of (unat a)) as"
  by (induction as rule: serialize_sdr.induct)
    (simp_all add: getline_tokens_last getline_tokens_cons no_comma)

lemma serialize_eq_Nil: "serialize_sdr as = [] \<longleftrightarrow> as = []"
  by (cases as rule: serialize_sdr.cases) simp_all

lemma token_value: "stoi (dec_of (unat (a :: u16))) = Some (int (unat a))"
  by (rule stoi_dec_of) (use unat_lt16[of a] in simp)

text \<open>
  sparse vectors survive their textual form.  Reading any text gives a sorted,
  duplicate-free index list, and reading the text of such a list gives the list itself.
\<close>

theorem sdr_roundtrip:
  "sorted_wrt (<) (deserialize_sdr s)
   \<and> (sorted_wrt (<) as \<longrightarrow> deserialize_sdr (serialize_sdr as) = as)"
proof
  show "sorted_wrt (<) (deserialize_sdr s)" by (simp add: deserialize_sdr_def)
  have vals: "concat (map (\<lambda>tok. if tok = [] then []
        else case stoi tok of None \<Rightarrow> [] | Some v \<Rightarrow> [word_of_int v])
      (map (\<lambda>a. dec_of (unat a)) as)) = as" for as :: "u16 list"
    by (induction as) (simp_all add: token_value)
  show "sorted_wrt (<) as \<longrightarrow> deserialize_sdr (serialize_sdr as) = as"
    unfolding deserialize_sdr_def serialize_tokens vals serialize_eq_Nil
    by (simp add: sorted_list_of_set.idem_if_sorted_distinct strict_sorted_iff)
qed

theorem sdr_roundtrip_witness: "deserialize_sdr (serialize_sdr [3, 14, 700]) = [3, 14, 700]"
  using sdr_roundtrip[of "[]" "[3, 14, 700]"] by simp

section \<open>Atomic file replacement\<close>

text \<open>
  A file system maps a path to the content of the file.  What the system calls of one
  \<open>safe_save\<close> answer is given: whether the temporary file opens, what the writer managed
  to write and whether it succeeded, and whether flush, sync, rename and, after a failure, the
  removal of the temporary file succeed.  The
  result is every state of the file system the call passes through, each of which a crash
  may leave behind, and the returned value.
\<close>

type_synonym fs = "string \<Rightarrow> string option"

record save_io =
  io_open :: bool
  io_written :: string
  io_write :: bool
  io_flush :: bool
  io_fsync :: bool
  io_rename :: bool
  io_remove :: bool

definition tmp_path :: "string \<Rightarrow> nat \<Rightarrow> string" where
  "tmp_path path pid = path @ ''.tmp.'' @ dec_of pid"

definition safe_save :: "nat \<Rightarrow> string \<Rightarrow> save_io \<Rightarrow> fs \<Rightarrow> fs list \<times> bool" where
  "safe_save pid path io f =
     (let tmp = tmp_path path pid in
      if \<not> io_open io then ([f], False)
      else
        let f1 = f(tmp \<mapsto> []);
            f2 = f1(tmp \<mapsto> io_written io);
            ok = (io_write io \<and> io_flush io \<and> io_fsync io);
            removed = (if io_remove io then f2(tmp := None) else f2)
        in if \<not> ok then ([f, f1, f2, removed], False)
           else if \<not> io_rename io then ([f, f1, f2, removed], False)
           else ([f, f1, f2, f2(tmp := None, path := f2 tmp)], True))"

definition dir_of :: "string \<Rightarrow> string" where
  "dir_of path = (if CHR ''/'' \<in> set path
                  then rev (tl (dropWhile (\<lambda>c. c \<noteq> CHR ''/'') (rev path))) else ''.'')"

text \<open>
  C10: saving is atomic.  In every state a crash can leave behind, the saved path holds
  either its old content or the complete new one; it holds the new one only after a
  successful write, flush and sync; the call returns true exactly when it holds the new
  content at the end; and no other file is touched except the temporary one, which is gone
  when the call returns, unless the call failed and could not remove it either: then it holds
  what was written.
\<close>

theorem safe_save_atomic:
  "let (states, ok) = safe_save pid path io f in
     (\<forall>g \<in> set states. g path = f path
        \<or> (g path = Some (io_written io) \<and> io_write io \<and> io_flush io \<and> io_fsync io))
     \<and> ok = (io_open io \<and> io_write io \<and> io_flush io \<and> io_fsync io \<and> io_rename io)
     \<and> last states path = (if ok then Some (io_written io) else f path)
     \<and> (\<forall>g \<in> set states. \<forall>p. p \<noteq> path \<longrightarrow> p \<noteq> tmp_path path pid \<longrightarrow> g p = f p)
     \<and> (io_open io \<longrightarrow>
          last states (tmp_path path pid) = (if ok \<or> io_remove io then None else Some (io_written io)))"
proof -
  have "tmp_path path pid \<noteq> path" by (simp add: tmp_path_def)
  then show ?thesis by (auto simp: safe_save_def Let_def)
qed

theorem safe_save_atomic_witness:
  "let (states, ok) = safe_save 7 ''db''
       \<lparr>io_open = True, io_written = ''new'', io_write = True, io_flush = True, io_fsync = True, io_rename = True, io_remove = True\<rparr>
       (\<lambda>p. if p = ''db'' then Some ''old'' else None)
   in ok \<and> last states ''db'' = Some ''new'' \<and> last states ''db.tmp.7'' = None"
proof -
  have tmp: "tmp_path ''db'' 7 = ''db.tmp.7''" by code_simp
  show ?thesis
    using safe_save_atomic[of 7 "''db''"
        "\<lparr>io_open = True, io_written = ''new'', io_write = True, io_flush = True, io_fsync = True, io_rename = True, io_remove = True\<rparr>"
        "\<lambda>p. if p = ''db'' then Some ''old'' else None"] unfolding tmp
    by (auto split: prod.splits)
qed

section \<open>Node types\<close>

datatype node_type =
    Wisdom | Belief | Intention | Aspiration | Episode | Operation | Invariant | Identity | Term
  | Failure | Dream | Voice | Meta | Gap | Question | StoryThread | Ledger | Entity | Triplet
  | ProjectEssence | ModuleState | PatternState | Symbol

end
