(* ===== verification/Rpc_Protocol.thy ===== *)
theory Rpc_Protocol
  imports Json_Model Utf8_Text Core_Types
begin

text \<open>
  The small policies around the RPC server: JSON-RPC envelopes (\<open>rpc/protocol.hpp\<close>),
  limits on the arguments of reads and the time budget (\<open>rpc/work_policy.hpp\<close>), names of
  node types (\<open>rpc/types.hpp\<close>), recall envelopes and hit lines (\<open>recall_lanes.hpp\<close>,
  \<open>hit_line.hpp\<close>), the answers given while loading (\<open>loading_responder.hpp\<close>), the sandbox
  guard (\<open>rpc/sandbox.hpp\<close>) and the jitter of maintenance jobs
  (\<open>maintenance_jitter.hpp\<close>).
\<close>

section \<open>Envelopes\<close>

definition make_result :: "json \<Rightarrow> json \<Rightarrow> json" where
  "make_result i result = jobj [(''jsonrpc'', JStr ''2.0''), (''id'', i), (''result'', result)]"

definition make_error :: "json \<Rightarrow> int \<Rightarrow> string \<Rightarrow> json" where
  "make_error i c message =
     jobj [(''jsonrpc'', JStr ''2.0''), (''id'', i),
           (''error'', jobj [(''code'', JInt c), (''message'', JStr message)])]"

definition make_tool_response :: "string \<Rightarrow> bool \<Rightarrow> json \<Rightarrow> json" where
  "make_tool_response t is_error structured =
     (let content = JArr [jobj [(''type'', JStr ''text''), (''text'', JStr (sanitize_utf8 t))]];
          response = jobj [(''content'', content), (''isError'', JBool is_error)]
      in if structured \<noteq> JNull then jset ''structured'' structured response else response)"

text \<open>\<open>None\<close> is a valid request, \<open>Some msg\<close> the error message.\<close>

definition validate_request :: "json \<Rightarrow> string option" where
  "validate_request r =
     (case jfind r ''jsonrpc'' of
        None \<Rightarrow> Some ''Missing or invalid jsonrpc version''
      | Some v \<Rightarrow>
          if \<not> jeq v (JStr ''2.0'') then Some ''Missing or invalid jsonrpc version''
          else (case jfind r ''method'' of
                  None \<Rightarrow> Some ''Missing or invalid method''
                | Some m \<Rightarrow> if \<not> is_string m then Some ''Missing or invalid method'' else None))"

record request_info =
  ri_method :: string
  ri_params :: json
  ri_id :: json

definition parse_request :: "json \<Rightarrow> request_info res" where
  "parse_request r =
     rbind (get_string (jidx r ''method'')) (\<lambda>m.
     rbind (jvalue r ''params'' (jobj [])) (\<lambda>p.
     rbind (jvalue r ''id'' JNull) (\<lambda>i.
     Inr \<lparr>ri_method = m, ri_params = p, ri_id = i\<rparr>)))"

text \<open>
  a validated request can be parsed.  When validation reports no error, extracting the
  components never throws; the method is the request's, and missing parameters and id
  become the empty object and null.
\<close>

theorem validated_request_parses:
  assumes "validate_request r = None"
  shows "\<exists>m. jfind r ''method'' = Some (JStr m) \<and> parse_request r = Inr
    \<lparr>ri_method = m,
     ri_params = (case jfind r ''params'' of None \<Rightarrow> jobj [] | Some p \<Rightarrow> p),
     ri_id = (case jfind r ''id'' of None \<Rightarrow> JNull | Some i \<Rightarrow> i)\<rparr>"
proof -
  from assms obtain m where m: "jfind r ''method'' = Some m" "is_string m"
    by (auto simp: validate_request_def split: option.splits if_splits)
  then obtain s where "m = JStr s" by (cases m) auto
  moreover have "is_object r" using m(1) by (cases r) (auto simp: jfind_def)
  ultimately show ?thesis using m by (auto simp: parse_request_def jidx_def jvalue_def)
qed

theorem validated_request_parses_witness:
  "parse_request (jobj [(''jsonrpc'', JStr ''2.0''), (''method'', JStr ''ping'')])
     = Inr \<lparr>ri_method = ''ping'', ri_params = jobj [], ri_id = JNull\<rparr>"
  using validated_request_parses[of "jobj [(''jsonrpc'', JStr ''2.0''), (''method'', JStr ''ping'')]"]
  by (simp add: validate_request_def)

section \<open>Limits on the arguments of reads\<close>

definition read_parameter_limits :: "(string \<times> int \<times> int) list" where
  "read_parameter_limits =
     [(''limit'', 1, 100), (''pool'', 1, 160), (''max_nodes'', 1, 512), (''hops'', 0, 4),
      (''depth'', 0, 4), (''k'', 1, 100), (''top_k'', 1, 100), (''window'', 0, 1000),
      (''max_hops'', 0, 4), (''max_results'', 1, 100), (''iterations'', 1, 100)]"

definition parameter_limit :: "string \<Rightarrow> (int \<times> int) option" where
  "parameter_limit n = map_of read_parameter_limits n"

text \<open>An integer is signed, or unsigned and then saturated at the largest signed value.\<close>

definition sat63 :: "int \<Rightarrow> int" where
  "sat63 i = (if i > 2 ^ 63 - 1 then 2 ^ 63 - 1 else i)"

definition clamp_one :: "string \<times> int \<times> int \<Rightarrow> json \<times> (string \<times> int \<times> int) list \<Rightarrow> json \<times> (string \<times> int \<times> int) list" where
  "clamp_one lmt q =
     (case lmt of (n, lo, hi) \<Rightarrow> case q of (args, lg) \<Rightarrow>
        (case jfind args n of
           Some (JInt i) \<Rightarrow>
             let before = sat63 i;
                 after = max lo (min hi before)
             in if after \<noteq> before then (jset n (JInt after) args, lg @ [(n, before, after)]) else (args, lg)
         | _ \<Rightarrow> (args, lg)))"

definition clamp_read_arguments :: "json \<Rightarrow> json \<times> (string \<times> int \<times> int) list" where
  "clamp_read_arguments args =
     (if \<not> is_object args then (args, []) else fold clamp_one read_parameter_limits (args, []))"

definition clamped :: "string \<Rightarrow> json \<Rightarrow> json" where
  "clamped n v =
     (case v of JInt i \<Rightarrow>
        (case parameter_limit n of None \<Rightarrow> v | Some (lo, hi) \<Rightarrow> JInt (max lo (min hi i)))
      | _ \<Rightarrow> v)"

lemma clamp_one_find:
  assumes "jok args" and "lo < 2 ^ 63 - 1" and "hi < 2 ^ 63 - 1" and "clamp_one (n, lo, hi) (args, lg) = (args', lg')"
  shows "jok args' \<and> (\<forall>k. jfind args' k =
    (if k = n then map_option (\<lambda>v. case v of JInt i \<Rightarrow> JInt (max lo (min hi i)) | _ \<Rightarrow> v) (jfind args k) else jfind args k))"
proof (cases "jfind args n")
  case None
  with assms show ?thesis by (auto simp: clamp_one_def)
next
  case (Some v)
  show ?thesis
  proof (cases v)
    case (JInt i)
    have same: "max lo (min hi (sat63 i)) = max lo (min hi i)" using assms(2,3) by (auto simp: sat63_def)
    have eq: "(args', lg') = (if max lo (min hi i) \<noteq> sat63 i
        then (jset n (JInt (max lo (min hi i))) args, lg @ [(n, sat63 i, max lo (min hi i))]) else (args, lg))"
      using assms(4) Some JInt by (auto simp: clamp_one_def Let_def same split: if_splits)
    show ?thesis
    proof (cases "max lo (min hi i) = sat63 i")
      case True
      then have "i = sat63 i" using assms(2,3) by (auto simp: sat63_def split: if_splits)
      with True eq assms(1) Some JInt show ?thesis by auto
    next
      case False
      with eq assms(1) Some JInt show ?thesis by auto
    qed
  qed (use assms Some in \<open>auto simp: clamp_one_def\<close>)
qed

lemma clamp_fold:
  assumes "jok args" and "distinct (map fst ls)" and "\<forall>(n, lo, hi) \<in> set ls. lo < 2 ^ 63 - 1 \<and> hi < 2 ^ 63 - 1"
    and "fold clamp_one ls (args, lg) = (args', lg')"
  shows "jok args' \<and> (\<forall>k. jfind args' k =
    (case map_of ls k of None \<Rightarrow> jfind args k
     | Some (lo, hi) \<Rightarrow> map_option (\<lambda>v. case v of JInt i \<Rightarrow> JInt (max lo (min hi i)) | _ \<Rightarrow> v) (jfind args k)))"
  using assms
proof (induction ls arbitrary: args lg)
  case (Cons l ls)
  obtain n lo hi where l: "l = (n, lo, hi)" by (cases l)
  obtain args1 lg1 where one: "clamp_one l (args, lg) = (args1, lg1)" by fastforce
  from clamp_one_find[OF Cons.prems(1) _ _ one[unfolded l]] Cons.prems(3) l
  have c: "jok args1" "\<And>k. jfind args1 k =
    (if k = n then map_option (\<lambda>v. case v of JInt i \<Rightarrow> JInt (max lo (min hi i)) | _ \<Rightarrow> v) (jfind args k) else jfind args k)"
    by auto
  have "map_of ls n = None" using Cons.prems(2) l by (auto simp: map_of_eq_None_iff)
  with Cons.IH[OF c(1), of lg1] Cons.prems one c(2) l show ?case by (auto split: option.split)
qed simp

lemma read_limits_ok:
  "distinct (map fst read_parameter_limits)" "\<forall>(n, lo, hi) \<in> set read_parameter_limits. lo < 2 ^ 63 - 1 \<and> hi < 2 ^ 63 - 1"
  by code_simp+

text \<open>
  the limits on reads.  On an object, clamping changes exactly the listed integer
  parameters, each to its nearest value within its limits (also for unsigned values above
  the signed range), and every other field is left alone; so a listed integer parameter is
  afterwards within its limits.
\<close>

theorem clamp_read_spec:
  assumes "jok args"
  shows "jfind (fst (clamp_read_arguments args)) k = map_option (clamped k) (jfind args k)
    \<and> (\<forall>lo hi i. parameter_limit k = Some (lo, hi) \<longrightarrow>
         jfind (fst (clamp_read_arguments args)) k = Some (JInt i) \<longrightarrow> lo \<le> i \<and> i \<le> hi)"
proof -
  obtain args' lg' where f: "fold clamp_one read_parameter_limits (args, []) = (args', lg')" by fastforce
  have eq: "jfind (fst (clamp_read_arguments args)) k = map_option (clamped k) (jfind args k)"
    using clamp_fold[OF assms read_limits_ok f] f assms
    by (cases "jfind args k")
      (auto simp: clamp_read_arguments_def clamped_def parameter_limit_def split: option.splits json.splits)
  have lim: "lo \<le> hi" if "parameter_limit k = Some (lo, hi)" for lo hi
  proof -
    have "list_all (\<lambda>(n, lo, hi). lo \<le> hi) read_parameter_limits" by code_simp
    with that show ?thesis by (auto simp: parameter_limit_def list_all_iff dest!: map_of_SomeD)
  qed
  have "lo \<le> i \<and> i \<le> hi" if "parameter_limit k = Some (lo, hi)"
      "jfind (fst (clamp_read_arguments args)) k = Some (JInt i)" for lo hi i
  proof -
    from that(2) eq obtain v where "clamped k v = JInt i" by auto
    then show ?thesis using that(1) lim[OF that(1)] by (cases v) (auto simp: clamped_def)
  qed
  with eq show ?thesis by blast
qed

theorem clamp_read_spec_witness:
  "jfind (fst (clamp_read_arguments (jobj [(''limit'', JInt 5000), (''q'', JStr ''x'')]))) ''limit'' = Some (JInt 100)"
  using clamp_read_spec[of "jobj [(''limit'', JInt 5000), (''q'', JStr ''x'')]" "''limit''"]
  by (simp add: clamped_def parameter_limit_def read_parameter_limits_def)

section \<open>The time budget of a request\<close>

definition configured_budget_ms :: "string option \<Rightarrow> int" where
  "configured_budget_ms env =
     (case env of None \<Rightarrow> 5000
      | Some v \<Rightarrow> (case strtol (c_str v) of None \<Rightarrow> 5000 | Some n \<Rightarrow> if 0 < n then n else 5000))"

record budget_tracker =
  budget_ms :: int
  over_budget_count :: u64

definition budget_tracker_new :: "int \<Rightarrow> budget_tracker" where
  "budget_tracker_new b = \<lparr>budget_ms = (if b > 0 then b else 5000), over_budget_count = 0\<rparr>"

definition scope_budget :: "budget_tracker \<Rightarrow> int \<Rightarrow> int" where
  "scope_budget t b = (if b > 0 then b else budget_ms t)"

definition record_elapsed :: "int \<Rightarrow> int \<Rightarrow> budget_tracker \<Rightarrow> budget_tracker" where
  "record_elapsed elapsed b t =
     (if elapsed > b then t\<lparr>over_budget_count := over_budget_count t + 1\<rparr> else t)"

section \<open>Names of node types\<close>

fun node_type_code :: "node_type \<Rightarrow> nat" where
  "node_type_code Wisdom = 0" | "node_type_code Belief = 1" | "node_type_code Intention = 2"
| "node_type_code Aspiration = 3" | "node_type_code Episode = 4" | "node_type_code Operation = 5"
| "node_type_code Invariant = 6" | "node_type_code Identity = 7" | "node_type_code Term = 8"
| "node_type_code Failure = 9" | "node_type_code Dream = 10" | "node_type_code Voice = 11"
| "node_type_code Meta = 12" | "node_type_code Gap = 13" | "node_type_code Question = 14"
| "node_type_code StoryThread = 15" | "node_type_code Ledger = 16" | "node_type_code Entity = 17"
| "node_type_code Triplet = 18" | "node_type_code ProjectEssence = 19" | "node_type_code ModuleState = 20"
| "node_type_code PatternState = 21" | "node_type_code Symbol = 22"

definition node_type_names :: "string list" where
  "node_type_names =
     [''wisdom'', ''belief'', ''intention'', ''aspiration'', ''episode'', ''operation'', ''invariant'',
      ''identity'', ''term'', ''failure'', ''dream'', ''voice'', ''meta'', ''gap'', ''question'',
      ''story_thread'', ''ledger'', ''entity'', ''triplet'']"

definition node_type_to_string_impl :: "int \<Rightarrow> string" where
  "node_type_to_string_impl t =
     (if 0 \<le> t \<and> t < 19 then node_type_names ! nat t else ''unknown'')"

definition node_type_to_string :: "node_type \<Rightarrow> string" where
  "node_type_to_string t = node_type_to_string_impl (int (node_type_code t))"

section \<open>Recall lanes and hit lines\<close>

record recall_lane =
  lane_name :: string
  lane_text :: string
  lane_structured :: json
  lane_ms :: int
  lane_timed_out :: bool

definition lane_json :: "recall_lane \<Rightarrow> json" where
  "lane_json l =
     jobj [(''text'', JStr (lane_text l)),
           (''results'', case jfind (lane_structured l) ''results'' of None \<Rightarrow> JArr [] | Some r \<Rightarrow> r),
           (''ms'', JInt (lane_ms l)), (''timed_out'', JBool (lane_timed_out l))]"

definition assemble_recall_lanes :: "recall_lane list \<Rightarrow> int \<Rightarrow> json" where
  "assemble_recall_lanes outs total_ms =
     jobj [(''lanes'', fold (\<lambda>l. jset (lane_name l) (lane_json l)) outs (jobj [])), (''total_ms'', JInt total_ms)]"

text \<open>
  The calendar date of a number of days since the epoch, as \<open>gmtime\<close> computes it for the
  proleptic Gregorian calendar, printed as \<open>%Y-%m-%d\<close>.
\<close>

definition leap :: "int \<Rightarrow> bool" where
  "leap y = (y mod 4 = 0 \<and> (y mod 100 \<noteq> 0 \<or> y mod 400 = 0))"

fun year_of :: "nat \<Rightarrow> int \<Rightarrow> int \<Rightarrow> int \<times> int" where
  "year_of 0 y d = (y, d)"
| "year_of (Suc n) y d = (let k = (if leap y then 366 else 365) in if d < k then (y, d) else year_of n (y + 1) (d - k))"

fun month_of :: "int list \<Rightarrow> int \<Rightarrow> int \<Rightarrow> int \<times> int" where
  "month_of [] m d = (m, d + 1)"
| "month_of (k # ks) m d = (if d < k then (m, d + 1) else month_of ks (m + 1) (d - k))"

definition pad2 :: "int \<Rightarrow> string" where
  "pad2 n = (if n < 10 then ''0'' else []) @ dec_of_int n"

definition iso_date :: "int \<Rightarrow> string" where
  "iso_date secs =
     (let days = secs div 86400;
          (y, d) = year_of (nat days) 1970 days;
          (m, dd) = month_of [31, if leap y then 29 else 28, 31, 30, 31, 30, 31, 31, 30, 31, 30, 31] 1 d
      in dec_of_int y @ ''-'' @ pad2 m @ ''-'' @ pad2 dd)"

definition hit_text_chars :: nat where
  "hit_text_chars = 400"

definition hit_line :: "string \<Rightarrow> int \<Rightarrow> string \<Rightarrow> int \<Rightarrow> string \<Rightarrow> bool \<Rightarrow> bool \<Rightarrow> string" where
  "hit_line i pct ty ts_ms t show_type show_date =
     ''#'' @ i @ '' ['' @ dec_of_int pct @ [CHR 0x25] @ '']''
     @ (if show_type then '' ['' @ ty @ '']'' else [])
     @ (if show_date \<and> ts_ms > 0 \<and> length (iso_date (ts_ms div 1000)) < 16
        then '' (on: '' @ iso_date (ts_ms div 1000) @ '')'' else [])
     @ '' '' @ take hit_text_chars t @ [CHR 0x0A]"

lemma takeWhile_prefix: "\<forall>c \<in> set s. P c \<Longrightarrow> \<not> P d \<Longrightarrow> takeWhile P (s @ d # r) = s"
  by (simp add: takeWhile_append2)

text \<open>
  the hit-line contract.  Whatever fields are shown, a line for a numeric id starts with
  \<open>#\<close>, the digits read after it are exactly the id, the number before the percent sign
  is the score, and the line ends with its only trailing newline.
\<close>

theorem hit_line_contract:
  assumes "i \<noteq> []" and "\<forall>c \<in> set i. is_digit c" and "0 \<le> pct"
  shows "hd (hit_line i pct ty ts t st sd) = CHR ''#''
    \<and> takeWhile is_digit (tl (hit_line i pct ty ts t st sd)) = i
    \<and> takeWhile is_digit (drop (length i + 3) (hit_line i pct ty ts t st sd)) = dec_of (nat pct)
    \<and> drop (length i + 3 + length (dec_of (nat pct))) (hit_line i pct ty ts t st sd) \<noteq> []
    \<and> hd (drop (length i + 3 + length (dec_of (nat pct))) (hit_line i pct ty ts t st sd)) = CHR 0x25
    \<and> last (hit_line i pct ty ts t st sd) = CHR 0x0A"
proof -
  define rest where "rest = '']'' @ (if st then '' ['' @ ty @ '']'' else [])
     @ (if sd \<and> ts > 0 \<and> length (iso_date (ts div 1000)) < 16 then '' (on: '' @ iso_date (ts div 1000) @ '')'' else [])
     @ '' '' @ take hit_text_chars t @ [CHR 0x0A]"
  have line: "hit_line i pct ty ts t st sd = CHR ''#'' # i @ CHR '' '' # CHR ''['' # dec_of (nat pct) @ CHR 0x25 # rest"
    using assms(3) by (simp add: hit_line_def rest_def dec_of_int_def)
  have sp: "\<not> is_digit (CHR '' '')" "\<not> is_digit (CHR 0x25)" by code_simp+
  have l: "last rest = CHR 0x0A" "rest \<noteq> []" by (simp_all add: rest_def)
  have dig: "\<forall>c \<in> set (dec_of (nat pct)). is_digit c" using dec_of_plain by auto
  have dr: "drop (length i + 3) (hit_line i pct ty ts t st sd) = dec_of (nat pct) @ CHR 0x25 # rest"
    unfolding line by (simp add: numeral_3_eq_3)
  have dr2: "drop (length i + 3 + length (dec_of (nat pct))) (hit_line i pct ty ts t st sd) = CHR 0x25 # rest"
    using dr by (metis add.commute append_eq_conv_conj drop_drop)
  show ?thesis unfolding dr2 unfolding dr unfolding line
    using takeWhile_prefix[OF assms(2) sp(1)] takeWhile_prefix[OF dig sp(2)] l by simp
qed

theorem hit_line_contract_witness:
  "takeWhile is_digit (tl (hit_line ''42'' 7 ''wisdom'' 86400000 ''x'' True True)) = ''42''"
  using hit_line_contract[of "''42''" 7 "''wisdom''" 86400000 "''x''" True True] by (simp add: is_digit_def)

end
