(* ===== verification/Daemon_Support.thy ===== *)
theory Daemon_Support
  imports Rpc_Protocol
begin

text \<open>
  Support code of the daemon: the answers of the loading responder, the append-only
  writer and dead letters of the sandbox, the schedule jitter of maintenance jobs, and the
  output cache that replaces long command output by a preview and a reference.
\<close>

section \<open>Answers while loading\<close>

definition loading_method :: "jlib \<Rightarrow> string \<Rightarrow> json \<times> string" where
  "loading_method lib dat =
     (case jparse lib dat of
        Some (JObj m) \<Rightarrow>
          let p = JObj m;
              i = (case jfind p ''id'' of None \<Rightarrow> JNull | Some v \<Rightarrow> v);
              m0 = (case jfind p ''method'' of Some (JStr s) \<Rightarrow> s | _ \<Rightarrow> [])
          in (i, if m0 = ''tools/call'' then
                   (case jfind p ''params'' of
                      Some (JObj q) \<Rightarrow> (case jfind (JObj q) ''name'' of Some (JStr s) \<Rightarrow> s | _ \<Rightarrow> [])
                    | _ \<Rightarrow> m0)
                 else m0)
      | _ \<Rightarrow> (JNull, dat))"

definition loading_response :: "jlib \<Rightarrow> string \<Rightarrow> string \<Rightarrow> json" where
  "loading_response lib phase dat =
     (let (i, m) = loading_method lib dat;
          health = (m = ''health_check'' \<or> m = ''status'');
          state0 = jobj [(''status'', JStr ''warming_up''), (''loading'', JBool True), (''phase'', JStr phase),
                         (''replayed_records'', JNull), (''total'', JNull), (''eta_s'', JNull)];
          state = (if health then state0
                   else jset ''retry_after_s'' (JInt 1) (jset ''error'' (JStr ''loading'') state0));
          result0 = jobj [(''text'', JStr ''daemon loading, please retry''),
                          (''content'', JArr [jobj [(''type'', JStr ''text''), (''text'', JStr ''daemon loading, please retry'')]]),
                          (''structured'', state)];
          result = (if health then result0 else jset ''isError'' (JBool True) result0)
      in jobj [(''jsonrpc'', JStr ''2.0''), (''id'', i), (''result'', result)])"

section \<open>The append-only writer\<close>

text \<open>
  One answer of \<open>write\<close>: the number of bytes it took (at most what was offered), an
  interruption, or a hard error.  The loop runs over the answers; \<open>None\<close> as its status
  means that it is still waiting for the next one.
\<close>

datatype wres = Wrote nat | Eintr | Werror

fun append_loop :: "string \<Rightarrow> wres list \<Rightarrow> string \<times> bool option" where
  "append_loop [] ws = ([], Some True)"
| "append_loop (c # b) [] = ([], None)"
| "append_loop (c # b) (w # ws) =
     (case w of
        Eintr \<Rightarrow> append_loop (c # b) ws
      | Werror \<Rightarrow> ([], Some False)
      | Wrote n \<Rightarrow>
          if n = 0 then ([], Some False)
          else let k = min n (length (c # b)); (out, st) = append_loop (drop k (c # b)) ws
               in (take k (c # b) @ out, st))"

definition with_newline :: "string \<Rightarrow> string" where
  "with_newline line = (if line = [] \<or> last line \<noteq> CHR 0x0A then line @ [CHR 0x0A] else line)"

definition append_line_atomic :: "string \<Rightarrow> bool \<Rightarrow> wres list \<Rightarrow> string \<Rightarrow> string \<Rightarrow> string \<times> bool option" where
  "append_line_atomic path opens ws line content =
     (if path = [] \<or> \<not> opens then (content, Some False)
      else let (out, st) = append_loop (with_newline line) ws in (content @ out, st))"

definition is_sandboxed :: "string option \<Rightarrow> bool" where
  "is_sandboxed env = (env = Some ''1'')"

definition dead_letter_entry :: "int \<Rightarrow> string \<Rightarrow> json \<Rightarrow> json" where
  "dead_letter_entry now_ms tool args =
     jobj [(''error'', JStr ''sandbox intercept''), (''retry_count'', JInt 0), (''timestamp'', JInt now_ms),
           (''tool'', JStr tool), (''args'', args), (''reason'', JStr ''sandbox''),
           (''dead_lettered_id'', JStr (''sandbox-'' @ dec_of_int now_ms))]"

text \<open>The result of the append is not looked at: the count grows and the id is returned either way.\<close>

definition dead_letter_write ::
    "jlib \<Rightarrow> string \<Rightarrow> int \<Rightarrow> string \<Rightarrow> json \<Rightarrow> bool \<Rightarrow> wres list \<Rightarrow> string \<times> nat option
      \<Rightarrow> string \<times> (string \<times> nat option)" where
  "dead_letter_write lib path now_ms tool args opens ws st =
     (let dead_id = ''sandbox-'' @ dec_of_int now_ms in
      case st of (content, fail_count) \<Rightarrow>
      if path = [] then (dead_id, st)
      else (dead_id,
            (fst (append_line_atomic path opens ws (jdump lib (dead_letter_entry now_ms tool args)) content),
             map_option Suc fail_count)))"

lemma append_loop_prefix:
  "append_loop b ws = (out, st) \<Longrightarrow> prefix out b \<and> (st = Some True \<longleftrightarrow> out = b \<and> st \<noteq> None)"
proof (induction b ws arbitrary: out st rule: append_loop.induct)
  case (3 c b w ws)
  show ?case
  proof (cases w)
    case (Wrote n)
    show ?thesis
    proof (cases "n = 0")
      case False
      define k where "k = min n (length (c # b))"
      obtain out' st' where rec: "append_loop (drop k (c # b)) ws = (out', st')" by fastforce
      with 3(3) Wrote False have o: "out = take k (c # b) @ out'" "st = st'" by (auto simp: k_def Let_def)
      have IH: "prefix out' (drop k (c # b)) \<and> (st' = Some True \<longleftrightarrow> out' = drop k (c # b) \<and> st' \<noteq> None)"
        using "3.IH" Wrote False rec by (simp add: k_def)
      have split: "c # b = take k (c # b) @ drop k (c # b)" by simp
      from IH show ?thesis unfolding o by (metis same_append_eq same_prefix_prefix split)
    qed (use 3 Wrote in auto)
  qed (use 3 in auto)
qed auto

text \<open>Progress: with \<open>length b\<close> answers that each take at least one byte the loop is done.\<close>

lemma append_loop_done:
  "length b \<le> length (filter (\<lambda>w. w \<noteq> Eintr) ws) \<Longrightarrow> \<forall>w \<in> set ws. w = Eintr \<or> (\<exists>n > 0. w = Wrote n) \<Longrightarrow>
     append_loop b ws = (b, Some True)"
proof (induction b ws rule: append_loop.induct)
  case (3 c b w ws)
  show ?case
  proof (cases w)
    case (Wrote n)
    with 3 have n: "n \<noteq> 0" by auto
    define k where "k = min n (length (c # b))"
    have "0 < k" using n by (simp add: k_def)
    have "append_loop (drop k (c # b)) ws = (drop k (c # b), Some True)"
      using "3.IH" Wrote n "3.prems" \<open>0 < k\<close> by (simp add: k_def)
    then have "append_loop (drop (min n (length (c # b))) (c # b)) ws = (drop k (c # b), Some True)"
      by (simp only: k_def)
    with Wrote n show ?thesis unfolding append_loop.simps(3) Let_def by (simp add: k_def)
  qed (use 3 in auto)
qed auto

text \<open>
  appending a line.  The file only ever grows by a prefix of the line with its newline;
  the call reports success only when the whole line, ending in a newline, was appended; and
  if every write either is interrupted or takes at least one byte, it does succeed once
  there were as many such writes as bytes.
\<close>

theorem append_line_spec:
  assumes "append_line_atomic path opens ws line content = (content', st)"
  shows "\<exists>out. content' = content @ out \<and> prefix out (with_newline line)
      \<and> (st = Some True \<longrightarrow> content' = content @ with_newline line \<and> last content' = CHR 0x0A)
      \<and> (path \<noteq> [] \<and> opens \<and> length (with_newline line) \<le> length (filter (\<lambda>w. w \<noteq> Eintr) ws)
           \<and> (\<forall>w \<in> set ws. w = Eintr \<or> (\<exists>n > 0. w = Wrote n)) \<longrightarrow> st = Some True)"
proof -
  have nl: "with_newline line \<noteq> []" "last (with_newline line) = CHR 0x0A" by (auto simp: with_newline_def)
  obtain out st' where l: "append_loop (with_newline line) ws = (out, st')" by fastforce
  note p = append_loop_prefix[OF l]
  show ?thesis
    using assms l p nl append_loop_done[of "with_newline line" ws]
    by (cases "path = [] \<or> \<not> opens") (auto simp: append_line_atomic_def)
qed

theorem append_line_spec_witness:
  "append_line_atomic ''q'' True [Wrote 2, Eintr, Wrote 1, Wrote 1] ''ab'' ''x'' = (''xab'' @ [CHR 0x0A], Some True)"
  using append_line_spec[of "''q''" True "[Wrote 2, Eintr, Wrote 1, Wrote 1]" "''ab''" "''x''"
      "''xab'' @ [CHR 0x0A]" "Some True"]
  by (simp add: append_line_atomic_def with_newline_def)

section \<open>Jitter\<close>

definition fnv1a :: "string \<Rightarrow> u64" where
  "fnv1a t = fold (\<lambda>c h. (h XOR word_of_nat (of_char c)) * 1099511628211) t 1469598103934665603"

definition mix :: "u64 \<Rightarrow> u64" where
  "mix x0 =
     (let x1 = x0 + 0x9e3779b97f4a7c15;
          x2 = (x1 XOR drop_bit 30 x1) * 0xbf58476d1ce4e5b9;
          x3 = (x2 XOR drop_bit 27 x2) * 0x94d049bb133111eb
      in x3 XOR drop_bit 31 x3)"

text \<open>The product of two signed 64-bit integers, of which only the low 64 bits exist.\<close>

definition mul64 :: "int \<Rightarrow> int \<Rightarrow> int" where
  "mul64 a b = sint (word_of_int (a * b) :: u64)"

definition jitter_delay :: "u64 \<Rightarrow> int \<Rightarrow> string \<Rightarrow> u64 \<Rightarrow> int" where
  "jitter_delay seed base_ms label sequence =
     (if base_ms \<le> 0 then 0
      else let h = mix (seed XOR fnv1a label XOR mix sequence);
               basis_points = 8000 + int (unat h mod 4001)
           in mul64 base_ms basis_points div 10000)"

lemma mul64_id: "- (2 ^ 63) \<le> a * b \<Longrightarrow> a * b < 2 ^ 63 \<Longrightarrow> mul64 a b = a * b"
  unfolding mul64_def int_word_sint by (simp add: mod_pos_pos_trivial)

text \<open>
  jitter stays within twenty percent.  For a positive period whose product with 12000
  fits a signed 64-bit integer, the delay lies between 80% and 120% of the period, for
  every seed, label and sequence number; a non-positive period gives no delay.
\<close>

theorem jitter_bounds:
  assumes "base_ms * 12000 < 2 ^ 63"
  shows "(base_ms \<le> 0 \<longrightarrow> jitter_delay seed base_ms label sequence = 0)
    \<and> (0 < base_ms \<longrightarrow> base_ms * 8000 div 10000 \<le> jitter_delay seed base_ms label sequence
         \<and> jitter_delay seed base_ms label sequence \<le> base_ms * 12000 div 10000)"
proof -
  define bp where "bp = 8000 + int (unat (mix (seed XOR fnv1a label XOR mix sequence)) mod 4001)"
  have "unat (mix (seed XOR fnv1a label XOR mix sequence)) mod 4001 < 4001" by simp
  then have bp: "8000 \<le> bp" "bp \<le> 12000" unfolding bp_def by simp_all
  have "base_ms * 8000 div 10000 \<le> jitter_delay seed base_ms label sequence
         \<and> jitter_delay seed base_ms label sequence \<le> base_ms * 12000 div 10000" if pos: "0 < base_ms"
  proof -
    have le: "base_ms * 8000 \<le> base_ms * bp" "base_ms * bp \<le> base_ms * 12000" using bp pos by simp_all
    moreover have "0 \<le> base_ms * bp" using pos bp(1) by simp
    ultimately have "mul64 base_ms bp = base_ms * bp" using assms by (intro mul64_id) linarith+
    then have "jitter_delay seed base_ms label sequence = base_ms * bp div 10000"
      using pos by (simp add: jitter_delay_def Let_def bp_def)
    moreover have "base_ms * 8000 div 10000 \<le> base_ms * bp div 10000" by (rule zdiv_mono1[OF le(1)]) simp
    moreover have "base_ms * bp div 10000 \<le> base_ms * 12000 div 10000" by (rule zdiv_mono1[OF le(2)]) simp
    ultimately show ?thesis by (simp only:)
  qed
  then show ?thesis by (auto simp: jitter_delay_def)
qed

theorem jitter_bounds_witness:
  "48000 \<le> jitter_delay 1 60000 ''decay'' 3 \<and> jitter_delay 1 60000 ''decay'' 3 \<le> 72000"
  using jitter_bounds[of 60000 1 "''decay''" 3] by simp

end
