(* ===== verification/Output_Cap.thy ===== *)
theory Output_Cap
  imports Daemon_Support
begin

text \<open>
  The output cache (\<open>output_cap.hpp\<close>).  The cache directory is an association list from
  file names to entries; the digest is a parameter, since it is computed by a library.
  What the system calls answer is given by a record, and the writing loop is the one of
  the append-only writer.
\<close>

section \<open>Text\<close>

definition chars :: "string \<Rightarrow> nat" where
  "chars t = length (filter (\<lambda>c. \<not> cont c) t)"

function lines :: "string \<Rightarrow> string list" where
  "lines t =
     (if t = [] then []
      else let l = takeWhile (\<lambda>c. c \<noteq> CHR 0x0A) t; r = dropWhile (\<lambda>c. c \<noteq> CHR 0x0A) t
           in if r = [] then [t] else (l @ [CHR 0x0A]) # lines (tl r))"
  by pat_completeness auto
termination
proof (relation "measure length")
  fix t l r :: string
  assume r: "r = dropWhile (\<lambda>c. c \<noteq> CHR 0x0A) t" and "r \<noteq> []"
  then have "length (tl r) < length r" by (cases r) auto
  also have "\<dots> \<le> length t" unfolding r by (rule length_dropWhile_le)
  finally show "(tl r, t) \<in> measure length" by simp
qed simp

declare lines.simps [simp del]

text \<open>\<open>std::stol\<close> with its end position: the value and how much of the text it used.\<close>

definition stol_all :: "string \<Rightarrow> int option" where
  "stol_all s =
     (let s1 = dropWhile is_space s;
          sgn = (case s1 of c # _ \<Rightarrow> c = CHR ''-'' \<or> c = CHR ''+'' | [] \<Rightarrow> False);
          s2 = (if sgn then tl s1 else s1);
          ds = takeWhile is_digit s2;
          v = (if sgn \<and> hd s1 = CHR ''-'' then - int (decnum ds) else int (decnum ds))
      in if ds = [] \<or> v < - (2 ^ 63) \<or> 2 ^ 63 \<le> v \<or> ds \<noteq> s2 then None else Some v)"

definition setting :: "string option \<Rightarrow> nat \<Rightarrow> nat" where
  "setting env fallback =
     (case env of None \<Rightarrow> fallback
      | Some v \<Rightarrow> (case stol_all (c_str v) of None \<Rightarrow> fallback | Some n \<Rightarrow> if 0 \<le> n then nat n else fallback))"

section \<open>The cache directory\<close>

record centry =
  ce_symlink :: bool
  ce_regular :: bool
  ce_age :: nat
  ce_text :: string

type_synonym cdir = "(string \<times> centry) list"

definition valid_ref_name :: "string \<Rightarrow> bool" where
  "valid_ref_name n = (length n = 12 \<and> list_all (\<lambda>c. c \<in> set ''0123456789abcdef'') n)"

definition expired :: "nat \<Rightarrow> string \<times> centry \<Rightarrow> bool" where
  "expired ttl q = (case q of (n, e) \<Rightarrow>
     valid_ref_name n \<and> \<not> ce_symlink e \<and> ce_regular e \<and> ttl \<le> ce_age e)"

definition expire :: "nat \<Rightarrow> cdir \<Rightarrow> cdir" where
  "expire ttl dir = filter (\<lambda>q. \<not> expired ttl q) dir"

definition ttl_setting :: "string option \<Rightarrow> nat" where
  "ttl_setting env = min (setting env 48) 876000 * 3600"

definition put_entry :: "string \<Rightarrow> string \<Rightarrow> cdir \<Rightarrow> cdir" where
  "put_entry n t dir =
     (n, \<lparr>ce_symlink = False, ce_regular = True, ce_age = 0, ce_text = t\<rparr>) # filter (\<lambda>q. fst q \<noteq> n) dir"

section \<open>The preview\<close>

definition ref_hash :: "(string \<Rightarrow> u8 list) \<Rightarrow> string \<Rightarrow> string" where
  "ref_hash sha t = concat (map (\<lambda>b. hexfmt 2 (unat b)) (take 6 (sha t)))"

definition sect :: string where
  "sect = [cc 0xC2, cc 0xA7]"

definition dots :: string where
  "dots = [cc 0xE2, cc 0x80, cc 0xA6]"

definition nl :: string where
  "nl = [CHR 0x0A]"

definition cap_header :: "string \<Rightarrow> string \<Rightarrow> string" where
  "cap_header h t =
     sect @ ''ref:'' @ h @ sect @ '' '' @ dec_of (chars t) @ '' chars, '' @ dec_of (length (lines t))
     @ '' lines; first 20 and last 20 lines follow:'' @ nl"

definition rows_preview :: "string \<Rightarrow> string" where
  "rows_preview t =
     (let rows = lines t; n = length rows
      in concat (take 20 rows) @ (if 40 < n then nl @ dots @ nl else [])
         @ concat (drop (max 20 (if 20 < n then n - 20 else 0)) rows))"

fun skip_cont :: "string \<Rightarrow> string" where
  "skip_cont [] = []"
| "skip_cont (c # s) = (if cont c then skip_cont s else c # s)"

definition long_marker :: string where
  "long_marker = nl @ dots @ '' [long-line preview truncated] '' @ dots @ nl"

definition cap_preview :: "nat \<Rightarrow> string \<Rightarrow> string \<Rightarrow> string" where
  "cap_preview lmt header t =
     (let room = (if lmt > length header + 48 then lmt - length header - 48 else 0)
      in if length (rows_preview t) > room
         then take (trunc_pos t (room div 2)) t @ long_marker @ skip_cont (drop (length t - room div 2) t)
         else rows_preview t)"

section \<open>Capping\<close>

record cap_io =
  cap_dirs :: bool
  cap_temp :: bool
  cap_writes :: "wres list"
  cap_close :: bool
  cap_rename :: bool

text \<open>
  \<open>None\<close>: the writing loop is still waiting for an answer.  What the rename puts under the
  digest is what the loop has written to the temporary file, not the text it was given.
\<close>

definition cap :: "(string \<Rightarrow> u8 list) \<Rightarrow> nat \<Rightarrow> nat \<Rightarrow> cap_io \<Rightarrow> string \<Rightarrow> cdir \<Rightarrow> (string \<times> cdir) option" where
  "cap sha lmt ttl io t dir =
     (if chars t \<le> lmt then Some (t, dir)
      else if \<not> cap_dirs io then Some (t, dir)
      else
        let dir1 = expire ttl dir; h = ref_hash sha t in
        if (case map_of dir1 h of None \<Rightarrow> False | Some e \<Rightarrow> ce_text e \<noteq> t) then Some (t, dir1)
        else if \<not> cap_temp io then Some (t, dir1)
        else
          (case append_loop t (cap_writes io) of
             (written, None) \<Rightarrow> None
           | (written, Some ok) \<Rightarrow>
               if \<not> (ok \<and> cap_close io) \<or> \<not> cap_rename io then Some (t, dir1)
               else let header = cap_header h t
                    in Some (header @ cap_preview lmt header t, put_entry h written dir1)))"

section \<open>Reading a reference\<close>

definition parse_ull :: "string \<Rightarrow> nat option" where
  "parse_ull s =
     (if s = [] \<or> hd s = CHR ''0'' \<or> \<not> list_all is_digit s then None
      else if decnum s < 2 ^ 64 then Some (decnum s) else None)"

definition parse_range :: "string \<Rightarrow> (nat \<times> nat) option" where
  "parse_range r =
     (let a = takeWhile (\<lambda>c. c \<noteq> CHR ''-'') r; b = dropWhile (\<lambda>c. c \<noteq> CHR ''-'') r
      in if b = [] then None
         else case (parse_ull a, parse_ull (tl b)) of
                (Some lo, Some hi) \<Rightarrow> if lo > hi then None else Some (lo, hi)
              | _ \<Rightarrow> None)"

text \<open>The exit status and the output of \<open>output_ref --hash h [--lines r]\<close>.\<close>

definition output_ref :: "nat \<Rightarrow> string \<Rightarrow> string \<Rightarrow> cdir \<Rightarrow> nat \<times> string" where
  "output_ref ttl h r dir =
     (if \<not> valid_ref_name h then (2, [])
      else if r \<noteq> [] \<and> parse_range r = None then (2, [])
      else
        let dir1 = expire ttl dir in
        case map_of dir1 h of
          None \<Rightarrow> (1, [])
        | Some e \<Rightarrow>
            if ce_symlink e then (1, [])
            else if r = [] then (0, ce_text e)
            else (case parse_range r of
                    None \<Rightarrow> (2, [])
                  | Some (lo, hi) \<Rightarrow>
                      let rows = lines (ce_text e)
                      in (0, concat (drop (lo - 1) (take (min hi (length rows)) rows)))))"

section \<open>Properties\<close>

lemma lines_Nil: "lines [] = []"
  by (subst lines.simps) simp

lemma lines_single: "t \<noteq> [] \<Longrightarrow> CHR 0x0A \<notin> set t \<Longrightarrow> lines t = [t]"
proof -
  assume t: "t \<noteq> []" "CHR 0x0A \<notin> set t"
  then have "dropWhile (\<lambda>c. c \<noteq> CHR 0x0A) t = []" by auto
  with t(1) show ?thesis by (subst lines.simps) simp
qed

lemma lines_cons: "CHR 0x0A \<notin> set l \<Longrightarrow> lines (l @ CHR 0x0A # r) = (l @ [CHR 0x0A]) # lines r"
proof -
  assume l: "CHR 0x0A \<notin> set l"
  have "takeWhile (\<lambda>c. c \<noteq> CHR 0x0A) (l @ CHR 0x0A # r) = l" using l by (subst takeWhile_append2) auto
  moreover have "dropWhile (\<lambda>c. c \<noteq> CHR 0x0A) (l @ CHR 0x0A # r) = CHR 0x0A # r"
    using l by (subst dropWhile_append2) auto
  ultimately show ?thesis by (subst lines.simps) simp
qed

lemma text_cases:
  obtains (empty) "t = []" | (single) "t \<noteq> []" "CHR 0x0A \<notin> set t"
  | (line) l r where "t = l @ CHR 0x0A # r" "CHR 0x0A \<notin> set l"
  using split_list_first[of "CHR 0x0A" t] by (cases "t = []"; cases "CHR 0x0A \<in> set t") auto

text \<open>
  splitting into lines.  The lines of a text put together are the text; every line but
  the last ends with a newline, no line is empty, and no line has a newline inside.
\<close>

theorem lines_partition:
  "concat (lines t) = t \<and> [] \<notin> set (lines t) \<and> CHR 0x0A \<notin> set (concat (map butlast (lines t)))
   \<and> list_all (\<lambda>l. last l = CHR 0x0A) (butlast (lines t))"
proof (induction t rule: measure_induct_rule[where f = length])
  case (less t)
  show ?case
  proof (cases t rule: text_cases)
    case empty
    then show ?thesis by (simp add: lines_Nil)
  next
    case single
    then show ?thesis by (auto simp: lines_single dest: in_set_butlastD)
  next
    case (line l r)
    have "length r < length t" using line by simp
    from less.IH[OF this] line show ?thesis by (auto simp: lines_cons)
  qed
qed

subsection \<open>The life of a reference\<close>

text \<open>
  What happens to the directory after a call: time passes, or another output is capped.
  A capping whose write loop is still waiting has at most expired old entries.
\<close>

datatype cache_event = Pass nat | Capped cap_io string

definition aged :: "nat \<Rightarrow> cdir \<Rightarrow> cdir" where
  "aged k dir = map (\<lambda>(n, e). (n, e\<lparr>ce_age := ce_age e + k\<rparr>)) dir"

definition cap_dir :: "(string \<Rightarrow> u8 list) \<Rightarrow> nat \<Rightarrow> nat \<Rightarrow> cap_io \<Rightarrow> string \<Rightarrow> cdir \<Rightarrow> cdir" where
  "cap_dir sha lmt ttl io t dir =
     (case cap sha lmt ttl io t dir of Some (out, dir') \<Rightarrow> dir' | None \<Rightarrow> expire ttl dir)"

fun cache_run :: "(string \<Rightarrow> u8 list) \<Rightarrow> nat \<Rightarrow> nat \<Rightarrow> cache_event list \<Rightarrow> cdir \<Rightarrow> cdir" where
  "cache_run sha lmt ttl [] dir = dir"
| "cache_run sha lmt ttl (Pass k # es) dir = cache_run sha lmt ttl es (aged k dir)"
| "cache_run sha lmt ttl (Capped io t # es) dir = cache_run sha lmt ttl es (cap_dir sha lmt ttl io t dir)"

fun time_passed :: "cache_event list \<Rightarrow> nat" where
  "time_passed [] = 0"
| "time_passed (Pass k # es) = k + time_passed es"
| "time_passed (Capped io t # es) = time_passed es"

text \<open>The one entry of a name is a regular file of at most the given age with the given text.\<close>

definition holds_ref :: "string \<Rightarrow> string \<Rightarrow> nat \<Rightarrow> cdir \<Rightarrow> bool" where
  "holds_ref h t k dir =
     (\<exists>e. filter (\<lambda>q. fst q = h) dir = [(h, e)] \<and> \<not> ce_symlink e \<and> ce_regular e \<and> ce_age e \<le> k \<and> ce_text e = t)"

lemma map_of_only: "filter (\<lambda>q. fst q = h) dir = [(h, e)] \<Longrightarrow> map_of dir h = Some e"
  by (induction dir) (auto split: if_splits)

lemma holds_ref_map_of: "holds_ref h t k dir \<Longrightarrow> \<exists>e. map_of dir h = Some e \<and> \<not> ce_symlink e \<and> ce_text e = t"
  unfolding holds_ref_def using map_of_only by metis

lemma filter_name_expire:
  "filter (\<lambda>q. fst q = h) (expire ttl dir) = filter (\<lambda>q. \<not> expired ttl q) (filter (\<lambda>q. fst q = h) dir)"
  by (simp add: expire_def conj_commute)

lemma holds_ref_expire: "holds_ref h t k dir \<Longrightarrow> k < ttl \<Longrightarrow> holds_ref h t k (expire ttl dir)"
  unfolding holds_ref_def filter_name_expire by (auto simp: expired_def simp del: filter_filter)

lemma holds_ref_put: "holds_ref h t 0 (put_entry h t dir)"
proof -
  have "filter (\<lambda>q. fst q = h) (filter (\<lambda>q. fst q \<noteq> h) dir) = []" by (induction dir) auto
  then show ?thesis by (simp add: holds_ref_def put_entry_def del: filter_filter)
qed

lemma holds_ref_put_other: "h' \<noteq> h \<Longrightarrow> holds_ref h t k (put_entry h' t' dir) = holds_ref h t k dir"
proof -
  assume "h' \<noteq> h"
  then have "filter (\<lambda>q. fst q = h) (put_entry h' t' dir) = filter (\<lambda>q. fst q = h) dir"
    by (induction dir) (auto simp: put_entry_def)
  then show ?thesis by (simp add: holds_ref_def)
qed

lemma holds_ref_aged: "holds_ref h t k dir \<Longrightarrow> holds_ref h t (k + d) (aged d dir)"
proof -
  have "filter (\<lambda>q. fst q = h) (aged d dir) = map (\<lambda>(n, e). (n, e\<lparr>ce_age := ce_age e + d\<rparr>)) (filter (\<lambda>q. fst q = h) dir)"
    by (induction dir) (auto simp: aged_def)
  then show "holds_ref h t k dir \<Longrightarrow> ?thesis" by (auto simp: holds_ref_def)
qed

lemma holds_ref_mono: "holds_ref h t k dir \<Longrightarrow> k \<le> k' \<Longrightarrow> holds_ref h t k' dir"
  unfolding holds_ref_def by force

text \<open>What a capping leaves: the expired directory, or that with the whole text under its digest.\<close>

lemma cap_cases:
  assumes "cap sha lmt ttl io t dir = Some (out, dir')"
  obtains (kept) "out = t" "dir' = dir \<or> dir' = expire ttl dir"
  | (stored) "lmt < chars t" "out = cap_header (ref_hash sha t) t @ cap_preview lmt (cap_header (ref_hash sha t) t) t"
      "dir' = put_entry (ref_hash sha t) t (expire ttl dir)"
      "\<And>e. map_of (expire ttl dir) (ref_hash sha t) = Some e \<Longrightarrow> ce_text e = t"
proof -
  obtain w st where l: "append_loop t (cap_writes io) = (w, st)" by fastforce
  have "w = t" if "st = Some True" using append_loop_prefix[OF l] that by simp
  then show thesis
    using assms l kept stored by (auto simp: cap_def Let_def split: if_splits option.splits)
qed

lemma holds_ref_cap:
  assumes "holds_ref (ref_hash sha t) t k dir" "k < ttl"
  shows "holds_ref (ref_hash sha t) t k (cap_dir sha lmt ttl io t' dir)"
proof (cases "cap sha lmt ttl io t' dir")
  case None
  then show ?thesis using holds_ref_expire[OF assms] by (simp add: cap_dir_def)
next
  case (Some r)
  obtain out dir' where r: "r = (out, dir')" by fastforce
  note e = holds_ref_expire[OF assms]
  from Some[unfolded r] have "holds_ref (ref_hash sha t) t k dir'"
  proof (cases rule: cap_cases)
    case kept
    with assms(1) e show ?thesis by auto
  next
    case stored
    show ?thesis
    proof (cases "ref_hash sha t' = ref_hash sha t")
      case True
      with stored(4) holds_ref_map_of[OF e] have "t' = t" by auto
      then show ?thesis using stored(3) holds_ref_put[of "ref_hash sha t" t] by (auto intro: holds_ref_mono)
    next
      case False
      then show ?thesis using stored(3) e by (simp add: holds_ref_put_other)
    qed
  qed
  then show ?thesis by (simp add: cap_dir_def Some r)
qed

lemma holds_ref_run:
  "holds_ref (ref_hash sha t) t k dir \<Longrightarrow> k + time_passed es < ttl \<Longrightarrow>
     holds_ref (ref_hash sha t) t (k + time_passed es) (cache_run sha lmt ttl es dir)"
proof (induction sha lmt ttl es dir arbitrary: k rule: cache_run.induct)
  case (2 sha lmt ttl d es dir)
  from "2.IH"[OF holds_ref_aged[OF "2.prems"(1)]] "2.prems"(2) show ?case by (simp add: add.assoc)
next
  case (3 sha lmt ttl io t' es dir)
  have "k < ttl" using "3.prems"(2) by simp
  from "3.IH"[OF holds_ref_cap[OF "3.prems"(1) this]] "3.prems"(2) show ?case by simp
qed simp

lemma output_ref_fresh:
  "valid_ref_name h \<Longrightarrow> holds_ref h t k dir \<Longrightarrow> k < ttl \<Longrightarrow> output_ref ttl h [] dir = (0, t)"
  using holds_ref_map_of[OF holds_ref_expire[of h t k dir ttl]] by (auto simp: output_ref_def)

lemma output_ref_late:
  assumes "valid_ref_name h" "ttl \<le> k"
  shows "output_ref ttl h [] (aged k (put_entry h t dir)) = (1, [])"
proof -
  have n: "h \<notin> fst ` set (filter (\<lambda>q. fst q \<noteq> h) dir)" by auto
  have "map_of (expire ttl (aged k (put_entry h t dir))) h = None"
    unfolding map_of_eq_None_iff using assms n
    by (auto simp: expire_def aged_def put_entry_def expired_def)
  with assms(1) show ?thesis by (simp add: output_ref_def)
qed

text \<open>A digest of at least six bytes gives a valid name.\<close>

lemma hexd_lower: "v < 16 \<Longrightarrow> hexd v \<in> set ''0123456789abcdef''"
proof -
  have "\<forall>v \<in> set [0..<16]. hexd v \<in> set ''0123456789abcdef''" by code_simp
  then show "v < 16 \<Longrightarrow> ?thesis" by simp
qed

lemma hex_of_lower: "c \<in> set (hex_of v) \<Longrightarrow> c \<in> set ''0123456789abcdef''"
proof (induction v rule: hex_of.induct)
  case (1 v)
  show ?case
  proof (cases "v < 16")
    case True
    with 1(2) have "c = hexd v" by (subst (asm) hex_of.simps) simp
    with True show ?thesis using hexd_lower by blast
  next
    case False
    with 1(2) have "c \<in> set (hex_of (v div 16)) \<or> c = hexd (v mod 16)" by (subst (asm) hex_of.simps) auto
    then show ?thesis using 1(1)[OF False] hexd_lower[of "v mod 16"] by (elim disjE) (blast, simp)
  qed
qed

lemma length_ref_hash: "6 \<le> length (sha t) \<Longrightarrow> length (ref_hash sha t) = 12"
proof -
  have "length (concat (map (\<lambda>b. hexfmt 2 (unat b)) bs)) = 2 * length bs" for bs :: "u8 list"
  proof (induction bs)
    case (Cons b bs)
    have "unat b < 16 ^ 2" using unsigned_less[of b] by simp
    with Cons show ?case by (simp add: length_hexfmt)
  qed simp
  then show "6 \<le> length (sha t) \<Longrightarrow> ?thesis" by (simp add: ref_hash_def)
qed

lemma valid_ref_hash: "6 \<le> length (sha t) \<Longrightarrow> valid_ref_name (ref_hash sha t)"
proof -
  have "c \<in> set ''0123456789abcdef''" if "c \<in> set (ref_hash sha t)" for c
  proof -
    from that obtain b where "c \<in> set (hexfmt 2 (unat (b :: u8)))" by (auto simp: ref_hash_def)
    then have "c = CHR ''0'' \<or> c \<in> set (hex_of (unat b))" by (auto simp: hexfmt_def)
    then show ?thesis using hex_of_lower by (elim disjE) (simp, blast)
  qed
  then show "6 \<le> length (sha t) \<Longrightarrow> ?thesis"
    unfolding valid_ref_name_def list_all_iff by (simp only: length_ref_hash) blast
qed

text \<open>
  C11: capping loses nothing before its reference expires.  Whenever the cap returns something
  other than the text itself, the text was longer than the limit and the output names the
  digest of the text.  Then, whatever is capped later and however the system calls answer,
  reading that reference returns exactly the original bytes while less time than the
  configured life of a reference has passed; and once that much time has passed undisturbed,
  it returns nothing.  The digest is only assumed to be at least six bytes long.
\<close>

theorem cap_keeps_output:
  assumes "cap sha lmt ttl io t dir = Some (out, dir')" and "out \<noteq> t" and "6 \<le> length (sha t)"
  shows "lmt < chars t \<and> prefix (sect @ ''ref:'' @ ref_hash sha t @ sect) out
    \<and> (\<forall>es. time_passed es < ttl \<longrightarrow> output_ref ttl (ref_hash sha t) [] (cache_run sha lmt ttl es dir') = (0, t))
    \<and> (\<forall>k. ttl \<le> k \<longrightarrow> output_ref ttl (ref_hash sha t) [] (aged k dir') = (1, []))"
  using assms(1)
proof (cases rule: cap_cases)
  case stored
  note v = valid_ref_hash[of sha t, OF assms(3)]
  have "output_ref ttl (ref_hash sha t) [] (cache_run sha lmt ttl es dir') = (0, t)" if "time_passed es < ttl" for es
    using output_ref_fresh[OF v holds_ref_run[OF holds_ref_put]] that unfolding stored(3) by simp
  moreover have "prefix (sect @ ''ref:'' @ ref_hash sha t @ sect) out"
    unfolding stored(2) cap_header_def by (simp add: prefix_def)
  ultimately show ?thesis using stored(1) output_ref_late[OF v] by (simp add: stored(3))
qed (use assms(2) in simp)

definition demo_sha :: "string \<Rightarrow> u8 list" where
  "demo_sha t = replicate 32 0xAB"

definition demo_io :: cap_io where
  "demo_io = \<lparr>cap_dirs = True, cap_temp = True, cap_writes = [Wrote 1000], cap_close = True, cap_rename = True\<rparr>"

definition demo_text :: string where
  "demo_text = replicate 300 (CHR ''a'')"

lemma cap_empty_ttl: "cap sha lmt ttl io t [] = cap sha lmt ttl' io t []"
  by (simp add: cap_def expire_def Let_def)

lemma demo_cap:
  "\<exists>out dir'. cap demo_sha 200 ttl demo_io demo_text [] = Some (out, dir') \<and> out \<noteq> demo_text"
proof -
  have "case cap demo_sha 200 0 demo_io demo_text [] of None \<Rightarrow> False | Some (out, dir') \<Rightarrow> out \<noteq> demo_text"
    by code_simp
  then show ?thesis unfolding cap_empty_ttl[of _ _ ttl _ _ 0] by (auto split: option.splits)
qed

theorem cap_keeps_output_witness:
  "\<exists>out dir'. cap demo_sha 200 3600 demo_io demo_text [] = Some (out, dir')
    \<and> output_ref 3600 (ref_hash demo_sha demo_text) []
        (cache_run demo_sha 200 3600 [Pass 1000, Capped demo_io (demo_text @ demo_text), Pass 2000] dir') = (0, demo_text)
    \<and> output_ref 3600 (ref_hash demo_sha demo_text) [] (aged 3600 dir') = (1, [])"
proof -
  from demo_cap obtain out dir' where c: "cap demo_sha 200 3600 demo_io demo_text [] = Some (out, dir')" "out \<noteq> demo_text"
    by blast
  have l: "6 \<le> length (demo_sha demo_text)" by (simp add: demo_sha_def)
  note k = conjunct2[OF conjunct2[OF cap_keeps_output[OF c l]]]
  note k1 = mp[OF spec[OF conjunct1[OF k], of "[Pass 1000, Capped demo_io (demo_text @ demo_text), Pass 2000]"]]
  note k2 = mp[OF spec[OF conjunct2[OF k], of 3600]]
  show ?thesis
    by (intro exI conjI) (rule c(1), rule k1, simp, rule k2, simp)
qed

text \<open>
  A life of zero hours is accepted by the configuration: then the reference has expired at the
  first read, although the output was replaced by a preview.
\<close>

lemma ttl_setting_zero: "ttl_setting (Some ''0'') = 0"
  by (simp add: ttl_setting_def setting_def stol_all_def c_str_def nul_def is_space_def is_digit_def decnum_def)

lemma cap_ttl_zero_loses:
  "\<exists>out dir'. cap demo_sha 200 (ttl_setting (Some ''0'')) demo_io demo_text [] = Some (out, dir')
    \<and> out \<noteq> demo_text \<and> output_ref (ttl_setting (Some ''0'')) (ref_hash demo_sha demo_text) [] dir' = (1, [])"
proof -
  from demo_cap[of 0] obtain out dir' where
    c: "cap demo_sha 200 0 demo_io demo_text [] = Some (out, dir')" "out \<noteq> demo_text" by blast
  have e: "dir' = put_entry (ref_hash demo_sha demo_text) demo_text (expire 0 [])"
    using c by (cases rule: cap_cases) auto
  have v: "valid_ref_name (ref_hash demo_sha demo_text)" by (rule valid_ref_hash) (simp add: demo_sha_def)
  have "aged 0 dir' = dir'" unfolding aged_def by (induction dir') auto
  then have "output_ref 0 (ref_hash demo_sha demo_text) [] dir' = (1, [])"
    using output_ref_late[OF v, of 0 0 demo_text "expire 0 []"] unfolding e[symmetric] by simp
  with c show ?thesis unfolding ttl_setting_zero by blast
qed

lemma trunc_pos_take: "length (take (trunc_pos t k) t) \<le> k"
  using trunc_pos_le[of t k] by simp

lemma skip_cont_length: "length (skip_cont s) \<le> length s"
  by (induction s) auto

text \<open>
  the capped output fits.  When the text is replaced and the limit exceeds the header by
  more than 48 bytes, header and preview together are at most as many bytes as the limit.
\<close>

theorem cap_fits:
  assumes "cap sha lmt ttl io t dir = Some (out, dir')" and "out \<noteq> t"
    and "length (cap_header (ref_hash sha t) t) + 48 < lmt"
  shows "length out \<le> lmt"
proof -
  define h where "h = cap_header (ref_hash sha t) t"
  define room where "room = lmt - length h - 48"
  from assms(1,2) have out: "out = h @ cap_preview lmt h t"
    unfolding h_def by (cases rule: cap_cases) auto
  have r: "length h + 48 + room = lmt" using assms(3) by (simp add: room_def h_def)
  have m: "length long_marker = 39" by code_simp
  have a: "length (take (trunc_pos t (room div 2)) t) \<le> room div 2" by (rule trunc_pos_take)
  have b: "length (skip_cont (drop (length t - room div 2) t)) \<le> room div 2"
    by (rule order.trans[OF skip_cont_length]) simp
  have "length (cap_preview lmt h t) \<le> room + 39"
  proof (cases "length (rows_preview t) > room")
    case True
    then have "cap_preview lmt h t = take (trunc_pos t (room div 2)) t @ long_marker @ skip_cont (drop (length t - room div 2) t)"
      using assms(3) by (simp add: cap_preview_def Let_def room_def h_def)
    moreover have "room div 2 + room div 2 \<le> room" by simp
    ultimately show ?thesis using a b m by simp
  next
    case False
    then have "cap_preview lmt h t = rows_preview t"
      using assms(3) by (simp add: cap_preview_def Let_def room_def h_def)
    with False show ?thesis by simp
  qed
  with r out show ?thesis by simp
qed

theorem cap_fits_witness:
  "\<exists>out dir'. cap demo_sha 200 3600 demo_io demo_text [] = Some (out, dir') \<and> length out \<le> 200"
proof -
  from demo_cap obtain out dir' where c: "cap demo_sha 200 3600 demo_io demo_text [] = Some (out, dir')" "out \<noteq> demo_text"
    by blast
  have "length (cap_header (ref_hash demo_sha demo_text) demo_text) + 48 < 200" by code_simp
  with cap_fits[OF c] c show ?thesis by auto
qed

end
