(* ===== verification/Provenance_Spine.thy ===== *)
theory Provenance_Spine
  imports Core_Types "HOL-Library.AList"
begin

text \<open>
  The provenance spine (\<open>provenance.hpp\<close>): a record per node, its byte format, the trust
  filter, and the file the records are saved to and loaded from.  Integers are stored
  little-endian, as the target writes them; a trust score is kept as the bit pattern of
  its single-precision value, and compared by that value.
\<close>

section \<open>Single-precision values\<close>

definition f32_nan :: "u32 \<Rightarrow> bool" where
  "f32_nan w = (drop_bit 23 w AND 0xFF = 0xFF \<and> w AND 0x7FFFFF \<noteq> 0)"

definition f32_val :: "u32 \<Rightarrow> rat" where
  "f32_val w =
     (let e = unat (drop_bit 23 w AND 0xFF); m = rat_of_nat (unat (w AND 0x7FFFFF));
          a = (if e = 0 then m / 2 ^ 149
               else if e \<le> 150 then (m + 2 ^ 23) / 2 ^ (150 - e) else (m + 2 ^ 23) * 2 ^ (e - 150))
      in if bit w 31 then - a else a)"

definition f32_less :: "u32 \<Rightarrow> u32 \<Rightarrow> bool" where
  "f32_less a b = (\<not> f32_nan a \<and> \<not> f32_nan b \<and> f32_val a < f32_val b)"

definition f32_le :: "u32 \<Rightarrow> u32 \<Rightarrow> bool" where
  "f32_le a b = (\<not> f32_nan a \<and> \<not> f32_nan b \<and> f32_val a \<le> f32_val b)"

section \<open>Records\<close>

record provenance =
  pv_source :: u8
  pv_session :: string
  pv_tool :: string
  pv_user :: string
  pv_url :: string
  pv_created :: u64
  pv_derived :: node_id
  pv_trust :: u32

abbreviation src_unknown :: u8 where "src_unknown \<equiv> 0"
abbreviation src_user_input :: u8 where "src_user_input \<equiv> 1"
abbreviation src_synthesis :: u8 where "src_synthesis \<equiv> 5"
abbreviation src_inference :: u8 where "src_inference \<equiv> 6"

text \<open>The default record: 0x3F000000 is the bit pattern of \<open>0.5f\<close>.\<close>

definition provenance_default :: provenance where
  "provenance_default = \<lparr>pv_source = src_unknown, pv_session = [], pv_tool = [], pv_user = [], pv_url = [],
     pv_created = 0, pv_derived = node_zero, pv_trust = 0x3F000000\<rparr>"

definition source_name :: "u8 \<Rightarrow> string" where
  "source_name s =
     (if s = 0 then ''unknown'' else if s = 1 then ''user_input'' else if s = 2 then ''tool_output''
      else if s = 3 then ''web_fetch'' else if s = 4 then ''file_read'' else if s = 5 then ''synthesis''
      else if s = 6 then ''inference'' else if s = 7 then ''import'' else if s = 8 then ''migration''
      else ''unknown'')"

section \<open>The byte format\<close>

definition le32 :: "u32 \<Rightarrow> bytes" where
  "le32 w = map (\<lambda>k. ucast (drop_bit (8 * k) w)) [0..<4]"

definition le64 :: "u64 \<Rightarrow> bytes" where
  "le64 w = map (\<lambda>k. ucast (drop_bit (8 * k) w)) [0..<8]"

definition un32 :: "bytes \<Rightarrow> u32" where
  "un32 bs = (case bs of [a, b, c, d] \<Rightarrow>
      ucast a OR push_bit 8 (ucast b) OR push_bit 16 (ucast c) OR push_bit 24 (ucast d) | _ \<Rightarrow> 0)"

definition un64 :: "bytes \<Rightarrow> u64" where
  "un64 bs = (case bs of [a, b, c, d, e, f, g, h] \<Rightarrow>
      ucast a OR push_bit 8 (ucast b) OR push_bit 16 (ucast c) OR push_bit 24 (ucast d)
      OR push_bit 32 (ucast e) OR push_bit 40 (ucast f) OR push_bit 48 (ucast g) OR push_bit 56 (ucast h) | _ \<Rightarrow> 0)"

definition char_byte :: "char \<Rightarrow> u8" where
  "char_byte c = word_of_nat (of_char c)"

definition byte_char :: "u8 \<Rightarrow> char" where
  "byte_char b = char_of (unat b)"

definition write_string :: "string \<Rightarrow> bytes" where
  "write_string s =
     (let len = (word_of_nat (min (length s) 65535) :: u16)
      in [ucast (len AND 0xFF), ucast (drop_bit 8 len AND 0xFF)] @ map char_byte (take (unat len) s))"

definition serialize :: "provenance \<Rightarrow> bytes" where
  "serialize p =
     [pv_source p] @ le32 (pv_trust p) @ le64 (pv_created p)
     @ le64 (high (pv_derived p)) @ le64 (low (pv_derived p))
     @ write_string (pv_session p) @ write_string (pv_tool p) @ write_string (pv_user p) @ write_string (pv_url p)"

definition read_string :: "bytes \<Rightarrow> string \<times> bytes" where
  "read_string bs =
     (case bs of
        a # b # r \<Rightarrow>
          let len = unat ((ucast a OR push_bit 8 (ucast b)) :: u16)
          in if length r < len then ([], r) else (map byte_char (take len r), drop len r)
      | _ \<Rightarrow> ([], bs))"

definition deserialize :: "bytes \<Rightarrow> provenance" where
  "deserialize bs =
     (if length bs < 29 then provenance_default
      else
        let r = drop 29 bs;
            (s1, r1) = read_string r; (s2, r2) = read_string r1;
            (s3, r3) = read_string r2; (s4, r4) = read_string r3
        in \<lparr>pv_source = bs ! 0, pv_session = s1, pv_tool = s2, pv_user = s3, pv_url = s4,
            pv_created = un64 (take 8 (drop 5 bs)),
            pv_derived = \<lparr>high = un64 (take 8 (drop 13 bs)), low = un64 (take 8 (drop 21 bs))\<rparr>,
            pv_trust = un32 (take 4 (drop 1 bs))\<rparr>)"

lemma length_le [simp]: "length (le32 w) = 4" "length (le64 v) = 8"
  by (simp_all add: le32_def le64_def)

lemma un32_le32 [simp]: "un32 (le32 w) = w"
proof (rule bit_word_eqI)
  fix n assume n: "n < LENGTH(32)"
  then consider "n < 8" | "8 \<le> n" "n < 16" | "16 \<le> n" "n < 24" | "24 \<le> n" "n < 32" by fastforce
  then show "bit (un32 (le32 w)) n = bit w n"
    by cases (auto simp: un32_def le32_def upt_rec bit_simps)
qed

lemma un64_le64 [simp]: "un64 (le64 w) = w"
proof (rule bit_word_eqI)
  fix n assume n: "n < LENGTH(64)"
  then consider "n < 8" | "8 \<le> n" "n < 16" | "16 \<le> n" "n < 24" | "24 \<le> n" "n < 32"
    | "32 \<le> n" "n < 40" | "40 \<le> n" "n < 48" | "48 \<le> n" "n < 56" | "56 \<le> n" "n < 64" by fastforce
  then show "bit (un64 (le64 w)) n = bit w n"
    by cases (auto simp: un64_def le64_def upt_rec bit_simps)
qed

lemma byte_char_char_byte [simp]: "byte_char (char_byte c) = c"
proof -
  have "unat (word_of_nat (of_char c) :: u8) = of_char c" by (simp add: unat_of_nat take_bit_nat_eq_self)
  then show ?thesis by (simp add: byte_char_def char_byte_def)
qed

lemma len_bytes:
  "(ucast (ucast (len AND 0xFF) :: u8) OR push_bit 8 (ucast (ucast (drop_bit 8 len AND 0xFF) :: u8))) = (len :: u16)"
proof (rule bit_word_eqI)
  fix n assume n: "n < LENGTH(16)"
  have m: "(0xFF :: u16) = mask 8" by (simp add: mask_eq_exp_minus_1)
  from n consider "n < 8" | "8 \<le> n" "n < 16" by fastforce
  then show "bit (ucast (ucast (len AND 0xFF) :: u8) OR push_bit 8 (ucast (ucast (drop_bit 8 len AND 0xFF) :: u8)) :: u16) n = bit len n"
    unfolding m by cases (auto simp: bit_simps)
qed

lemma read_write_string: "read_string (write_string s @ r) = (take 65535 s, r)"
proof -
  define len where "len = (word_of_nat (min (length s) 65535) :: u16)"
  have len: "unat len = min (length s) 65535" unfolding len_def by (simp add: unat_of_nat take_bit_nat_eq_self)
  have w: "write_string s = ucast (len AND 0xFF) # ucast (drop_bit 8 len AND 0xFF) # map char_byte (take (unat len) s)"
    unfolding write_string_def len_def Let_def by simp
  have l: "length (take (unat len) s) = unat len" using len by simp
  have "read_string (write_string s @ r) = (map byte_char (map char_byte (take (unat len) s)), r)"
    unfolding w read_string_def using l by (simp add: len_bytes)
  also have "map byte_char (map char_byte (take (unat len) s)) = take (unat len) s"
    by (simp add: map_idI)
  also have "take (unat len) s = take 65535 s" unfolding len by (simp add: min_def)
  finally show ?thesis .
qed

lemma length_serialize: "length (serialize p) = 37 + (\<Sum>s \<leftarrow> [pv_session p, pv_tool p, pv_user p, pv_url p]. min (length s) 65535)"
proof -
  have "length (write_string s) = 2 + min (length s) 65535" for s
    by (simp add: write_string_def Let_def unat_of_nat take_bit_nat_eq_self min_def)
  then show ?thesis by (simp add: serialize_def)
qed

definition stored :: "provenance \<Rightarrow> provenance" where
  "stored p = p\<lparr>pv_session := take 65535 (pv_session p), pv_tool := take 65535 (pv_tool p),
     pv_user := take 65535 (pv_user p), pv_url := take 65535 (pv_url p)\<rparr>"

lemma provenance_roundtrip_bytes: "deserialize (serialize p) = stored p"
proof -
  have l: "\<not> length (serialize p) < 29" by (simp add: length_serialize)
  have s: "serialize p ! 0 = pv_source p" "take 4 (drop 1 (serialize p)) = le32 (pv_trust p)"
    "take 8 (drop 5 (serialize p)) = le64 (pv_created p)"
    "take 8 (drop 13 (serialize p)) = le64 (high (pv_derived p))"
    "take 8 (drop 21 (serialize p)) = le64 (low (pv_derived p))"
    "drop 29 (serialize p) = write_string (pv_session p) @ write_string (pv_tool p) @ write_string (pv_user p)
       @ write_string (pv_url p) @ []"
    by (simp_all add: serialize_def)
  show ?thesis
    unfolding deserialize_def s Let_def read_write_string prod.case
    using l by (auto simp: stored_def intro: provenance.equality node_id.equality)
qed

text \<open>
  the byte format of a record.  Reading back what was written gives the record, with
  each string cut at 65535 bytes; in particular the record itself when no string is
  longer than that.
\<close>

theorem provenance_roundtrip: "deserialize (serialize p) = stored p"
  by (rule provenance_roundtrip_bytes)

section \<open>The spine\<close>

text \<open>
  The unordered map is the list of its entries in iteration order; the theorems quantify
  over the list, hence over every iteration order.
\<close>

type_synonym spine = "(node_id \<times> provenance) list"

record trust_config =
  min_trust :: u32
  require_user_input :: bool
  exclude_synthesis :: bool
  require_source_url :: bool
  allowed_tools :: "string list"
  allowed_sessions :: "string list"

definition spine_record :: "spine \<Rightarrow> node_id \<Rightarrow> provenance \<Rightarrow> spine" where
  "spine_record sp i p = AList.update i p sp"

definition spine_get :: "spine \<Rightarrow> node_id \<Rightarrow> provenance option" where
  "spine_get sp i = map_of sp i"

definition passes_trust_filter :: "spine \<Rightarrow> trust_config \<Rightarrow> node_id \<Rightarrow> bool" where
  "passes_trust_filter sp c i =
     (case map_of sp i of
        None \<Rightarrow> f32_le (min_trust c) 0
      | Some p \<Rightarrow>
          if f32_less (pv_trust p) (min_trust c) then False
          else if require_user_input c \<and> pv_source p \<noteq> src_user_input then False
          else if exclude_synthesis c \<and> (pv_source p = src_synthesis \<or> pv_source p = src_inference) then False
          else if require_source_url c \<and> pv_url p = [] then False
          else if allowed_tools c \<noteq> [] \<and> pv_tool p \<noteq> [] \<and> pv_tool p \<notin> set (allowed_tools c) then False
          else if allowed_sessions c \<noteq> [] \<and> pv_session p \<noteq> [] \<and> pv_session p \<notin> set (allowed_sessions c) then False
          else True)"

fun filter_by_trust :: "spine \<Rightarrow> trust_config \<Rightarrow> node_id list \<Rightarrow> node_id list" where
  "filter_by_trust sp c [] = []"
| "filter_by_trust sp c (i # is) =
     (if passes_trust_filter sp c i then i # filter_by_trust sp c is else filter_by_trust sp c is)"

definition spine_remove :: "spine \<Rightarrow> node_id \<Rightarrow> spine" where
  "spine_remove sp i = AList.delete i sp"

definition spine_clear :: "spine \<Rightarrow> spine" where
  "spine_clear sp = []"

definition spine_count :: "spine \<Rightarrow> nat" where
  "spine_count sp = length sp"

section \<open>The file\<close>

fun save_entries :: "spine \<Rightarrow> bytes" where
  "save_entries [] = []"
| "save_entries ((i, p) # es) =
     le64 (high i) @ le64 (low i) @ le32 (word_of_nat (length (serialize p))) @ serialize p @ save_entries es"

definition save_bytes :: "spine \<Rightarrow> bytes" where
  "save_bytes sp = le32 0x50524F56 @ le32 1 @ le64 (word_of_nat (spine_count sp)) @ save_entries sp"

definition fread :: "nat \<Rightarrow> bytes \<Rightarrow> (bytes \<times> bytes) option" where
  "fread n bs = (if length bs < n then None else Some (take n bs, drop n bs))"

text \<open>
  The loop of \<open>load\<close>: on a failed read the entries already stored stay, and the result is
  \<open>False\<close>.
\<close>

fun load_entries :: "nat \<Rightarrow> bytes \<Rightarrow> spine \<Rightarrow> bool \<times> spine" where
  "load_entries 0 bs sp = (True, sp)"
| "load_entries (Suc n) bs sp =
     (case fread 8 bs of None \<Rightarrow> (False, sp) | Some (h, bs1) \<Rightarrow>
      case fread 8 bs1 of None \<Rightarrow> (False, sp) | Some (l, bs2) \<Rightarrow>
      case fread 4 bs2 of None \<Rightarrow> (False, sp) | Some (z, bs3) \<Rightarrow>
      if un32 z > 10000 then (False, sp)
      else case fread (unat (un32 z)) bs3 of None \<Rightarrow> (False, sp) | Some (d, bs4) \<Rightarrow>
        load_entries n bs4 (spine_record sp \<lparr>high = un64 h, low = un64 l\<rparr> (deserialize d)))"

definition load_spine :: "bytes option \<Rightarrow> spine \<Rightarrow> bool \<times> spine" where
  "load_spine file sp =
     (case file of None \<Rightarrow> (False, sp) | Some bs \<Rightarrow>
      case fread 4 bs of None \<Rightarrow> (False, sp) | Some (m, bs1) \<Rightarrow>
      if un32 m \<noteq> 0x50524F56 then (False, sp)
      else case fread 4 bs1 of None \<Rightarrow> (False, sp) | Some (v, bs2) \<Rightarrow>
      if un32 v \<noteq> 1 then (False, sp)
      else case fread 8 bs2 of None \<Rightarrow> (False, sp) | Some (c, bs3) \<Rightarrow>
      if un64 c > 100000000 then (False, sp)
      else load_entries (unat (un64 c)) bs3 (spine_clear sp))"

lemma fread_append [simp]: "length a = n \<Longrightarrow> fread n (a @ b) = Some (a, b)"
  by (simp add: fread_def)

lemma length_serialize_bound: "length (serialize p) < 2 ^ 32"
  by (simp add: length_serialize min_def)

lemma un_size: "unat (word_of_nat (length (serialize p)) :: u32) = length (serialize p)"
  using length_serialize_bound [of p] by (simp add: unat_of_nat take_bit_nat_eq_self)

lemma word_size_le: "(word_of_nat (length (serialize p)) :: u32) > 10000 \<longleftrightarrow> length (serialize p) > 10000"
  using length_serialize_bound [of p] by (simp add: word_less_nat_alt unat_of_nat take_bit_nat_eq_self)

definition fits_loader :: "provenance \<Rightarrow> bool" where
  "fits_loader p = (length (serialize p) \<le> 10000)"

lemma update_fresh: "i \<notin> fst ` set sp \<Longrightarrow> AList.update i p sp = sp @ [(i, p)]"
  by (induction sp) auto

lemma node_id_eta: "\<lparr>high = high i, low = low i\<rparr> = (i :: node_id)"
  by (cases i) simp

lemma load_step:
  "load_entries (Suc n) (save_entries ((i, p) # es) @ r) sp =
     (if fits_loader p then load_entries n (save_entries es @ r) (spine_record sp i (stored p)) else (False, sp))"
  using word_size_le [of p] by (auto simp: fits_loader_def un_size provenance_roundtrip_bytes not_less [symmetric] node_id_eta)

lemma load_entries_prefix:
  assumes "\<forall>(i, p) \<in> set es. fits_loader p" "distinct (map fst (sp @ es))"
  shows "load_entries (length es + n) (save_entries es @ r) sp =
           load_entries n r (sp @ map (\<lambda>(i, p). (i, stored p)) es)"
  using assms
proof (induction es arbitrary: sp)
  case Nil
  then show ?case by simp
next
  case (Cons e es)
  obtain i p where e: "e = (i, p)" by force
  have fresh: "i \<notin> fst ` set sp" using Cons.prems(2) by (auto simp: e)
  have "load_entries (length (e # es) + n) (save_entries (e # es) @ r) sp =
      load_entries (length es + n) (save_entries es @ r) (sp @ [(i, stored p)])"
    using Cons.prems(1) load_step [of "length es + n" i p es r sp] update_fresh [OF fresh]
    by (simp add: e spine_record_def del: load_entries.simps save_entries.simps)
  also have "\<dots> = load_entries n r ((sp @ [(i, stored p)]) @ map (\<lambda>(i, p). (i, stored p)) es)"
    using Cons.prems by (intro Cons.IH) (auto simp: e)
  finally show ?case by (simp add: e)
qed

lemma load_header:
  assumes "spine_count sp \<le> 100000000"
  shows "load_spine (Some (save_bytes sp)) old = load_entries (spine_count sp) (save_entries sp) []"
proof -
  have "unat (word_of_nat (spine_count sp) :: u64) = spine_count sp"
    using assms by (simp add: unat_of_nat take_bit_nat_eq_self)
  then show ?thesis using assms
    by (simp add: load_spine_def save_bytes_def spine_clear_def word_less_nat_alt)
qed

lemma fits_stored: "fits_loader p \<Longrightarrow> stored p = p"
  unfolding fits_loader_def length_serialize stored_def by (cases p) (auto simp: min_def split: if_splits)

text \<open>
  the loader's bound is smaller than what the writer emits.  When some record of the
  spine is longer than 10000 bytes (one source URL of that length is enough), \<open>load\<close>
  reports failure on the file \<open>save\<close> wrote, and keeps only the entries before that record;
  the spine it had before the call is gone.
\<close>

theorem spine_load_rejects:
  assumes "distinct (map fst (a @ (i, p) # b))" "\<forall>(j, q) \<in> set a. fits_loader q" "\<not> fits_loader p"
    "spine_count (a @ (i, p) # b) \<le> 100000000"
  shows "load_spine (Some (save_bytes (a @ (i, p) # b))) old = (False, map (\<lambda>(j, q). (j, stored q)) a)"
proof -
  have app: "save_entries (a @ e) = save_entries a @ save_entries e" for e
    by (induction a rule: save_entries.induct) simp_all
  have "load_entries (length a + Suc (length b)) (save_entries a @ save_entries ((i, p) # b)) [] =
      load_entries (Suc (length b)) (save_entries ((i, p) # b)) (map (\<lambda>(j, q). (j, stored q)) a)"
    using load_entries_prefix [of a "[]" "Suc (length b)" "save_entries ((i, p) # b)"] assms(1,2)
    by (simp del: load_entries.simps save_entries.simps)
  also have "\<dots> = (False, map (\<lambda>(j, q). (j, stored q)) a)"
    using load_step [of "length b" i p b "[]"] assms(3) by (simp del: load_entries.simps save_entries.simps)
  finally show ?thesis using load_header [OF assms(4)] by (simp add: spine_count_def app del: load_entries.simps save_entries.simps)
qed

lemma fits_stored_all: "\<forall>(i, p) \<in> set sp. fits_loader p \<Longrightarrow> map (\<lambda>(i, p). (i, stored p)) sp = sp"
  by (induction sp) (auto simp: fits_stored)

text \<open>
  C16: what \<open>load\<close> makes of a file \<open>save\<close> wrote, whatever the iteration order of the map, for
  at most 100000000 entries.  When every record is within the 10000 bytes the loader accepts,
  the spine is given back exactly; otherwise the load fails with the entries before the first
  longer record.
\<close>

theorem spine_save_load:
  assumes "distinct (map fst sp)" "spine_count sp \<le> 100000000"
  shows "load_spine (Some (save_bytes sp)) old =
    (if \<forall>(i, p) \<in> set sp. fits_loader p then (True, sp) else (False, takeWhile (\<lambda>(i, p). fits_loader p) sp))"
proof (cases "\<forall>(i, p) \<in> set sp. fits_loader p")
  case True
  then show ?thesis using load_entries_prefix [of sp "[]" 0 "[]"] assms fits_stored_all [OF True]
    by (simp add: load_header spine_count_def)
next
  case False
  let ?f = "\<lambda>(i, p). fits_loader p"
  define a where "a = takeWhile ?f sp"
  from False obtain i p b where b: "dropWhile ?f sp = (i, p) # b"
    by (cases "dropWhile ?f sp") (auto simp: dropWhile_eq_Nil_conv)
  have n: "\<not> fits_loader p" using hd_dropWhile [of ?f sp] b by auto
  have sp: "sp = a @ (i, p) # b" using takeWhile_dropWhile_id [of ?f sp] b by (simp add: a_def)
  have f: "\<forall>(j, q) \<in> set a. fits_loader q" unfolding a_def by (auto dest: set_takeWhileD)
  have "load_spine (Some (save_bytes sp)) old = (False, a)"
    using spine_load_rejects [of a i p b old] assms f n fits_stored_all [OF f] unfolding sp by simp
  with False show ?thesis by (simp add: a_def)
qed

definition demo_prov :: provenance where
  "demo_prov = provenance_default\<lparr>pv_session := ''s1'', pv_source := 1\<rparr>"

theorem spine_save_load_witness:
  "load_spine (Some (save_bytes [(\<lparr>high = 1, low = 2\<rparr>, demo_prov)])) [] = (True, [(\<lparr>high = 1, low = 2\<rparr>, demo_prov)])
   \<and> load_spine (Some (save_bytes [(\<lparr>high = 1, low = 2\<rparr>, demo_prov), (node_zero, demo_prov\<lparr>pv_url := replicate 10000 CHR ''x''\<rparr>)])) [] =
     (False, [(\<lparr>high = 1, low = 2\<rparr>, demo_prov)])"
  using spine_save_load [of "[(\<lparr>high = 1, low = 2\<rparr>, demo_prov)]" "[]"]
    spine_save_load [of "[(\<lparr>high = 1, low = 2\<rparr>, demo_prov), (node_zero, demo_prov\<lparr>pv_url := replicate 10000 CHR ''x''\<rparr>)]" "[]"]
  by (simp add: fits_loader_def length_serialize demo_prov_def provenance_default_def spine_count_def node_zero_def)

theorem spine_load_rejects_witness:
  "load_spine (Some (save_bytes [(node_zero, demo_prov\<lparr>pv_url := replicate 10000 CHR ''x''\<rparr>)])) [(node_zero, demo_prov)] =
     (False, [])"
  using spine_load_rejects [of "[]" node_zero "demo_prov\<lparr>pv_url := replicate 10000 CHR ''x''\<rparr>" "[]" "[(node_zero, demo_prov)]"]
  by (simp add: fits_loader_def length_serialize demo_prov_def provenance_default_def spine_count_def)

section \<open>The trust filter\<close>

lemma filter_by_trust_eq: "filter_by_trust sp c is = filter (passes_trust_filter sp c) is"
  by (induction "is") simp_all

text \<open>A configuration is stricter than another when it raises the bound, sets more switches and narrows the lists.\<close>

definition stricter_list :: "string list \<Rightarrow> string list \<Rightarrow> bool" where
  "stricter_list b a = (a = [] \<or> (b \<noteq> [] \<and> set b \<subseteq> set a))"

definition stricter :: "trust_config \<Rightarrow> trust_config \<Rightarrow> bool" where
  "stricter d c =
     (f32_le (min_trust c) (min_trust d) \<and> (require_user_input c \<longrightarrow> require_user_input d)
      \<and> (exclude_synthesis c \<longrightarrow> exclude_synthesis d) \<and> (require_source_url c \<longrightarrow> require_source_url d)
      \<and> stricter_list (allowed_tools d) (allowed_tools c) \<and> stricter_list (allowed_sessions d) (allowed_sessions c))"

lemma f32_trans:
  "f32_le a b \<Longrightarrow> f32_le b c \<Longrightarrow> f32_le a c"
  "f32_le a b \<Longrightarrow> f32_less t a \<Longrightarrow> f32_less t b"
  by (auto simp: f32_le_def f32_less_def)

definition allowed :: "string \<Rightarrow> string list \<Rightarrow> bool" where
  "allowed x xs = (xs = [] \<or> x = [] \<or> x \<in> set xs)"

lemma passes_some:
  assumes "map_of sp i = Some p"
  shows "passes_trust_filter sp c i =
    (\<not> f32_less (pv_trust p) (min_trust c) \<and> (require_user_input c \<longrightarrow> pv_source p = src_user_input)
     \<and> (exclude_synthesis c \<longrightarrow> pv_source p \<noteq> src_synthesis \<and> pv_source p \<noteq> src_inference)
     \<and> (require_source_url c \<longrightarrow> pv_url p \<noteq> [])
     \<and> allowed (pv_tool p) (allowed_tools c) \<and> allowed (pv_session p) (allowed_sessions c))"
  unfolding passes_trust_filter_def allowed_def assms option.case by argo

lemma stricter_allowed: "stricter_list b a \<Longrightarrow> allowed x b \<Longrightarrow> allowed x a"
  by (auto simp: stricter_list_def allowed_def)

lemma stricter_passes:
  assumes "stricter d c" "passes_trust_filter sp d i"
  shows "passes_trust_filter sp c i"
proof (cases "map_of sp i")
  case None
  then show ?thesis using assms f32_trans(1) by (auto simp: passes_trust_filter_def stricter_def)
next
  case (Some p)
  note d = assms(1) [unfolded stricter_def]
  have t: "\<not> f32_less (pv_trust p) (min_trust c)"
    using assms(2) d f32_trans(2) unfolding passes_some [OF Some] by blast
  then show ?thesis
    using assms(2) d stricter_allowed unfolding passes_some [OF Some] by blast
qed

lemma filter_by_trust_antitone:
  assumes "stricter d c"
  shows "filter_by_trust sp d is = filter (passes_trust_filter sp d) (filter_by_trust sp c is)"
  using stricter_passes [OF assms] by (auto simp: filter_by_trust_eq intro: filter_cong)

end
