(* ===== verification/Step_Systems.thy ===== *)
theory Step_Systems
  imports "HOL-Library.Multiset"
begin

text \<open>
  Step systems and their refinement: what the components with several threads and the
  components that survive a crash share.  A concrete system with an invariant simulates
  an abstract one, up to steps the abstraction does not see; then every run of the
  concrete system is a run of the abstract one, and the invariant holds of every state
  on the way.
\<close>

locale simulation =
  fixes c_init :: "'c \<Rightarrow> bool" and c_step :: "'c \<Rightarrow> 'c \<Rightarrow> bool" and inv :: "'c \<Rightarrow> bool"
    and a_init :: "'a \<Rightarrow> bool" and a_step :: "'a \<Rightarrow> 'a \<Rightarrow> bool" and abs_of :: "'c \<Rightarrow> 'a"
  assumes init_inv: "c_init s \<Longrightarrow> inv s"
    and step_inv: "inv s \<Longrightarrow> c_step s t \<Longrightarrow> inv t"
    and init_abs: "c_init s \<Longrightarrow> a_init (abs_of s)"
    and step_abs: "inv s \<Longrightarrow> c_step s t \<Longrightarrow> abs_of t = abs_of s \<or> a_step (abs_of s) (abs_of t)"
begin

lemma run_inv: "c_step\<^sup>*\<^sup>* s t \<Longrightarrow> inv s \<Longrightarrow> inv t"
  by (induction rule: rtranclp_induct) (auto intro: step_inv)

lemma reachable_inv: "c_init s \<Longrightarrow> c_step\<^sup>*\<^sup>* s t \<Longrightarrow> inv t"
  using init_inv run_inv by blast

lemma run_abs:
  assumes "inv s" "c_step\<^sup>*\<^sup>* s t"
  shows "a_step\<^sup>*\<^sup>* (abs_of s) (abs_of t)"
  using assms(2)
proof (induction rule: rtranclp_induct)
  case base
  then show ?case by simp
next
  case (step t u)
  have "inv t" using run_inv [OF step.hyps(1) assms(1)] .
  with step.hyps(2) have "abs_of u = abs_of t \<or> a_step (abs_of t) (abs_of u)" by (rule step_abs [rotated])
  with step.IH show ?case by (auto intro: rtranclp.rtrancl_into_rtrancl)
qed

lemma refines: "c_init s \<Longrightarrow> c_step\<^sup>*\<^sup>* s t \<Longrightarrow> a_init (abs_of s) \<and> a_step\<^sup>*\<^sup>* (abs_of s) (abs_of t)"
  using init_inv init_abs run_abs by blast

end

text \<open>
  A system every step of which decreases a measure has no run longer than the measure of
  its first state, and from every state some run ends in a state without a step.
\<close>

locale decreasing =
  fixes d_step :: "'s \<Rightarrow> 's \<Rightarrow> bool" and d_inv :: "'s \<Rightarrow> bool" and measure_of :: "'s \<Rightarrow> nat"
  assumes d_inv_step: "d_inv s \<Longrightarrow> d_step s t \<Longrightarrow> d_inv t"
    and decreases: "d_inv s \<Longrightarrow> d_step s t \<Longrightarrow> measure_of t < measure_of s"
begin

lemma run_bound: "d_inv s \<Longrightarrow> (d_step ^^ n) s t \<Longrightarrow> d_inv t \<and> measure_of t + n \<le> measure_of s"
proof (induction n arbitrary: t)
  case 0
  then show ?case by simp
next
  case (Suc n)
  then obtain u where "(d_step ^^ n) s u" "d_step u t" by auto
  with Suc.IH [OF Suc.prems(1)] show ?case using d_inv_step decreases by fastforce
qed

lemma run_ends: "d_inv s \<Longrightarrow> \<exists>t. d_step\<^sup>*\<^sup>* s t \<and> (\<nexists>u. d_step t u)"
proof (induction "measure_of s" arbitrary: s rule: less_induct)
  case less
  show ?case
  proof (cases "\<exists>u. d_step s u")
    case True
    then obtain u where u: "d_step s u" ..
    with less obtain t where "d_step\<^sup>*\<^sup>* u t" "\<nexists>v. d_step t v" using d_inv_step decreases by blast
    with u show ?thesis by (meson converse_rtranclp_into_rtranclp)
  qed auto
qed

end

text \<open>Generic facts on a list of cells of which one is updated.\<close>

lemma filter_length_update:
  assumes "k < length xs"
  shows "length (filter P (xs[k := x])) + (if P (xs ! k) then 1 else 0) =
         length (filter P xs) + (if P x then 1 else 0)"
proof -
  have "xs = take k xs @ xs ! k # drop (Suc k) xs" using assms by (rule id_take_nth_drop)
  then have "length (filter P xs) = length (filter P (take k xs @ xs ! k # drop (Suc k) xs))" by simp
  then show ?thesis using assms by (simp add: upd_conv_take_nth_drop)
qed

lemma sum_list_update_nat:
  fixes f :: "'a \<Rightarrow> nat"
  assumes "k < length xs"
  shows "sum_list (map f (xs[k := x])) + f (xs ! k) = sum_list (map f xs) + f x"
proof -
  have "xs = take k xs @ xs ! k # drop (Suc k) xs" using assms by (rule id_take_nth_drop)
  then have "sum_list (map f xs) = sum_list (map f (take k xs @ xs ! k # drop (Suc k) xs))" by simp
  then show ?thesis using assms by (simp add: upd_conv_take_nth_drop)
qed

lemma mset_concat_update:
  assumes "k < length xs"
  shows "mset (concat (map f (xs[k := x]))) + mset (f (xs ! k)) = mset (concat (map f xs)) + mset (f x)"
proof -
  have "xs = take k xs @ xs ! k # drop (Suc k) xs" using assms by (rule id_take_nth_drop)
  then have "mset (concat (map f xs)) = mset (concat (map f (take k xs @ xs ! k # drop (Suc k) xs)))" by simp
  then show ?thesis using assms by (simp add: upd_conv_take_nth_drop)
qed

lemma distinct_subset_mset:
  assumes "mset xs \<subseteq># mset ys" "distinct ys"
  shows "distinct xs"
proof -
  from assms(1) obtain M where M: "mset ys = mset xs + M" by (auto simp: mset_subset_eq_exists_conv)
  obtain zs where "M = mset zs" by (metis ex_mset)
  with M have "mset ys = mset (xs @ zs)" by simp
  with assms(2) have "distinct (xs @ zs)" by (metis mset_eq_imp_distinct_iff)
  then show ?thesis by simp
qed

lemma concat_map_subset_mset:
  assumes "\<And>x. mset (f x) \<subseteq># mset (g x)"
  shows "mset (concat (map f xs)) \<subseteq># mset (concat (map g xs))"
  by (induction xs) (auto intro: assms subset_mset.add_mono)

end
