(* ===== verification/Thread_Pool.thy ===== *)
theory Thread_Pool
  imports Json_Model Step_Systems "HOL-Library.AList" "HOL-Library.Multiset"
begin

text \<open>
  The worker pool of the daemon (\<open>rpc/thread_pool.hpp\<close>).  Each critical section and each
  atomic update is one step: \<open>submit\<close> is three steps of a client thread (take an id, enqueue
  under the queue lock, grow the pool), a worker goes through five (pop, run, unregister,
  uncount, deliver), and the watchdog scans in one.  The step relation interleaves them in
  every order.

  Counters are integers, so that a decrement below zero would be visible.  The id counter
  keeps its 64 bits; a step never takes the last id before it wraps.  Times are nanoseconds
  of the monotonic clock.  The fields \<open>accepted\<close>, \<open>started\<close>, \<open>finished\<close>, \<open>calls\<close> and \<open>alarms\<close>
  are history: what was enqueued, popped and completed, and the calls of \<open>on_complete\<close> and
  of the watchdog callback, in order.

  A task that throws is modelled; an \<open>on_complete\<close> that throws, which would end the process
  from the worker thread, is not, nor is a failure to print the error response.  Starting a
  worker is one step: it runs under the lock of the worker list.
\<close>

section \<open>State\<close>

record task =
  task_id :: u64
  client_fd :: int
  has_on_complete :: bool

record trace =
  tr_method :: string
  tr_start :: nat

datatype worker =
    Waiting
  | Running task
  | Computed task string
  | Unregistered task string
  | Delivering task string
  | Gone

datatype client =
    Outside
  | Reserved task string
  | Growing nat nat

record pool =
  max_workers :: nat
  max_queue_depth :: nat
  tasks :: "task list"
  active :: "(u64 \<times> trace) list"
  next_id :: u64
  num_workers :: nat
  pending_tasks :: int
  active_tasks :: int
  stopped :: bool
  workers :: "worker list"
  clients :: "client list"
  callback_set :: bool
  threshold :: nat
  escalated :: "u64 list"
  clock :: nat
  accepted :: "task list"
  started :: "task list"
  finished :: "(task \<times> string) list"
  calls :: "(int \<times> string) list"
  alarms :: "(u64 \<times> string \<times> nat) list"

section \<open>Operations\<close>

definition spawn_worker :: "pool \<Rightarrow> pool" where
  "spawn_worker s =
     (if num_workers s \<ge> max_workers s then s
      else s\<lparr>workers := workers s @ [Waiting], num_workers := num_workers s + 1\<rparr>)"

definition pool_new :: "nat \<Rightarrow> nat \<Rightarrow> nat \<Rightarrow> nat \<Rightarrow> nat \<Rightarrow> pool" where
  "pool_new min_threads max_threads depth n_clients t0 =
     (spawn_worker ^^ min_threads)
       \<lparr>max_workers = max_threads, max_queue_depth = depth, tasks = [], active = [], next_id = 1,
        num_workers = 0, pending_tasks = 0, active_tasks = 0, stopped = False, workers = [],
        clients = replicate n_clients Outside, callback_set = False, threshold = 60, escalated = [],
        clock = t0, accepted = [], started = [], finished = [], calls = [], alarms = []\<rparr>"

text \<open>The three parts of \<open>submit\<close>, and \<open>submit\<close> as one thread runs it undisturbed.\<close>

definition reserve :: "pool \<Rightarrow> u64 \<times> pool" where
  "reserve s = (next_id s, s\<lparr>next_id := next_id s + 1\<rparr>)"

definition admit :: "task \<Rightarrow> string \<Rightarrow> pool \<Rightarrow> (nat \<times> nat) option \<times> pool" where
  "admit t m s =
     (if length (tasks s) \<ge> max_queue_depth s then (None, s)
      else
        let s1 = s\<lparr>active := AList.update (task_id t) \<lparr>tr_method = m, tr_start = clock s\<rparr> (active s)\<rparr>;
            s2 = s1\<lparr>tasks := tasks s1 @ [t], accepted := accepted s1 @ [t]\<rparr>;
            s3 = s2\<lparr>pending_tasks := pending_tasks s2 + 1\<rparr>
        in (Some (length (tasks s3), num_workers s3), s3))"

definition scale_up :: "nat \<Rightarrow> nat \<Rightarrow> pool \<Rightarrow> pool" where
  "scale_up queue_size worker_count s =
     (if queue_size > worker_count \<and> worker_count < max_workers s then spawn_worker s else s)"

definition submit :: "int \<Rightarrow> string \<Rightarrow> bool \<Rightarrow> pool \<Rightarrow> u64 option \<times> pool" where
  "submit fd m cb s =
     (let (i, s1) = reserve s
      in case admit \<lparr>task_id = i, client_fd = fd, has_on_complete = cb\<rparr> m s1 of
           (None, s2) \<Rightarrow> (None, s2)
         | (Some (q, w), s2) \<Rightarrow> (Some i, scale_up q w s2))"

definition get_active :: "pool \<Rightarrow> (string \<times> nat) list" where
  "get_active s = map (\<lambda>(i, tr). (tr_method tr, (clock s - tr_start tr) div 1000000)) (active s)"

text \<open>The steps of worker \<open>k\<close>.\<close>

definition take_task :: "nat \<Rightarrow> pool \<Rightarrow> pool" where
  "take_task k s =
     (case tasks s of
        [] \<Rightarrow> if stopped s then s\<lparr>workers := (workers s)[k := Gone]\<rparr> else s
      | t # ts \<Rightarrow> s\<lparr>tasks := ts, pending_tasks := pending_tasks s - 1, active_tasks := active_tasks s + 1,
                   workers := (workers s)[k := Running t], started := started s @ [t]\<rparr>)"

definition error_response :: "string \<Rightarrow> json" where
  "error_response what =
     jobj [(''jsonrpc'', JStr ''2.0''),
           (''error'', jobj [(''code'', JInt (- 32603)), (''message'', JStr what)]), (''id'', JNull)]"

definition outcome :: "jlib \<Rightarrow> string + string \<Rightarrow> string" where
  "outcome lib out = (case out of Inl what \<Rightarrow> jdump lib (error_response what) | Inr r \<Rightarrow> r)"

definition run_task :: "jlib \<Rightarrow> nat \<Rightarrow> task \<Rightarrow> string + string \<Rightarrow> pool \<Rightarrow> pool" where
  "run_task lib k t out s =
     s\<lparr>workers := (workers s)[k := Computed t (outcome lib out)]\<rparr>"

definition unregister :: "nat \<Rightarrow> task \<Rightarrow> string \<Rightarrow> pool \<Rightarrow> pool" where
  "unregister k t r s =
     s\<lparr>active := AList.delete (task_id t) (active s), workers := (workers s)[k := Unregistered t r]\<rparr>"

definition uncount :: "nat \<Rightarrow> task \<Rightarrow> string \<Rightarrow> pool \<Rightarrow> pool" where
  "uncount k t r s = s\<lparr>active_tasks := active_tasks s - 1, workers := (workers s)[k := Delivering t r]\<rparr>"

definition deliver :: "nat \<Rightarrow> task \<Rightarrow> string \<Rightarrow> pool \<Rightarrow> pool" where
  "deliver k t r s =
     s\<lparr>calls := (if has_on_complete t then calls s @ [(client_fd t, r)] else calls s),
       finished := finished s @ [(t, r)], workers := (workers s)[k := Waiting]\<rparr>"

text \<open>One pass of the watchdog over the active requests.\<close>

fun watchdog_scan ::
  "bool \<Rightarrow> nat \<Rightarrow> nat \<Rightarrow> (u64 \<times> trace) list \<Rightarrow> u64 list \<times> (u64 \<times> string \<times> nat) list \<Rightarrow> u64 list \<times> (u64 \<times> string \<times> nat) list"
  where
  "watchdog_scan cb thr now [] acc = acc"
| "watchdog_scan cb thr now ((i, tr) # as) (esc, al) =
     (let secs = (now - tr_start tr) div 1000000000
      in if secs > thr \<and> cb then
           if i \<notin> set esc then watchdog_scan cb thr now as (List.insert i esc, al @ [(i, tr_method tr, secs)])
           else watchdog_scan cb thr now as (esc, al)
         else watchdog_scan cb thr now as (esc, al))"

definition watchdog_pass :: "pool \<Rightarrow> pool" where
  "watchdog_pass s =
     (let (esc, al) = watchdog_scan (callback_set s) (threshold s) (clock s) (active s) (escalated s, alarms s)
      in s\<lparr>escalated := filter (\<lambda>i. i \<in> fst ` set (active s)) esc, alarms := al\<rparr>)"

section \<open>Steps\<close>

text \<open>
  A client thread starts a submission only while the pool is alive, and the destructor runs
  only when no submission is under way, as the lifetime of the object demands.
\<close>

inductive pool_step :: "jlib \<Rightarrow> pool \<Rightarrow> pool \<Rightarrow> bool" for lib where
  tick: "clock s \<le> now \<Longrightarrow> pool_step lib s (s\<lparr>clock := now\<rparr>)"
| s_reserve: "\<not> stopped s \<Longrightarrow> c < length (clients s) \<Longrightarrow> clients s ! c = Outside \<Longrightarrow> next_id s \<noteq> - 1 \<Longrightarrow>
    reserve s = (i, s1) \<Longrightarrow>
    pool_step lib s
      (s1\<lparr>clients := (clients s1)[c := Reserved \<lparr>task_id = i, client_fd = fd, has_on_complete = cb\<rparr> m]\<rparr>)"
| s_reject: "c < length (clients s) \<Longrightarrow> clients s ! c = Reserved t m \<Longrightarrow> admit t m s = (None, s1) \<Longrightarrow>
    pool_step lib s (s1\<lparr>clients := (clients s1)[c := Outside]\<rparr>)"
| s_admit: "c < length (clients s) \<Longrightarrow> clients s ! c = Reserved t m \<Longrightarrow> admit t m s = (Some (q, w), s1) \<Longrightarrow>
    pool_step lib s (s1\<lparr>clients := (clients s1)[c := Growing q w]\<rparr>)"
| s_scale: "c < length (clients s) \<Longrightarrow> clients s ! c = Growing q w \<Longrightarrow> scale_up q w s = s1 \<Longrightarrow>
    pool_step lib s (s1\<lparr>clients := (clients s1)[c := Outside]\<rparr>)"
| w_take: "k < length (workers s) \<Longrightarrow> workers s ! k = Waiting \<Longrightarrow> stopped s \<or> tasks s \<noteq> [] \<Longrightarrow>
    pool_step lib s (take_task k s)"
| w_run: "k < length (workers s) \<Longrightarrow> workers s ! k = Running t \<Longrightarrow> pool_step lib s (run_task lib k t out s)"
| w_unregister: "k < length (workers s) \<Longrightarrow> workers s ! k = Computed t r \<Longrightarrow> pool_step lib s (unregister k t r s)"
| w_uncount: "k < length (workers s) \<Longrightarrow> workers s ! k = Unregistered t r \<Longrightarrow> pool_step lib s (uncount k t r s)"
| w_deliver: "k < length (workers s) \<Longrightarrow> workers s ! k = Delivering t r \<Longrightarrow> pool_step lib s (deliver k t r s)"
| watchdog: "\<not> stopped s \<Longrightarrow> pool_step lib s (watchdog_pass s)"
| configure: "\<not> stopped s \<Longrightarrow> pool_step lib s (s\<lparr>callback_set := b, threshold := n\<rparr>)"
| destroy: "\<not> stopped s \<Longrightarrow> set (clients s) \<subseteq> {Outside} \<Longrightarrow> pool_step lib s (s\<lparr>stopped := True\<rparr>)"

definition pool_init :: "pool \<Rightarrow> bool" where
  "pool_init s = (\<exists>a b d n t. s = pool_new a b d n t)"

section \<open>Invariants\<close>

fun held :: "worker \<Rightarrow> task list" where
  "held (Running t) = [t]" | "held (Computed t r) = [t]" | "held (Unregistered t r) = [t]"
| "held (Delivering t r) = [t]" | "held w = []"

fun registered :: "worker \<Rightarrow> task list" where
  "registered (Running t) = [t]" | "registered (Computed t r) = [t]" | "registered w = []"

fun counted :: "worker \<Rightarrow> bool" where
  "counted (Running t) = True" | "counted (Computed t r) = True" | "counted (Unregistered t r) = True"
| "counted w = False"

fun reserved :: "client \<Rightarrow> task list" where
  "reserved (Reserved t m) = [t]" | "reserved c = []"

definition in_flight :: "pool \<Rightarrow> task multiset" where
  "in_flight s = mset (concat (map held (workers s)))"

definition ids :: "pool \<Rightarrow> u64 list" where
  "ids s = map task_id (accepted s @ concat (map reserved (clients s)))"

definition inv_counters :: "pool \<Rightarrow> bool" where
  "inv_counters s =
     (length (tasks s) \<le> max_queue_depth s \<and> pending_tasks s = int (length (tasks s))
      \<and> num_workers s = length (workers s) \<and> length (workers s) \<le> max_workers s
      \<and> active_tasks s = int (length (filter counted (workers s))))"

definition inv_history :: "pool \<Rightarrow> bool" where
  "inv_history s =
     (accepted s = started s @ tasks s
      \<and> mset (started s) = in_flight s + mset (map fst (finished s))
      \<and> calls s = map (\<lambda>(t, r). (client_fd t, r)) (filter (\<lambda>(t, r). has_on_complete t) (finished s)))"

definition inv_ids :: "pool \<Rightarrow> bool" where
  "inv_ids s = (distinct (ids s) \<and> (\<forall>i \<in> set (ids s). i < next_id s))"

definition inv_active :: "pool \<Rightarrow> bool" where
  "inv_active s =
     (mset (map fst (active s)) = mset (map task_id (tasks s @ concat (map registered (workers s)))))"

definition inv_stop :: "pool \<Rightarrow> bool" where
  "inv_stop s = ((Gone \<in> set (workers s) \<longrightarrow> stopped s \<and> tasks s = []) \<and> (stopped s \<longrightarrow> set (clients s) \<subseteq> {Outside}))"

lemmas pool_ops = reserve_def admit_def scale_up_def spawn_worker_def take_task_def run_task_def
  unregister_def uncount_def deliver_def watchdog_pass_def Let_def

lemmas pool_splits = if_splits list.splits prod.splits

lemma inv_counters_step: "pool_step lib s t \<Longrightarrow> inv_counters s \<Longrightarrow> inv_counters t"
proof (induction rule: pool_step.induct)
  case (w_take k s)
  then show ?case
  proof (cases "tasks s")
    case Nil
    then show ?thesis using w_take filter_length_update [of k "workers s" counted "Gone"] by (auto simp: inv_counters_def pool_ops)
  next
    case (Cons t ts)
    then show ?thesis using w_take filter_length_update [of k "workers s" counted "Running t"] by (auto simp: inv_counters_def pool_ops)
  qed
next
  case (w_run k s t out)
  then show ?case using filter_length_update [of k "workers s" counted "Computed t (outcome lib out)"] by (auto simp: inv_counters_def pool_ops)
next
  case (w_unregister k s t r)
  then show ?case using filter_length_update [of k "workers s" counted "Unregistered t r"] by (auto simp: inv_counters_def pool_ops)
next
  case (w_uncount k s t r)
  then show ?case using filter_length_update [of k "workers s" counted "Delivering t r"] by (auto simp: inv_counters_def pool_ops)
next
  case (w_deliver k s t r)
  then show ?case using filter_length_update [of k "workers s" counted "Waiting"] by (auto simp: inv_counters_def pool_ops)
qed (auto simp: inv_counters_def pool_ops split: pool_splits)

lemma inv_history_step: "pool_step lib s t \<Longrightarrow> inv_history s \<Longrightarrow> inv_history t"
proof (induction rule: pool_step.induct)
  case (w_take k s)
  then show ?case
  proof (cases "tasks s")
    case Nil
    then show ?thesis using w_take mset_concat_update [of k "workers s" held "Gone"] by (auto simp: inv_history_def in_flight_def pool_ops)
  next
    case (Cons t ts)
    then show ?thesis using w_take mset_concat_update [of k "workers s" held "Running t"] by (auto simp: inv_history_def in_flight_def pool_ops)
  qed
next
  case (w_run k s t out)
  then show ?case using mset_concat_update [of k "workers s" held "Computed t (outcome lib out)"] by (auto simp: inv_history_def in_flight_def pool_ops)
next
  case (w_unregister k s t r)
  then show ?case using mset_concat_update [of k "workers s" held "Unregistered t r"] by (auto simp: inv_history_def in_flight_def pool_ops)
next
  case (w_uncount k s t r)
  then show ?case using mset_concat_update [of k "workers s" held "Delivering t r"] by (auto simp: inv_history_def in_flight_def pool_ops)
next
  case (w_deliver k s t r)
  then show ?case using mset_concat_update [of k "workers s" held "Waiting"] by (auto simp: inv_history_def in_flight_def pool_ops)
qed (auto simp: inv_history_def pool_ops in_flight_def split: pool_splits)

lemma ids_reserve:
  assumes "c < length (clients s)" "clients s ! c = Outside"
  shows "mset (ids (s\<lparr>next_id := n, clients := (clients s)[c := Reserved t m]\<rparr>)) = mset (task_id t # ids s)"
  using mset_concat_update [OF assms(1), of reserved "Reserved t m"] assms(2) by (simp add: ids_def)

lemma ids_client:
  assumes "c < length (clients s)"
  shows "mset (ids (t\<lparr>clients := (clients s)[c := x]\<rparr>)) + image_mset task_id (mset (reserved (clients s ! c))) =
         image_mset task_id (mset (accepted t)) + image_mset task_id (mset (concat (map reserved (clients s))))
         + image_mset task_id (mset (reserved x))"
  using arg_cong [OF mset_concat_update [OF assms, of reserved x], of "image_mset task_id"] by (simp add: ids_def)

lemma inv_ids_mset:
  assumes "mset (ids t) = mset (ids s)" "next_id t = next_id s"
  shows "inv_ids t = inv_ids s"
  using assms mset_eq_imp_distinct_iff [OF assms(1)] mset_eq_setD [OF assms(1)] by (simp add: inv_ids_def)

lemma word_less_succ:
  fixes w :: u64
  assumes "w \<noteq> - 1"
  shows "w < w + 1"
proof -
  have "1 + w \<noteq> 0" using assms max_word_wrap [of w] by (auto simp: add.commute)
  then have "unat (w + 1) = Suc (unat w)" using unatSuc [of w] by (simp add: add.commute)
  then show ?thesis by (simp add: word_less_nat_alt)
qed

lemma inv_ids_step: "pool_step lib s t \<Longrightarrow> inv_ids s \<Longrightarrow> inv_ids t"
proof (induction rule: pool_step.induct)
  case (s_reserve s c i s1 fd cb m)
  let ?t = "\<lparr>task_id = i, client_fd = fd, has_on_complete = cb\<rparr>"
  let ?u = "s1\<lparr>clients := (clients s1)[c := Reserved ?t m]\<rparr>"
  have s1: "i = next_id s" "s1 = s\<lparr>next_id := next_id s + 1\<rparr>" using s_reserve.hyps by (auto simp: reserve_def)
  have m: "mset (ids ?u) = mset (i # ids s)"
    using ids_client [where s = s and t = s1 and c = c and x = "Reserved ?t m"] s_reserve.hyps by (simp add: s1 ids_def)
  have lt: "i < i + 1" using s_reserve.hyps(4) s1(1) word_less_succ by blast
  have "distinct (i # ids s)" using s_reserve.prems by (auto simp: inv_ids_def s1)
  then have "distinct (ids ?u)" using mset_eq_imp_distinct_iff [OF m] by simp
  moreover have "j < next_id ?u" if "j \<in> set (ids ?u)" for j
    using that mset_eq_setD [OF m] s_reserve.prems lt by (auto simp: inv_ids_def s1 intro: order.strict_trans)
  ultimately show ?case by (simp add: inv_ids_def)
next
  case (s_reject c s t m s1)
  let ?u = "s\<lparr>clients := (clients s)[c := Outside]\<rparr>"
  have s1: "s1 = s" using s_reject.hyps(3) by (auto simp: admit_def Let_def split: if_splits)
  have m: "mset (task_id t # ids ?u) = mset (ids s)"
    using ids_client [where s = s and t = s and c = c and x = Outside] s_reject.hyps(1,2) by (simp add: ids_def)
  then have "distinct (task_id t # ids ?u)" using mset_eq_imp_distinct_iff [OF m] s_reject.prems by (simp add: inv_ids_def)
  then show ?case using mset_eq_setD [OF m] s_reject.prems by (auto simp: inv_ids_def s1)
next
  case (s_admit c s t m q w s1)
  let ?u = "s1\<lparr>clients := (clients s1)[c := Growing q w]\<rparr>"
  have s1: "clients s1 = clients s" "next_id s1 = next_id s" "accepted s1 = accepted s @ [t]"
    using s_admit.hyps(3) by (auto simp: admit_def Let_def split: if_splits)
  have "mset (ids ?u) = mset (ids s)"
    using ids_client [where s = s and t = s1 and c = c and x = "Growing q w"] s_admit.hyps(1,2) by (simp add: s1 ids_def)
  then show ?case using inv_ids_mset [of ?u s] s_admit.prems s1 by simp
next
  case (s_scale c s q w s1)
  let ?u = "s1\<lparr>clients := (clients s1)[c := Outside]\<rparr>"
  have s1: "clients s1 = clients s" "next_id s1 = next_id s" "accepted s1 = accepted s"
    using s_scale.hyps(3) by (auto simp: scale_up_def spawn_worker_def split: if_splits)
  have "mset (ids ?u) = mset (ids s)"
    using ids_client [where s = s and t = s1 and c = c and x = Outside] s_scale.hyps(1,2) by (simp add: s1 ids_def)
  then show ?case using inv_ids_mset [of ?u s] s_scale.prems s1 by simp
qed (auto simp: inv_ids_def ids_def pool_ops split: pool_splits)

lemma active_ids:
  assumes "inv_ids s" "inv_history s" "inv_active s"
  shows "distinct (map fst (active s))" "fst ` set (active s) \<subseteq> task_id ` set (accepted s)"
proof -
  have "mset (registered w) \<subseteq># mset (held w)" for w by (cases w) auto
  then have "mset (concat (map registered (workers s))) \<subseteq># in_flight s"
    unfolding in_flight_def by (rule concat_map_subset_mset)
  also have "\<dots> \<subseteq># mset (started s)" using assms(2) by (simp add: inv_history_def)
  finally have "mset (tasks s @ concat (map registered (workers s))) \<subseteq># mset (accepted s)"
    using assms(2) by (simp add: inv_history_def)
  then have sub: "mset (map fst (active s)) \<subseteq># mset (map task_id (accepted s))"
    using assms(3) by (simp only: inv_active_def mset_map image_mset_subseteq_mono)
  have "distinct (map task_id (accepted s))" using assms(1) by (simp add: inv_ids_def ids_def)
  with sub show "distinct (map fst (active s))" by (rule distinct_subset_mset)
  show "fst ` set (active s) \<subseteq> task_id ` set (accepted s)"
    using set_mset_mono [OF sub] by simp
qed

lemma keys_update_fresh: "k \<notin> fst ` set al \<Longrightarrow> image_mset fst (mset (AList.update k v al)) = add_mset k (image_mset fst (mset al))"
  by (induction al) auto

lemma keys_delete: "distinct (map fst al) \<Longrightarrow> image_mset fst (mset (AList.delete k al)) = image_mset fst (mset al) - {#k#}"
  by (induction al) (auto simp: AList.delete_eq filter_id_conv image_iff diff_single_trivial)

lemma task_fresh:
  assumes "inv_ids s" "c < length (clients s)" "clients s ! c = Reserved t m"
  shows "task_id t \<notin> task_id ` set (accepted s)"
proof -
  have "Reserved t m \<in> set (clients s)" using assms(2,3) nth_mem by metis
  then have "t \<in> set (concat (map reserved (clients s)))" by force
  then show ?thesis using assms(1) by (force simp: inv_ids_def ids_def)
qed

lemma inv_active_step:
  "pool_step lib s u \<Longrightarrow> inv_ids s \<Longrightarrow> inv_history s \<Longrightarrow> inv_active s \<Longrightarrow> inv_active u"
proof (induction rule: pool_step.induct)
  case (s_admit c s t m q w s1)
  have "task_id t \<notin> fst ` set (active s)"
    using task_fresh [OF s_admit.prems(1) s_admit.hyps(1,2)] active_ids(2) [OF s_admit.prems] by blast
  then show ?case using s_admit.hyps(3) s_admit.prems(3)
    by (auto simp: inv_active_def admit_def Let_def keys_update_fresh split: if_splits)
next
  case (w_take k s)
  then show ?case
  proof (cases "tasks s")
    case Nil
    then show ?thesis using w_take mset_concat_update [of k "workers s" registered Gone]
      by (simp add: inv_active_def pool_ops)
  next
    case (Cons t ts)
    then show ?thesis using w_take mset_concat_update [of k "workers s" registered "Running t"]
      by (simp add: inv_active_def pool_ops)
  qed
next
  case (w_run k s t out)
  then show ?case using mset_concat_update [of k "workers s" registered "Computed t (outcome lib out)"]
    by (simp add: inv_active_def pool_ops)
next
  case (w_unregister k s t r)
  have "mset (concat (map registered (workers s))) = add_mset t (mset (concat (map registered ((workers s)[k := Unregistered t r]))))"
    using mset_concat_update [of k "workers s" registered "Unregistered t r"] w_unregister.hyps by simp
  then show ?case using w_unregister.prems(3) active_ids(1) [OF w_unregister.prems]
    by (simp add: inv_active_def pool_ops keys_delete)
next
  case (w_uncount k s t r)
  then show ?case using mset_concat_update [of k "workers s" registered "Delivering t r"]
    by (simp add: inv_active_def pool_ops)
next
  case (w_deliver k s t r)
  then show ?case using mset_concat_update [of k "workers s" registered Waiting]
    by (simp add: inv_active_def pool_ops)
qed (auto simp: inv_active_def pool_ops split: pool_splits)

lemma inv_stop_step: "pool_step lib s t \<Longrightarrow> inv_stop s \<Longrightarrow> inv_stop t"
proof (induction rule: pool_step.induct)
  case (w_take k s)
  then show ?case by (auto simp: inv_stop_def pool_ops split: list.splits dest!: set_update_subset_insert [THEN subsetD])
next
  case (s_reserve s c i s1 fd cb m)
  then show ?case by (auto simp: inv_stop_def pool_ops)
next
  case (s_admit c s t m q w s1)
  then have "\<not> stopped s" using nth_mem by (fastforce simp: inv_stop_def)
  with s_admit show ?case by (auto simp: inv_stop_def pool_ops split: if_splits)
next
  case (s_reject c s t m s1)
  then show ?case by (auto simp: inv_stop_def pool_ops split: if_splits dest!: set_update_subset_insert [THEN subsetD])
next
  case (s_scale c s q w s1)
  then have "\<not> stopped s" using nth_mem by (fastforce simp: inv_stop_def)
  with s_scale show ?case by (auto simp: inv_stop_def pool_ops split: if_splits)
qed (auto simp: inv_stop_def pool_ops split: pool_splits dest!: set_update_subset_insert [THEN subsetD])

text \<open>The watchdog: an active request it has raised an alarm for is in the escalated set.\<close>

definition inv_alarms :: "pool \<Rightarrow> bool" where
  "inv_alarms s =
     (distinct (map fst (alarms s)) \<and> fst ` set (alarms s) \<subseteq> task_id ` set (accepted s)
      \<and> (\<forall>i \<in> fst ` set (alarms s). i \<in> fst ` set (active s) \<longrightarrow> i \<in> set (escalated s)))"

lemma watchdog_scan_new:
  assumes "watchdog_scan cb thr now as (esc, al) = (esc', al')"
  shows "\<exists>new. al' = al @ new \<and> distinct (map fst new) \<and> fst ` set new \<subseteq> fst ` set as
           \<and> fst ` set new \<inter> set esc = {} \<and> set esc' = set esc \<union> fst ` set new"
  using assms
proof (induction "as" arbitrary: esc al)
  case Nil
  then show ?case by simp
next
  case (Cons a as)
  obtain i tr where a: "a = (i, tr)" by force
  let ?secs = "(now - tr_start tr) div 1000000000"
  show ?case
  proof (cases "?secs > thr \<and> cb \<and> i \<notin> set esc")
    case True
    with Cons.prems have "watchdog_scan cb thr now as (List.insert i esc, al @ [(i, tr_method tr, ?secs)]) = (esc', al')"
      by (simp add: a Let_def)
    from Cons.IH [OF this] obtain new where
      "al' = (al @ [(i, tr_method tr, ?secs)]) @ new" "distinct (map fst new)" "fst ` set new \<subseteq> fst ` set as"
      "fst ` set new \<inter> set (List.insert i esc) = {}" "set esc' = set (List.insert i esc) \<union> fst ` set new" by blast
    with True show ?thesis by (intro exI [of _ "(i, tr_method tr, ?secs) # new"]) (auto simp: a)
  next
    case False
    with Cons.prems have "watchdog_scan cb thr now as (esc, al) = (esc', al')"
      by (auto simp: a Let_def split: if_splits)
    from Cons.IH [OF this] show ?thesis by auto
  qed
qed

lemma keys_delete_subset: "fst ` set (AList.delete k al) = fst ` set al - {k}"
  by (auto simp: AList.delete_eq image_iff)

lemma keys_update: "fst ` set (AList.update k v al) = insert k (fst ` set al)"
  by (induction al) auto

lemma inv_alarms_step:
  "pool_step lib s u \<Longrightarrow> inv_ids s \<Longrightarrow> inv_history s \<Longrightarrow> inv_active s \<Longrightarrow> inv_alarms s \<Longrightarrow> inv_alarms u"
proof (induction rule: pool_step.induct)
  case (s_admit c s t m q w s1)
  have f: "task_id t \<notin> fst ` set (alarms s)"
    using task_fresh [OF s_admit.prems(1) s_admit.hyps(1,2)] s_admit.prems(4) by (auto simp: inv_alarms_def)
  have e: "alarms s1 = alarms s" "escalated s1 = escalated s" "accepted s1 = accepted s @ [t]"
    "active s1 = AList.update (task_id t) \<lparr>tr_method = m, tr_start = clock s\<rparr> (active s)"
    using s_admit.hyps(3) by (auto simp: admit_def Let_def split: if_splits)
  have k: "fst ` set (active s1) = insert (task_id t) (fst ` set (active s))" by (simp only: e keys_update)
  have "\<forall>i \<in> fst ` set (alarms s). i \<in> fst ` set (active s1) \<longrightarrow> i \<in> set (escalated s)"
    using s_admit.prems(4) f unfolding inv_alarms_def k by (simp add: image_iff) metis
  then show ?case using s_admit.prems(4) e(1-3) by (auto simp: inv_alarms_def)
next
  case (w_unregister k s t r)
  then show ?case by (auto simp: inv_alarms_def unregister_def keys_delete_subset)
next
  case (watchdog s)
  obtain esc al where w: "watchdog_scan (callback_set s) (threshold s) (clock s) (active s) (escalated s, alarms s) = (esc, al)"
    by force
  from watchdog_scan_new [OF this] obtain new where new: "al = alarms s @ new" "distinct (map fst new)"
    "fst ` set new \<subseteq> fst ` set (active s)" "fst ` set new \<inter> set (escalated s) = {}"
    "set esc = set (escalated s) \<union> fst ` set new" by blast
  have "fst ` set (alarms s) \<inter> fst ` set new = {}"
    using new(3,4) watchdog.prems(4) unfolding inv_alarms_def by blast
  moreover have "fst ` set new \<subseteq> task_id ` set (accepted s)"
    using new(3) active_ids(2) [OF watchdog.prems(1-3)] by blast
  moreover have "\<forall>i \<in> fst ` set al. i \<in> fst ` set (active s) \<longrightarrow> i \<in> set esc"
    using new(1,5) watchdog.prems(4) unfolding inv_alarms_def by (simp only: set_append image_Un) blast
  ultimately show ?case using new(1,2) watchdog.prems(4)
    by (simp add: inv_alarms_def watchdog_pass_def w image_Un)
next
  case (s_scale c s q w s1)
  have "alarms s1 = alarms s" "accepted s1 = accepted s" "active s1 = active s" "escalated s1 = escalated s"
    using s_scale.hyps(3) by (auto simp: scale_up_def spawn_worker_def split: if_splits)
  then show ?case using s_scale.prems(4) by (simp add: inv_alarms_def)
qed (auto simp: inv_alarms_def pool_ops split: pool_splits)

definition pool_inv :: "pool \<Rightarrow> bool" where
  "pool_inv s = (inv_counters s \<and> inv_history s \<and> inv_ids s \<and> inv_active s \<and> inv_stop s \<and> inv_alarms s)"

lemma pool_inv_step: "pool_inv s \<Longrightarrow> pool_step lib s t \<Longrightarrow> pool_inv t"
  using inv_counters_step inv_history_step inv_ids_step inv_active_step inv_stop_step inv_alarms_step
  unfolding pool_inv_def by blast

section \<open>The abstract dispatcher\<close>

text \<open>
  What the pool promises: a bounded first-in first-out queue of tasks, a multiset of tasks
  being worked on, and the list of completed tasks with their results.
\<close>

record dispatcher =
  d_depth :: nat
  d_queue :: "task list"
  d_busy :: "task multiset"
  d_done :: "(task \<times> string) list"

inductive disp_step :: "dispatcher \<Rightarrow> dispatcher \<Rightarrow> bool" where
  accept: "length (d_queue a) < d_depth a \<Longrightarrow> disp_step a (a\<lparr>d_queue := d_queue a @ [t]\<rparr>)"
| start: "d_queue a = t # q \<Longrightarrow> disp_step a (a\<lparr>d_queue := q, d_busy := add_mset t (d_busy a)\<rparr>)"
| complete: "t \<in># d_busy a \<Longrightarrow> disp_step a (a\<lparr>d_busy := d_busy a - {#t#}, d_done := d_done a @ [(t, r)]\<rparr>)"

definition disp_init :: "dispatcher \<Rightarrow> bool" where
  "disp_init a = (d_queue a = [] \<and> d_busy a = {#} \<and> d_done a = [])"

definition dispatcher_of :: "pool \<Rightarrow> dispatcher" where
  "dispatcher_of s = \<lparr>d_depth = max_queue_depth s, d_queue = tasks s, d_busy = in_flight s, d_done = finished s\<rparr>"

lemma disp_acceptI: "length (tasks s) < max_queue_depth s \<Longrightarrow> tasks t = tasks s @ [x] \<Longrightarrow> workers t = workers s \<Longrightarrow>
   finished t = finished s \<Longrightarrow> max_queue_depth t = max_queue_depth s \<Longrightarrow> disp_step (dispatcher_of s) (dispatcher_of t)"
  using disp_step.accept [of "dispatcher_of s" x] by (simp add: dispatcher_of_def in_flight_def)

lemma disp_startI: "tasks s = x # tasks t \<Longrightarrow> in_flight t = add_mset x (in_flight s) \<Longrightarrow>
   finished t = finished s \<Longrightarrow> max_queue_depth t = max_queue_depth s \<Longrightarrow> disp_step (dispatcher_of s) (dispatcher_of t)"
  using disp_step.start [of "dispatcher_of s" x "tasks t"] by (simp add: dispatcher_of_def)

lemma disp_completeI: "in_flight s = add_mset x (in_flight t) \<Longrightarrow> tasks t = tasks s \<Longrightarrow>
   finished t = finished s @ [(x, r)] \<Longrightarrow> max_queue_depth t = max_queue_depth s \<Longrightarrow> disp_step (dispatcher_of s) (dispatcher_of t)"
  using disp_step.complete [of x "dispatcher_of s" r] by (simp add: dispatcher_of_def)

lemma dispatcher_cong: "in_flight t = in_flight s \<Longrightarrow> tasks t = tasks s \<Longrightarrow> finished t = finished s \<Longrightarrow>
   max_queue_depth t = max_queue_depth s \<Longrightarrow> dispatcher_of t = dispatcher_of s"
  by (simp add: dispatcher_of_def)

lemma pool_simulates:
  "pool_step lib s t \<Longrightarrow> dispatcher_of t = dispatcher_of s \<or> disp_step (dispatcher_of s) (dispatcher_of t)"
proof (induction rule: pool_step.induct)
  case (s_admit c s t m q w s1)
  then show ?case
    by (intro disjI2 disp_acceptI [of s _ t]) (auto simp: admit_def Let_def split: if_splits)
next
  case (s_scale c s q w s1)
  then show ?case by (intro disjI1 dispatcher_cong) (auto simp: pool_ops in_flight_def split: if_splits)
next
  case (w_take k s)
  then show ?case
  proof (cases "tasks s")
    case Nil
    then show ?thesis using w_take mset_concat_update [of k "workers s" held Gone]
      by (intro disjI1 dispatcher_cong) (auto simp: pool_ops in_flight_def)
  next
    case (Cons t ts)
    then show ?thesis using w_take mset_concat_update [of k "workers s" held "Running t"]
      by (intro disjI2 disp_startI [of s t]) (auto simp: pool_ops in_flight_def)
  qed
next
  case (w_run k s t out)
  then show ?case using mset_concat_update [of k "workers s" held "Computed t (outcome lib out)"]
    by (intro disjI1 dispatcher_cong) (auto simp: pool_ops in_flight_def)
next
  case (w_unregister k s t r)
  then show ?case using mset_concat_update [of k "workers s" held "Unregistered t r"]
    by (intro disjI1 dispatcher_cong) (auto simp: pool_ops in_flight_def)
next
  case (w_uncount k s t r)
  then show ?case using mset_concat_update [of k "workers s" held "Delivering t r"]
    by (intro disjI1 dispatcher_cong) (auto simp: pool_ops in_flight_def)
next
  case (w_deliver k s t r)
  then show ?case using mset_concat_update [of k "workers s" held Waiting]
    by (intro disjI2 disp_completeI [of s t _ r]) (auto simp: pool_ops in_flight_def)
qed (auto simp: dispatcher_of_def in_flight_def pool_ops split: pool_splits)

section \<open>The pool at the start\<close>

definition pool_fresh :: "pool \<Rightarrow> bool" where
  "pool_fresh s =
     (tasks s = [] \<and> active s = [] \<and> pending_tasks s = 0 \<and> active_tasks s = 0 \<and> \<not> stopped s
      \<and> set (workers s) \<subseteq> {Waiting} \<and> num_workers s = length (workers s) \<and> length (workers s) \<le> max_workers s
      \<and> set (clients s) \<subseteq> {Outside} \<and> accepted s = [] \<and> started s = [] \<and> finished s = [] \<and> calls s = [] \<and> alarms s = [])"

lemma pool_new_fresh: "pool_fresh (pool_new a b d n t)"
proof -
  have step: "pool_fresh s \<Longrightarrow> pool_fresh (spawn_worker s)" for s
    by (auto simp: pool_fresh_def spawn_worker_def)
  have "pool_fresh s \<Longrightarrow> pool_fresh ((spawn_worker ^^ k) s)" for s k
    by (induction k) (auto intro: step)
  then show ?thesis unfolding pool_new_def by (rule meta_mp) (auto simp: pool_fresh_def)
qed

lemma concat_map_nil: "\<forall>x \<in> set xs. f x = [] \<Longrightarrow> concat (map f xs) = []"
  by simp

lemma fresh_inv:
  assumes "pool_fresh s"
  shows "pool_inv s" "disp_init (dispatcher_of s)"
proof -
  have "\<forall>w \<in> set (workers s). w = Waiting" "\<forall>c \<in> set (clients s). c = Outside"
    using assms by (auto simp: pool_fresh_def)
  then have z: "concat (map held (workers s)) = []" "concat (map registered (workers s)) = []"
    "filter counted (workers s) = []" "concat (map reserved (clients s)) = []" "Gone \<notin> set (workers s)"
    by (auto simp: filter_empty_conv)
  show "pool_inv s" using assms
    unfolding pool_inv_def pool_fresh_def inv_counters_def inv_history_def inv_ids_def inv_active_def
      inv_stop_def inv_alarms_def in_flight_def ids_def z(1-4) by (simp add: z(5))
  show "disp_init (dispatcher_of s)" using assms z
    by (simp add: disp_init_def dispatcher_of_def pool_fresh_def in_flight_def)
qed

interpretation tp: simulation pool_init "pool_step lib" pool_inv disp_init disp_step dispatcher_of
  by unfold_locales
    (use pool_new_fresh fresh_inv pool_inv_step pool_simulates in \<open>auto simp: pool_init_def\<close>)

section \<open>Draining\<close>

text \<open>A step that does more than let time pass.\<close>

definition work_step :: "jlib \<Rightarrow> pool \<Rightarrow> pool \<Rightarrow> bool" where
  "work_step lib s t = (pool_step lib s t \<and> t \<noteq> s\<lparr>clock := clock t\<rparr>)"

fun work_left :: "worker \<Rightarrow> nat" where
  "work_left Gone = 0" | "work_left Waiting = 1" | "work_left (Delivering t r) = 2"
| "work_left (Unregistered t r) = 3" | "work_left (Computed t r) = 4" | "work_left (Running t) = 5"

definition drain_bound :: "pool \<Rightarrow> nat" where
  "drain_bound s = 6 * length (tasks s) + sum_list (map work_left (workers s))"

definition draining :: "pool \<Rightarrow> bool" where
  "draining s = (pool_inv s \<and> stopped s)"

lemma draining_outside: "draining s \<Longrightarrow> c < length (clients s) \<Longrightarrow> clients s ! c = Outside"
  using nth_mem by (fastforce simp: draining_def pool_inv_def inv_stop_def)

lemma draining_step: "pool_step lib s t \<Longrightarrow> draining s \<Longrightarrow> stopped t"
  by (induction rule: pool_step.induct) (auto simp: draining_def pool_ops split: pool_splits)

lemma drain_decreases:
  "pool_step lib s t \<Longrightarrow> draining s \<Longrightarrow> t \<noteq> s\<lparr>clock := clock t\<rparr> \<Longrightarrow> drain_bound t < drain_bound s"
proof (induction rule: pool_step.induct)
  case (w_take k s)
  then show ?case
  proof (cases "tasks s")
    case Nil
    then show ?thesis using w_take sum_list_update_nat [of k "workers s" work_left Gone]
      by (simp add: drain_bound_def pool_ops draining_def)
  next
    case (Cons t ts)
    then show ?thesis using w_take sum_list_update_nat [of k "workers s" work_left "Running t"]
      by (simp add: drain_bound_def pool_ops)
  qed
next
  case (w_run k s t out)
  then show ?case using sum_list_update_nat [of k "workers s" work_left "Computed t (outcome lib out)"]
    by (simp add: drain_bound_def pool_ops)
next
  case (w_unregister k s t r)
  then show ?case using sum_list_update_nat [of k "workers s" work_left "Unregistered t r"]
    by (simp add: drain_bound_def pool_ops)
next
  case (w_uncount k s t r)
  then show ?case using sum_list_update_nat [of k "workers s" work_left "Delivering t r"]
    by (simp add: drain_bound_def pool_ops)
next
  case (w_deliver k s t r)
  then show ?case using sum_list_update_nat [of k "workers s" work_left Waiting]
    by (simp add: drain_bound_def pool_ops)
qed (auto simp: draining_def draining_outside dest: draining_outside)

interpretation drain: decreasing "work_step lib" draining drain_bound
proof
  fix lib s t
  assume "draining s" "work_step lib s t"
  then show "draining t" "drain_bound t < drain_bound s"
    using pool_inv_step draining_step drain_decreases by (auto simp: work_step_def draining_def)
qed

lemma work_stepI: "pool_step lib s t \<Longrightarrow> workers t ! k \<noteq> workers s ! k \<Longrightarrow> work_step lib s t"
  unfolding work_step_def by (metis pool.select_convs(10) pool.surjective pool.update_convs(15))

lemma worker_can_move:
  assumes "draining s" "k < length (workers s)" "workers s ! k \<noteq> Gone"
  shows "\<exists>t. work_step lib s t"
proof (cases "workers s ! k")
  case Waiting
  then have "pool_step lib s (take_task k s)" using assms by (intro w_take) (auto simp: draining_def)
  moreover have "workers (take_task k s) ! k \<noteq> workers s ! k"
    using assms Waiting by (auto simp: draining_def take_task_def split: list.splits)
  ultimately show ?thesis using work_stepI by blast
next
  case (Running t)
  then have "pool_step lib s (run_task lib k t (Inr []) s)" using assms by (intro w_run)
  then show ?thesis using work_stepI [of lib s _ k] assms Running by (fastforce simp: run_task_def)
next
  case (Computed t r)
  then have "pool_step lib s (unregister k t r s)" using assms by (intro w_unregister)
  then show ?thesis using work_stepI [of lib s _ k] assms Computed by (fastforce simp: unregister_def)
next
  case (Unregistered t r)
  then have "pool_step lib s (uncount k t r s)" using assms by (intro w_uncount)
  then show ?thesis using work_stepI [of lib s _ k] assms Unregistered by (fastforce simp: uncount_def)
next
  case (Delivering t r)
  then have "pool_step lib s (deliver k t r s)" using assms by (intro w_deliver)
  then show ?thesis using work_stepI [of lib s _ k] assms Delivering by (fastforce simp: deliver_def)
qed (use assms in simp)

lemma drained:
  assumes "draining s" "workers s \<noteq> []" "\<nexists>t. work_step lib s t"
  shows "set (workers s) = {Gone} \<and> tasks s = [] \<and> mset (map fst (finished s)) = mset (accepted s)"
proof -
  have g: "\<forall>w \<in> set (workers s). w = Gone"
    using worker_can_move [OF assms(1)] assms(3) by (metis in_set_conv_nth)
  with assms(2) have G: "set (workers s) = {Gone}" by (auto simp: neq_Nil_conv)
  with assms(1) have "tasks s = []" by (auto simp: draining_def pool_inv_def inv_stop_def)
  moreover have "in_flight s = {#}" using g by (auto simp: in_flight_def)
  ultimately show ?thesis using assms(1) G by (auto simp: draining_def pool_inv_def inv_history_def)
qed

lemma work_keeps:
  "work_step lib s t \<Longrightarrow> draining s \<Longrightarrow> accepted t = accepted s \<and> length (workers t) = length (workers s)"
proof -
  assume "work_step lib s t" "draining s"
  then have "pool_step lib s t" "draining s" by (auto simp: work_step_def)
  then show ?thesis
  proof (induction rule: pool_step.induct)
    case (s_admit c s t m q w s1)
    then show ?case using draining_outside by fastforce
  next
    case (s_scale c s q w s1)
    then show ?case using draining_outside by fastforce
  qed (auto simp: draining_def pool_ops split: pool_splits)
qed

lemma drain_keeps: "(work_step lib)\<^sup>*\<^sup>* s t \<Longrightarrow> draining s \<Longrightarrow>
   draining t \<and> accepted t = accepted s \<and> length (workers t) = length (workers s)"
  by (induction rule: rtranclp_induct) (use drain.d_inv_step work_keeps in fastforce)+

text \<open>A submission that is not disturbed is a run of steps.\<close>

lemma submit_steps:
  assumes "\<not> stopped s" "c < length (clients s)" "clients s ! c = Outside" "next_id s \<noteq> - 1"
  shows "(pool_step lib)\<^sup>*\<^sup>* s (snd (submit fd m cb s))"
proof -
  let ?t = "\<lparr>task_id = next_id s, client_fd = fd, has_on_complete = cb\<rparr>"
  let ?s1 = "s\<lparr>next_id := next_id s + 1\<rparr>"
  let ?s2 = "?s1\<lparr>clients := (clients s)[c := Reserved ?t m]\<rparr>"
  have cl: "(clients s)[c := Outside] = clients s" using assms(3) by (metis list_update_id)
  have r: "pool_step lib s ?s2"
    using s_reserve [where s = s and c = c and i = "next_id s" and ?s1.0 = ?s1] assms by (simp add: reserve_def)
  show ?thesis
  proof (cases "length (tasks s) \<ge> max_queue_depth s")
    case True
    then have "pool_step lib ?s2 (?s2\<lparr>clients := (clients ?s2)[c := Outside]\<rparr>)"
      using assms by (intro s_reject) (auto simp: admit_def)
    with r show ?thesis using True
      by (simp add: submit_def reserve_def admit_def cl)
  next
    case False
    define q where "q = Suc (length (tasks s))"
    define w where "w = num_workers s"
    define s3 where "s3 = snd (admit ?t m ?s2)"
    have a: "admit ?t m ?s2 = (Some (q, w), s3)" using False by (simp add: admit_def Let_def q_def w_def s3_def)
    have c3: "clients s3 = clients ?s2" using False by (simp add: s3_def admit_def Let_def)
    let ?s4 = "s3\<lparr>clients := (clients s3)[c := Growing q w]\<rparr>"
    have s4: "pool_step lib ?s2 ?s4" using assms a by (intro s_admit) auto
    have s5: "pool_step lib ?s4 ((scale_up q w ?s4)\<lparr>clients := (clients (scale_up q w ?s4))[c := Outside]\<rparr>)"
      using assms c3 by (intro s_scale) auto
    have "snd (submit fd m cb s) = (scale_up q w ?s4)\<lparr>clients := (clients (scale_up q w ?s4))[c := Outside]\<rparr>"
      using False by (simp add: submit_def reserve_def admit_def Let_def s3_def q_def w_def scale_up_def spawn_worker_def cl)
    with r s4 s5 show ?thesis by (simp add: converse_rtranclp_into_rtranclp)
  qed
qed

section \<open>The pool's contract\<close>

text \<open>A pool of one worker and room for two, after a submission, and after it was told to stop.\<close>

definition demo_lib0 :: jlib where
  "demo_lib0 = \<lparr>jdump = (\<lambda>j. []), jparse = (\<lambda>t. None), fnmatch = (\<lambda>p t. False)\<rparr>"

definition demo_pool0 :: pool where
  "demo_pool0 = pool_new 1 2 1 1 0"

definition demo_pool :: pool where
  "demo_pool = snd (submit 7 ''recall'' True demo_pool0)"

lemma demo_pool0_eq: "demo_pool0 =
   \<lparr>max_workers = 2, max_queue_depth = 1, tasks = [], active = [], next_id = 1,
    num_workers = 1, pending_tasks = 0, active_tasks = 0, stopped = False, workers = [Waiting],
    clients = [Outside], callback_set = False, threshold = 60, escalated = [],
    clock = 0, accepted = [], started = [], finished = [], calls = [], alarms = []\<rparr>"
  by (simp add: demo_pool0_def pool_new_def spawn_worker_def)

lemma demo_pool_eq: "demo_pool = demo_pool0
   \<lparr>next_id := 2, tasks := [\<lparr>task_id = 1, client_fd = 7, has_on_complete = True\<rparr>],
    accepted := [\<lparr>task_id = 1, client_fd = 7, has_on_complete = True\<rparr>], pending_tasks := 1,
    active := [(1, \<lparr>tr_method = ''recall'', tr_start = 0\<rparr>)]\<rparr>"
  by (simp add: demo_pool_def demo_pool0_eq submit_def reserve_def admit_def Let_def scale_up_def)

lemma demo_pool_run: "pool_init demo_pool0" "(pool_step lib)\<^sup>*\<^sup>* demo_pool0 demo_pool"
proof -
  show "pool_init demo_pool0" unfolding pool_init_def demo_pool0_def by blast
  show "(pool_step lib)\<^sup>*\<^sup>* demo_pool0 demo_pool"
    unfolding demo_pool_def by (rule submit_steps [of _ 0]) (simp_all add: demo_pool0_eq)
qed

lemma demo_pool_stop: "(pool_step lib)\<^sup>*\<^sup>* demo_pool0 (demo_pool\<lparr>stopped := True\<rparr>)"
proof (rule rtranclp.rtrancl_into_rtrancl)
  show "(pool_step lib)\<^sup>*\<^sup>* demo_pool0 demo_pool" by (rule demo_pool_run)
  show "pool_step lib demo_pool (demo_pool\<lparr>stopped := True\<rparr>)"
    by (rule destroy) (simp_all add: demo_pool_eq demo_pool0_eq)
qed

text \<open>
  C17: the pool implements the dispatcher.  Whatever the interleaving of clients, workers
  and watchdog, every run of the pool is a run of a bounded first-in first-out queue with a
  multiset of tasks in progress and a list of completed ones: tasks are accepted only when
  there is room, started in the order of acceptance, and completed once.
\<close>

theorem pool_refines_dispatcher:
  assumes "pool_init s" "(pool_step lib)\<^sup>*\<^sup>* s t"
  shows "disp_init (dispatcher_of s) \<and> disp_step\<^sup>*\<^sup>* (dispatcher_of s) (dispatcher_of t)"
  using assms by (rule tp.refines)

theorem pool_refines_dispatcher_witness:
  "disp_init (dispatcher_of demo_pool0) \<and> disp_step\<^sup>*\<^sup>* (dispatcher_of demo_pool0) (dispatcher_of demo_pool)
   \<and> d_queue (dispatcher_of demo_pool) = [\<lparr>task_id = 1, client_fd = 7, has_on_complete = True\<rparr>]"
  using pool_refines_dispatcher [OF demo_pool_run(1) demo_pool_run(2) [of demo_lib0]]
  by (simp add: dispatcher_of_def demo_pool_eq)

text \<open>
  C18: the books of the pool.  In every reachable state the queue is within its depth and the
  workers within their cap, both counters are exact (so never negative), the registry of
  active requests holds exactly the requests that are queued or running, ids are unique,
  every accepted task is in exactly one of queue, worker and completed list, and the calls
  of \<open>on_complete\<close> are those of the completed tasks that have one.
\<close>

theorem pool_accounting:
  assumes "pool_init s" "(pool_step lib)\<^sup>*\<^sup>* s t"
  shows "length (tasks t) \<le> max_queue_depth t \<and> pending_tasks t = int (length (tasks t))
     \<and> num_workers t = length (workers t) \<and> num_workers t \<le> max_workers t
     \<and> active_tasks t = int (length (filter counted (workers t)))
     \<and> mset (map fst (active t)) = mset (map task_id (tasks t @ concat (map registered (workers t))))
     \<and> distinct (map task_id (accepted t))
     \<and> mset (accepted t) = mset (tasks t) + in_flight t + mset (map fst (finished t))
     \<and> calls t = map (\<lambda>(x, r). (client_fd x, r)) (filter (\<lambda>(x, r). has_on_complete x) (finished t))"
proof -
  note i = tp.reachable_inv [OF assms]
  have "mset (accepted t) = mset (tasks t) + in_flight t + mset (map fst (finished t))"
    using i by (simp add: pool_inv_def inv_history_def ac_simps)
  moreover have "distinct (map task_id (accepted t))" using i by (simp add: pool_inv_def inv_ids_def ids_def)
  ultimately show ?thesis
    using i unfolding pool_inv_def inv_counters_def inv_active_def inv_history_def
    by (elim conjE, intro conjI) (assumption | simp)+
qed

theorem pool_accounting_witness:
  "pending_tasks demo_pool = 1 \<and> mset (map fst (active demo_pool)) = {#1#} \<and> calls demo_pool = []"
  using pool_accounting [OF demo_pool_run(1) demo_pool_run(2) [of demo_lib0]]
  by (simp add: demo_pool_eq demo_pool0_eq)

text \<open>
  C19: shutting down drains the pool.  Once the destructor has set the flag, the workers take
  at most \<open>drain_bound\<close> further steps, some run reaches a state in which no worker can move,
  and in every such state all workers have returned, the queue is empty and every task ever
  accepted has been completed.
\<close>

theorem shutdown_drains:
  assumes "pool_init s0" "(pool_step lib)\<^sup>*\<^sup>* s0 s" "stopped s" "workers s \<noteq> []"
  shows "(\<forall>n t. (work_step lib ^^ n) s t \<longrightarrow> n \<le> drain_bound s)
     \<and> (\<exists>t. (work_step lib)\<^sup>*\<^sup>* s t \<and> (\<nexists>u. work_step lib t u))
     \<and> (\<forall>t. (work_step lib)\<^sup>*\<^sup>* s t \<and> (\<nexists>u. work_step lib t u) \<longrightarrow>
          set (workers t) = {Gone} \<and> tasks t = [] \<and> mset (map fst (finished t)) = mset (accepted s))"
proof -
  have d: "draining s" using tp.reachable_inv [OF assms(1,2)] assms(3) by (simp add: draining_def)
  have "n \<le> drain_bound s" if "(work_step lib ^^ n) s t" for n t
    using drain.run_bound [OF d that] by simp
  moreover have "set (workers t) = {Gone} \<and> tasks t = [] \<and> mset (map fst (finished t)) = mset (accepted s)"
    if "(work_step lib)\<^sup>*\<^sup>* s t" "\<nexists>u. work_step lib t u" for t
  proof -
    have "draining t" "accepted t = accepted s" "workers t \<noteq> []"
      using drain_keeps [OF that(1) d] assms(4) by auto
    with drained [of t lib] that(2) show ?thesis by simp
  qed
  ultimately show ?thesis using drain.run_ends [OF d, of lib] by blast
qed

theorem shutdown_drains_witness:
  "\<exists>t. (work_step demo_lib0)\<^sup>*\<^sup>* (demo_pool\<lparr>stopped := True\<rparr>) t \<and> tasks t = []
     \<and> mset (map fst (finished t)) = {#\<lparr>task_id = 1, client_fd = 7, has_on_complete = True\<rparr>#}"
  using shutdown_drains [OF demo_pool_run(1) demo_pool_stop [of demo_lib0]]
  by (simp add: demo_pool_eq demo_pool0_eq) blast

text \<open>
  the watchdog raises the alarm at most once per request, however often it scans, however
  the threshold and the callback are changed in between, and only for requests that were
  accepted.
\<close>

theorem watchdog_escalates_once:
  assumes "pool_init s" "(pool_step lib)\<^sup>*\<^sup>* s t"
  shows "distinct (map fst (alarms t)) \<and> fst ` set (alarms t) \<subseteq> task_id ` set (accepted t)"
  using tp.reachable_inv [OF assms] by (simp add: pool_inv_def inv_alarms_def)

lemma demo_alarm: "(pool_step lib)\<^sup>*\<^sup>* demo_pool0
   (watchdog_pass (watchdog_pass (demo_pool\<lparr>callback_set := True, threshold := 60, clock := 61000000000\<rparr>)))"
proof -
  let ?a = "demo_pool\<lparr>callback_set := True, threshold := 60\<rparr>"
  let ?b = "?a\<lparr>clock := 61000000000\<rparr>"
  have "pool_step lib demo_pool ?a" by (rule configure) (simp add: demo_pool_eq demo_pool0_eq)
  moreover have "pool_step lib ?a ?b" by (rule tick) (simp add: demo_pool_eq demo_pool0_eq)
  moreover have "pool_step lib ?b (watchdog_pass ?b)" by (rule watchdog) (simp add: demo_pool_eq demo_pool0_eq)
  moreover have "pool_step lib (watchdog_pass ?b) (watchdog_pass (watchdog_pass ?b))"
    by (rule watchdog) (simp add: demo_pool_eq demo_pool0_eq watchdog_pass_def)
  ultimately show ?thesis using demo_pool_run(2) [of lib] by (simp add: rtranclp.rtrancl_into_rtrancl)
qed

theorem watchdog_escalates_once_witness:
  "map fst (alarms (watchdog_pass (watchdog_pass
     (demo_pool\<lparr>callback_set := True, threshold := 60, clock := 61000000000\<rparr>)))) = [1]"
  using watchdog_escalates_once [OF demo_pool_run(1) demo_alarm [of demo_lib0]]
  by (simp add: demo_pool_eq demo_pool0_eq watchdog_pass_def)

end
