(* ===== verification/Runtime_Ledger.thy ===== *)
theory Runtime_Ledger
  imports Text_Codec Lexical_Path Step_Systems "HOL-Library.Sublist"
begin

text \<open>
  The runtime placement of queue and ledger (\<open>queue_path.hpp\<close>): the node-local state
  directory, the queue's path, and the ledger that copies a node-local append-only tail to
  the durable ledger.  The ledger announces each copy in an intent file before it appends,
  so that a crash at any point neither loses nor repeats a byte.

  The state is what is on disk, plus the time of the last flush.  A flush is the list of
  the states it goes through, one per durable effect and one per byte that reaches the
  durable file; a crash or a failing system call leaves any of them.  The durable file is
  written by this daemon alone while the append lock is held.
\<close>

section \<open>Where the files are\<close>

definition djb2 :: "string \<Rightarrow> u64" where
  "djb2 s = fold (\<lambda>c h. h * 33 + word_of_nat (of_char c)) s 5381"

definition non_empty :: "string option \<Rightarrow> bool" where
  "non_empty e = (case e of None \<Rightarrow> False | Some v \<Rightarrow> v \<noteq> [])"

definition runtime_local_enabled :: "string option \<Rightarrow> bool" where
  "runtime_local_enabled e = (e = Some ''1'')"

text \<open>
  \<open>weakly_canonical\<close> reads the file system, so it is an argument.
\<close>

definition runtime_state_dir ::
  "(string \<Rightarrow> string) \<Rightarrow> string option \<Rightarrow> string option \<Rightarrow> string \<Rightarrow> string" where
  "runtime_state_dir weakly_canonical local_env xdg mind =
     (if \<not> runtime_local_enabled local_env then mind
      else
        let nm = hexfmt 16 (unat (djb2 (weakly_canonical mind)));
            base = (if non_empty xdg then the xdg else ''/tmp'')
        in path_append (path_append base ''chitta'') nm)"

definition queue_path_for_mind ::
  "(string \<Rightarrow> string) \<Rightarrow> string option \<Rightarrow> string option \<Rightarrow> string option \<Rightarrow> string option \<Rightarrow> string \<Rightarrow> string" where
  "queue_path_for_mind weakly_canonical queue queue_path local_env xdg mind =
     (if non_empty queue then the queue
      else if non_empty queue_path then the queue_path
      else path_append (runtime_state_dir weakly_canonical local_env xdg mind) ''queue.jsonl'')"

section \<open>The ledger\<close>

record rledger =
  rl_tail :: "string option"
  rl_offset :: "string option"
  rl_intent :: "string option"
  rl_durable :: string
  rl_last :: nat

datatype flush_result = Skipped | Flushed | Failed string

text \<open>Extraction of an unsigned 64-bit number from a stream: a minus sign negates modulo \<open>2^64\<close>.\<close>

definition scan_u64 :: "string \<Rightarrow> (nat \<times> string) option" where
  "scan_u64 s =
     (let s1 = dropWhile is_space s;
          sgn = (case s1 of c # _ \<Rightarrow> c = CHR ''-'' \<or> c = CHR ''+'' | [] \<Rightarrow> False);
          s2 = (if sgn then tl s1 else s1);
          v = decnum (takeWhile is_digit s2)
      in if takeWhile is_digit s2 = [] \<or> v \<ge> 2 ^ 64 then None
         else Some (if sgn \<and> hd s1 = CHR ''-'' then (2 ^ 64 - v) mod 2 ^ 64 else v, dropWhile is_digit s2))"

definition scan_intent :: "string \<Rightarrow> (nat \<times> nat \<times> nat) option" where
  "scan_intent s =
     (case scan_u64 s of None \<Rightarrow> None | Some (offs, r1) \<Rightarrow>
      case scan_u64 r1 of None \<Rightarrow> None | Some (len, r2) \<Rightarrow>
      case scan_u64 r2 of None \<Rightarrow> None | Some (dest, r3) \<Rightarrow> Some (offs, len, dest))"

definition newline :: char where
  "newline = CHR 0x0A"

definition offset_text :: "nat \<Rightarrow> string" where
  "offset_text n = dec_of n @ [newline]"

definition intent_text :: "nat \<Rightarrow> nat \<Rightarrow> nat \<Rightarrow> string" where
  "intent_text offs len dest = dec_of offs @ '' '' @ dec_of len @ '' '' @ dec_of dest @ [newline]"

definition flush_interval :: "string option \<Rightarrow> nat" where
  "flush_interval e =
     (case e of None \<Rightarrow> 5
      | Some raw \<Rightarrow>
          let s1 = dropWhile is_space (c_str raw);
              s2 = (if s1 \<noteq> [] \<and> (hd s1 = CHR ''-'' \<or> hd s1 = CHR ''+'') then tl s1 else s1)
          in case strtol (c_str raw) of
               None \<Rightarrow> 5
             | Some v \<Rightarrow> if dropWhile is_digit s2 = [] \<and> v > 0 \<and> v \<le> 300 then nat v else 5)"

text \<open>
  The bytes of one flush: complete records of the next mebibyte, or the one record that is
  longer than that.
\<close>

definition upto_last_newline :: "string \<Rightarrow> string" where
  "upto_last_newline s = rev (dropWhile (\<lambda>c. c \<noteq> newline) (rev s))"

definition complete_records :: "string \<Rightarrow> string option" where
  "complete_records rest =
     (let data = take (min (length rest) 1048576) rest; beyond = drop (min (length rest) 1048576) rest
      in if newline \<in> set data then Some (upto_last_newline data)
         else if newline \<in> set beyond then Some (data @ takeWhile (\<lambda>c. c \<noteq> newline) beyond @ [newline])
         else None)"

text \<open>
  From the publication of the intent to its removal.  \<open>already\<close> is how many bytes of the
  chunk are in the durable file; the states between are those of \<open>write_all\<close>.
\<close>

definition commit :: "nat \<Rightarrow> nat \<Rightarrow> nat \<Rightarrow> string \<Rightarrow> rledger \<Rightarrow> rledger list" where
  "commit now offs already data s =
     (let rest = drop already data;
          writes = map (\<lambda>k. s\<lparr>rl_durable := rl_durable s @ take k rest\<rparr>) [1..<Suc (length rest)];
          s1 = s\<lparr>rl_durable := rl_durable s @ rest\<rparr>;
          s2 = s1\<lparr>rl_offset := Some (offset_text (offs + length data))\<rparr>;
          s3 = s2\<lparr>rl_intent := None, rl_last := now\<rparr>
      in writes @ [s2, s3])"

definition resume :: "nat \<Rightarrow> bool \<Rightarrow> nat \<Rightarrow> nat \<Rightarrow> nat \<Rightarrow> string \<Rightarrow> rledger \<Rightarrow> rledger list \<times> flush_result" where
  "resume now locked offs len dest tail s =
     (let data = take len (drop offs tail); fin = length (rl_durable s)
      in if length data \<noteq> len then ([], Failed ''runtime ledger incomplete recovery tail'')
         else if locked then ([], Skipped)
         else if fin < dest then ([], Failed ''runtime ledger destination truncated'')
         else
           let already = min len (fin - dest)
           in if take already (drop dest (rl_durable s)) \<noteq> take already data
              then ([], Failed ''runtime ledger recovery conflict; tail retained'')
              else (commit now offs already data s, Flushed))"

definition begin_flush :: "nat \<Rightarrow> bool \<Rightarrow> nat \<Rightarrow> string \<Rightarrow> rledger \<Rightarrow> rledger list \<times> flush_result" where
  "begin_flush now locked offs tail s =
     (case complete_records (drop offs tail) of
        None \<Rightarrow> ([], Skipped)
      | Some data \<Rightarrow>
          if locked then ([], Skipped)
          else
            let s1 = s\<lparr>rl_intent := Some (intent_text offs (length data) (length (rl_durable s)))\<rparr>
            in (s1 # commit now offs 0 data s1, Flushed))"

definition flush :: "nat \<Rightarrow> nat \<Rightarrow> bool \<Rightarrow> bool \<Rightarrow> rledger \<Rightarrow> rledger list \<times> flush_result" where
  "flush interval now force locked s =
     (case (case rl_offset s of None \<Rightarrow> Some 0 | Some t \<Rightarrow> map_option fst (scan_u64 t)) of
        None \<Rightarrow> ([], Failed ''runtime ledger invalid offset'')
      | Some off0 \<Rightarrow>
      case (case rl_intent s of None \<Rightarrow> Some None | Some t \<Rightarrow> map_option Some (scan_intent t)) of
        None \<Rightarrow> ([], Failed ''runtime ledger invalid intent'')
      | Some rec \<Rightarrow>
      case rl_tail s of
        None \<Rightarrow> ([], Skipped)
      | Some tail \<Rightarrow>
          (case rec of
             Some (offs, len, dest) \<Rightarrow>
               if length tail < offs then ([], Failed ''runtime ledger tail truncated'')
               else resume now locked offs len dest tail s
           | None \<Rightarrow>
               if length tail < off0 then ([], Failed ''runtime ledger tail truncated'')
               else if \<not> force \<and> length tail - off0 < 65536 \<and> now - rl_last s < interval then ([], Skipped)
               else if length tail = off0 then ([s\<lparr>rl_last := now\<rparr>], Skipped)
               else begin_flush now locked off0 tail s))"

section \<open>Reading back what was published\<close>

lemma scan_u64_dec:
  assumes "n < 2 ^ 64" "r = [] \<or> \<not> is_digit (hd r)"
  shows "scan_u64 (dec_of n @ r) = Some (n, r)"
proof -
  obtain c s where cs: "dec_of n = c # s" by (cases "dec_of n") auto
  have d: "\<forall>c \<in> set (dec_of n). is_digit c" using dec_of_plain by blast
  have c: "c \<noteq> CHR ''-''" "c \<noteq> CHR ''+''" "\<not> is_space c" using dec_of_plain [of c n] cs by auto
  have t: "takeWhile is_digit (dec_of n @ r) = dec_of n" "dropWhile is_digit (dec_of n @ r) = r"
    using d assms(2) by (cases r; simp)+
  have w: "dropWhile is_space (dec_of n @ r) = dec_of n @ r" using c by (simp add: cs)
  have g: "(case dec_of n @ r of c # _ \<Rightarrow> c = CHR ''-'' \<or> c = CHR ''+'' | [] \<Rightarrow> False) = False"
    using c by (simp add: cs)
  show ?thesis using assms(1) unfolding scan_u64_def Let_def w g by (simp add: t)
qed

lemma not_digit: "\<not> is_digit newline" "\<not> is_digit CHR '' ''" "is_space CHR '' ''"
  by (simp_all add: newline_def is_digit_def is_space_def)

lemma scan_u64_space: "scan_u64 (CHR '' '' # s) = scan_u64 s"
  by (simp add: scan_u64_def not_digit)

lemma scan_offset: "n < 2 ^ 64 \<Longrightarrow> scan_u64 (offset_text n) = Some (n, [newline])"
  by (simp add: offset_text_def scan_u64_dec not_digit)

lemma scan_intent_text:
  assumes "a < 2 ^ 64" "b < 2 ^ 64" "c < 2 ^ 64"
  shows "scan_intent (intent_text a b c) = Some (a, b, c)"
  using assms by (simp add: scan_intent_def intent_text_def scan_u64_dec scan_u64_space not_digit)

section \<open>Runs\<close>

definition tail_of :: "rledger \<Rightarrow> string" where
  "tail_of s = (case rl_tail s of None \<Rightarrow> [] | Some t \<Rightarrow> t)"

definition offset_of :: "rledger \<Rightarrow> nat option" where
  "offset_of s = (case rl_offset s of None \<Rightarrow> Some 0 | Some t \<Rightarrow> map_option fst (scan_u64 t))"

text \<open>
  Hooks append to the tail, the daemon flushes and is cut off after any of the effects of a
  flush (or after none), and restarts with its own clock.  The files stay below \<open>2^64\<close> bytes.
\<close>

inductive rl_step :: "string \<Rightarrow> rledger \<Rightarrow> rledger \<Rightarrow> bool" for base where
  hook_append: "length base + length (tail_of s @ x) < 2 ^ 64 \<Longrightarrow> rl_step base s (s\<lparr>rl_tail := Some (tail_of s @ x)\<rparr>)"
| flush_cut: "t \<in> set (fst (flush interval now force locked s)) \<Longrightarrow> rl_step base s t"
| restart: "rl_step base s (s\<lparr>rl_last := now\<rparr>)"

definition rl_init :: "string \<Rightarrow> rledger \<Rightarrow> bool" where
  "rl_init base s = (rl_tail s = None \<and> rl_offset s = None \<and> rl_intent s = None \<and> rl_durable s = base \<and> length base < 2 ^ 64)"

definition ends_record :: "string \<Rightarrow> bool" where
  "ends_record x = (x = [] \<or> List.last x = newline)"

text \<open>
  \<open>m\<close> bytes of the tail are in the durable file.  Without an intent they are the offset, a
  record boundary; with one, the offset it names, plus a part of its chunk.
\<close>

definition copied :: "string \<Rightarrow> rledger \<Rightarrow> nat \<Rightarrow> bool" where
  "copied base s m =
     (m \<le> length (tail_of s) \<and> rl_durable s = base @ take m (tail_of s) \<and> length base + length (tail_of s) < 2 ^ 64
      \<and> (case rl_intent s of
            None \<Rightarrow> offset_of s = Some m \<and> ends_record (take m (tail_of s))
          | Some t \<Rightarrow> offset_of s \<noteq> None \<and> rl_tail s \<noteq> None
              \<and> (\<exists>offs len. scan_intent t = Some (offs, len, length base + offs) \<and> offs \<le> m \<and> m \<le> offs + len
                    \<and> offs + len \<le> length (tail_of s) \<and> ends_record (take (offs + len) (tail_of s)))))"

definition rl_inv :: "string \<Rightarrow> rledger \<Rightarrow> bool" where
  "rl_inv base s = (\<exists>m. copied base s m)"

lemma upto_last_newline_facts:
  assumes "newline \<in> set s"
  shows "prefix (upto_last_newline s) s" "upto_last_newline s \<noteq> []" "List.last (upto_last_newline s) = newline"
proof -
  let ?d = "dropWhile (\<lambda>c. c \<noteq> newline) (rev s)"
  have ne: "?d \<noteq> []" using assms by (auto simp: dropWhile_eq_Nil_conv)
  have "rev s = takeWhile (\<lambda>c. c \<noteq> newline) (rev s) @ ?d" by simp
  then have "s = rev ?d @ rev (takeWhile (\<lambda>c. c \<noteq> newline) (rev s))" by (metis rev_append rev_rev_ident)
  then show "prefix (upto_last_newline s) s" unfolding upto_last_newline_def by (rule prefixI)
  show "upto_last_newline s \<noteq> []" using ne by (simp add: upto_last_newline_def)
  have "hd ?d = newline" using hd_dropWhile [of "\<lambda>c. c \<noteq> newline" "rev s"] ne by blast
  then show "List.last (upto_last_newline s) = newline" using ne by (simp add: upto_last_newline_def last_rev)
qed

lemma upto_first_newline:
  assumes "newline \<in> set b"
  shows "prefix (takeWhile (\<lambda>c. c \<noteq> newline) b @ [newline]) b"
proof -
  have "dropWhile (\<lambda>c. c \<noteq> newline) b \<noteq> []" using assms by (auto simp: dropWhile_eq_Nil_conv)
  then obtain z where "dropWhile (\<lambda>c. c \<noteq> newline) b = newline # z"
    using hd_dropWhile [of "\<lambda>c. c \<noteq> newline" b] by (metis list.exhaust_sel)
  then have "b = (takeWhile (\<lambda>c. c \<noteq> newline) b @ [newline]) @ z"
    using takeWhile_dropWhile_id [of "\<lambda>c. c \<noteq> newline" b] by simp
  then show ?thesis by (rule prefixI)
qed

lemma complete_records_facts:
  assumes "complete_records rest = Some data"
  shows "prefix data rest" "data \<noteq> []" "List.last data = newline"
proof -
  define n where "n = min (length rest) 1048576"
  consider (a) "newline \<in> set (take n rest)" "data = upto_last_newline (take n rest)"
    | (b) "newline \<in> set (drop n rest)"
      "data = take n rest @ takeWhile (\<lambda>c. c \<noteq> newline) (drop n rest) @ [newline]"
    using assms unfolding complete_records_def Let_def n_def [symmetric]
    by (cases "newline \<in> set (take n rest)"; cases "newline \<in> set (drop n rest)") simp_all
  then have "prefix data rest \<and> data \<noteq> [] \<and> List.last data = newline"
  proof cases
    case a
    then have "prefix data (take n rest)" using upto_last_newline_facts(1) [OF a(1)] by simp
    then have "prefix data rest" using take_is_prefix by (rule prefix_order.trans)
    then show ?thesis using upto_last_newline_facts(2,3) [OF a(1)] a(2) by simp
  next
    case b
    have "prefix (take n rest @ takeWhile (\<lambda>c. c \<noteq> newline) (drop n rest) @ [newline]) (take n rest @ drop n rest)"
      using upto_first_newline [OF b(1)] by (simp only: same_prefix_prefix)
    then show ?thesis unfolding b(2) by simp
  qed
  then show "prefix data rest" "data \<noteq> []" "List.last data = newline" by auto
qed

lemma complete_records_ex: "newline \<in> set rest \<Longrightarrow> \<exists>data. complete_records rest = Some data"
proof -
  assume nl: "newline \<in> set rest"
  define n where "n = min (length rest) 1048576"
  have "newline \<in> set (take n rest) \<or> newline \<in> set (drop n rest)"
    using nl by (metis Un_iff append_take_drop_id set_append)
  then show ?thesis unfolding complete_records_def Let_def n_def [symmetric]
    by (cases "newline \<in> set (take n rest)") simp_all
qed

lemma take_chunk:
  assumes "offs \<le> m" "m + k \<le> offs + len"
  shows "take m t @ take k (drop (m - offs) (take len (drop offs t))) = take (m + k) t"
proof -
  have "take k (drop (m - offs) (take len (drop offs t))) = take k (drop m t)"
    using assms by (simp add: drop_take min_def)
  then show ?thesis by (simp add: take_add)
qed

lemma commit_states:
  assumes "u \<in> set (commit now offs a data s)"
  obtains (w) k where "1 \<le> k" "k \<le> length (drop a data)" "u = s\<lparr>rl_durable := rl_durable s @ take k (drop a data)\<rparr>"
    | (p) "u = s\<lparr>rl_durable := rl_durable s @ drop a data, rl_offset := Some (offset_text (offs + length data))\<rparr>"
    | (f) "u = s\<lparr>rl_durable := rl_durable s @ drop a data, rl_offset := Some (offset_text (offs + length data)),
                 rl_intent := None, rl_last := now\<rparr>"
proof -
  let ?w = "\<lambda>k. s\<lparr>rl_durable := rl_durable s @ take k (drop a data)\<rparr>"
  from assms have "u \<in> ?w ` set [1..<Suc (length (drop a data))]
      \<or> u = s\<lparr>rl_durable := rl_durable s @ drop a data, rl_offset := Some (offset_text (offs + length data))\<rparr>
      \<or> u = s\<lparr>rl_durable := rl_durable s @ drop a data, rl_offset := Some (offset_text (offs + length data)),
                 rl_intent := None, rl_last := now\<rparr>"
    by (simp only: commit_def Let_def set_append set_map Un_iff list.set insert_iff empty_iff disj_assoc simp_thms)
  then show thesis
  proof (elim disjE imageE)
    fix k assume "u = ?w k" "k \<in> set [1..<Suc (length (drop a data))]"
    then show thesis by (intro w [of k]) (simp_all only: set_upt atLeastLessThan_iff less_Suc_eq_le)
  qed (rule p f, assumption)+
qed

lemma commit_copied:
  assumes c: "copied base s m" and i: "rl_intent s = Some t" "scan_intent t = Some (offs, len, length base + offs)"
    and u: "u \<in> set (commit now offs (m - offs) (take len (drop offs (tail_of s))) s)"
  shows "\<exists>m'. m \<le> m' \<and> copied base u m'"
proof -
  let ?data = "take len (drop offs (tail_of s))"
  let ?rest = "drop (m - offs) ?data"
  have b: "offs \<le> m" "m \<le> offs + len" "offs + len \<le> length (tail_of s)"
    "ends_record (take (offs + len) (tail_of s))" "rl_durable s = base @ take m (tail_of s)"
    "length base + length (tail_of s) < 2 ^ 64" "offset_of s \<noteq> None" "rl_tail s \<noteq> None"
    using c i by (auto simp: copied_def)
  have len: "length ?data = len" "length ?rest = offs + len - m" using b by auto
  have chunk: "take m (tail_of s) @ take k ?rest = take (m + k) (tail_of s)" if "m + k \<le> offs + len" for k
    using that b(1) by (rule take_chunk [rotated])
  have full: "rl_durable s @ ?rest = base @ take (offs + len) (tail_of s)"
    using chunk [of "offs + len - m"] b len by simp
  from u show ?thesis
  proof (cases rule: commit_states)
    case (w k)
    then have "copied base u (m + k)" using b i len chunk [of k]
      by (auto simp: copied_def tail_of_def offset_of_def)
    then show ?thesis by (intro exI [of _ "m + k"]) simp
  next
    case p
    then have "copied base u (offs + len)" using b i len full scan_offset [of "offs + len"]
      by (auto simp: copied_def tail_of_def offset_of_def)
    then show ?thesis using b(2) by blast
  next
    case f
    then have "copied base u (offs + len)" using b i len full scan_offset [of "offs + len"]
      by (auto simp: copied_def tail_of_def offset_of_def)
    then show ?thesis using b(2) by blast
  qed
qed

lemma resume_commits:
  assumes c: "copied base s m" and i: "rl_intent s = Some t" "scan_intent t = Some (offs, len, length base + offs)"
  shows "resume now False offs len (length base + offs) (tail_of s) s =
           (commit now offs (m - offs) (take len (drop offs (tail_of s))) s, Flushed)"
proof -
  have b: "offs \<le> m" "m \<le> offs + len" "offs + len \<le> length (tail_of s)" "m \<le> length (tail_of s)"
    "rl_durable s = base @ take m (tail_of s)"
    using c i by (auto simp: copied_def)
  have a: "min len (length (rl_durable s) - (length base + offs)) = m - offs" using b by simp
  have "take (m - offs) (drop (length base + offs) (rl_durable s)) = take (m - offs) (take len (drop offs (tail_of s)))"
    using b by (simp add: drop_take min_def)
  then show ?thesis using b unfolding resume_def Let_def a by simp
qed

lemma begin_copied:
  assumes c: "copied base s m" and i: "rl_intent s = None" and d: "complete_records (drop m (tail_of s)) = Some data"
    and ne: "rl_tail s \<noteq> None"
  defines "s1 \<equiv> s\<lparr>rl_intent := Some (intent_text m (length data) (length (rl_durable s)))\<rparr>"
  shows "copied base s1 m" "scan_intent (intent_text m (length data) (length (rl_durable s))) = Some (m, length data, length base + m)"
    "take (length data) (drop m (tail_of s)) = data"
proof -
  note f = complete_records_facts [OF d]
  have b: "m \<le> length (tail_of s)" "rl_durable s = base @ take m (tail_of s)" "length base + length (tail_of s) < 2 ^ 64"
    "offset_of s = Some m" using c i by (auto simp: copied_def)
  obtain z where z: "drop m (tail_of s) = data @ z" using f(1) by (auto elim: prefixE)
  then show tk: "take (length data) (drop m (tail_of s)) = data" by simp
  have l: "m + length data \<le> length (tail_of s)" using b(1) arg_cong [OF z, of length] by simp
  then show sc: "scan_intent (intent_text m (length data) (length (rl_durable s))) = Some (m, length data, length base + m)"
    using b by (subst scan_intent_text) auto
  have "take (m + length data) (tail_of s) = take m (tail_of s) @ data" by (simp add: take_add tk)
  then have "ends_record (take (m + length data) (tail_of s))" using f by (simp add: ends_record_def)
  then show "copied base s1 m" using b l sc c ne by (auto simp: copied_def s1_def tail_of_def offset_of_def)
qed

lemma copied_last: "copied base (s\<lparr>rl_last := n\<rparr>) m = copied base s m"
  by (cases "rl_intent s") (simp_all add: copied_def tail_of_def offset_of_def)

lemma copied_append:
  assumes "copied base s m" "length base + length (tail_of s @ x) < 2 ^ 64"
  shows "copied base (s\<lparr>rl_tail := Some (tail_of s @ x)\<rparr>) m"
proof (cases "rl_intent s")
  case None
  then show ?thesis using assms by (simp add: copied_def tail_of_def offset_of_def)
next
  case (Some t)
  have "ends_record (take k (tail_of s @ x)) = ends_record (take k (tail_of s))" if "k \<le> length (tail_of s)" for k
    using that by simp
  then show ?thesis using assms Some
    by (auto simp: copied_def offset_of_def) (auto simp: tail_of_def)
qed

lemma flush_copied:
  assumes c: "copied base s m" and u: "u \<in> set (fst (flush interval now force locked s))"
  shows "\<exists>m'. m \<le> m' \<and> copied base u m'"
proof -
  from u obtain tl where tl: "rl_tail s = Some tl"
    by (auto simp: flush_def split: option.splits)
  then have t: "tl = tail_of s" by (simp add: tail_of_def)
  from c obtain off0 where o: "offset_of s = Some off0" by (auto simp: copied_def split: option.splits)
  show ?thesis
  proof (cases "rl_intent s")
    case None
    then have "off0 = m" using c o by (simp add: copied_def)
    with u None o tl have "u \<in> set (if m = length tl then [s\<lparr>rl_last := now\<rparr>] else fst (begin_flush now locked m tl s))"
      by (auto simp: flush_def offset_of_def split: if_splits)
    then consider "u = s\<lparr>rl_last := now\<rparr>"
      | data where "complete_records (drop m tl) = Some data"
        "u \<in> set (s\<lparr>rl_intent := Some (intent_text m (length data) (length (rl_durable s)))\<rparr>
                # commit now m 0 data (s\<lparr>rl_intent := Some (intent_text m (length data) (length (rl_durable s)))\<rparr>))"
      by (auto simp: begin_flush_def Let_def split: if_splits option.splits)
    then show ?thesis
    proof cases
      case 1
      then have "copied base u m" using c by (simp add: copied_last)
      then show ?thesis by blast
    next
      case 2
      let ?s1 = "s\<lparr>rl_intent := Some (intent_text m (length data) (length (rl_durable s)))\<rparr>"
      have "rl_tail s \<noteq> None" using tl by simp
      note b = begin_copied [OF c None 2(1) [unfolded t] this]
      have "tail_of ?s1 = tail_of s" by (simp add: tail_of_def)
      with commit_copied [OF b(1), of _ m "length data" u now] b 2(2)
      show ?thesis by auto
    qed
  next
    case (Some tx)
    with c obtain offs len where i: "scan_intent tx = Some (offs, len, length base + offs)"
      by (auto simp: copied_def)
    from u Some o tl i have "u \<in> set (fst (resume now locked offs len (length base + offs) tl s))"
      by (auto simp: flush_def offset_of_def split: if_splits)
    moreover have "\<not> locked" using calculation by (auto simp: resume_def Let_def split: if_splits)
    ultimately show ?thesis using resume_commits [OF c Some i] commit_copied [OF c Some i] by (simp add: t)
  qed
qed

section \<open>The ledger copies exactly once\<close>

text \<open>The abstract copier: a source that grows, and a copy that grows but stays a prefix of it.\<close>

inductive copy_step :: "string \<times> string \<Rightarrow> string \<times> string \<Rightarrow> bool" where
  "prefix src src' \<Longrightarrow> prefix dst dst' \<Longrightarrow> prefix dst' src' \<Longrightarrow> copy_step (src, dst) (src', dst')"

definition copy_of :: "string \<Rightarrow> rledger \<Rightarrow> string \<times> string" where
  "copy_of base s = (tail_of s, drop (length base) (rl_durable s))"

lemma flush_tail: "u \<in> set (fst (flush interval now force locked s)) \<Longrightarrow> rl_tail u = rl_tail s"
  by (auto simp: flush_def begin_flush_def resume_def Let_def commit_def split: option.splits if_splits)

lemma copied_copy_of: "copied base s m \<Longrightarrow> copy_of base s = (tail_of s, take m (tail_of s))"
  by (simp add: copied_def copy_of_def)

lemma rl_step_copied:
  assumes "rl_step base s u" "copied base s m"
  shows "\<exists>m'. m \<le> m' \<and> copied base u m' \<and> prefix (tail_of s) (tail_of u)"
  using assms
proof (induction rule: rl_step.induct)
  case (hook_append s x)
  then show ?case using copied_append [of base s m x] by (intro exI [of _ m]) (simp add: tail_of_def)
next
  case (flush_cut t interval now force locked s)
  then show ?case using flush_copied [of base s m t] flush_tail [of t] by (fastforce simp: tail_of_def)
next
  case (restart s now)
  then show ?case by (intro exI [of _ m]) (simp add: copied_last tail_of_def)
qed

lemma rl_simulates:
  assumes "copied base s m" "rl_step base s u"
  shows "copy_step (copy_of base s) (copy_of base u)"
proof -
  from rl_step_copied [OF assms(2,1)] obtain m' where m: "m \<le> m'" "copied base u m'" "prefix (tail_of s) (tail_of u)"
    by blast
  have "m \<le> length (tail_of s)" using assms(1) by (simp add: copied_def)
  then have "take m (tail_of s) = take m (take m' (tail_of u))" using m(1,3) by (auto simp: prefix_def)
  then have "prefix (take m (tail_of s)) (take m' (tail_of u))" using take_is_prefix by metis
  then show ?thesis using m assms(1)
    by (simp add: copied_copy_of take_is_prefix copy_step.intros)
qed

interpretation rl: simulation "rl_init base" "rl_step base" "rl_inv base" "\<lambda>c. c = ([], [])" copy_step "copy_of base"
proof
  fix base s u
  show "rl_inv base s" if "rl_init base s"
    using that by (auto simp: rl_inv_def rl_init_def copied_def tail_of_def offset_of_def ends_record_def)
  show "rl_inv base u" if "rl_inv base s" "rl_step base s u"
    using that rl_step_copied unfolding rl_inv_def by blast
  show "copy_of base s = ([], [])" if "rl_init base s"
    using that by (simp add: rl_init_def copy_of_def tail_of_def)
  show "copy_of base u = copy_of base s \<or> copy_step (copy_of base s) (copy_of base u)"
    if "rl_inv base s" "rl_step base s u"
    using that rl_simulates unfolding rl_inv_def by blast
qed

lemma commit_last:
  "List.last (commit now offs a data s) =
     s\<lparr>rl_durable := rl_durable s @ drop a data, rl_offset := Some (offset_text (offs + length data)),
       rl_intent := None, rl_last := now\<rparr>"
  by (simp add: commit_def Let_def)

lemma commit_in: "List.last (commit now offs a data s) \<in> set (commit now offs a data s)"
  by (rule last_in_set) (simp add: commit_def Let_def)

lemma commit_write_in:
  "1 \<le> k \<Longrightarrow> k \<le> length (drop a data) \<Longrightarrow>
   s\<lparr>rl_durable := rl_durable s @ take k (drop a data)\<rparr> \<in> set (commit now offs a data s)"
  unfolding commit_def Let_def set_append set_map set_upt by (rule UnI1, rule imageI) simp

lemma flush_completes:
  assumes c: "copied base s m" and p: "rl_intent s \<noteq> None \<or> newline \<in> set (drop m (tail_of s))"
  shows "\<exists>tr u n. flush interval now True False s = (tr, Flushed) \<and> List.last tr = u \<and> u \<in> set tr
     \<and> rl_intent u = None \<and> offset_of u = Some n \<and> (rl_intent s = None \<longrightarrow> m < n)"
proof (cases "rl_intent s")
  case None
  with p have nl: "newline \<in> set (drop m (tail_of s))" by simp
  then obtain tl where tl: "rl_tail s = Some tl" by (auto simp: tail_of_def split: option.splits)
  then have t: "tl = tail_of s" by (simp add: tail_of_def)
  obtain data where d: "complete_records (drop m (tail_of s)) = Some data"
    using complete_records_ex [OF nl] by blast
  have "rl_tail s \<noteq> None" using tl by simp
  note b = begin_copied [OF c None d this]
  have f: "data \<noteq> []" using complete_records_facts(2) [OF d] .
  let ?s1 = "s\<lparr>rl_intent := Some (intent_text m (length data) (length (rl_durable s)))\<rparr>"
  have o: "offset_of s = Some m" "length tl \<noteq> m" "\<not> length tl < m" "length (drop m tl) \<ge> length data"
    using c None nl complete_records_facts(1) [OF d] t by (auto simp: copied_def dest: prefix_length_le)
  have fl: "flush interval now True False s = (?s1 # commit now m 0 data ?s1, Flushed)"
    using o None tl d t by (simp add: flush_def offset_of_def begin_flush_def Let_def)
  have "length base + length tl < 2 ^ 64" using c t by (simp add: copied_def)
  then have "m + length data < 2 ^ 64" using o by simp
  then have "offset_of (List.last (commit now m 0 data ?s1)) = Some (m + length data)"
    using scan_offset [of "m + length data"] by (simp add: commit_last offset_of_def)
  moreover have "List.last (?s1 # commit now m 0 data ?s1) = List.last (commit now m 0 data ?s1)"
    by (simp add: commit_def Let_def)
  moreover have "rl_intent (List.last (commit now m 0 data ?s1)) = None" by (simp add: commit_last)
  ultimately show ?thesis unfolding fl using f commit_in [of now m 0 data ?s1]
    by (intro exI [of _ "?s1 # commit now m 0 data ?s1"] exI [of _ "List.last (commit now m 0 data ?s1)"]
        exI [of _ "m + length data"]) (simp del: last.simps)
next
  case (Some tx)
  with c obtain offs len where i: "scan_intent tx = Some (offs, len, length base + offs)" "offs + len \<le> length (tail_of s)"
    by (auto simp: copied_def)
  obtain tl off0 where tl: "rl_tail s = Some tl" "offset_of s = Some off0" using c Some by (auto simp: copied_def)
  then have t: "tl = tail_of s" by (simp add: tail_of_def)
  let ?c = "commit now offs (m - offs) (take len (drop offs (tail_of s))) s"
  have fl: "flush interval now True False s = (?c, Flushed)"
    using Some tl i resume_commits [OF c Some i(1)] t by (simp add: flush_def offset_of_def)
  have "offs + len < 2 ^ 64" using i(2) c by (simp add: copied_def)
  then have "offset_of (List.last ?c) = Some (offs + len)"
    using scan_offset [of "offs + len"] i(2) by (simp add: commit_last offset_of_def)
  moreover have "rl_intent (List.last ?c) = None" by (simp add: commit_last)
  ultimately show ?thesis unfolding fl using Some commit_in [of now offs "m - offs" "take len (drop offs (tail_of s))" s]
    by (intro exI [of _ ?c] exI [of _ "List.last ?c"] exI [of _ "offs + len"]) simp
qed

text \<open>
  C20: the ledger copies exactly once.  However appends, flushes, crashes in the middle of a
  flush and restarts follow each other, the durable file is what it was plus a prefix of
  the tail, the two evolve as the abstract copier does, and whenever no intent is pending
  the stored offset is the length of that prefix, which ends at the end of a record.
\<close>

theorem ledger_exactly_once:
  assumes "rl_init base s" "(rl_step base)\<^sup>*\<^sup>* s t"
  shows "\<exists>m \<le> length (tail_of t). rl_durable t = base @ take m (tail_of t)
     \<and> copy_step\<^sup>*\<^sup>* ([], []) (tail_of t, take m (tail_of t))
     \<and> (rl_intent t = None \<longrightarrow> offset_of t = Some m \<and> ends_record (take m (tail_of t)))"
proof -
  obtain m where m: "copied base t m" using rl.reachable_inv [OF assms] unfolding rl_inv_def by blast
  have "copy_step\<^sup>*\<^sup>* ([], []) (copy_of base t)" using rl.refines [OF assms] by metis
  then show ?thesis using m copied_copy_of [OF m] by (intro exI [of _ m]) (auto simp: copied_def)
qed

text \<open>A ledger whose second record has arrived when a flush of the first is cut off after two bytes.\<close>

definition demo_rl0 :: rledger where
  "demo_rl0 = \<lparr>rl_tail = None, rl_offset = None, rl_intent = None, rl_durable = ''x'', rl_last = 0\<rparr>"

definition demo_rl1 :: rledger where
  "demo_rl1 = demo_rl0\<lparr>rl_tail := Some (''ab'' @ [newline] @ ''cd'' @ [newline])\<rparr>"

definition demo_rl2 :: rledger where
  "demo_rl2 = demo_rl1\<lparr>rl_intent := Some (intent_text 0 6 1), rl_durable := ''xab''\<rparr>"

lemma demo_records: "complete_records (''ab'' @ [newline] @ ''cd'' @ [newline]) = Some (''ab'' @ [newline] @ ''cd'' @ [newline])"
  by (simp add: complete_records_def upto_last_newline_def Let_def)

lemma demo_rl_run: "rl_init ''x'' demo_rl0" "(rl_step ''x'')\<^sup>*\<^sup>* demo_rl0 demo_rl2"
proof -
  show "rl_init ''x'' demo_rl0" by (simp add: rl_init_def demo_rl0_def)
  have a: "rl_step ''x'' demo_rl0 demo_rl1"
    using hook_append [of "''x''" demo_rl0 "''ab'' @ [newline] @ ''cd'' @ [newline]"]
    by (simp add: demo_rl1_def demo_rl0_def tail_of_def)
  have "demo_rl2 \<in> set (fst (flush 5 9 True False demo_rl1))"
  proof -
    let ?d = "''ab'' @ [newline] @ ''cd'' @ [newline]"
    let ?s = "demo_rl1\<lparr>rl_intent := Some (intent_text 0 6 1)\<rparr>"
    have d: "length ?d = 6" by simp
    have "demo_rl2 \<in> set (commit 9 0 0 ?d ?s)"
      using commit_write_in [of 2 0 ?d ?s 9 0] by (simp add: demo_rl2_def demo_rl1_def demo_rl0_def)
    moreover have "fst (flush 5 9 True False demo_rl1) = ?s # commit 9 0 0 ?d ?s"
      unfolding flush_def begin_flush_def Let_def
      by (simp only: demo_rl1_def demo_rl0_def rledger.simps option.case drop_0 demo_records d) simp
    ultimately show ?thesis by simp
  qed
  then have "rl_step ''x'' demo_rl1 demo_rl2" by (rule flush_cut)
  with a show "(rl_step ''x'')\<^sup>*\<^sup>* demo_rl0 demo_rl2" by (simp add: converse_rtranclp_into_rtranclp)
qed

theorem ledger_exactly_once_witness:
  "\<exists>m \<le> length (tail_of demo_rl2). rl_durable demo_rl2 = ''x'' @ take m (tail_of demo_rl2)
     \<and> copy_step\<^sup>*\<^sup>* ([], []) (tail_of demo_rl2, take m (tail_of demo_rl2))"
  using ledger_exactly_once [OF demo_rl_run] by blast

text \<open>
  C21: a flush completes what is pending.  In every reachable state that has an intent left
  by a crash, or a complete record after the offset, a forced flush that gets the lock
  succeeds: it ends without an intent, the durable file extends to the new offset, and the
  offset has moved when there was no intent.
\<close>

theorem ledger_flush_progress:
  assumes "rl_init base s" "(rl_step base)\<^sup>*\<^sup>* s t" "offset_of t = Some m"
    "rl_intent t \<noteq> None \<or> newline \<in> set (drop m (tail_of t))"
  shows "\<exists>tr u n. flush interval now True False t = (tr, Flushed) \<and> List.last tr = u \<and> rl_intent u = None
     \<and> offset_of u = Some n \<and> rl_durable u = base @ take n (tail_of t) \<and> (rl_intent t = None \<longrightarrow> m < n)"
proof -
  obtain k where k: "copied base t k" using rl.reachable_inv [OF assms(1,2)] unfolding rl_inv_def by blast
  then have "rl_intent t = None \<Longrightarrow> k = m" using assms(3) by (simp add: copied_def)
  then have "rl_intent t \<noteq> None \<or> newline \<in> set (drop k (tail_of t))" "rl_intent t = None \<Longrightarrow> m = k"
    using assms(4) by (cases "rl_intent t"; simp)+
  with flush_completes [OF k, of interval now] obtain tr u n where
    f: "flush interval now True False t = (tr, Flushed)" "List.last tr = u" "u \<in> set tr" "rl_intent u = None"
       "offset_of u = Some n" "rl_intent t = None \<longrightarrow> m < n" by metis
  with flush_copied [OF k, of u interval now True False] obtain k' where "copied base u k'" by auto
  then have "rl_durable u = base @ take n (tail_of u)" using f(4,5) by (simp add: copied_def)
  moreover have "tail_of u = tail_of t" using flush_tail [of u interval now True False t] f(1,3) by (simp add: tail_of_def)
  ultimately show ?thesis using f by auto
qed

theorem ledger_flush_progress_witness:
  "\<exists>tr u n. flush 5 9 True False demo_rl2 = (tr, Flushed) \<and> List.last tr = u \<and> rl_intent u = None
     \<and> offset_of u = Some n \<and> rl_durable u = ''x'' @ take n (tail_of demo_rl2)"
  using ledger_flush_progress [OF demo_rl_run, of 0 5 9]
  by (auto simp: offset_of_def demo_rl2_def demo_rl1_def demo_rl0_def)

end
