(* ===== verification/Hook_Base.thy ===== *)
theory Hook_Base
  imports Json_Model Text_Codec
begin

text \<open>
  What the hook policies share: reading a text field of a document, the prefix of a text by
  characters, splitting into lines, joining and trimming.
\<close>

section \<open>Fields\<close>

definition field_str :: "json \<Rightarrow> string \<Rightarrow> string \<Rightarrow> string" where
  "field_str j k d = (case jfind j k of Some (JStr s) \<Rightarrow> s | _ \<Rightarrow> d)"

abbreviation str0 :: "json \<Rightarrow> string \<Rightarrow> string" where
  "str0 j k \<equiv> field_str j k []"

text \<open>A range-based loop over a document: the elements, the values of an object, or the scalar itself.\<close>

fun jitems :: "json \<Rightarrow> json list" where
  "jitems JNull = []"
| "jitems (JArr xs) = xs"
| "jitems (JObj m) = map snd m"
| "jitems j = [j]"

definition jvalue_dbl :: "json \<Rightarrow> string \<Rightarrow> rat \<Rightarrow> rat res" where
  "jvalue_dbl j k d = rbind (jvalue j k (JFloat d)) get_double"

section \<open>Text\<close>

definition lead_byte :: "char \<Rightarrow> bool" where
  "lead_byte c = (of_char c div 64 \<noteq> (2 :: nat))"

text \<open>The first \<open>n\<close> characters: the loop stops at the lead byte of the next one.\<close>

fun char_prefix :: "string \<Rightarrow> nat \<Rightarrow> string" where
  "char_prefix [] n = []"
| "char_prefix (c # s) n =
     (if lead_byte c then (if n = 0 then [] else c # char_prefix s (n - 1)) else c # char_prefix s n)"

definition lf :: char where
  "lf = CHR 0x0A"

text \<open>The lines of a text as \<open>std::getline\<close> gives them: no empty last line after a final newline.\<close>

function getlines :: "string \<Rightarrow> string list" where
  "getlines [] = []"
| "getlines (c # s) =
     takeWhile (\<lambda>x. x \<noteq> lf) (c # s) # getlines (drop 1 (dropWhile (\<lambda>x. x \<noteq> lf) (c # s)))"
  by pat_completeness auto
termination
proof (relation "measure length")
  fix c :: char and s
  have "length (dropWhile (\<lambda>x. x \<noteq> lf) (c # s)) \<le> length (c # s)" by (rule length_dropWhile_le)
  then show "(drop 1 (dropWhile (\<lambda>x. x \<noteq> lf) (c # s)), c # s) \<in> measure length" by simp
qed simp

definition drop_newlines :: "string \<Rightarrow> string" where
  "drop_newlines s = rev (dropWhile (\<lambda>c. c = lf) (rev s))"

definition blank :: "char \<Rightarrow> bool" where
  "blank c = (c = CHR '' '' \<or> c = CHR 0x09)"

definition trim :: "string \<Rightarrow> string" where
  "trim s = rev (dropWhile blank (rev (dropWhile blank s)))"

definition starts_with :: "string \<Rightarrow> string \<Rightarrow> bool" where
  "starts_with p s = (take (length p) s = p)"

definition join_values :: "json \<Rightarrow> string \<Rightarrow> string" where
  "join_values values sep =
     (case jitems values of
        [] \<Rightarrow> []
      | v # vs \<Rightarrow> (case v of JStr s \<Rightarrow> s | _ \<Rightarrow> []) @ concat (map (\<lambda>w. sep @ (case w of JStr s \<Rightarrow> s | _ \<Rightarrow> [])) vs))"

section \<open>Facts\<close>

lemma char_prefix_prefix: "\<exists>t. s = char_prefix s n @ t"
  by (induction s n rule: char_prefix.induct) auto

lemma char_prefix_count: "length (filter lead_byte (char_prefix s n)) \<le> n"
  by (induction s n rule: char_prefix.induct) auto

lemma char_prefix_all: "length (filter lead_byte s) \<le> n \<Longrightarrow> char_prefix s n = s"
  by (induction s n rule: char_prefix.induct) auto

lemma trim_no_blanks: "trim s \<noteq> [] \<Longrightarrow> \<not> blank (hd (trim s)) \<and> \<not> blank (List.last (trim s))"
proof -
  let ?a = "dropWhile blank s"
  let ?b = "dropWhile blank (rev ?a)"
  assume "trim s \<noteq> []"
  then have ne: "?b \<noteq> []" by (simp add: trim_def)
  then have l: "\<not> blank (hd ?b)" using hd_dropWhile by blast
  have "rev ?a = takeWhile blank (rev ?a) @ ?b" by simp
  then have a: "?a = rev ?b @ rev (takeWhile blank (rev ?a))" by (metis rev_append rev_rev_ident)
  have "?a \<noteq> []" using ne by (metis dropWhile.simps(1) rev.simps(1))
  then have "\<not> blank (hd ?a)" using hd_dropWhile by blast
  moreover have "hd ?a = hd (rev ?b)" using ne by (subst a) simp
  ultimately show ?thesis using l ne by (simp add: trim_def last_rev)
qed

end
