(* ===== verification/Hook_Saddle.thy ===== *)
theory Hook_Saddle
  imports Hook_Base Unicode_Tables "HOL-Library.Sublist"
begin

text \<open>
  Saddle detection (\<open>hook_saddle_policy.hpp\<close>): a command shape that keeps failing within a
  window of time.  Commands are decoded to code points, brought to a shape (lower case,
  digits collapsed, white space collapsed, 60 characters), and two shapes are similar when
  the blocks they share cover enough of them.
\<close>

section \<open>Code points\<close>

type_synonym utext = "int list"

definition cont_bits :: "char \<Rightarrow> int" where
  "cont_bits c = of_char c mod 64"

definition first_bits :: "char \<Rightarrow> int \<times> nat" where
  "first_bits b =
     (let v = of_char b
      in if v \<ge> 0xf0 then (v mod 8, 3) else if v \<ge> 0xe0 then (v mod 16, 2)
         else if v \<ge> 0xc0 then (v mod 32, 1) else (v, 0))"

function decode :: "string \<Rightarrow> utext" where
  "decode [] = []"
| "decode (b # s) =
     (let (c, n) = first_bits b
      in fold (\<lambda>x c. c * 64 + cont_bits x) (take n s) c # decode (drop n s))"
  by pat_completeness auto
termination by (relation "measure length") auto

declare decode.simps(2) [simp del]

definition uchar :: "int \<Rightarrow> char" where
  "uchar i = char_of (nat (i mod 256))"

definition encode1 :: "int \<Rightarrow> string" where
  "encode1 c =
     (if c < 128 then [uchar c]
      else if c < 2048 then [uchar (192 + c div 64), uchar (128 + c mod 64)]
      else if c < 65536 then [uchar (224 + c div 4096), uchar (128 + c div 64 mod 64), uchar (128 + c mod 64)]
      else [uchar (240 + c div 262144), uchar (128 + c div 4096 mod 64), uchar (128 + c div 64 mod 64), uchar (128 + c mod 64)])"

definition encode :: "utext \<Rightarrow> string" where
  "encode t = concat (map encode1 t)"

abbreviation uspace :: "int \<Rightarrow> bool" where
  "uspace c \<equiv> member_range c uni_space"

definition strip :: "utext \<Rightarrow> utext" where
  "strip t = rev (dropWhile uspace (rev (dropWhile uspace t)))"

fun collapse_loop :: "utext \<Rightarrow> bool \<Rightarrow> utext \<Rightarrow> utext" where
  "collapse_loop [] pending out = out"
| "collapse_loop (c # cs) pending out =
     (if uspace c then collapse_loop cs True out
      else collapse_loop cs False ((if pending \<and> out \<noteq> [] then out @ [32] else out) @ [c]))"

definition collapse :: "utext \<Rightarrow> utext" where
  "collapse t = collapse_loop (strip t) False []"

section \<open>Shapes\<close>

text \<open>The nearest character that casing does not skip is cased; \<open>ps\<close> lists them nearest first.\<close>

fun nearest_cased :: "utext \<Rightarrow> bool" where
  "nearest_cased [] = False"
| "nearest_cased (p # ps) = (if member_range p uni_ignorable then nearest_cased ps else member_range p uni_cased)"

fun lower_range :: "int \<Rightarrow> (int \<times> int \<times> int \<times> int) list \<Rightarrow> int" where
  "lower_range c [] = c"
| "lower_range c ((lo, hi, step, delta) # rs) =
     (if c \<ge> lo \<and> c \<le> hi \<and> (c - lo) mod step = 0 then c + delta else lower_range c rs)"

text \<open>Lower case of one character between what precedes it (nearest first) and what follows.\<close>

definition lower1 :: "utext \<Rightarrow> int \<Rightarrow> utext \<Rightarrow> utext" where
  "lower1 before c after =
     (if c = 304 then [105, 775]
      else if c = 931 \<and> nearest_cased before \<and> \<not> nearest_cased after then [962]
      else [lower_range c uni_lowercase])"

fun lower_text :: "utext \<Rightarrow> utext \<Rightarrow> utext" where
  "lower_text before [] = []"
| "lower_text before (c # cs) = lower1 before c cs @ lower_text (c # before) cs"

fun fold_digits :: "bool \<Rightarrow> utext \<Rightarrow> utext" where
  "fold_digits was [] = []"
| "fold_digits was (c # cs) =
     (if \<not> member_range c uni_decimal then c # fold_digits False cs
      else if \<not> was then 35 # fold_digits True cs else fold_digits True cs)"

definition normalize :: "string \<Rightarrow> utext" where
  "normalize raw = take 60 (collapse (fold_digits False (lower_text [] (strip (decode raw)))))"

section \<open>Similarity\<close>

text \<open>
  One row of the table of common suffixes.  The state is the best block so far (length and
  the two starts) and the row under construction.
\<close>

type_synonym dp = "nat \<times> nat \<times> nat \<times> nat list"

definition dp_cell :: "utext \<Rightarrow> utext \<Rightarrow> nat \<Rightarrow> nat \<Rightarrow> nat list \<Rightarrow> nat \<Rightarrow> dp \<Rightarrow> dp" where
  "dp_cell a b i b0 prev j st =
     (case st of (best, ai, bi, nxt) \<Rightarrow>
        if a ! i = b ! j then
          let n = prev ! (j - b0) + 1; nxt' = nxt[j - b0 + 1 := n]
          in if n > best then (n, i + 1 - n, j + 1 - n, nxt') else (best, ai, bi, nxt')
        else st)"

definition dp_row :: "utext \<Rightarrow> utext \<Rightarrow> nat \<Rightarrow> nat \<Rightarrow> nat \<Rightarrow> dp \<Rightarrow> dp" where
  "dp_row a b b0 b1 i st =
     (case st of (best, ai, bi, prev) \<Rightarrow>
        fold (dp_cell a b i b0 prev) [b0..<b1] (best, ai, bi, replicate (b1 - b0 + 1) 0))"

definition longest_block :: "utext \<Rightarrow> nat \<Rightarrow> nat \<Rightarrow> utext \<Rightarrow> nat \<Rightarrow> nat \<Rightarrow> nat \<times> nat \<times> nat" where
  "longest_block a a0 a1 b b0 b1 =
     (case fold (dp_row a b b0 b1) [a0..<a1] (0, a0, b0, replicate (b1 - b0 + 1) 0) of
        (best, ai, bi, prev) \<Rightarrow> (best, ai, bi))"

definition slice :: "'a list \<Rightarrow> nat \<Rightarrow> nat \<Rightarrow> 'a list" where
  "slice xs i n = take n (drop i xs)"

text \<open>What the table holds when the rows up to \<open>i\<close> are done.\<close>

definition block_ok :: "utext \<Rightarrow> nat \<Rightarrow> nat \<Rightarrow> utext \<Rightarrow> nat \<Rightarrow> nat \<Rightarrow> nat \<times> nat \<times> nat \<Rightarrow> bool" where
  "block_ok a a0 a1 b b0 b1 blk =
     (case blk of (n, ai, bi) \<Rightarrow>
        n = 0 \<or> (a0 \<le> ai \<and> ai + n \<le> a1 \<and> b0 \<le> bi \<and> bi + n \<le> b1 \<and> slice a ai n = slice b bi n))"

definition dp_row_ok :: "utext \<Rightarrow> nat \<Rightarrow> nat \<Rightarrow> utext \<Rightarrow> nat \<Rightarrow> nat \<Rightarrow> nat list \<Rightarrow> bool" where
  "dp_row_ok a a0 i b b0 b1 row =
     (length row = b1 - b0 + 1 \<and>
      (\<forall>k \<le> b1 - b0. row ! k \<le> k \<and> row ! k \<le> i - a0 \<and>
         slice a (i - row ! k) (row ! k) = slice b (b0 + k - row ! k) (row ! k)))"

lemma slice_Suc: "i + n < length xs \<Longrightarrow> slice xs i (Suc n) = slice xs i n @ [xs ! (i + n)]"
  by (simp add: slice_def take_Suc_conv_app_nth)

lemma slice_0 [simp]: "slice xs i 0 = []"
  by (simp add: slice_def)

lemma length_slice: "i + n \<le> length xs \<Longrightarrow> length (slice xs i n) = n"
  by (simp add: slice_def)

lemma dp_row_ok_zero: "dp_row_ok a a0 i b b0 b1 (replicate (b1 - b0 + 1) 0)"
  by (simp add: dp_row_ok_def del: replicate.simps)

lemma dp_cell_ok:
  assumes a: "a0 \<le> i" "i < a1" "a1 \<le> length a" and b: "b0 \<le> j" "j < b1" "b1 \<le> length b"
    and prev: "dp_row_ok a a0 i b b0 b1 prev"
    and st: "dp_row_ok a a0 (Suc i) b b0 b1 nxt" "block_ok a a0 a1 b b0 b1 (best, ai, bi)"
    and r: "dp_cell a b i b0 prev j (best, ai, bi, nxt) = (best', ai', bi', nxt')"
  shows "dp_row_ok a a0 (Suc i) b b0 b1 nxt' \<and> block_ok a a0 a1 b b0 b1 (best', ai', bi')"
proof (cases "a ! i = b ! j")
  case True
  define m where "m = prev ! (j - b0)"
  have k: "j - b0 \<le> b1 - b0" "j - b0 + 1 \<le> b1 - b0" using b by auto
  have m: "m \<le> j - b0" "m \<le> i - a0" "slice a (i - m) m = slice b (j - m) m"
    using prev k(1) b(1) by (auto simp: dp_row_ok_def m_def)
  have s: "slice a (i - m) (m + 1) = slice b (j - m) (m + 1)"
    using m a b True slice_Suc [of "i - m" m a] slice_Suc [of "j - m" m b] by simp
  have nxt: "nxt' = nxt[j - b0 + 1 := m + 1]"
    and blk: "(best', ai', bi') = (if m + 1 > best then (m + 1, i - m, j - m) else (best, ai, bi))"
    using r True by (auto simp: dp_cell_def m_def Let_def split: if_splits)
  have "dp_row_ok a a0 (Suc i) b b0 b1 nxt'"
  proof -
    have "nxt' ! x \<le> x \<and> nxt' ! x \<le> Suc i - a0 \<and>
        slice a (Suc i - nxt' ! x) (nxt' ! x) = slice b (b0 + x - nxt' ! x) (nxt' ! x)" if "x \<le> b1 - b0" for x
    proof (cases "x = j - b0 + 1")
      case True
      then have "nxt' ! x = m + 1" using st(1) k(2) by (simp add: nxt dp_row_ok_def)
      then show ?thesis using True m s a b by (simp add: Suc_diff_le)
    next
      case False
      then show ?thesis using st(1) that by (simp add: nxt dp_row_ok_def)
    qed
    then show ?thesis using st(1) by (simp add: dp_row_ok_def nxt)
  qed
  moreover have "block_ok a a0 a1 b b0 b1 (best', ai', bi')"
  proof (cases "m + 1 > best")
    case True
    moreover have "a0 \<le> i - m" "b0 \<le> j - m" using m a b by arith+
    ultimately show ?thesis using m s a b unfolding blk by (simp add: block_ok_def)
  next
    case False
    then show ?thesis using st(2) unfolding blk by simp
  qed
  ultimately show ?thesis ..
next
  case False
  then show ?thesis using r st by (simp add: dp_cell_def)
qed

definition dp_ok :: "utext \<Rightarrow> nat \<Rightarrow> nat \<Rightarrow> nat \<Rightarrow> utext \<Rightarrow> nat \<Rightarrow> nat \<Rightarrow> dp \<Rightarrow> bool" where
  "dp_ok a a0 a1 i b b0 b1 st =
     (case st of (best, ai, bi, row) \<Rightarrow> dp_row_ok a a0 i b b0 b1 row \<and> block_ok a a0 a1 b b0 b1 (best, ai, bi))"

lemma dp_row_ok:
  assumes "a0 \<le> i" "i < a1" "a1 \<le> length a" "b1 \<le> length b" "dp_ok a a0 a1 i b b0 b1 st"
  shows "dp_ok a a0 a1 (Suc i) b b0 b1 (dp_row a b b0 b1 i st)"
proof -
  obtain best ai bi prev where st: "st = (best, ai, bi, prev)" by (cases st) auto
  have prev: "dp_row_ok a a0 i b b0 b1 prev" and blk: "block_ok a a0 a1 b b0 b1 (best, ai, bi)"
    using assms(5) by (auto simp: dp_ok_def st)
  have "dp_ok a a0 a1 (Suc i) b b0 b1 (fold (dp_cell a b i b0 prev) [b0..<b1] (best, ai, bi, replicate (b1 - b0 + 1) 0))"
  proof (rule fold_invariant [where Q = "\<lambda>j. b0 \<le> j \<and> j < b1"])
    show "dp_ok a a0 a1 (Suc i) b b0 b1 (best, ai, bi, replicate (b1 - b0 + 1) 0)"
      using dp_row_ok_zero blk by (simp only: dp_ok_def prod.case simp_thms)
    fix j t assume j: "b0 \<le> j \<and> j < b1" and t: "dp_ok a a0 a1 (Suc i) b b0 b1 t"
    obtain n x y row where T: "t = (n, x, y, row)" by (cases t) auto
    obtain n' x' y' row' where R: "dp_cell a b i b0 prev j t = (n', x', y', row')" by (metis prod_cases4)
    show "dp_ok a a0 a1 (Suc i) b b0 b1 (dp_cell a b i b0 prev j t)"
      using dp_cell_ok [OF assms(1-3) _ _ assms(4) prev _ _ R [unfolded T]] j t unfolding R by (simp add: dp_ok_def T)
  qed auto
  then show ?thesis by (simp add: dp_row_def st)
qed

lemma longest_block_ok:
  assumes "a1 \<le> length a" "b1 \<le> length b"
  shows "block_ok a a0 a1 b b0 b1 (longest_block a a0 a1 b b0 b1)"
proof (cases "a0 \<le> a1")
  case True
  let ?init = "(0, a0, b0, replicate (b1 - b0 + 1) 0)"
  have "dp_ok a a0 a1 i b b0 b1 (fold (dp_row a b b0 b1) [a0..<i] ?init)" if "a0 \<le> i" "i \<le> a1" for i
    using that
  proof (induction i rule: nat_induct_at_least)
    case base
    then show ?case using dp_row_ok_zero by (simp add: dp_ok_def block_ok_def del: replicate.simps)
  next
    case (Suc n)
    then show ?case using dp_row_ok [of a0 n a1 a b1 b b0] assms by simp
  qed
  from this [OF True order_refl] show ?thesis
    by (auto simp: longest_block_def dp_ok_def split: prod.splits)
next
  case False
  then show ?thesis by (simp add: longest_block_def block_ok_def)
qed

text \<open>
  The recursion on the parts before and after the longest block.  The bounds of the source
  are kept as guards, so that the recursion is well-founded on any arguments.
\<close>

function matching :: "utext \<Rightarrow> nat \<Rightarrow> nat \<Rightarrow> utext \<Rightarrow> nat \<Rightarrow> nat \<Rightarrow> nat" where
  "matching a a0 a1 b b0 b1 =
     (if a1 > length a \<or> b1 > length b then 0
      else case longest_block a a0 a1 b b0 b1 of (best, ai, bi) \<Rightarrow>
        if best = 0 then 0
        else best + (if ai > a0 \<and> bi > b0 then matching a a0 ai b b0 bi else 0)
                  + (if ai + best < a1 \<and> bi + best < b1 then matching a (ai + best) a1 b (bi + best) b1 else 0))"
  by pat_completeness auto
termination
proof (relation "measure (\<lambda>(a, a0, a1, b, b0, b1). a1 - a0)")
  fix a b :: utext and a0 a1 b0 b1 best y ai bi
  assume g: "\<not> (a1 > length a \<or> b1 > length b)"
    and x: "(best, y) = longest_block a a0 a1 b b0 b1" "(ai, bi) = y" "best \<noteq> 0"
  then have "a0 \<le> ai \<and> ai + best \<le> a1"
    using longest_block_ok [of a1 a b1 b a0 b0] by (auto simp: block_ok_def)
  then show "((a, a0, ai, b, b0, bi), a, a0, a1, b, b0, b1) \<in> measure (\<lambda>(a, a0, a1, b, b0, b1). a1 - a0)"
    if "ai > a0 \<and> bi > b0" using that x(3) by simp linarith
  show "((a, ai + best, a1, b, bi + best, b1), a, a0, a1, b, b0, b1) \<in> measure (\<lambda>(a, a0, a1, b, b0, b1). a1 - a0)"
    if "ai + best < a1 \<and> bi + best < b1" using that x(3) \<open>a0 \<le> ai \<and> ai + best \<le> a1\<close> by simp linarith
qed simp

declare matching.simps [simp del]

definition ratio :: "nat \<Rightarrow> utext \<Rightarrow> utext \<Rightarrow> rat" where
  "ratio k a b = 2 * of_nat k / of_nat (length a + length b)"

definition similar :: "utext \<Rightarrow> utext \<Rightarrow> rat \<Rightarrow> bool" where
  "similar a b threshold =
     (if a = b then True
      else if ratio (min (length a) (length b)) a b < threshold then False
      else ratio (matching a 0 (length a) b 0 (length b)) a b \<ge> threshold)"

lemma slice_split3:
  assumes "a0 \<le> i" "i + n \<le> a1"
  shows "slice xs a0 (a1 - a0) = slice xs a0 (i - a0) @ slice xs i n @ slice xs (i + n) (a1 - (i + n))"
proof -
  have "a1 - a0 = (i - a0) + (n + (a1 - (i + n)))" using assms by simp
  then show ?thesis using assms by (simp only: slice_def take_add drop_drop) (simp add: ac_simps)
qed

lemma matching_common:
  "\<exists>zs. length zs = matching a a0 a1 b b0 b1 \<and> subseq zs (slice a a0 (a1 - a0)) \<and> subseq zs (slice b b0 (b1 - b0))"
proof (induction a a0 a1 b b0 b1 rule: matching.induct)
  case (1 a a0 a1 b b0 b1)
  obtain n ai bi where blk: "longest_block a a0 a1 b b0 b1 = (n, ai, bi)" by (metis prod_cases3)
  show ?case
  proof (cases "a1 > length a \<or> b1 > length b \<or> n = 0")
    case True
    then have "matching a a0 a1 b b0 b1 = 0" by (subst matching.simps) (auto simp: blk)
    then show ?thesis by (intro exI [of _ "[]"]) simp
  next
    case False
    let ?l = "if ai > a0 \<and> bi > b0 then matching a a0 ai b b0 bi else 0"
    let ?r = "if ai + n < a1 \<and> bi + n < b1 then matching a (ai + n) a1 b (bi + n) b1 else 0"
    have ok: "a0 \<le> ai" "ai + n \<le> a1" "b0 \<le> bi" "bi + n \<le> b1" "slice a ai n = slice b bi n" "a1 \<le> length a" "b1 \<le> length b"
      using longest_block_ok [of a1 a b1 b a0 b0] False by (auto simp: block_ok_def blk)
    obtain l where l: "length l = ?l" "subseq l (slice a a0 (ai - a0))" "subseq l (slice b b0 (bi - b0))"
      using 1(1) [OF _ blk [symmetric] refl] False by (cases "ai > a0 \<and> bi > b0") auto
    obtain r where r: "length r = ?r" "subseq r (slice a (ai + n) (a1 - (ai + n)))" "subseq r (slice b (bi + n) (b1 - (bi + n)))"
      using 1(2) [OF _ blk [symmetric] refl] False by (cases "ai + n < a1 \<and> bi + n < b1") auto
    have "matching a a0 a1 b b0 b1 = n + ?l + ?r" using False by (subst matching.simps) (simp add: blk)
    moreover have "length (slice a ai n) = n" using ok by (intro length_slice) simp
    ultimately show ?thesis using ok l r
      by (intro exI [of _ "l @ slice a ai n @ r"])
        (simp add: slice_split3 [of a0 ai n a1] slice_split3 [of b0 bi n b1] list_emb_append_mono)
  qed
qed

lemma matching_le: "matching a 0 (length a) b 0 (length b) \<le> min (length a) (length b)"
proof -
  obtain zs where zs: "length zs = matching a 0 (length a) b 0 (length b)"
    "subseq zs (slice a 0 (length a))" "subseq zs (slice b 0 (length b))"
    using matching_common [of a 0 "length a" b 0 "length b"] by auto
  then show ?thesis using list_emb_length by (fastforce simp: slice_def)
qed

text \<open>
  C22: similarity of command shapes.  The number of matching characters is the length of a
  common subsequence of the two shapes, so the cheap test on the lengths never changes the
  answer: two shapes are similar exactly when they are equal or the full comparison reaches
  the threshold.
\<close>

theorem similar_exact:
  "(\<exists>zs. length zs = matching a 0 (length a) b 0 (length b) \<and> subseq zs a \<and> subseq zs b)
   \<and> (similar a b t \<longleftrightarrow> a = b \<or> t \<le> ratio (matching a 0 (length a) b 0 (length b)) a b)"
proof
  show "\<exists>zs. length zs = matching a 0 (length a) b 0 (length b) \<and> subseq zs a \<and> subseq zs b"
    using matching_common [of a 0 "length a" b 0 "length b"] by (simp add: slice_def)
  have "ratio (matching a 0 (length a) b 0 (length b)) a b \<le> ratio (min (length a) (length b)) a b"
    using matching_le [of a b] by (auto simp: ratio_def intro!: divide_right_mono)
  then show "similar a b t \<longleftrightarrow> a = b \<or> t \<le> ratio (matching a 0 (length a) b 0 (length b)) a b"
    by (auto simp: similar_def)
qed

section \<open>Outcomes\<close>

text \<open>Only null, arrays and objects can be empty for the JSON library: every text is true.\<close>

fun truth :: "json \<Rightarrow> bool" where
  "truth JNull = False"
| "truth (JBool b) = b"
| "truth (JInt i) = (i \<noteq> 0)"
| "truth (JFloat r) = (r \<noteq> 0)"
| "truth (JStr s) = True"
| "truth (JArr xs) = (xs \<noteq> [])"
| "truth (JObj m) = (m \<noteq> [])"

fun ascii_digit :: "(int \<times> int) list \<Rightarrow> int \<Rightarrow> int" where
  "ascii_digit [] c = c"
| "ascii_digit ((lo, hi) # rs) c = (if c \<ge> lo \<and> c \<le> hi then 48 + (c - lo) mod 10 else ascii_digit rs c)"

text \<open>The pattern \<open>^[+-]?[0-9]+(_[0-9]+)*$\<close>; \<open>b\<close> says that the last character was a digit.\<close>

fun digit_groups :: "bool \<Rightarrow> string \<Rightarrow> bool" where
  "digit_groups b [] = b"
| "digit_groups b (c # s) =
     (if is_digit c then digit_groups True s else if c = CHR ''_'' \<and> b then digit_groups False s else False)"

definition int_literal :: "string \<Rightarrow> bool" where
  "int_literal s = digit_groups False (if s \<noteq> [] \<and> (hd s = CHR ''+'' \<or> hd s = CHR ''-'') then tl s else s)"

definition failed :: "json \<Rightarrow> bool" where
  "failed row =
     (case jidx row ''exit_code'' of
        JNull \<Rightarrow> truth (jidx row ''likely_fail'')
      | JBool b \<Rightarrow> b
      | JInt i \<Rightarrow> trunc_rat (of_int i) \<noteq> 0
      | JFloat r \<Rightarrow> trunc_rat r \<noteq> 0
      | JStr s \<Rightarrow>
          let number = encode (map (ascii_digit uni_decimal) (strip (decode s)))
          in if \<not> int_literal number then False else (\<exists>c \<in> set number. c \<in> set ''123456789'')
      | _ \<Rightarrow> False)"

definition succeeded :: "json \<Rightarrow> bool" where
  "succeeded row =
     (case jidx row ''exit_code'' of JInt i \<Rightarrow> i = 0 | JFloat r \<Rightarrow> r = 0 | JBool b \<Rightarrow> \<not> b | JStr s \<Rightarrow> s = ''0'' | _ \<Rightarrow> False)"

section \<open>Detection\<close>

definition num_of :: "json \<Rightarrow> rat" where
  "num_of j = (case j of JInt i \<Rightarrow> of_int i | JFloat r \<Rightarrow> r | _ \<Rightarrow> 0)"

definition ts_of :: "json \<Rightarrow> rat" where
  "ts_of r = num_of (jidx r ''ts'')"

definition session_ok :: "string \<Rightarrow> bool" where
  "session_ok s = (s \<noteq> [] \<and> list_all (\<lambda>c. is_alnum c \<or> c = CHR ''_'' \<or> c = CHR ''-'') s)"

definition in_window :: "string \<Rightarrow> rat \<Rightarrow> rat \<Rightarrow> json \<Rightarrow> bool" where
  "in_window session now minutes r =
     (is_object r \<and> str0 r ''session_id'' = session \<and> str0 r ''event'' = ''bash_outcome''
      \<and> jcontains r ''ts'' \<and> is_number (jidx r ''ts'') \<and> jcontains r ''cmd_head'' \<and> is_string (jidx r ''cmd_head'')
      \<and> \<not> (ts_of r < now - minutes * 60000 \<or> ts_of r > now) \<and> strip (decode (str0 r ''cmd_head'')) \<noteq> [])"

definition shape_of :: "json \<Rightarrow> utext" where
  "shape_of r = normalize (str0 r ''cmd_head'')"

type_synonym group = "utext \<times> json list"

fun add_fail :: "rat \<Rightarrow> json \<Rightarrow> group list \<Rightarrow> group list" where
  "add_fail t r [] = [(shape_of r, [r])]"
| "add_fail t r ((sh, fs) # gs) = (if similar sh (shape_of r) t then (sh, fs @ [r]) # gs else (sh, fs) # add_fail t r gs)"

definition group_event :: "rat \<Rightarrow> json \<Rightarrow> group list \<Rightarrow> group list" where
  "group_event t r gs =
     (if failed r then add_fail t r gs
      else if succeeded r then filter (\<lambda>(sh, fs). \<not> similar sh (shape_of r) t) gs
      else gs)"

definition groups_of :: "rat \<Rightarrow> json list \<Rightarrow> group list" where
  "groups_of t es = fold (group_event t) es []"

fun pick_winner :: "nat \<Rightarrow> (utext \<Rightarrow> bool) \<Rightarrow> group list \<Rightarrow> group option \<Rightarrow> group option" where
  "pick_winner k ok [] w = w"
| "pick_winner k ok ((sh, fs) # gs) w =
     (if length fs < k \<or> \<not> ok sh then pick_winner k ok gs w
      else case w of
        None \<Rightarrow> pick_winner k ok gs (Some (sh, fs))
      | Some (sh', fs') \<Rightarrow>
          if ts_of (List.last fs) > ts_of (List.last fs') then pick_winner k ok gs (Some (sh, fs))
          else pick_winner k ok gs w)"

fun get_unsigned :: "json \<Rightarrow> nat res" where
  "get_unsigned (JInt i) = Inr (nat (i mod 2 ^ 32))"
| "get_unsigned (JFloat r) = Inr (nat (trunc_rat r mod 2 ^ 32))"
| "get_unsigned (JBool b) = Inr (if b then 1 else 0)"
| "get_unsigned j = Inl Type_error"

text \<open>The excerpt of the last error; the multiplication sign of the message is two bytes.\<close>

definition error_excerpt :: "jlib \<Rightarrow> json \<Rightarrow> string" where
  "error_excerpt lib r =
     (let err = jidx r ''stderr_head'';
          raw = (if truth err then (case err of JStr s \<Rightarrow> s | _ \<Rightarrow> jdump lib err) else ''error unavailable'')
      in encode (take 160 (collapse (decode raw))))"

definition episode :: "jlib \<Rightarrow> (rat \<Rightarrow> string) \<Rightarrow> string \<Rightarrow> rat \<Rightarrow> group \<Rightarrow> json" where
  "episode lib show_double session minutes w =
     (case w of (sh, fs) \<Rightarrow>
        let f = hd fs; l = List.last fs; e = error_excerpt lib l
        in jobj [(''saddle_id'', JStr (session @ '':'' @ jdump lib (jidx f ''ts'') @ '':'' @ encode sh)),
                 (''start_ts'', jidx f ''ts''), (''end_ts'', jidx l ''ts''),
                 (''n_fails'', JInt (int (length fs))), (''escaped'', JBool False),
                 (''cmd_head'', JStr (char_prefix (str0 f ''cmd_head'') 80)), (''stderr_head'', JStr e),
                 (''window_minutes'', JFloat minutes),
                 (''message'', JStr (''[saddle] this command shape failed '' @ dec_of (length fs) @ [cc 0xC3, cc 0x97] @ '' in ''
                    @ show_double minutes @ '' min (last: '' @ e
                    @ ''). Change approach or read the error before retrying.''))])"

definition detect :: "jlib \<Rightarrow> (rat \<Rightarrow> string) \<Rightarrow> json \<Rightarrow> json res" where
  "detect lib show_double a =
     (let session = str0 a ''session_id''
      in if \<not> session_ok session then Inr JNull
         else
           rbind (jvalue_dbl a ''now_ms'' 0) (\<lambda>now.
           rbind (jvalue_dbl a ''minutes'' 7) (\<lambda>minutes.
           rbind (jvalue_dbl a ''similarity'' (4 / 5)) (\<lambda>threshold.
           rbind (jvalue a ''events'' (JArr [])) (\<lambda>events.
             let es = sort_key ts_of (filter (in_window session now minutes) (jitems events));
                 gs = groups_of threshold es;
                 has_cmd = (jcontains a ''cmd'' \<and> jidx a ''cmd'' \<noteq> JNull);
                 cmd = normalize (str0 a ''cmd'')
             in rbind (if gs = [] then Inr 0 else rbind (jvalue a ''min_fails'' (JInt 3)) get_unsigned) (\<lambda>k.
                  case pick_winner k (\<lambda>sh. \<not> has_cmd \<or> similar sh cmd threshold) gs None of
                    None \<Rightarrow> Inr JNull
                  | Some w \<Rightarrow> Inr (episode lib show_double session minutes w)))))))"

lemma truth_empty_text: "truth (JStr [])"
  by simp

section \<open>What detection reports\<close>

text \<open>
  The failures of a group are among the events since the group's first failure, and no
  event since then with a similar shape has succeeded.
\<close>

definition group_ok :: "rat \<Rightarrow> json list \<Rightarrow> group \<Rightarrow> bool" where
  "group_ok t es g =
     (case g of (sh, fs) \<Rightarrow> \<exists>pre post. es = pre @ post \<and> fs \<noteq> [] \<and> subseq fs post
        \<and> (\<forall>r \<in> set fs. failed r \<and> similar sh (shape_of r) t)
        \<and> (\<forall>r \<in> set post. succeeded r \<and> \<not> failed r \<longrightarrow> \<not> similar sh (shape_of r) t))"

lemma similar_refl [simp]: "similar a a t"
  by (simp add: similar_def)

lemma group_ok_extend:
  assumes "group_ok t es (sh, fs)" "succeeded r \<and> \<not> failed r \<Longrightarrow> \<not> similar sh (shape_of r) t"
  shows "group_ok t (es @ [r]) (sh, fs)"
proof -
  from assms(1) obtain pre post where "es = pre @ post" "fs \<noteq> []" "subseq fs post"
    "\<forall>r \<in> set fs. failed r \<and> similar sh (shape_of r) t"
    "\<forall>r \<in> set post. succeeded r \<and> \<not> failed r \<longrightarrow> \<not> similar sh (shape_of r) t"
    by (auto simp: group_ok_def)
  then have "es @ [r] = pre @ (post @ [r]) \<and> fs \<noteq> [] \<and> subseq fs (post @ [r])
      \<and> (\<forall>r \<in> set fs. failed r \<and> similar sh (shape_of r) t)
      \<and> (\<forall>x \<in> set (post @ [r]). succeeded x \<and> \<not> failed x \<longrightarrow> \<not> similar sh (shape_of x) t)"
    using assms(2) by (auto intro: list_emb_append2)
  then show ?thesis unfolding group_ok_def prod.case by blast
qed

lemma group_ok_fail:
  assumes "group_ok t es (sh, fs)" "failed r" "similar sh (shape_of r) t"
  shows "group_ok t (es @ [r]) (sh, fs @ [r])"
proof -
  from assms(1) obtain pre post where "es = pre @ post" "fs \<noteq> []" "subseq fs post"
    "\<forall>r \<in> set fs. failed r \<and> similar sh (shape_of r) t"
    "\<forall>r \<in> set post. succeeded r \<and> \<not> failed r \<longrightarrow> \<not> similar sh (shape_of r) t"
    by (auto simp: group_ok_def)
  then have "es @ [r] = pre @ (post @ [r]) \<and> fs @ [r] \<noteq> [] \<and> subseq (fs @ [r]) (post @ [r])
      \<and> (\<forall>x \<in> set (fs @ [r]). failed x \<and> similar sh (shape_of x) t)
      \<and> (\<forall>x \<in> set (post @ [r]). succeeded x \<and> \<not> failed x \<longrightarrow> \<not> similar sh (shape_of x) t)"
    using assms(2,3) by auto
  then show ?thesis unfolding group_ok_def prod.case by blast
qed

lemma group_ok_new: "failed r \<Longrightarrow> group_ok t (es @ [r]) (shape_of r, [r])"
  unfolding group_ok_def prod.case by (intro exI [of _ es] exI [of _ "[r]"]) simp

lemma add_fail_ok:
  assumes "failed r" "\<forall>g \<in> set gs. group_ok t es g"
  shows "\<forall>g \<in> set (add_fail t r gs). group_ok t (es @ [r]) g"
  using assms
proof (induction t r gs rule: add_fail.induct)
  case (1 t r)
  then show ?case using group_ok_new by simp
next
  case (2 t r sh fs gs)
  have "group_ok t (es @ [r]) g" if "g \<in> set gs" for g
    using 2(2,3) that by (cases g) (auto intro: group_ok_extend)
  then show ?case using 2 group_ok_fail [of t es sh fs r] group_ok_extend [of t es sh fs r] by auto
qed

lemma groups_of_ok: "g \<in> set (groups_of t es) \<Longrightarrow> group_ok t es g"
proof (induction es arbitrary: g rule: rev_induct)
  case Nil
  then show ?case by (simp add: groups_of_def)
next
  case (snoc r es)
  have all: "\<forall>g \<in> set (groups_of t es). group_ok t es g" using snoc.IH by blast
  have g: "g \<in> set (group_event t r (groups_of t es))" using snoc.prems by (simp add: groups_of_def)
  obtain sh fs where [simp]: "g = (sh, fs)" by force
  show ?case
  proof (cases "failed r")
    case True
    then show ?thesis using g add_fail_ok [OF True all] by (simp add: group_event_def)
  next
    case False
    then have "group_ok t es g" "succeeded r \<Longrightarrow> \<not> similar sh (shape_of r) t"
      using g all by (auto simp: group_event_def split: if_splits)
    then show ?thesis using group_ok_extend by simp
  qed
qed

lemma pick_winner_spec:
  "pick_winner k ok gs w = Some g \<Longrightarrow>
   w = Some g \<or> (g \<in> set gs \<and> k \<le> length (snd g) \<and> ok (fst g))"
proof (induction gs arbitrary: w)
  case Nil
  then show ?case by simp
next
  case (Cons h gs)
  obtain sh fs where h: "h = (sh, fs)" by force
  have "\<exists>w'. (w' = w \<or> w' = Some (sh, fs) \<and> k \<le> length fs \<and> ok sh) \<and> pick_winner k ok gs w' = Some g"
    using Cons.prems by (auto simp: h not_less split: if_splits option.splits prod.splits)
  with Cons.IH show ?case by (fastforce simp: h)
qed

text \<open>
  C23: what a saddle report means.  When detection reports an episode, it is that of at least
  the configured number of failures of one command shape: they are bash outcomes of the
  session inside the window, in order of time, all similar to the shape (and the current
  command is, when there is one), and no similar command has succeeded since the first of
  them.
\<close>

theorem saddle_detect_sound:
  assumes "detect lib show_double a = Inr d" "d \<noteq> JNull"
  shows "\<exists>now minutes t events k sh fs pre post.
     jvalue_dbl a ''now_ms'' 0 = Inr now \<and> jvalue_dbl a ''minutes'' 7 = Inr minutes
     \<and> jvalue_dbl a ''similarity'' (4 / 5) = Inr t \<and> jvalue a ''events'' (JArr []) = Inr events
     \<and> rbind (jvalue a ''min_fails'' (JInt 3)) get_unsigned = Inr k
     \<and> pre @ post = sort_key ts_of (filter (in_window (str0 a ''session_id'') now minutes) (jitems events))
     \<and> subseq fs post \<and> fs \<noteq> [] \<and> k \<le> length fs
     \<and> (\<forall>r \<in> set fs. failed r \<and> similar sh (shape_of r) t)
     \<and> (\<forall>r \<in> set post. succeeded r \<and> \<not> failed r \<longrightarrow> \<not> similar sh (shape_of r) t)
     \<and> (jidx a ''cmd'' = JNull \<or> similar sh (normalize (str0 a ''cmd'')) t)
     \<and> d = episode lib show_double (str0 a ''session_id'') minutes (sh, fs)"
proof -
  let ?s = "str0 a ''session_id''"
  from assms obtain now minutes t events where
    v: "jvalue_dbl a ''now_ms'' 0 = Inr now" "jvalue_dbl a ''minutes'' 7 = Inr minutes"
       "jvalue_dbl a ''similarity'' (4 / 5) = Inr t" "jvalue a ''events'' (JArr []) = Inr events" and ok: "session_ok ?s"
    unfolding detect_def Let_def by (auto simp: rbind_eq_Inr split: if_splits)
  define es where "es = sort_key ts_of (filter (in_window ?s now minutes) (jitems events))"
  define fit where "fit = (\<lambda>sh. \<not> (jcontains a ''cmd'' \<and> jidx a ''cmd'' \<noteq> JNull) \<or> similar sh (normalize (str0 a ''cmd'')) t)"
  have d: "rbind (if groups_of t es = [] then Inr 0 else rbind (jvalue a ''min_fails'' (JInt 3)) get_unsigned) (\<lambda>k.
      case pick_winner k fit (groups_of t es) None of None \<Rightarrow> Inr JNull
      | Some w \<Rightarrow> Inr (episode lib show_double ?s minutes w)) = Inr d"
    using assms(1) unfolding detect_def Let_def es_def fit_def
    by (simp only: v ok rbind_Inr not_True_eq_False if_False)
  have ne: "groups_of t es \<noteq> []" using d assms(2) by (auto split: if_splits)
  then have "rbind (rbind (jvalue a ''min_fails'' (JInt 3)) get_unsigned) (\<lambda>k.
      case pick_winner k fit (groups_of t es) None of None \<Rightarrow> Inr JNull
      | Some w \<Rightarrow> Inr (episode lib show_double ?s minutes w)) = Inr d" using d by simp
  then obtain k where k: "rbind (jvalue a ''min_fails'' (JInt 3)) get_unsigned = Inr k"
    "(case pick_winner k fit (groups_of t es) None of None \<Rightarrow> Inr JNull
      | Some w \<Rightarrow> Inr (episode lib show_double ?s minutes w)) = (Inr d :: json res)"
    by (subst (asm) rbind_eq_Inr, elim exE conjE) (rule that, assumption, assumption)
  with assms(2) obtain sh fs where w: "pick_winner k fit (groups_of t es) None = Some (sh, fs)"
    "d = episode lib show_double ?s minutes (sh, fs)" by (auto split: option.splits)
  from pick_winner_spec [OF w(1)] have g: "(sh, fs) \<in> set (groups_of t es)" "k \<le> length fs" "fit sh" by auto
  from groups_of_ok [OF g(1)] obtain pre post where p: "es = pre @ post" "fs \<noteq> []" "subseq fs post"
    "\<forall>r \<in> set fs. failed r \<and> similar sh (shape_of r) t"
    "\<forall>r \<in> set post. succeeded r \<and> \<not> failed r \<longrightarrow> \<not> similar sh (shape_of r) t"
    by (auto simp: group_ok_def)
  have c: "jidx a ''cmd'' = JNull \<or> similar sh (normalize (str0 a ''cmd'')) t"
    using g(3) by (auto simp: fit_def jcontains_def jidx_def)
  show ?thesis
    apply (rule exI [of _ now], rule exI [of _ minutes], rule exI [of _ t], rule exI [of _ events], rule exI [of _ k])
    apply (rule exI [of _ sh], rule exI [of _ fs], rule exI [of _ pre], rule exI [of _ post])
    using v k(1) p g(2) w(2) c unfolding es_def by simp
qed

definition demo_row :: "int \<Rightarrow> json" where
  "demo_row t = JObj [(''cmd_head'', JStr ''x''), (''event'', JStr ''bash_outcome''), (''exit_code'', JInt 1),
                       (''session_id'', JStr ''s''), (''ts'', JInt t)]"

definition demo_saddle :: json where
  "demo_saddle = JObj [(''events'', JArr [demo_row 3, demo_row 1, demo_row 2]), (''now_ms'', JInt 3), (''session_id'', JStr ''s'')]"

lemma demo_shape: "normalize ''x'' = [120]" "strip (decode ''x'') \<noteq> []"
  by code_simp+

lemma demo_window: "in_window ''s'' 3 7 (demo_row t)" if "t \<in> {1, 2, 3}"
  using that by (auto simp: in_window_def demo_row_def field_str_def jfind_def om_get_def jcontains_def jidx_def ts_of_def
      num_of_def demo_shape)

lemma demo_failed: "failed (demo_row t)" "shape_of (demo_row t) = [120]"
  by (simp_all add: failed_def shape_of_def demo_row_def field_str_def jfind_def om_get_def jidx_def trunc_rat_def demo_shape)

lemma demo_groups: "groups_of (4 / 5) [demo_row 1, demo_row 2, demo_row 3] = [([120], [demo_row 1, demo_row 2, demo_row 3])]"
  by (simp add: groups_of_def group_event_def demo_failed)

lemma demo_sorted: "sort_key ts_of [demo_row 3, demo_row 1, demo_row 2] = [demo_row 1, demo_row 2, demo_row 3]"
  by (simp add: ts_of_def num_of_def demo_row_def jidx_def jfind_def om_get_def)

lemma demo_detect:
  "detect lib show_double demo_saddle =
     Inr (episode lib show_double ''s'' 7 ([120], [demo_row 1, demo_row 2, demo_row 3]))"
proof -
  have f: "str0 demo_saddle ''session_id'' = ''s''" "session_ok ''s''" "\<not> jcontains demo_saddle ''cmd''"
    "jvalue_dbl demo_saddle ''now_ms'' 0 = Inr 3" "jvalue_dbl demo_saddle ''minutes'' 7 = Inr 7"
    "jvalue_dbl demo_saddle ''similarity'' (4 / 5) = Inr (4 / 5)"
    "jvalue demo_saddle ''events'' (JArr []) = Inr (JArr [demo_row 3, demo_row 1, demo_row 2])"
    "jvalue demo_saddle ''min_fails'' (JInt 3) = Inr (JInt 3)"
    by (simp_all add: demo_saddle_def field_str_def jfind_def om_get_def session_ok_def is_alnum_def is_alpha_def is_lower_def
        jcontains_def jvalue_dbl_def jvalue_def)
  show ?thesis
    unfolding detect_def Let_def by (simp add: f demo_window demo_sorted demo_groups del: sort_key_simps)
qed

theorem saddle_detect_sound_witness:
  "\<exists>minutes t k sh fs. rbind (jvalue demo_saddle ''min_fails'' (JInt 3)) get_unsigned = Inr k \<and> k \<le> length fs
     \<and> jvalue_dbl demo_saddle ''similarity'' (4 / 5) = Inr t \<and> (\<forall>r \<in> set fs. failed r)
     \<and> episode \<lparr>jdump = (\<lambda>j. []), jparse = (\<lambda>t. None), fnmatch = (\<lambda>p t. False)\<rparr> (\<lambda>r. []) ''s'' 7
           ([120], [demo_row 1, demo_row 2, demo_row 3])
       = episode \<lparr>jdump = (\<lambda>j. []), jparse = (\<lambda>t. None), fnmatch = (\<lambda>p t. False)\<rparr> (\<lambda>r. [])
           (str0 demo_saddle ''session_id'') minutes (sh, fs)"
proof -
  let ?l = "\<lparr>jdump = (\<lambda>j. []), jparse = (\<lambda>t. None), fnmatch = (\<lambda>p t. False)\<rparr>"
  have n: "episode ?l (\<lambda>r. []) ''s'' 7 ([120], [demo_row 1, demo_row 2, demo_row 3]) \<noteq> JNull"
    by (simp add: episode_def jobj_def Let_def)
  show ?thesis
    using saddle_detect_sound [OF demo_detect n] by (elim exE conjE) (intro exI conjI, assumption+, simp, assumption)
qed

lemma uchar_of: "0 \<le> v \<Longrightarrow> v < 256 \<Longrightarrow> of_char (uchar v) = v"
proof -
  assume v: "0 \<le> v" "v < 256"
  have "(of_char (uchar v) :: int) = int (of_char (uchar v))" by (simp only: of_nat_of_char)
  also have "\<dots> = int (nat v mod 256)" using v by (simp only: uchar_def of_char_of mod_pos_pos_trivial)
  finally show ?thesis using v by simp
qed

lemma div_chain:
  fixes c :: int
  shows "c div 4096 = c div 64 div 64" "c div 262144 = c div 64 div 64 div 64"
  by (simp_all add: zdiv_zmult2_eq [symmetric])

lemma mod_small:
  fixes z :: int
  assumes "0 \<le> z"
  shows "z < 32 \<Longrightarrow> (192 + z) mod 32 = z" "z < 16 \<Longrightarrow> (224 + z) mod 16 = z" "z < 8 \<Longrightarrow> (240 + z) mod 8 = z"
  using assms by presburger+

lemma decode_encode1:
  assumes "0 \<le> c" "c < 2 ^ 21"
  shows "decode (encode1 c @ s) = c # decode s"
proof -
  have cont: "(128 + z mod 64) mod 64 = z mod 64" for z :: int
    using mod_mult_self1 [of "z mod 64" 2 64] by (simp add: add.commute [of 128])
  have p: "0 \<le> c div 64" "0 \<le> c div 64 div 64" "0 \<le> c div 64 div 64 div 64"
    using assms by (simp_all add: pos_imp_zdiv_nonneg_iff)
  consider (a) "c < 128" | (b) "128 \<le> c" "c < 2048" | (c) "2048 \<le> c" "c < 65536" | (d) "65536 \<le> c" by linarith
  then show ?thesis
  proof cases
    case a
    then show ?thesis using assms by (simp add: encode1_def first_bits_def uchar_of Let_def decode.simps(2))
  next
    case b
    then have "c div 64 < 32" by simp
    then show ?thesis using b p
      by (simp add: encode1_def first_bits_def uchar_of Let_def cont_bits_def decode.simps(2) mod_small cont)
  next
    case c
    then have "c div 64 div 64 < 16" by simp
    then show ?thesis using c p
      by (simp add: encode1_def first_bits_def uchar_of Let_def cont_bits_def decode.simps(2) mod_small cont div_chain)
  next
    case d
    define z where "z = c div 262144"
    define y where "y = c div 4096 mod 64"
    define x where "x = c div 64 mod 64"
    define w where "w = c mod 64"
    note zyxw = z_def y_def x_def w_def
    have r: "0 \<le> y" "y < 64" "0 \<le> x" "x < 64" "0 \<le> w" "w < 64" unfolding zyxw by simp_all
    have z: "0 \<le> z" "z < 8" using assms(2) p(3) unfolding zyxw div_chain by simp_all
    have c: "((z * 64 + y) * 64 + x) * 64 + w = c" unfolding zyxw div_chain by simp
    have e: "encode1 c = [uchar (240 + z), uchar (128 + y), uchar (128 + x), uchar (128 + w)]"
      using d unfolding zyxw encode1_def by simp
    have "first_bits (uchar (240 + z)) = (z, 3)" using z by (simp add: first_bits_def uchar_of Let_def mod_small)
    moreover have "cont_bits (uchar (128 + v)) = v" if "0 \<le> v" "v < 64" for v
      using that cont [of v] by (simp add: cont_bits_def uchar_of)
    ultimately show ?thesis using r c unfolding e by (simp add: decode.simps(2) eval_nat_numeral)
  qed
qed

lemma decode_encode: "\<forall>c \<in> set t. 0 \<le> c \<and> c < 2 ^ 21 \<Longrightarrow> decode (encode t) = t"
proof (induction t)
  case Nil
  then show ?case by (simp add: encode_def)
next
  case (Cons c t)
  then have "decode (encode1 c @ encode t) = c # decode (encode t)" by (intro decode_encode1) auto
  with Cons show ?case by (simp add: encode_def)
qed

end
