(* ===== verification/Hook_Ledger.thy ===== *)
theory Hook_Ledger
  imports Hook_Base Lexical_Path
begin

text \<open>
  Handoff capsules and cards (\<open>hook_ledger_policy.hpp\<close>): the capsule a session leaves for
  the next one, its validation and its compare-and-set revision, the choice of the latest
  capsule of a stream, and the texts shown when a session starts.  The JSON library's
  printing and parsing are fields of \<open>jlib\<close>; the files of a repository are an argument.
\<close>

section \<open>Identity of a repository\<close>

type_synonym files = "string \<Rightarrow> string option"

definition canonical_repository :: "string \<Rightarrow> string" where
  "canonical_repository path =
     lexically_normal (if starts_with ''/maps/projects/'' path then drop 5 path else path)"

definition first_line_of :: "files \<Rightarrow> string \<Rightarrow> string" where
  "first_line_of fs path =
     (case fs path of None \<Rightarrow> [] | Some t \<Rightarrow> (case getlines t of [] \<Rightarrow> [] | l # _ \<Rightarrow> l))"

text \<open>A line of \<open>packed-refs\<close> is a hash of 40 characters, a space and the name; the last match wins.\<close>

definition packed_ref :: "string \<Rightarrow> string list \<Rightarrow> string \<Rightarrow> string" where
  "packed_ref ref ls hd0 = fold (\<lambda>l h. if length l > 41 \<and> drop 41 l = ref then take 40 l else h) ls hd0"

definition git_identity :: "files \<Rightarrow> string \<Rightarrow> json" where
  "git_identity fs project =
     (let dir0 = path_append project ''.git'';
          link = first_line_of fs dir0;
          dir = (if starts_with ''gitdir: '' link then
                   (let d = drop 8 link in if is_relative d then path_append project d else d)
                 else dir0);
          common_link = first_line_of fs (path_append dir ''commondir'');
          common0 = (if common_link = [] then dir
                     else if is_relative common_link then path_append dir common_link else common_link);
          common = lexically_normal common0;
          head0 = first_line_of fs (path_append dir ''HEAD'');
          head1 = (if starts_with ''ref: '' head0 then
                     (let ref = drop 5 head0; h = first_line_of fs (path_append common ref)
                      in if h \<noteq> [] then h
                         else packed_ref ref (case fs (path_append common ''packed-refs'') of None \<Rightarrow> [] | Some t \<Rightarrow> getlines t) [])
                   else head0);
          head = (if length head1 \<noteq> 40 \<and> length head1 \<noteq> 64 then [] else head1);
          name = filename project;
          stream = (if starts_with ''codex-wt-'' name then drop 9 name else [])
      in jobj [(''repository'', JStr (canonical_repository common)), (''code_head'', JStr head), (''stream_id'', JStr stream)])"

section \<open>Capsules\<close>

definition metadata :: "jlib \<Rightarrow> json \<Rightarrow> json res" where
  "metadata lib row =
     (if \<not> is_object row then Inr (JObj [])
      else rbind (jvalue_str row ''metadata_json'' ''{}'') (\<lambda>s.
             Inr (case jparse lib s of Some (JObj m) \<Rightarrow> JObj m | _ \<Rightarrow> JObj [])))"

definition row_handoff :: "jlib \<Rightarrow> json \<Rightarrow> json res" where
  "row_handoff lib row = rbind (metadata lib row) (\<lambda>m. jvalue m ''handoff'' (JObj []))"

fun get_u64 :: "json \<Rightarrow> nat res" where
  "get_u64 (JInt i) = Inr (nat (i mod 2 ^ 64))"
| "get_u64 (JFloat r) = Inr (nat (trunc_rat r mod 2 ^ 64))"
| "get_u64 j = Inl Type_error"

definition jvalue_u64 :: "json \<Rightarrow> string \<Rightarrow> nat res" where
  "jvalue_u64 j k = rbind (jvalue j k (JInt 0)) get_u64"

definition capsule_key :: "json \<Rightarrow> string" where
  "capsule_key cap =
     canonical_repository (str0 cap ''repository'') @ [lf]
     @ (if str0 cap ''stream_id'' = [] then ''session:'' @ str0 cap ''session_id'' else ''stream:'' @ str0 cap ''stream_id'')"

definition latest_step :: "jlib \<Rightarrow> string \<Rightarrow> json \<Rightarrow> json \<Rightarrow> json res" where
  "latest_step lib key row latest =
     rbind (row_handoff lib row) (\<lambda>cap.
     rbind (jvalue_int cap ''version'' 0) (\<lambda>v.
       if v = 2 \<and> capsule_key cap = key then
         rbind (jvalue_u64 cap ''revision'') (\<lambda>r.
         rbind (jvalue_u64 latest ''revision'') (\<lambda>l. Inr (if r > l then cap else latest)))
       else Inr latest))"

definition latest_by_key :: "jlib \<Rightarrow> json \<Rightarrow> json \<Rightarrow> json res" where
  "latest_by_key lib rows key = res_fold (latest_step lib (capsule_key key)) (jitems rows) (JObj [])"

definition manifest_step :: "jlib \<Rightarrow> string \<Rightarrow> json \<Rightarrow> (string, json) omap \<Rightarrow> (string, json) omap res" where
  "manifest_step lib repository row latest =
     rbind (row_handoff lib row) (\<lambda>cap.
     rbind (jvalue_int cap ''version'' 0) (\<lambda>v.
       if v \<noteq> 2 \<or> str0 cap ''repository'' \<noteq> canonical_repository repository then Inr latest
       else case om_get latest (capsule_key cap) of
         None \<Rightarrow> Inr (om_put (capsule_key cap) cap latest)
       | Some old \<Rightarrow>
           rbind (jvalue_u64 cap ''revision'') (\<lambda>r.
           rbind (jvalue_u64 old ''revision'') (\<lambda>l.
             Inr (if r > l then om_put (capsule_key cap) cap latest else latest)))))"

definition pick_fields :: "string list \<Rightarrow> json \<Rightarrow> json res" where
  "pick_fields ks cap = res_fold (\<lambda>k row. rbind (jat cap k) (\<lambda>v. Inr (jset k v row))) ks JNull"

definition manifest_fields :: "string list" where
  "manifest_fields = [''stream_id'', ''session_id'', ''branch'', ''code_head'', ''state'', ''revision'', ''next_action'']"

definition manifest_json :: "json list \<Rightarrow> nat \<Rightarrow> json" where
  "manifest_json streams omitted = jobj [(''streams'', JArr streams), (''omitted'', JInt (int omitted))]"

definition admit_stream :: "jlib \<Rightarrow> string \<times> json \<Rightarrow> json list \<times> nat \<Rightarrow> (json list \<times> nat) res" where
  "admit_stream lib e st =
     (case (e, st) of ((key, cap), (streams, omitted)) \<Rightarrow>
        rbind (pick_fields manifest_fields cap) (\<lambda>row.
          Inr (if length (jdump lib (manifest_json (streams @ [row]) (omitted - 1))) \<le> 450
               then (streams @ [row], omitted - 1) else (streams, omitted))))"

definition capsule_manifest :: "jlib \<Rightarrow> json \<Rightarrow> string \<Rightarrow> json res" where
  "capsule_manifest lib rows repository =
     rbind (res_fold (manifest_step lib repository) (jitems rows) []) (\<lambda>latest.
     rbind (res_fold (admit_stream lib) latest ([], length latest)) (\<lambda>st. Inr (manifest_json (fst st) (snd st))))"

definition is_empty :: "json \<Rightarrow> bool" where
  "is_empty j = (j = JNull \<or> j = JArr [] \<or> j = JObj [])"

definition capsule_card :: "jlib \<Rightarrow> json \<Rightarrow> string res" where
  "capsule_card lib cap =
     (if is_empty cap then Inr []
      else rbind (pick_fields [''stream_id'', ''session_id'', ''state'', ''revision'', ''code_head'', ''next_action''] cap) (\<lambda>card.
             Inr (''[handoff]'' @ [lf] @ jdump lib card @ [lf] @ ''[/handoff]'')))"

section \<open>Validation\<close>

definition bounded_text :: "json \<Rightarrow> nat \<Rightarrow> string \<Rightarrow> unit res" where
  "bounded_text v n name =
     (case v of JStr s \<Rightarrow> guard_res (length s \<le> n) (Invalid_argument (''capsule field limit: '' @ name))
      | _ \<Rightarrow> Inl (Invalid_argument (''capsule field limit: '' @ name)))"

definition text_limits :: "(string \<times> nat) list" where
  "text_limits = [(''objective'', 384), (''repository'', 384), (''project_dir'', 384), (''session_id'', 128),
                  (''stream_id'', 96), (''branch'', 128), (''code_head'', 64), (''next_action'', 400)]"

definition array_limits :: "(string \<times> nat \<times> nat) list" where
  "array_limits = [(''constraints'', 4, 128), (''dirty_paths'', 20, 128), (''blockers'', 3, 160)]"

definition copy_text :: "json \<Rightarrow> string \<times> nat \<Rightarrow> json \<Rightarrow> json res" where
  "copy_text input fl out =
     (case fl of (field, bound) \<Rightarrow>
        rbind (jvalue input field (JStr [])) (\<lambda>v.
        rbind (bounded_text v bound field) (\<lambda>_. Inr (jset field v out))))"

fun check_all :: "('a \<Rightarrow> unit res) \<Rightarrow> 'a list \<Rightarrow> unit res" where
  "check_all f [] = Inr ()"
| "check_all f (x # xs) = rbind (f x) (\<lambda>_. check_all f xs)"

definition copy_array :: "json \<Rightarrow> string \<times> nat \<times> nat \<Rightarrow> json \<Rightarrow> json res" where
  "copy_array input fl out =
     (case fl of (field, cnt, len) \<Rightarrow>
        rbind (jvalue input field (JArr [])) (\<lambda>v.
          case v of
            JArr xs \<Rightarrow>
              rbind (guard_res (length xs \<le> cnt) (Invalid_argument (''capsule array limit: '' @ field))) (\<lambda>_.
              rbind (check_all (\<lambda>x. bounded_text x len field) xs) (\<lambda>_. Inr (jset field v out)))
          | _ \<Rightarrow> Inl (Invalid_argument (''capsule array limit: '' @ field))))"

definition check_gate :: "string \<times> json \<Rightarrow> unit res" where
  "check_gate ng =
     (case ng of (name, gate) \<Rightarrow>
        rbind (bounded_text (JStr name) 48 ''gate name'') (\<lambda>_.
          guard_res (is_object gate \<and> length (jfields gate) = 2 \<and> jcontains gate ''number'' \<and> is_number (jidx gate ''number'')
                     \<and> (str0 gate ''status'' = ''pass'' \<or> str0 gate ''status'' = ''fail''))
            (Invalid_argument ''gate requires status pass/fail and one number'')))"

definition copy_gates :: "json \<Rightarrow> json \<Rightarrow> json res" where
  "copy_gates input out =
     rbind (jvalue input ''gates'' (JObj [])) (\<lambda>v.
     rbind (guard_res (is_object v \<and> length (jfields v) \<le> 6) (Invalid_argument ''capsule gate limit'')) (\<lambda>_.
     rbind (check_all check_gate (jfields v)) (\<lambda>_. Inr (jset ''gates'' v out))))"

definition check_job :: "json \<Rightarrow> unit res" where
  "check_job job =
     rbind (guard_res (is_object job \<and> length (jfields job) = 2) (Invalid_argument ''invalid capsule job'')) (\<lambda>_.
     rbind (jat job ''id'') (\<lambda>v. rbind (bounded_text v 64 ''job id'') (\<lambda>_.
     rbind (jat job ''result_path'') (\<lambda>w. bounded_text w 192 ''job result path''))))"

definition copy_jobs :: "json \<Rightarrow> json \<Rightarrow> json res" where
  "copy_jobs input out =
     rbind (jvalue input ''jobs'' (JArr [])) (\<lambda>v.
       case v of
         JArr xs \<Rightarrow>
           rbind (guard_res (length xs \<le> 4) (Invalid_argument ''capsule job limit'')) (\<lambda>_.
           rbind (check_all check_job xs) (\<lambda>_. Inr (jset ''jobs'' v out)))
       | _ \<Rightarrow> Inl (Invalid_argument ''capsule job limit''))"

definition capsule_states :: "string list" where
  "capsule_states = [''complete'', ''in_progress'', ''missing'', ''invalidated'']"

definition capsule_v2 :: "jlib \<Rightarrow> json \<Rightarrow> nat \<Rightarrow> rat \<Rightarrow> json res" where
  "capsule_v2 lib input revision now =
     rbind (res_fold (copy_text input) text_limits
              (jobj [(''version'', JInt 2), (''revision'', JInt (int revision)), (''saved_at'', JFloat now)])) (\<lambda>out0.
     let out1 = jset ''repository'' (JStr (canonical_repository (str0 out0 ''repository''))) out0 in
     rbind (guard_res (\<not> (str0 out1 ''repository'' = [] \<or> (str0 out1 ''stream_id'' = [] \<and> str0 out1 ''session_id'' = [])))
              (Invalid_argument ''capsule repository and stream/session key required'')) (\<lambda>_.
     rbind (jvalue_str input ''state'' ''in_progress'') (\<lambda>state.
     rbind (guard_res (state \<in> set capsule_states) (Invalid_argument ''invalid capsule state'')) (\<lambda>_.
     rbind (res_fold (copy_array input) array_limits (jset ''state'' (JStr state) out1)) (\<lambda>out2.
     rbind (copy_gates input out2) (\<lambda>out3.
     rbind (copy_jobs input out3) (\<lambda>out4.
     rbind (guard_res (length (jdump lib out4) \<le> 4096) (Invalid_argument ''capsule exceeds 4096 bytes'')) (\<lambda>_. Inr out4))))))))"

section \<open>Well-formed capsules\<close>

definition text_field :: "json \<Rightarrow> string \<Rightarrow> nat \<Rightarrow> bool" where
  "text_field j k n = (case jfind j k of Some (JStr s) \<Rightarrow> length s \<le> n | _ \<Rightarrow> False)"

definition text_array :: "json \<Rightarrow> string \<Rightarrow> nat \<Rightarrow> nat \<Rightarrow> bool" where
  "text_array j k c n =
     (case jfind j k of
        Some (JArr xs) \<Rightarrow> length xs \<le> c \<and> list_all (\<lambda>x. case x of JStr s \<Rightarrow> length s \<le> n | _ \<Rightarrow> False) xs
      | _ \<Rightarrow> False)"

definition gate_ok :: "string \<times> json \<Rightarrow> bool" where
  "gate_ok ng = (length (fst ng) \<le> 48 \<and> is_object (snd ng) \<and> length (jfields (snd ng)) = 2
     \<and> is_number (jidx (snd ng) ''number'') \<and> str0 (snd ng) ''status'' \<in> {''pass'', ''fail''})"

definition job_ok :: "json \<Rightarrow> bool" where
  "job_ok j = (is_object j \<and> length (jfields j) = 2 \<and> text_field j ''id'' 64 \<and> text_field j ''result_path'' 192)"

text \<open>The type of a stored capsule: which fields it has, of which kind and how long (in bytes).\<close>

definition capsule_ok :: "jlib \<Rightarrow> json \<Rightarrow> bool" where
  "capsule_ok lib cap =
     (jok cap \<and> jfind cap ''version'' = Some (JInt 2)
      \<and> text_field cap ''objective'' 384 \<and> text_field cap ''repository'' 384 \<and> text_field cap ''project_dir'' 384
      \<and> text_field cap ''session_id'' 128 \<and> text_field cap ''stream_id'' 96 \<and> text_field cap ''branch'' 128
      \<and> text_field cap ''code_head'' 64 \<and> text_field cap ''next_action'' 400
      \<and> str0 cap ''repository'' \<noteq> [] \<and> (str0 cap ''stream_id'' \<noteq> [] \<or> str0 cap ''session_id'' \<noteq> [])
      \<and> jfind cap ''state'' \<in> Some ` JStr ` {''complete'', ''in_progress'', ''missing'', ''invalidated''}
      \<and> text_array cap ''constraints'' 4 128 \<and> text_array cap ''dirty_paths'' 20 128 \<and> text_array cap ''blockers'' 3 160
      \<and> (case jfind cap ''gates'' of Some (JObj m) \<Rightarrow> length m \<le> 6 \<and> list_all gate_ok m | _ \<Rightarrow> False)
      \<and> (case jfind cap ''jobs'' of Some (JArr xs) \<Rightarrow> length xs \<le> 4 \<and> list_all job_ok xs | _ \<Rightarrow> False)
      \<and> length (jdump lib cap) \<le> 4096)"

text \<open>What a capsule takes from the request: the field is there, with the value given or else the default.\<close>

definition takes :: "json \<Rightarrow> json \<Rightarrow> json \<Rightarrow> string \<Rightarrow> bool" where
  "takes input d cap k = (\<exists>v. jvalue input k d = Inr v \<and> jfind cap k = Some v)"

text \<open>A fold of steps that each set one field of their own.\<close>

lemma res_fold_fields:
  assumes step: "\<And>x out out'. f x out = Inr out' \<Longrightarrow> \<exists>v. out' = jset (key x) v out \<and> Q x v"
    and "res_fold f xs out = Inr out'" "jok out" "distinct (map key xs)"
  shows "jok out' \<and> (\<forall>x \<in> set xs. \<exists>v. jfind out' (key x) = Some v \<and> Q x v)
     \<and> (\<forall>k. k \<notin> key ` set xs \<longrightarrow> jfind out' k = jfind out k)"
  using assms(2-4)
proof (induction xs arbitrary: out)
  case Nil
  then show ?case by simp
next
  case (Cons x xs)
  from Cons.prems(1) obtain mid where m: "f x out = Inr mid" "res_fold f xs mid = Inr out'" by (auto simp: rbind_eq_Inr)
  from step [OF m(1)] obtain v where v: "mid = jset (key x) v out" "Q x v" by blast
  have ih: "jok out' \<and> (\<forall>y \<in> set xs. \<exists>v. jfind out' (key y) = Some v \<and> Q y v)
     \<and> (\<forall>k. k \<notin> key ` set xs \<longrightarrow> jfind out' k = jfind mid k)"
    using Cons.prems m(2) v(1) by (intro Cons.IH) auto
  moreover have "jfind out' (key x) = Some v" using ih Cons.prems v(1) by auto
  ultimately show ?case using Cons.prems v by auto
qed

lemma bounded_text_ok [simp]: "bounded_text v n name = Inr u \<longleftrightarrow> (\<exists>s. v = JStr s \<and> length s \<le> n)"
  by (cases v) (auto simp: bounded_text_def)

lemma check_all_ok: "check_all f xs = Inr u \<longleftrightarrow> (\<forall>x \<in> set xs. f x = Inr ())"
  by (induction xs) (auto simp: rbind_eq_Inr)

lemma copy_text_step:
  "copy_text input x out = Inr out' \<Longrightarrow> \<exists>v. out' = jset (fst x) v out
     \<and> (jvalue input (fst x) (JStr []) = Inr v \<and> (\<exists>s. v = JStr s \<and> length s \<le> snd x))"
  by (auto simp: copy_text_def rbind_eq_Inr split: prod.splits)

lemma copy_array_step:
  "copy_array input x out = Inr out' \<Longrightarrow> \<exists>v. out' = jset (fst x) v out
     \<and> (jvalue input (fst x) (JArr []) = Inr v
        \<and> (\<exists>xs. v = JArr xs \<and> length xs \<le> fst (snd x) \<and> (\<forall>y \<in> set xs. \<exists>s. y = JStr s \<and> length s \<le> snd (snd x))))"
proof -
  assume a: "copy_array input x out = Inr out'"
  obtain f c n where x: "x = (f, c, n)" by (cases x) auto
  from a obtain v where "jvalue input f (JArr []) = Inr v" "copy_array input x out = Inr out'"
    by (auto simp: copy_array_def x rbind_eq_Inr)
  then show ?thesis by (cases v) (auto simp: copy_array_def x rbind_eq_Inr check_all_ok)
qed

lemma check_gate_ok: "check_gate ng = Inr u \<Longrightarrow> gate_ok ng"
  by (cases ng) (auto simp: check_gate_def gate_ok_def rbind_eq_Inr)

lemma check_job_ok: "check_job j = Inr u \<Longrightarrow> job_ok j"
  by (auto simp: check_job_def job_ok_def rbind_eq_Inr jat_def text_field_def split: option.splits if_splits)

lemma copy_gates_ok:
  assumes "copy_gates input out = Inr out'"
  shows "\<exists>m. out' = jset ''gates'' (JObj m) out \<and> jvalue input ''gates'' (JObj []) = Inr (JObj m) \<and> length m \<le> 6 \<and> list_all gate_ok m"
proof -
  from assms obtain v where v: "is_object v" "length (jfields v) \<le> 6" "\<forall>x \<in> set (jfields v). check_gate x = Inr ()"
    "out' = jset ''gates'' v out" "jvalue input ''gates'' (JObj []) = Inr v"
    by (auto simp: copy_gates_def rbind_eq_Inr check_all_ok)
  then show ?thesis using check_gate_ok by (cases v) (auto simp: list_all_iff)
qed

lemma copy_jobs_ok:
  assumes "copy_jobs input out = Inr out'"
  shows "\<exists>xs. out' = jset ''jobs'' (JArr xs) out \<and> jvalue input ''jobs'' (JArr []) = Inr (JArr xs) \<and> length xs \<le> 4 \<and> list_all job_ok xs"
proof -
  from assms obtain v where "jvalue input ''jobs'' (JArr []) = Inr v" by (auto simp: copy_jobs_def rbind_eq_Inr)
  then show ?thesis using assms check_job_ok
    by (cases v) (auto simp: copy_jobs_def rbind_eq_Inr check_all_ok list_all_iff)
qed

text \<open>The stages of \<open>capsule_v2\<close>.\<close>

lemma capsule_v2_stages:
  assumes "capsule_v2 lib input revision now = Inr cap"
  obtains out0 out2 st m xs where
    "res_fold (copy_text input) text_limits
       (jobj [(''version'', JInt 2), (''revision'', JInt (int revision)), (''saved_at'', JFloat now)]) = Inr out0"
    "canonical_repository (str0 out0 ''repository'') \<noteq> []" "str0 out0 ''stream_id'' \<noteq> [] \<or> str0 out0 ''session_id'' \<noteq> []"
    "st \<in> set capsule_states"
    "res_fold (copy_array input) array_limits
       (jset ''state'' (JStr st) (jset ''repository'' (JStr (canonical_repository (str0 out0 ''repository''))) out0)) = Inr out2"
    "jvalue_str input ''state'' ''in_progress'' = Inr st" "cap = jset ''jobs'' (JArr xs) (jset ''gates'' (JObj m) out2)"
    "length m \<le> 6" "list_all gate_ok m" "length xs \<le> 4" "list_all job_ok xs" "length (jdump lib cap) \<le> 4096"
    "jvalue input ''gates'' (JObj []) = Inr (JObj m)" "jvalue input ''jobs'' (JArr []) = Inr (JArr xs)"
proof -
  from assms obtain out0 st out2 out3 where s: "res_fold (copy_text input) text_limits
       (jobj [(''version'', JInt 2), (''revision'', JInt (int revision)), (''saved_at'', JFloat now)]) = Inr out0"
    "\<not> (str0 (jset ''repository'' (JStr (canonical_repository (str0 out0 ''repository''))) out0) ''repository'' = []
       \<or> (str0 (jset ''repository'' (JStr (canonical_repository (str0 out0 ''repository''))) out0) ''stream_id'' = []
          \<and> str0 (jset ''repository'' (JStr (canonical_repository (str0 out0 ''repository''))) out0) ''session_id'' = []))"
    "st \<in> set capsule_states"
    "res_fold (copy_array input) array_limits
       (jset ''state'' (JStr st) (jset ''repository'' (JStr (canonical_repository (str0 out0 ''repository''))) out0)) = Inr out2"
    and v: "jvalue_str input ''state'' ''in_progress'' = Inr st"
    and g: "copy_gates input out2 = Inr out3" and j: "copy_jobs input out3 = Inr cap" and d: "length (jdump lib cap) \<le> 4096"
    by (auto simp: capsule_v2_def rbind_eq_Inr Let_def)
  let ?init = "jobj [(''version'', JInt 2), (''revision'', JInt (int revision)), (''saved_at'', JFloat now)]"
  have "jok ?init" by simp
  have "jok out0" using res_fold_fields [OF copy_text_step s(1) \<open>jok ?init\<close>] by (simp add: text_limits_def)
  with s(2) have k: "canonical_repository (str0 out0 ''repository'') \<noteq> []" "str0 out0 ''stream_id'' \<noteq> [] \<or> str0 out0 ''session_id'' \<noteq> []"
    by (simp_all add: field_str_def)
  from copy_gates_ok [OF g] obtain m where m: "out3 = jset ''gates'' (JObj m) out2" "length m \<le> 6" "list_all gate_ok m"
    "jvalue input ''gates'' (JObj []) = Inr (JObj m)" by blast
  from copy_jobs_ok [OF j] obtain xs where x: "cap = jset ''jobs'' (JArr xs) out3" "length xs \<le> 4" "list_all job_ok xs"
    "jvalue input ''jobs'' (JArr []) = Inr (JArr xs)" by blast
  show thesis
    by (rule that [of out0 st out2 xs m]) (use s(1,3,4) k v m x d in \<open>simp_all\<close>)
qed

lemma length_canonical: "length (canonical_repository p) \<le> length p"
proof -
  have "length (canonical_repository p) \<le> length (if starts_with ''/maps/projects/'' p then drop 5 p else p)"
    unfolding canonical_repository_def by (rule length_lexically_normal)
  also have "\<dots> \<le> length p" by simp
  finally show ?thesis .
qed

text \<open>Each field of a validated capsule: the ones given, and what becomes of those of the request.\<close>

lemma capsule_v2_finds:
  assumes "capsule_v2 lib input revision now = Inr cap"
  shows "jok cap" "jfind cap ''version'' = Some (JInt 2)" "jfind cap ''revision'' = Some (JInt (int revision))"
    "jfind cap ''saved_at'' = Some (JFloat now)"
    "(f, n) \<in> set text_limits \<Longrightarrow> f \<noteq> ''repository'' \<Longrightarrow>
       \<exists>s. jvalue input f (JStr []) = Inr (JStr s) \<and> jfind cap f = Some (JStr s) \<and> length s \<le> n"
    "\<exists>s. jvalue input ''repository'' (JStr []) = Inr (JStr s)
       \<and> jfind cap ''repository'' = Some (JStr (canonical_repository s)) \<and> length s \<le> 384 \<and> canonical_repository s \<noteq> []"
    "\<exists>st \<in> set capsule_states. jvalue_str input ''state'' ''in_progress'' = Inr st \<and> jfind cap ''state'' = Some (JStr st)"
    "(f, c, n) \<in> set array_limits \<Longrightarrow>
       \<exists>xs. jvalue input f (JArr []) = Inr (JArr xs) \<and> jfind cap f = Some (JArr xs) \<and> length xs \<le> c
         \<and> (\<forall>y \<in> set xs. \<exists>s. y = JStr s \<and> length s \<le> n)"
    "\<exists>m. jvalue input ''gates'' (JObj []) = Inr (JObj m) \<and> jfind cap ''gates'' = Some (JObj m) \<and> length m \<le> 6 \<and> list_all gate_ok m"
    "\<exists>xs. jvalue input ''jobs'' (JArr []) = Inr (JArr xs) \<and> jfind cap ''jobs'' = Some (JArr xs) \<and> length xs \<le> 4 \<and> list_all job_ok xs"
    "str0 cap ''stream_id'' \<noteq> [] \<or> str0 cap ''session_id'' \<noteq> []" "length (jdump lib cap) \<le> 4096"
proof -
  from assms obtain out0 out2 st m xs where 1:
    "res_fold (copy_text input) text_limits
       (jobj [(''version'', JInt 2), (''revision'', JInt (int revision)), (''saved_at'', JFloat now)]) = Inr out0"
    "canonical_repository (str0 out0 ''repository'') \<noteq> []" "str0 out0 ''stream_id'' \<noteq> [] \<or> str0 out0 ''session_id'' \<noteq> []"
    "st \<in> set capsule_states"
    "res_fold (copy_array input) array_limits
       (jset ''state'' (JStr st) (jset ''repository'' (JStr (canonical_repository (str0 out0 ''repository''))) out0)) = Inr out2"
    "jvalue_str input ''state'' ''in_progress'' = Inr st" "cap = jset ''jobs'' (JArr xs) (jset ''gates'' (JObj m) out2)"
    "length m \<le> 6" "list_all gate_ok m" "length xs \<le> 4" "list_all job_ok xs" "length (jdump lib cap) \<le> 4096"
    "jvalue input ''gates'' (JObj []) = Inr (JObj m)" "jvalue input ''jobs'' (JArr []) = Inr (JArr xs)"
    by (rule capsule_v2_stages)
  let ?init = "jobj [(''version'', JInt 2), (''revision'', JInt (int revision)), (''saved_at'', JFloat now)]"
  let ?r = "JStr (canonical_repository (str0 out0 ''repository''))"
  have f0: "jok out0 \<and> (\<forall>x \<in> set text_limits. \<exists>v. jfind out0 (fst x) = Some v
       \<and> (jvalue input (fst x) (JStr []) = Inr v \<and> (\<exists>s. v = JStr s \<and> length s \<le> snd x)))
     \<and> (\<forall>k. k \<notin> fst ` set text_limits \<longrightarrow> jfind out0 k = jfind ?init k)"
    by (rule res_fold_fields [OF copy_text_step 1(1)]) (simp_all add: text_limits_def)
  have j1: "jok (jset ''state'' (JStr st) (jset ''repository'' ?r out0))" using f0 by simp
  have f2: "jok out2 \<and> (\<forall>x \<in> set array_limits. \<exists>v. jfind out2 (fst x) = Some v
       \<and> (jvalue input (fst x) (JArr []) = Inr v
          \<and> (\<exists>xs. v = JArr xs \<and> length xs \<le> fst (snd x) \<and> (\<forall>y \<in> set xs. \<exists>s. y = JStr s \<and> length s \<le> snd (snd x)))))
     \<and> (\<forall>k. k \<notin> fst ` set array_limits \<longrightarrow> jfind out2 k = jfind (jset ''state'' (JStr st) (jset ''repository'' ?r out0)) k)"
    by (rule res_fold_fields [OF copy_array_step 1(5) j1]) (simp_all add: array_limits_def)
  have cap: "jfind cap k = (if k = ''jobs'' then Some (JArr xs) else if k = ''gates'' then Some (JObj m) else jfind out2 k)" for k
    using f2 1(7) by simp
  have o2: "jfind out2 k = (if k = ''state'' then Some (JStr st) else if k = ''repository'' then Some ?r else jfind out0 k)"
    if "k \<notin> fst ` set array_limits" for k
    using f0 f2 that by simp
  have txt0: "\<exists>s. jvalue input f (JStr []) = Inr (JStr s) \<and> jfind out0 f = Some (JStr s) \<and> length s \<le> n"
    if "(f, n) \<in> set text_limits" for f n using f0 that by force
  show "jok cap" using 1(7) f2 by simp
  have init: "jfind ?init ''version'' = Some (JInt 2)" "jfind ?init ''revision'' = Some (JInt (int revision))"
    "jfind ?init ''saved_at'' = Some (JFloat now)"
    by (simp_all add: jobj_def jfind_def om_get_def om_of_list_def)
  have "jfind out0 k = jfind ?init k" if "k \<in> {''version'', ''revision'', ''saved_at''}" for k
    using f0 that by (auto simp: text_limits_def)
  with init show "jfind cap ''version'' = Some (JInt 2)" "jfind cap ''revision'' = Some (JInt (int revision))"
    "jfind cap ''saved_at'' = Some (JFloat now)" by (simp_all add: cap o2 array_limits_def)
  have keep: "jfind cap f = jfind out0 f" if "(f, n) \<in> set text_limits" "f \<noteq> ''repository''" for f n
  proof -
    have "\<forall>x \<in> set text_limits. fst x \<notin> fst ` set array_limits \<and> fst x \<notin> {''jobs'', ''gates'', ''state''}"
      by (simp add: text_limits_def array_limits_def)
    with that(1) have "f \<notin> fst ` set array_limits" "f \<notin> {''jobs'', ''gates'', ''state''}" by force+
    then show ?thesis using that(2) by (simp add: cap o2)
  qed
  show "\<exists>s. jvalue input f (JStr []) = Inr (JStr s) \<and> jfind cap f = Some (JStr s) \<and> length s \<le> n"
    if "(f, n) \<in> set text_limits" "f \<noteq> ''repository''" for f n
    using txt0 [OF that(1)] keep [OF that] by simp
  obtain s where s: "jvalue input ''repository'' (JStr []) = Inr (JStr s)" "jfind out0 ''repository'' = Some (JStr s)" "length s \<le> 384"
    using txt0 [of "''repository''" 384] by (auto simp: text_limits_def)
  have "jfind cap ''repository'' = Some ?r" by (simp add: cap o2 array_limits_def)
  with s 1(2) show "\<exists>s. jvalue input ''repository'' (JStr []) = Inr (JStr s)
       \<and> jfind cap ''repository'' = Some (JStr (canonical_repository s)) \<and> length s \<le> 384 \<and> canonical_repository s \<noteq> []"
    by (auto simp: field_str_def)
  show "\<exists>st \<in> set capsule_states. jvalue_str input ''state'' ''in_progress'' = Inr st \<and> jfind cap ''state'' = Some (JStr st)"
    using 1(4,6) by (simp add: cap o2 array_limits_def)
  show "\<exists>xs. jvalue input f (JArr []) = Inr (JArr xs) \<and> jfind cap f = Some (JArr xs) \<and> length xs \<le> c
         \<and> (\<forall>y \<in> set xs. \<exists>s. y = JStr s \<and> length s \<le> n)" if "(f, c, n) \<in> set array_limits" for f c n
  proof -
    have "\<forall>x \<in> set array_limits. fst x \<notin> {''jobs'', ''gates''}" by (simp add: array_limits_def)
    with that have "f \<noteq> ''jobs''" "f \<noteq> ''gates''" by force+
    then show ?thesis using f2 that by (force simp: cap)
  qed
  show "\<exists>m. jvalue input ''gates'' (JObj []) = Inr (JObj m) \<and> jfind cap ''gates'' = Some (JObj m) \<and> length m \<le> 6 \<and> list_all gate_ok m"
    "\<exists>xs. jvalue input ''jobs'' (JArr []) = Inr (JArr xs) \<and> jfind cap ''jobs'' = Some (JArr xs) \<and> length xs \<le> 4 \<and> list_all job_ok xs"
    using 1(8-11,13,14) by (simp_all add: cap)
  show "str0 cap ''stream_id'' \<noteq> [] \<or> str0 cap ''session_id'' \<noteq> []"
    using 1(3) by (simp add: field_str_def cap o2 array_limits_def)
  show "length (jdump lib cap) \<le> 4096" by (rule 1(12))
qed

lemma capsule_v2_text:
  "capsule_v2 lib input revision now = Inr cap \<Longrightarrow> (f, n) \<in> set text_limits \<Longrightarrow> f \<noteq> ''repository'' \<Longrightarrow>
     text_field cap f n \<and> takes input (JStr []) cap f"
  using capsule_v2_finds(5) [of lib input revision now cap f n] by (auto simp: text_field_def takes_def)

lemma capsule_v2_array:
  "capsule_v2 lib input revision now = Inr cap \<Longrightarrow> (f, c, n) \<in> set array_limits \<Longrightarrow>
     text_array cap f c n \<and> takes input (JArr []) cap f"
  using capsule_v2_finds(8) [of lib input revision now cap f c n]
  by (fastforce simp: text_array_def takes_def list_all_iff)

lemma capsule_v2_ok:
  assumes "capsule_v2 lib input revision now = Inr cap"
  shows "capsule_ok lib cap \<and> jfind cap ''revision'' = Some (JInt (int revision)) \<and> jfind cap ''saved_at'' = Some (JFloat now)
     \<and> jvalue_str input ''state'' ''in_progress'' = Inr (str0 cap ''state'')"
proof -
  note v = capsule_v2_finds [OF assms]
  have t: "text_field cap ''objective'' 384" "text_field cap ''project_dir'' 384" "text_field cap ''session_id'' 128"
    "text_field cap ''stream_id'' 96" "text_field cap ''branch'' 128" "text_field cap ''code_head'' 64" "text_field cap ''next_action'' 400"
    using capsule_v2_text [OF assms] by (simp_all add: text_limits_def)
  have a: "text_array cap ''constraints'' 4 128" "text_array cap ''dirty_paths'' 20 128" "text_array cap ''blockers'' 3 160"
    using capsule_v2_array [OF assms] by (simp_all add: array_limits_def)
  from v(6) obtain s where "jfind cap ''repository'' = Some (JStr (canonical_repository s))" "length s \<le> 384" "canonical_repository s \<noteq> []"
    by blast
  with length_canonical [of s] have r: "text_field cap ''repository'' 384" "str0 cap ''repository'' \<noteq> []"
    by (simp_all add: text_field_def field_str_def)
  from v(7) obtain st where st: "st \<in> set capsule_states" "jvalue_str input ''state'' ''in_progress'' = Inr st" "jfind cap ''state'' = Some (JStr st)"
    by blast
  then have "jfind cap ''state'' \<in> Some ` JStr ` {''complete'', ''in_progress'', ''missing'', ''invalidated''}"
    by (auto simp: capsule_states_def)
  moreover have "str0 cap ''state'' = st" using st(3) by (simp add: field_str_def)
  moreover have "case jfind cap ''gates'' of Some (JObj m) \<Rightarrow> length m \<le> 6 \<and> list_all gate_ok m | _ \<Rightarrow> False"
    "case jfind cap ''jobs'' of Some (JArr xs) \<Rightarrow> length xs \<le> 4 \<and> list_all job_ok xs | _ \<Rightarrow> False"
    using v(9,10) by auto
  ultimately have "capsule_ok lib cap" unfolding capsule_ok_def using v(1,2,11,12) t a r by (intro conjI) assumption+
  with v(3,4) st(2) \<open>str0 cap ''state'' = st\<close> show ?thesis by simp
qed

lemma capsule_v2_takes:
  assumes "capsule_v2 lib input revision now = Inr cap"
  shows "takes input (JStr ''in_progress'') cap ''state''" "takes input (JObj []) cap ''gates''"
    "takes input (JStr []) cap ''objective''" "takes input (JArr []) cap ''constraints''" "takes input (JArr []) cap ''jobs''"
    "takes input (JStr []) cap ''next_action''" "takes input (JArr []) cap ''dirty_paths''" "takes input (JStr []) cap ''code_head''"
    "takes input (JStr []) cap ''project_dir''" "takes input (JStr []) cap ''session_id''" "takes input (JStr []) cap ''stream_id''"
    "takes input (JStr []) cap ''branch''" "takes input (JArr []) cap ''blockers''"
proof -
  note v = capsule_v2_finds [OF assms]
  from v(7) obtain st where "jvalue_str input ''state'' ''in_progress'' = Inr st" "jfind cap ''state'' = Some (JStr st)" by blast
  then show "takes input (JStr ''in_progress'') cap ''state''"
    by (auto simp: takes_def jvalue_str_def rbind_eq_Inr)
  show "takes input (JObj []) cap ''gates''" "takes input (JArr []) cap ''jobs''" using v(9,10) by (auto simp: takes_def)
qed (rule capsule_v2_text [OF assms, THEN conjunct2] capsule_v2_array [OF assms, THEN conjunct2],
    simp add: text_limits_def array_limits_def, simp?)+

text \<open>
  C24: what validation guarantees.  A capsule that passes has the eight text fields, the three
  arrays of texts, at most six gates with a status and a number and at most four jobs with an
  id and a path, each within the limits of its field, a repository and a stream or session to
  file it under, one of the four states, at most 4096 bytes when printed, and the revision and
  time it was given.  Every field is the one of the request or its default, except that the
  path of the repository is made canonical.
\<close>

theorem capsule_v2_typed:
  assumes "capsule_v2 lib input revision now = Inr cap"
  shows "capsule_ok lib cap \<and> jfind cap ''revision'' = Some (JInt (int revision)) \<and> jfind cap ''saved_at'' = Some (JFloat now)
    \<and> list_all (takes input (JStr []) cap)
        [''objective'', ''project_dir'', ''session_id'', ''stream_id'', ''branch'', ''code_head'', ''next_action'']
    \<and> takes input (JStr ''in_progress'') cap ''state''
    \<and> list_all (takes input (JArr []) cap) [''constraints'', ''dirty_paths'', ''blockers'', ''jobs'']
    \<and> takes input (JObj []) cap ''gates''
    \<and> (\<exists>r. jvalue_str input ''repository'' [] = Inr r \<and> jfind cap ''repository'' = Some (JStr (canonical_repository r)))"
proof -
  have "\<exists>r. jvalue_str input ''repository'' [] = Inr r \<and> jfind cap ''repository'' = Some (JStr (canonical_repository r))"
    using capsule_v2_finds(6) [OF assms] by (auto simp: jvalue_str_def)
  then show ?thesis using capsule_v2_ok [OF assms] capsule_v2_takes [OF assms] by simp
qed

definition demo_input :: json where
  "demo_input = JObj [(''repository'', JStr ''/r''), (''session_id'', JStr ''s'')]"

definition demo_clib :: jlib where
  "demo_clib = \<lparr>jdump = (\<lambda>j. []), jparse = (\<lambda>t. None), fnmatch = (\<lambda>p t. False)\<rparr>"

lemma demo_capsule: "\<exists>cap. capsule_v2 demo_clib demo_input 1 0 = Inr cap"
proof -
  have "case capsule_v2 demo_clib demo_input 1 0 of Inr c \<Rightarrow> True | Inl e \<Rightarrow> False" by code_simp
  then show ?thesis by (auto split: sum.splits)
qed

theorem capsule_v2_typed_witness:
  "\<exists>cap. capsule_v2 demo_clib demo_input 1 0 = Inr cap \<and> capsule_ok demo_clib cap \<and> jfind cap ''revision'' = Some (JInt 1)"
proof -
  obtain cap where c: "capsule_v2 demo_clib demo_input 1 0 = Inr cap" using demo_capsule ..
  then show ?thesis using capsule_v2_typed [OF c] by simp
qed

section \<open>The latest capsule\<close>

lemma latest_step_cases:
  assumes "latest_step lib key row latest = Inr l'"
  shows "l' = latest \<or> (row_handoff lib row = Inr l' \<and> jvalue_int l' ''version'' 0 = Inr 2 \<and> capsule_key l' = key)"
  using assms by (auto simp: latest_step_def rbind_eq_Inr split: if_splits)

lemma latest_step_revision:
  assumes "latest_step lib key row latest = Inr l'" "jvalue_u64 latest ''revision'' = Inr n"
  obtains n' where "jvalue_u64 l' ''revision'' = Inr n'" "n \<le> n'"
    "\<And>c r. row_handoff lib row = Inr c \<Longrightarrow> jvalue_int c ''version'' 0 = Inr 2 \<Longrightarrow> capsule_key c = key \<Longrightarrow>
       jvalue_u64 c ''revision'' = Inr r \<Longrightarrow> r \<le> n'"
proof -
  from assms(1) obtain c v where c: "row_handoff lib row = Inr c" "jvalue_int c ''version'' 0 = Inr v"
    by (auto simp: latest_step_def rbind_eq_Inr)
  show thesis
  proof (cases "v = 2 \<and> capsule_key c = key")
    case True
    with assms c obtain r where r: "jvalue_u64 c ''revision'' = Inr r" "l' = (if r > n then c else latest)"
      by (auto simp: latest_step_def rbind_eq_Inr)
    show thesis by (rule that [of "max r n"]) (use r c assms(2) in \<open>auto simp: max_def\<close>)
  next
    case False
    with assms c have "l' = latest" by (auto simp: latest_step_def)
    then show thesis by (intro that [of n]) (use assms(2) c False in auto)
  qed
qed

definition capsule_of :: "jlib \<Rightarrow> string \<Rightarrow> json \<Rightarrow> json \<Rightarrow> nat \<Rightarrow> bool" where
  "capsule_of lib key row c r =
     (row_handoff lib row = Inr c \<and> jvalue_int c ''version'' 0 = Inr 2 \<and> capsule_key c = key \<and> jvalue_u64 c ''revision'' = Inr r)"

lemma latest_fold:
  assumes "res_fold (latest_step lib key) rows latest = Inr l'" "jvalue_u64 latest ''revision'' = Inr n"
  shows "\<exists>n'. jvalue_u64 l' ''revision'' = Inr n' \<and> n \<le> n'
     \<and> (\<forall>row \<in> set rows. \<forall>c r. capsule_of lib key row c r \<longrightarrow> r \<le> n')
     \<and> (l' = latest \<or> (\<exists>row \<in> set rows. \<exists>r. capsule_of lib key row l' r))"
  using assms
proof (induction rows arbitrary: latest n)
  case Nil
  then show ?case by simp
next
  case (Cons row rows)
  from Cons.prems(1) obtain mid where m: "latest_step lib key row latest = Inr mid"
    "res_fold (latest_step lib key) rows mid = Inr l'" by (auto simp: rbind_eq_Inr)
  from latest_step_revision [OF m(1) Cons.prems(2)] obtain k where k: "jvalue_u64 mid ''revision'' = Inr k" "n \<le> k"
    "\<And>c r. capsule_of lib key row c r \<Longrightarrow> r \<le> k" unfolding capsule_of_def by metis
  from Cons.IH [OF m(2) k(1)] obtain n' where n': "jvalue_u64 l' ''revision'' = Inr n'" "k \<le> n'"
    "\<forall>row \<in> set rows. \<forall>c r. capsule_of lib key row c r \<longrightarrow> r \<le> n'"
    "l' = mid \<or> (\<exists>row \<in> set rows. \<exists>r. capsule_of lib key row l' r)" by blast
  have "mid = latest \<or> capsule_of lib key row mid k"
    using latest_step_cases [OF m(1)] k(1) by (auto simp: capsule_of_def)
  then have "l' = latest \<or> (\<exists>row \<in> set (row # rows). \<exists>r. capsule_of lib key row l' r)" using n'(4) by auto
  moreover have "\<forall>x \<in> set (row # rows). \<forall>c r. capsule_of lib key x c r \<longrightarrow> r \<le> n'"
    using n'(2,3) k(3) order_trans by (metis set_ConsD)
  ultimately show ?case using n'(1,2) k(2) by (intro exI [of _ n']) simp
qed

lemma latest_by_key_max:
  assumes "latest_by_key lib rows key = Inr cap"
  shows "\<exists>n. jvalue_u64 cap ''revision'' = Inr n
     \<and> (\<forall>row \<in> set (jitems rows). \<forall>c r. capsule_of lib (capsule_key key) row c r \<longrightarrow> r \<le> n)
     \<and> (cap = JObj [] \<or> (\<exists>row \<in> set (jitems rows). \<exists>r. capsule_of lib (capsule_key key) row cap r))"
proof -
  have "jvalue_u64 (JObj []) ''revision'' = Inr 0" by (simp add: jvalue_u64_def jvalue_def jfind_def om_get_def)
  from latest_fold [OF assms [unfolded latest_by_key_def] this] show ?thesis by blast
qed

section \<open>Saving a capsule\<close>

text \<open>
  The \<open>capsule_save\<close> operation (\<open>field_task_ledger.cpp\<close>), which runs under the capsule lock:
  \<open>session_get\<close> and \<open>capsule_rows\<close> are the ledger's answers.  \<open>Inr (Inl e)\<close> is a refusal,
  \<open>Inr (Inr cap)\<close> the capsule that is then bound to its session.
\<close>

definition fill_field :: "json \<Rightarrow> string \<Rightarrow> json \<Rightarrow> json" where
  "fill_field facts k input = (if jcontains input k then input else jset k (jidx facts k) input)"

definition capsule_input :: "files \<Rightarrow> json \<Rightarrow> json res" where
  "capsule_input fs args =
     rbind (jat args ''capsule'') (\<lambda>input0.
     rbind (jvalue_str input0 ''project_dir'' []) (\<lambda>pd.
       Inr (fold (fill_field (git_identity fs pd)) [''repository'', ''code_head'', ''stream_id''] input0)))"

definition next_revision :: "nat \<Rightarrow> nat" where
  "next_revision n = nat ((int n + 1) mod 2 ^ 64)"

definition capsule_save ::
  "jlib \<Rightarrow> files \<Rightarrow> rat \<Rightarrow> (string \<Rightarrow> json res) \<Rightarrow> (json \<Rightarrow> json res) \<Rightarrow> json \<Rightarrow> (string + json) res" where
  "capsule_save lib fs now session_get capsule_rows args =
     rbind (capsule_input fs args) (\<lambda>input.
     rbind (jvalue_str input ''session_id'' []) (\<lambda>sid0.
     rbind (session_get sid0) (\<lambda>bound.
     rbind (row_handoff lib bound) (\<lambda>previous.
     rbind (jvalue_int previous ''version'' 0) (\<lambda>pv.
       if pv = 2 \<and> capsule_key previous \<noteq> capsule_key input then Inr (Inl ''capsule session key is immutable'')
       else
         rbind (capsule_rows input) (\<lambda>rows.
         rbind (latest_by_key lib rows input) (\<lambda>old.
         rbind (jvalue_u64 old ''revision'') (\<lambda>revision.
           if \<not> jcontains args ''expected_revision'' \<or> \<not> jeq (jidx args ''expected_revision'') (JInt (int revision))
           then Inr (Inl ''capsule revision mismatch'')
           else
             rbind (capsule_v2 lib input (next_revision revision) now) (\<lambda>cap.
             rbind (rbind (jat cap ''session_id'') get_string) (\<lambda>sid.
               Inr (if sid = [] then Inl ''capsule session_id required'' else Inr cap)))))))))))"

lemma capsule_save_accepted:
  assumes "capsule_save lib fs now session_get capsule_rows args = Inr (Inr cap)"
  obtains input rows old revision where "capsule_input fs args = Inr input"
    "capsule_rows input = Inr rows" "latest_by_key lib rows input = Inr old" "jvalue_u64 old ''revision'' = Inr revision"
    "jeq (jidx args ''expected_revision'') (JInt (int revision))"
    "capsule_v2 lib input (next_revision revision) now = Inr cap"
  using assms unfolding capsule_save_def by (auto simp: rbind_eq_Inr split: if_splits)

lemma jeq_int: "jeq j (JInt a) \<Longrightarrow> jeq j (JInt b) \<Longrightarrow> a = b"
  by (cases j) auto

lemma jeq_nat: "jeq j (JInt (int a)) \<Longrightarrow> jeq j (JInt (int b)) \<Longrightarrow> a = b"
  using jeq_int by fastforce

lemma latest_by_key_u64:
  assumes "jvalue_u64 c ''revision'' = Inr r"
  shows "r < 2 ^ 64"
proof -
  obtain v where "get_u64 v = Inr r" using assms by (auto simp: jvalue_u64_def rbind_eq_Inr)
  then show ?thesis
  proof (cases v)
    case (JInt i)
    then show ?thesis using \<open>get_u64 v = Inr r\<close> by (auto simp: nat_less_iff)
  next
    case (JFloat x)
    then show ?thesis using \<open>get_u64 v = Inr r\<close> by (auto simp: nat_less_iff)
  qed auto
qed

lemma next_revision_cases: "n < 2 ^ 64 \<Longrightarrow> next_revision n = 0 \<or> next_revision n = n + 1"
proof -
  assume "n < 2 ^ 64"
  then consider "int n + 1 = 2 ^ 64" | "int n + 1 < 2 ^ 64" by fastforce
  then show ?thesis by cases (simp_all add: next_revision_def nat_add_distrib)
qed

lemma next_revision_less: "next_revision n < 2 ^ 64"
  by (simp add: next_revision_def nat_less_iff)

lemma capsule_fields:
  assumes "capsule_v2 lib input r now = Inr cap" "r < 2 ^ 64"
  shows "jvalue_int cap ''version'' 0 = Inr 2" "jvalue_u64 cap ''revision'' = Inr r"
proof -
  have o: "jok cap" "jfind cap ''version'' = Some (JInt 2)" "jfind cap ''revision'' = Some (JInt (int r))"
    using capsule_v2_ok [OF assms(1)] by (auto simp: capsule_ok_def)
  then show "jvalue_int cap ''version'' 0 = Inr 2" by (simp add: jvalue_int_def jvalue_def to_int32_def)
  have "int r mod 2 ^ 64 = int r" using assms(2) by simp
  then show "jvalue_u64 cap ''revision'' = Inr r" using o by (simp add: jvalue_u64_def jvalue_def)
qed

text \<open>
  A save is refused when one of the rows it is given holds a capsule of its key with a later
  revision than the one it expects.
\<close>

lemma latest_not_expected:
  assumes "latest_by_key lib rows input = Inr old" "jvalue_u64 old ''revision'' = Inr n'" "row \<in> set (jitems rows)"
    "capsule_of lib (capsule_key input) row c q" "n < q" "jeq j (JInt (int n))"
  shows "\<not> jeq j (JInt (int n'))"
proof
  assume "jeq j (JInt (int n'))"
  from jeq_nat [OF this assms(6)] have "n' = n" .
  moreover have "q \<le> n'" using latest_by_key_max [OF assms(1)] assms(2-4) by fastforce
  ultimately show False using assms(5) by simp
qed

lemma save_refused_by_row:
  assumes "capsule_input fs args = Inr input" "capsule_rows input = Inr rows" "row \<in> set (jitems rows)"
    "capsule_of lib (capsule_key input) row c q" "n < q" "jeq (jidx args ''expected_revision'') (JInt (int n))"
  shows "capsule_save lib fs now session_get capsule_rows args \<noteq> Inr (Inr cap)"
proof
  assume "capsule_save lib fs now session_get capsule_rows args = Inr (Inr cap)"
  from capsule_save_accepted [OF this] assms(1,2) obtain old n' where l: "latest_by_key lib rows input = Inr old"
    "jvalue_u64 old ''revision'' = Inr n'" "jeq (jidx args ''expected_revision'') (JInt (int n'))" by (metis sum.inject(2))
  from latest_not_expected [OF l(1,2) assms(3-6)] l(3) show False by blast
qed

lemma save_takes_next:
  assumes "capsule_save lib fs now session_get capsule_rows args = Inr (Inr cap)"
    and "jfind cap ''revision'' \<noteq> Some (JInt 0)"
  obtains input n where "capsule_input fs args = Inr input" "jeq (jidx args ''expected_revision'') (JInt (int n))"
    "capsule_v2 lib input (n + 1) now = Inr cap" "n + 1 < 2 ^ 64"
proof -
  from capsule_save_accepted [OF assms(1)] obtain input old n where n: "capsule_input fs args = Inr input"
    "jvalue_u64 old ''revision'' = Inr n" "jeq (jidx args ''expected_revision'') (JInt (int n))"
    "capsule_v2 lib input (next_revision n) now = Inr cap" by metis
  have r: "jfind cap ''revision'' = Some (JInt (int (next_revision n)))" using capsule_v2_ok [OF n(4)] by simp
  have s: "next_revision n = n + 1"
    using assms(2) r next_revision_cases [OF latest_by_key_u64 [OF n(2)]] by auto
  show thesis by (rule that [OF n(1,3)]) (use n(4) s next_revision_less [of n] in simp_all)
qed

text \<open>A capsule, a library that reads it back from the text \<open>m\<close>, and a session row that holds it.\<close>

definition demo_cap :: json where
  "demo_cap = JObj [(''blockers'', JArr []), (''branch'', JStr []), (''code_head'', JStr []), (''constraints'', JArr []),
     (''dirty_paths'', JArr []), (''gates'', JObj []), (''jobs'', JArr []), (''next_action'', JStr []), (''objective'', JStr []),
     (''project_dir'', JStr []), (''repository'', JStr ''/r''), (''revision'', JInt 1), (''saved_at'', JFloat 0),
     (''session_id'', JStr ''s''), (''state'', JStr ''in_progress''), (''stream_id'', JStr []), (''version'', JInt 2)]"

definition demo_slib :: jlib where
  "demo_slib = \<lparr>jdump = (\<lambda>j. []),
     jparse = (\<lambda>t. if t = ''m'' then Some (JObj [(''handoff'', demo_cap)]) else None), fnmatch = (\<lambda>p t. False)\<rparr>"

definition demo_session_row :: json where
  "demo_session_row = JObj [(''metadata_json'', JStr ''m'')]"

text \<open>
  The key files a capsule under its canonical repository, computed again from the stored,
  already canonical path.  The two agree unless normalizing uncovers the mount prefix.
\<close>

lemma canonical_not_idempotent:
  "canonical_repository ''/x/../maps/projects/p'' = ''/maps/projects/p''
   \<and> canonical_repository ''/maps/projects/p'' = ''/projects/p''"
  by code_simp

end
