(* ===== verification/Hook_Cards.thy ===== *)
theory Hook_Cards
  imports Hook_Ledger
begin

text \<open>
  The cards of \<open>hook_ledger_policy.hpp\<close>: the legacy capsule and the capsule a stop prepares,
  the handoff card, the task card and the ledger card.  The box-drawing and arrow
  characters of the texts are written as their bytes.
\<close>

section \<open>Preparing a capsule\<close>

fun jinsert :: "json \<Rightarrow> json list \<Rightarrow> json list" where
  "jinsert x [] = [x]"
| "jinsert x (y # ys) = (if jless y x then y # jinsert x ys else x # y # ys)"

definition jsort :: "json list \<Rightarrow> json list" where
  "jsort xs = foldr jinsert xs []"

fun junique :: "json list \<Rightarrow> json list" where
  "junique (x # y # ys) = (if jeq x y then junique (x # ys) else x # junique (y # ys))"
| "junique xs = xs"

definition sorted_paths :: "json \<Rightarrow> json res" where
  "sorted_paths paths =
     (case paths of JArr xs \<Rightarrow> Inr (JArr (take 20 (junique (jsort xs)))) | _ \<Rightarrow> Inl Type_error)"

definition thread_action :: "jlib \<Rightarrow> json \<Rightarrow> string res" where
  "thread_action lib thread =
     rbind (metadata lib thread) (\<lambda>meta.
       let next0 = jidx meta ''next_action'';
           nxt = (if next0 = JNull then (case jidx meta ''next_steps'' of JArr (x # xs) \<Rightarrow> x | _ \<Rightarrow> JNull) else next0)
       in Inr (case nxt of JStr s \<Rightarrow> take 400 s | _ \<Rightarrow> []))"

definition capsule :: "jlib \<Rightarrow> json \<Rightarrow> json \<Rightarrow> json \<Rightarrow> rat \<Rightarrow> json res" where
  "capsule lib input session thread saved_at =
     (let given = str0 input ''next_action'';
          tid = (if given = [] then str0 session ''thread_id'' else [])
      in rbind (if given = [] \<and> tid \<noteq> [] then thread_action lib thread else Inr given) (\<lambda>action.
         rbind (rbind (jvalue input ''artifact_paths'' (JArr [])) sorted_paths) (\<lambda>paths.
           Inr (jobj [(''version'', JInt 1), (''next_action'', JStr action), (''verified'', JBool (action \<noteq> [])),
                      (''branch'', JStr (str0 input ''branch'')), (''project_dir'', JStr (str0 input ''project_dir'')),
                      (''artifact_paths'', paths), (''blocker'', JStr (str0 input ''blocker'')),
                      (''source'', jobj [(''kind'', JStr (if given = [] \<and> tid \<noteq> [] then ''ledger_thread'' else ''visible_plan'')),
                                         (''session_id'', JStr (str0 input ''session_id'')), (''thread_id'', JStr tid)]),
                      (''saved_at'', JFloat saved_at)]))))"

definition copy_if :: "json \<Rightarrow> string \<Rightarrow> json \<Rightarrow> json" where
  "copy_if old k input = (if jcontains old k then jset k (jidx old k) input else input)"

text \<open>A stop keeps a completed milestone while head and dirty paths are those of the old capsule.\<close>

definition keep_milestone :: "json \<Rightarrow> json \<Rightarrow> json \<Rightarrow> json" where
  "keep_milestone old dirty input =
     (if str0 old ''code_head'' = str0 input ''code_head'' \<and> jeq dirty (jidx input ''dirty_paths'') then
        let i1 = copy_if old ''gates'' input
        in if str0 old ''state'' = ''complete'' \<and> str0 input ''next_action'' = [] then jset ''state'' (JStr ''complete'') i1 else i1
      else input)"

definition prepare_input :: "jlib \<Rightarrow> files \<Rightarrow> json \<Rightarrow> json \<Rightarrow> json \<Rightarrow> json \<Rightarrow> rat \<Rightarrow> json res" where
  "prepare_input lib fs args session thread old now =
     rbind (capsule lib args session thread now) (\<lambda>legacy.
     rbind (jvalue_str args ''project_dir'' []) (\<lambda>pd.
     rbind (jat args ''session_id'') (\<lambda>sid.
     rbind (jat args ''project_dir'') (\<lambda>pd1.
     rbind (jvalue_str args ''branch'' []) (\<lambda>branch.
     rbind (jvalue_str args ''blocker'' []) (\<lambda>blocker.
     rbind (jvalue old ''dirty_paths'' (JArr [])) (\<lambda>dirty.
       let i0 = jset ''session_id'' sid (git_identity fs pd);
           i1 = fold (copy_if old) [''objective'', ''constraints'', ''jobs''] i0;
           i2 = jset ''branch'' (JStr branch) (jset ''project_dir'' pd1 i1);
           i3 = jset ''dirty_paths'' (jidx legacy ''artifact_paths'') (jset ''next_action'' (jidx legacy ''next_action'') i2);
           i4 = jset ''blockers'' (JArr (if blocker = [] then [] else [JStr blocker])) i3;
           i5 = jset ''state'' (JStr (if jidx legacy ''verified'' = JBool True then ''in_progress'' else ''invalidated'')) i4
       in Inr (keep_milestone old dirty i5))))))))"

definition prepare_capsule :: "jlib \<Rightarrow> files \<Rightarrow> json \<Rightarrow> json \<Rightarrow> json \<Rightarrow> json \<Rightarrow> rat \<Rightarrow> json res" where
  "prepare_capsule lib fs args session thread old now =
     rbind (prepare_input lib fs args session thread old now) (\<lambda>input.
     rbind (jvalue_u64 old ''revision'') (\<lambda>revision.
     rbind (capsule_v2 lib input (next_revision revision) now) (\<lambda>cap.
     rbind (jat args ''session_id'') (\<lambda>sid.
     rbind (jat args ''project_dir'') (\<lambda>pd.
       Inr (jobj [(''op'', JStr ''session_bind''),
                  (''args'', jobj [(''session_id'', sid), (''project_dir'', pd), (''expected_revision'', JInt (int revision)),
                                   (''metadata'', jobj [(''handoff'', cap)])])]))))))"

section \<open>Handoff, task and ledger cards\<close>

definition handoff_step :: "jlib \<Rightarrow> string \<Rightarrow> string \<Rightarrow> json \<Rightarrow> json \<Rightarrow> json res" where
  "handoff_step lib project branch row latest =
     rbind (row_handoff lib row) (\<lambda>c.
       if \<not> is_object c then Inr latest
       else rbind (jvalue_int c ''version'' 0) (\<lambda>v.
         if (v \<noteq> 1 \<and> v \<noteq> 2) \<or> str0 c ''project_dir'' \<noteq> project \<or> str0 c ''branch'' \<noteq> branch then Inr latest
         else if latest = JNull then Inr c
         else rbind (jvalue_dbl c ''saved_at'' 0) (\<lambda>a. rbind (jvalue_dbl latest ''saved_at'' 0) (\<lambda>b.
                Inr (if a \<ge> b then c else latest)))))"

definition handoff_text :: "jlib \<Rightarrow> string \<Rightarrow> json \<Rightarrow> string res" where
  "handoff_text lib branch latest =
     (if latest = JNull then Inr []
      else rbind (jvalue_int latest ''version'' 0) (\<lambda>v.
        if v = 2 then
          Inr (if str0 latest ''state'' \<noteq> ''in_progress'' then []
               else ''[handoff]'' @ [lf] @ jdump lib latest @ [lf] @ ''[/handoff]'')
        else rbind (jvalue_bool latest ''verified'' False) (\<lambda>ok.
          if \<not> ok \<or> str0 latest ''next_action'' = [] then Inr []
          else rbind (jvalue latest ''source'' (JObj [])) (\<lambda>source.
               rbind (jvalue latest ''artifact_paths'' (JArr [])) (\<lambda>paths.
                 Inr (''[handoff]'' @ [lf] @ ''Next action: '' @ str0 latest ''next_action'' @ [lf] @ ''Branch: '' @ branch
                      @ [lf] @ ''Artifacts: '' @ join_values paths '', '' @ [lf] @ ''Blocker: ''
                      @ (if str0 latest ''blocker'' = [] then ''none recorded'' else str0 latest ''blocker'') @ [lf]
                      @ ''Source: '' @ field_str source ''kind'' ''null'' @ '' (session '' @ field_str source ''session_id'' ''null'' @ '')''
                      @ [lf] @ ''[/handoff]''))))))"

definition handoff_card :: "jlib \<Rightarrow> json \<Rightarrow> string \<Rightarrow> string \<Rightarrow> string res" where
  "handoff_card lib rows project branch =
     rbind (res_fold (handoff_step lib project branch) (jitems rows) JNull) (handoff_text lib branch)"

definition heavy_bar :: string where
  "heavy_bar = concat (replicate 3 [cc 0xE2, cc 0x94, cc 0x81])"

definition event_mark :: "string \<Rightarrow> string" where
  "event_mark t =
     (if t = ''completed'' then [cc 0xE2, cc 0x9C, cc 0x93]
      else if t = ''failed'' \<or> t = ''failure'' then [cc 0xE2, cc 0x9C, cc 0x97] else [cc 0xE2, cc 0x80, cc 0xA2])"

definition inbox_card :: "json list \<Rightarrow> string \<Rightarrow> string" where
  "inbox_card inbox realm =
     (if inbox = [] then []
      else [lf] @ heavy_bar @ '' inbox ('' @ (if realm = [] then ''all'' else realm) @ '') '' @ heavy_bar
           @ concat (map (\<lambda>e. [lf] @ event_mark (str0 e ''event_type'') @ '' '' @ char_prefix (str0 e ''digest'') 110) (take 5 inbox)))"

definition task_card :: "json list \<Rightarrow> json list \<Rightarrow> string \<Rightarrow> string" where
  "task_card inbox threads realm =
     (let out = drop_newlines (inbox_card inbox realm)
      in if threads = [] then out
         else out @ (if out = [] then [] else [lf]) @ [lf] @ heavy_bar @ '' active threads '' @ heavy_bar
              @ concat (map (\<lambda>t. [lf] @ ''  '' @ [cc 0xE2, cc 0x9F, cc 0xB3] @ ''  '' @ field_str t ''title'' ''?'' @ '' [''
                                   @ char_prefix (str0 t ''thread_id'') 8 @ '']'') (take 3 threads)))"

text \<open>\<open>strptime\<close> with \<open>%Y-%m-%dT%H:%M:%SZ\<close>, and \<open>timegm\<close> on what it read.\<close>

fun number_digits :: "nat \<Rightarrow> nat \<Rightarrow> nat \<Rightarrow> string \<Rightarrow> nat \<times> string" where
  "number_digits hi 0 v s = (v, s)"
| "number_digits hi (Suc n) v s =
     (case s of
        c # cs \<Rightarrow> if is_digit c \<and> v * 10 \<le> hi then number_digits hi n (v * 10 + (of_char c - 48)) cs else (v, s)
      | [] \<Rightarrow> (v, s))"

definition get_number :: "nat \<Rightarrow> nat \<Rightarrow> nat \<Rightarrow> string \<Rightarrow> (nat \<times> string) option" where
  "get_number lo hi n s =
     (case dropWhile is_space s of
        c # cs \<Rightarrow>
          if \<not> is_digit c then None
          else (let (v, r) = number_digits hi (n - 1) (of_char c - 48) cs in if v < lo \<or> v > hi then None else Some (v, r))
      | [] \<Rightarrow> None)"

definition expect :: "char \<Rightarrow> string \<Rightarrow> string option" where
  "expect c s = (case s of x # xs \<Rightarrow> if x = c then Some xs else None | [] \<Rightarrow> None)"

definition days_from_civil :: "int \<Rightarrow> int \<Rightarrow> int \<Rightarrow> int" where
  "days_from_civil y m d =
     (let y' = (if m \<le> 2 then y - 1 else y); era = y' div 400; yoe = y' - era * 400;
          doy = (153 * (if m > 2 then m - 3 else m + 9) + 2) div 5 + d - 1;
          doe = yoe * 365 + yoe div 4 - yoe div 100 + doy
      in era * 146097 + doe - 719468)"

definition number_then :: "nat \<Rightarrow> nat \<Rightarrow> nat \<Rightarrow> char \<Rightarrow> string \<Rightarrow> (nat \<times> string) option" where
  "number_then lo hi n c s = Option.bind (get_number lo hi n s) (\<lambda>(v, r). Option.bind (expect c r) (\<lambda>r'. Some (v, r')))"

definition parse_utc :: "string \<Rightarrow> int option" where
  "parse_utc s =
     Option.bind (number_then 0 9999 4 CHR ''-'' s) (\<lambda>(y, r1).
     Option.bind (number_then 1 12 2 CHR ''-'' r1) (\<lambda>(m, r2).
     Option.bind (number_then 1 31 2 CHR ''T'' r2) (\<lambda>(d, r3).
     Option.bind (number_then 0 23 2 CHR '':'' r3) (\<lambda>(h, r4).
     Option.bind (number_then 0 59 2 CHR '':'' r4) (\<lambda>(mi, r5).
     Option.bind (number_then 0 61 2 CHR ''Z'' r5) (\<lambda>(sec, r6).
       if r6 = [] then Some (days_from_civil (int y) (int m) (int d) * 86400 + int h * 3600 + int mi * 60 + int sec)
       else None))))))"

definition section_line :: "jlib \<Rightarrow> string \<Rightarrow> json \<Rightarrow> string" where
  "section_line lib key v =
     (if key = ''todos'' then ''['' @ field_str v ''status'' ''null'' @ ''] '' @ field_str v ''content'' ''null''
      else case v of JStr s \<Rightarrow> s | _ \<Rightarrow> jdump lib v)"

definition card_section :: "jlib \<Rightarrow> json \<Rightarrow> string \<Rightarrow> string \<Rightarrow> string \<Rightarrow> bool \<Rightarrow> string res" where
  "card_section lib ledger key heading bullet leading =
     rbind (jvalue ledger key (JArr [])) (\<lambda>values.
       let ls = filter (\<lambda>l. l \<noteq> []) (map trim (concat (map (\<lambda>v. getlines (section_line lib key v)) (jitems values))));
           body = concat (map (\<lambda>l. bullet @ l @ [lf]) ls)
       in Inr (if body = [] then [] else (if leading then [lf] else []) @ heading @ [lf] @ body))"

definition restored_card :: "jlib \<Rightarrow> json \<Rightarrow> string res" where
  "restored_card lib ledger =
     (let snapshot = str0 ledger ''snapshot'' in
      rbind (card_section lib ledger ''active_files'' ''Files in context:'' ''  - '' False) (\<lambda>s1.
      rbind (card_section lib ledger ''decisions'' ''Decisions made:'' ''  - '' True) (\<lambda>s2.
      rbind (card_section lib ledger ''todos'' ''Tasks:'' ''  '' True) (\<lambda>s3.
      rbind (card_section lib ledger ''blockers'' ''Blockers:'' ''  ! '' True) (\<lambda>s4.
      rbind (card_section lib ledger ''discoveries'' ''Discoveries:'' ''  * '' True) (\<lambda>s5.
        Inr ([lf] @ ''[session-restored]'' @ [lf] @ s1 @ s2 @ s3 @ s4 @ s5
             @ (if char_prefix snapshot 20 \<noteq> snapshot
                then [lf] @ ''Last context:'' @ [lf] @ take 500 (snapshot @ [lf]) @ [lf] else [])
             @ ''[/session-restored]'' @ [lf] @ [lf])))))))"

definition goal_of :: "string \<Rightarrow> string" where
  "goal_of snapshot =
     (let dflt = takeWhile (\<lambda>c. c \<noteq> lf) snapshot
      in take 200 (case filter (starts_with ''Goal:'') (getlines snapshot) of [] \<Rightarrow> dflt | l # _ \<Rightarrow> trim (drop 5 l)))"

text \<open>Indexing or cutting a document that is neither an array nor short enough raises.\<close>

definition first_step :: "json \<Rightarrow> string res" where
  "first_step steps =
     (if is_empty steps then Inr []
      else case steps of JArr (JStr s # xs) \<Rightarrow> Inr (take 150 s) | JArr xs \<Rightarrow> Inr [] | _ \<Rightarrow> Inl Type_error)"

definition first_files :: "json \<Rightarrow> json res" where
  "first_files files =
     (case files of JArr xs \<Rightarrow> Inr (JArr (take 5 xs)) | JObj m \<Rightarrow> if length m > 5 then Inl Type_error else Inr files | _ \<Rightarrow> Inr files)"

definition last_session_card :: "json \<Rightarrow> string res" where
  "last_session_card ledger =
     rbind (rbind (jvalue ledger ''next_steps'' (JArr [])) first_step) (\<lambda>nxt.
     rbind (rbind (jvalue ledger ''active_files'' (JArr [])) first_files) (\<lambda>files.
       let goal = goal_of (str0 ledger ''snapshot'')
       in Inr (''[last-session]''
           @ (if goal = [] then [] else [lf] @ ''Previous task: '' @ goal)
           @ (if nxt = [] then [] else [lf] @ ''Next step: '' @ nxt)
           @ (if is_empty files then [] else [lf] @ ''Active files: '' @ join_values files '', '')
           @ (if str0 ledger ''updated_at'' = [] then [] else [lf] @ ''Saved: '' @ str0 ledger ''updated_at'')
           @ [lf] @ ''Run /recap for full context. [/last-session]'' @ [lf])))"

definition post_clear :: "json \<Rightarrow> string \<Rightarrow> rat \<Rightarrow> bool" where
  "post_clear ledger source now =
     (source = ''clear'' \<and> (str0 ledger ''mood'' = ''in_progress'' \<or> str0 ledger ''mood'' = ''pre-compact'')
      \<and> (case parse_utc (str0 ledger ''updated_at'') of None \<Rightarrow> False | Some t \<Rightarrow> now - of_int t < 14400))"

definition ledger_card :: "jlib \<Rightarrow> json \<Rightarrow> string \<Rightarrow> rat \<Rightarrow> json res" where
  "ledger_card lib ledger source now =
     (let mood = str0 ledger ''mood'';
          compact = (source = ''compact'' \<or> mood = ''pre-compact'');
          clear = post_clear ledger source now
      in rbind (if compact then restored_card lib ledger
                else if clear then last_session_card ledger
                else Inr (if str0 ledger ''session_id'' = [] then []
                          else ''[ledger] '' @ str0 ledger ''session_id'' @ '' ('' @ mood @ '')'' @ [lf])) (\<lambda>card.
           Inr (jobj [(''card'', JStr card), (''post_compact'', JBool compact), (''post_clear'', JBool clear), (''ledger'', ledger)])))"

section \<open>The manifest stays small\<close>

lemma admit_stream_step:
  assumes "admit_stream lib e st = Inr st'" "snd st > 0"
    "fst st = [] \<or> length (jdump lib (manifest_json (fst st) (snd st))) \<le> 450"
  shows "length (fst st') + snd st' = length (fst st) + snd st \<and> snd st \<le> Suc (snd st')
     \<and> (fst st' = [] \<or> length (jdump lib (manifest_json (fst st') (snd st'))) \<le> 450)"
  using assms by (cases e; cases st) (auto simp: admit_stream_def rbind_eq_Inr split: if_splits)

lemma admit_streams:
  assumes "res_fold (admit_stream lib) es st = Inr st'" "length es \<le> snd st"
    "fst st = [] \<or> length (jdump lib (manifest_json (fst st) (snd st))) \<le> 450"
  shows "length (fst st') + snd st' = length (fst st) + snd st
     \<and> (fst st' = [] \<or> length (jdump lib (manifest_json (fst st') (snd st'))) \<le> 450)"
  using assms
proof (induction es arbitrary: st)
  case Nil
  then show ?case by simp
next
  case (Cons e es)
  from Cons.prems(1) obtain mid where m: "admit_stream lib e st = Inr mid" "res_fold (admit_stream lib) es mid = Inr st'"
    by (auto simp: rbind_eq_Inr)
  note a = admit_stream_step [OF m(1) _ Cons.prems(3)]
  with Cons.prems(2) have "length es \<le> snd mid" by auto
  with Cons.IH [OF m(2)] a Cons.prems(2) show ?case by auto
qed

text \<open>
  the manifest of a repository is bounded.  Whatever the number of streams, a manifest that
  lists any prints in at most 450 bytes, and the streams listed together with those counted
  as omitted are exactly the streams that have a capsule.
\<close>

theorem manifest_bounded:
  assumes "capsule_manifest lib rows repository = Inr j"
  shows "\<exists>latest streams omitted. res_fold (manifest_step lib repository) (jitems rows) [] = Inr latest
     \<and> j = manifest_json streams omitted \<and> length streams + omitted = length latest
     \<and> (streams = [] \<or> length (jdump lib j) \<le> 450)"
proof -
  from assms obtain latest st where l: "res_fold (manifest_step lib repository) (jitems rows) [] = Inr latest"
    "res_fold (admit_stream lib) latest ([], length latest) = Inr st" "j = manifest_json (fst st) (snd st)"
    by (auto simp: capsule_manifest_def rbind_eq_Inr)
  from admit_streams [OF l(2)] l show ?thesis
    by (intro exI [of _ latest] exI [of _ "fst st"] exI [of _ "snd st"]) simp
qed

theorem manifest_bounded_witness:
  "\<exists>latest streams omitted j. capsule_manifest demo_slib (JArr [demo_session_row]) ''/r'' = Inr j
     \<and> res_fold (manifest_step demo_slib ''/r'') [demo_session_row] [] = Inr latest
     \<and> j = manifest_json streams omitted \<and> length streams + omitted = length latest"
proof -
  have "case capsule_manifest demo_slib (JArr [demo_session_row]) ''/r'' of Inr j \<Rightarrow> True | Inl e \<Rightarrow> False" by code_simp
  then obtain j where j: "capsule_manifest demo_slib (JArr [demo_session_row]) ''/r'' = Inr j" by (auto split: sum.splits)
  from manifest_bounded [OF j] j show ?thesis by auto
qed

section \<open>Stops keep milestones\<close>

lemma jok_git: "jok (git_identity fs pd)"
  by (simp add: git_identity_def Let_def)

lemma jok_copy_if [simp]: "jok j \<Longrightarrow> jok (copy_if old k j)"
  by (simp add: copy_if_def)

lemma jfind_copy_if [simp]: "jok j \<Longrightarrow> k' \<noteq> k \<Longrightarrow> jfind (copy_if old k j) k' = jfind j k'"
  by (simp add: copy_if_def)

lemma legacy_fields:
  assumes "capsule lib input session thread t = Inr legacy"
  shows "\<exists>action. jfind legacy ''next_action'' = Some (JStr action) \<and> jfind legacy ''verified'' = Some (JBool (action \<noteq> []))
     \<and> (\<exists>p. jfind legacy ''artifact_paths'' = Some p)"
  using assms
  by (auto simp: capsule_def Let_def rbind_eq_Inr jobj_def jfind_def om_get_def om_of_list_def split: if_splits)

lemma git_head: "\<exists>h. jfind (git_identity fs pd) ''code_head'' = Some (JStr h)"
  by (simp add: git_identity_def Let_def jobj_def jfind_def om_get_def om_of_list_def)

lemma jfind_git: "k \<notin> {''repository'', ''code_head'', ''stream_id''} \<Longrightarrow> jfind (git_identity fs pd) k = None"
  by (simp add: git_identity_def Let_def jobj_def jfind_def om_get_def om_of_list_def)

text \<open>
  What a stop makes of the stored capsule: whether the code is the one it was saved for, and the
  state and the fields of the capsule the stop prepares.
\<close>

definition same_code :: "json \<Rightarrow> json \<Rightarrow> json \<Rightarrow> json \<Rightarrow> bool" where
  "same_code old dirty facts legacy =
     (str0 old ''code_head'' = str0 facts ''code_head'' \<and> jeq dirty (jidx legacy ''artifact_paths''))"

definition stop_state :: "json \<Rightarrow> json \<Rightarrow> json \<Rightarrow> json \<Rightarrow> string" where
  "stop_state old dirty facts legacy =
     (if str0 old ''state'' = ''complete'' \<and> same_code old dirty facts legacy \<and> str0 legacy ''next_action'' = [] then ''complete''
      else if str0 legacy ''next_action'' \<noteq> [] then ''in_progress'' else ''invalidated'')"

definition carried :: "json \<Rightarrow> string \<Rightarrow> json \<Rightarrow> json" where
  "carried old k d = (if jcontains old k then jidx old k else d)"

definition stop_gates :: "json \<Rightarrow> json \<Rightarrow> json \<Rightarrow> json \<Rightarrow> json" where
  "stop_gates old dirty facts legacy = (if same_code old dirty facts legacy then carried old ''gates'' (JObj []) else JObj [])"

lemma jfind_copy_same: "jok j \<Longrightarrow> jfind (copy_if old k j) k = (if jcontains old k then Some (jidx old k) else jfind j k)"
  by (simp add: copy_if_def)

lemma jfind_keep_milestone:
  "jok j \<Longrightarrow> k \<notin> {''gates'', ''state''} \<Longrightarrow> jfind (keep_milestone old dirty j) k = jfind j k"
  by (simp add: keep_milestone_def Let_def)

lemma jok_keep_milestone [simp]: "jok j \<Longrightarrow> jok (keep_milestone old dirty j)"
  by (simp add: keep_milestone_def Let_def)

lemma jvalue_jfind: "jok j \<Longrightarrow> jfind j k = Some v \<Longrightarrow> jvalue j k d = Inr v"
  by (simp add: jvalue_def)

lemma jvalue_carried:
  "jok j \<Longrightarrow> jfind j k = (if jcontains old k then Some (jidx old k) else None) \<Longrightarrow> jvalue j k d = Inr (carried old k d)"
  by (simp add: jvalue_def carried_def)

lemma prepare_input_fields:
  assumes "prepare_input lib fs args session thread old now = Inr input"
  shows "\<exists>legacy pd dirty. capsule lib args session thread now = Inr legacy \<and> jvalue_str args ''project_dir'' [] = Inr pd
     \<and> jvalue old ''dirty_paths'' (JArr []) = Inr dirty \<and> jok input
     \<and> jfind input ''state'' = Some (JStr (stop_state old dirty (git_identity fs pd) legacy))
     \<and> jvalue input ''gates'' (JObj []) = Inr (stop_gates old dirty (git_identity fs pd) legacy)
     \<and> jvalue input ''objective'' (JStr []) = Inr (carried old ''objective'' (JStr []))
     \<and> jvalue input ''constraints'' (JArr []) = Inr (carried old ''constraints'' (JArr []))
     \<and> jvalue input ''jobs'' (JArr []) = Inr (carried old ''jobs'' (JArr []))
     \<and> jvalue input ''next_action'' (JStr []) = Inr (jidx legacy ''next_action'')
     \<and> jvalue input ''dirty_paths'' (JArr []) = Inr (jidx legacy ''artifact_paths'')
     \<and> jvalue input ''code_head'' (JStr []) = Inr (jidx (git_identity fs pd) ''code_head'')"
proof -
  from assms obtain legacy pd sid pd1 branch blocker dirty where
    a: "capsule lib args session thread now = Inr legacy" "jvalue_str args ''project_dir'' [] = Inr pd"
      "jvalue old ''dirty_paths'' (JArr []) = Inr dirty"
    and input: "input = keep_milestone old dirty
       (jset ''state'' (JStr (if jidx legacy ''verified'' = JBool True then ''in_progress'' else ''invalidated''))
       (jset ''blockers'' (JArr (if blocker = [] then [] else [JStr blocker]))
       (jset ''dirty_paths'' (jidx legacy ''artifact_paths'') (jset ''next_action'' (jidx legacy ''next_action'')
       (jset ''branch'' (JStr branch) (jset ''project_dir'' pd1
       (fold (copy_if old) [''objective'', ''constraints'', ''jobs''] (jset ''session_id'' sid (git_identity fs pd)))))))))"
      (is "_ = keep_milestone _ _ ?i")
    by (auto simp only: prepare_input_def rbind_eq_Inr Let_def sum.inject)
  obtain action p where l: "jfind legacy ''next_action'' = Some (JStr action)" "jfind legacy ''verified'' = Some (JBool (action \<noteq> []))"
    "jfind legacy ''artifact_paths'' = Some p" using legacy_fields [OF a(1)] by blast
  obtain h where h: "jfind (git_identity fs pd) ''code_head'' = Some (JStr h)" using git_head by blast
  have j: "jok ?i" by (simp add: jok_git)
  have same: "(str0 old ''code_head'' = str0 ?i ''code_head'' \<and> jeq dirty (jidx ?i ''dirty_paths''))
      = same_code old dirty (git_identity fs pd) legacy"
    by (simp add: same_code_def jok_git field_str_def jidx_def l h)
  have act: "str0 ?i ''next_action'' = str0 legacy ''next_action''"
    by (simp add: jok_git field_str_def jidx_def l)
  have st: "jfind ?i ''state'' = Some (JStr (if str0 legacy ''next_action'' \<noteq> [] then ''in_progress'' else ''invalidated''))"
    "jfind ?i ''gates'' = None"
    by (simp_all add: jok_git field_str_def jidx_def l jfind_git)
  have "jok input" unfolding input by (rule jok_keep_milestone [OF j])
  moreover have "jfind input ''state'' = Some (JStr (stop_state old dirty (git_identity fs pd) legacy))"
    unfolding input keep_milestone_def Let_def same act stop_state_def using j st by simp
  moreover have "jvalue input ''gates'' (JObj []) = Inr (stop_gates old dirty (git_identity fs pd) legacy)"
    unfolding input keep_milestone_def Let_def same act stop_gates_def using j st
    by (simp add: jvalue_def jfind_copy_same carried_def)
  moreover have "jvalue input k d = Inr (carried old k d)" if "k \<in> {''objective'', ''constraints'', ''jobs''}" for k d
    unfolding input using that j
    by (intro jvalue_carried) (auto simp: jfind_keep_milestone jfind_copy_same jok_git jfind_git)
  moreover have "jvalue input ''next_action'' (JStr []) = Inr (jidx legacy ''next_action'')"
    "jvalue input ''dirty_paths'' (JArr []) = Inr (jidx legacy ''artifact_paths'')"
    "jvalue input ''code_head'' (JStr []) = Inr (jidx (git_identity fs pd) ''code_head'')"
    unfolding input using j by (intro jvalue_jfind; simp add: jfind_keep_milestone jok_git jidx_def h)+
  ultimately have r: "capsule lib args session thread now = Inr legacy" "jvalue_str args ''project_dir'' [] = Inr pd"
     "jvalue old ''dirty_paths'' (JArr []) = Inr dirty" "jok input"
     "jfind input ''state'' = Some (JStr (stop_state old dirty (git_identity fs pd) legacy))"
     "jvalue input ''gates'' (JObj []) = Inr (stop_gates old dirty (git_identity fs pd) legacy)"
     "jvalue input ''objective'' (JStr []) = Inr (carried old ''objective'' (JStr []))"
     "jvalue input ''constraints'' (JArr []) = Inr (carried old ''constraints'' (JArr []))"
     "jvalue input ''jobs'' (JArr []) = Inr (carried old ''jobs'' (JArr []))"
     "jvalue input ''next_action'' (JStr []) = Inr (jidx legacy ''next_action'')"
     "jvalue input ''dirty_paths'' (JArr []) = Inr (jidx legacy ''artifact_paths'')"
     "jvalue input ''code_head'' (JStr []) = Inr (jidx (git_identity fs pd) ''code_head'')" using a by simp_all
  then show ?thesis by blast
qed

lemma takes_value: "takes input d cap k \<Longrightarrow> jvalue input k d = Inr v \<Longrightarrow> jfind cap k = Some v"
  by (simp add: takes_def)

text \<open>
  C26: what a stop prepares.  The prepared write carries a valid capsule at the revision after
  the stored one and expects the stored one.  Objective, constraints and jobs are those of the
  stored capsule; the next action and the dirty paths are the current ones.  When the code head
  and the dirty paths are unchanged the gates are carried over as well, and otherwise there are
  none.  A stored capsule that is complete stays complete when the code is unchanged and there
  is no next action; otherwise the new one is in progress when there is a next action and
  invalidated when there is none.
\<close>

theorem prepare_capsule_spec:
  assumes "prepare_capsule lib fs args session thread old now = Inr w"
  shows "\<exists>legacy pd dirty revision cap. capsule lib args session thread now = Inr legacy
     \<and> jvalue_str args ''project_dir'' [] = Inr pd \<and> jvalue old ''dirty_paths'' (JArr []) = Inr dirty
     \<and> jvalue_u64 old ''revision'' = Inr revision \<and> capsule_ok lib cap
     \<and> jfind cap ''revision'' = Some (JInt (int (next_revision revision)))
     \<and> jidx (jidx w ''args'') ''expected_revision'' = JInt (int revision)
     \<and> jidx (jidx (jidx w ''args'') ''metadata'') ''handoff'' = cap
     \<and> str0 cap ''state'' = stop_state old dirty (git_identity fs pd) legacy
     \<and> jfind cap ''gates'' = Some (stop_gates old dirty (git_identity fs pd) legacy)
     \<and> jfind cap ''objective'' = Some (carried old ''objective'' (JStr []))
     \<and> jfind cap ''constraints'' = Some (carried old ''constraints'' (JArr []))
     \<and> jfind cap ''jobs'' = Some (carried old ''jobs'' (JArr []))
     \<and> jfind cap ''next_action'' = Some (jidx legacy ''next_action'')
     \<and> jfind cap ''dirty_paths'' = Some (jidx legacy ''artifact_paths'')
     \<and> jfind cap ''code_head'' = Some (jidx (git_identity fs pd) ''code_head'')"
proof -
  from assms obtain input revision cap sid pd1 where p: "prepare_input lib fs args session thread old now = Inr input"
    "jvalue_u64 old ''revision'' = Inr revision" "capsule_v2 lib input (next_revision revision) now = Inr cap"
    and w: "w = jobj [(''op'', JStr ''session_bind''),
                  (''args'', jobj [(''session_id'', sid), (''project_dir'', pd1), (''expected_revision'', JInt (int revision)),
                                   (''metadata'', jobj [(''handoff'', cap)])])]"
    by (auto simp: prepare_capsule_def rbind_eq_Inr)
  have i: "jidx (jidx w ''args'') ''expected_revision'' = JInt (int revision)"
    "jidx (jidx (jidx w ''args'') ''metadata'') ''handoff'' = cap"
    unfolding w by (simp_all add: jidx_def jobj_def jfind_def om_get_def om_of_list_def)
  from prepare_input_fields [OF p(1)] obtain legacy pd dirty where
    l: "capsule lib args session thread now = Inr legacy" "jvalue_str args ''project_dir'' [] = Inr pd"
      "jvalue old ''dirty_paths'' (JArr []) = Inr dirty" "jok input"
      "jfind input ''state'' = Some (JStr (stop_state old dirty (git_identity fs pd) legacy))"
    and v: "jvalue input ''gates'' (JObj []) = Inr (stop_gates old dirty (git_identity fs pd) legacy)"
      "jvalue input ''objective'' (JStr []) = Inr (carried old ''objective'' (JStr []))"
      "jvalue input ''constraints'' (JArr []) = Inr (carried old ''constraints'' (JArr []))"
      "jvalue input ''jobs'' (JArr []) = Inr (carried old ''jobs'' (JArr []))"
      "jvalue input ''next_action'' (JStr []) = Inr (jidx legacy ''next_action'')"
      "jvalue input ''dirty_paths'' (JArr []) = Inr (jidx legacy ''artifact_paths'')"
      "jvalue input ''code_head'' (JStr []) = Inr (jidx (git_identity fs pd) ''code_head'')" by blast
  have s: "str0 cap ''state'' = stop_state old dirty (git_identity fs pd) legacy"
    using capsule_v2_ok [OF p(3)] l(4,5) by (simp add: jvalue_str_def jvalue_def)
  note t = capsule_v2_takes [OF p(3)]
  note c = takes_value [OF t(2) v(1)] takes_value [OF t(3) v(2)] takes_value [OF t(4) v(3)] takes_value [OF t(5) v(4)]
    takes_value [OF t(6) v(5)] takes_value [OF t(7) v(6)] takes_value [OF t(8) v(7)]
  show ?thesis
    by (rule exI [of _ legacy], rule exI [of _ pd], rule exI [of _ dirty], rule exI [of _ revision], rule exI [of _ cap])
      (use l(1-3) p(2) i s c capsule_v2_ok [OF p(3)] in simp)
qed

definition demo_stop :: json where
  "demo_stop = JObj [(''project_dir'', JStr ''/r/p''), (''session_id'', JStr ''s'')]"

definition demo_done :: json where
  "demo_done = jset ''state'' (JStr ''complete'') demo_cap"

text \<open>
  A stop does erase a completed milestone at the same code state when it finds a next action.
\<close>

lemma stop_erases_milestone:
  "case prepare_capsule demo_slib (\<lambda>p. None) (jset ''next_action'' (JStr ''go'') demo_stop) (JObj []) (JObj []) demo_done 5 of
     Inl e \<Rightarrow> False
   | Inr w \<Rightarrow> (let cap = jidx (jidx (jidx w ''args'') ''metadata'') ''handoff''
       in str0 demo_done ''state'' = ''complete'' \<and> str0 cap ''state'' = ''in_progress''
          \<and> jidx cap ''code_head'' = jidx demo_done ''code_head'' \<and> jidx cap ''dirty_paths'' = jidx demo_done ''dirty_paths'')"
  by code_simp

theorem prepare_capsule_spec_witness:
  "\<exists>w cap. prepare_capsule demo_slib (\<lambda>p. None) demo_stop (JObj []) (JObj []) demo_done 5 = Inr w
     \<and> jidx (jidx (jidx w ''args'') ''metadata'') ''handoff'' = cap \<and> capsule_ok demo_slib cap \<and> str0 cap ''state'' = ''complete''"
proof -
  let ?p = "prepare_capsule demo_slib (\<lambda>p. None) demo_stop (JObj []) (JObj []) demo_done 5"
  have "case ?p of Inr w \<Rightarrow> str0 (jidx (jidx (jidx w ''args'') ''metadata'') ''handoff'') ''state'' = ''complete'' | Inl e \<Rightarrow> False"
    by code_simp
  then obtain w where w: "?p = Inr w" "str0 (jidx (jidx (jidx w ''args'') ''metadata'') ''handoff'') ''state'' = ''complete''"
    by (auto split: sum.splits)
  from prepare_capsule_spec [OF w(1)] w show ?thesis by auto
qed

end
