(* ===== verification/Capsule_Gateway.thy ===== *)
theory Capsule_Gateway
  imports Task_Ledger_List Hook_Ledger
begin

text \<open>
  The gateway of the task ledger through which capsules are written
  (\<open>field_task_ledger.cpp\<close>): it lists the sessions of a repository page by page, finds the
  latest capsule of a key, and binds an accepted capsule to its session.  The capsule lock, which
  every call of the ledger through the gateway takes, is held over all of it, so one save is one
  step here and all the pages of a listing are of one ledger.
\<close>

section \<open>Reading the ledger\<close>

definition call :: "jlib \<Rightarrow> (batch \<Rightarrow> bool) \<Rightarrow> rat \<Rightarrow> ledger \<Rightarrow> string \<Rightarrow> json \<Rightarrow> json res" where
  "call lib persist ts L opn a = rbind (run lib persist ts L opn a) (\<lambda>(r, L', b). Inr r)"

definition page_args :: "json \<Rightarrow> bool \<Rightarrow> json res" where
  "page_args key manifest =
     (let base = jobj [(''limit'', JInt 100), (''repository'', JStr (canonical_repository (str0 key ''repository'')))]
      in if \<not> manifest \<and> str0 key ''stream_id'' \<noteq> []
         then rbind (jat key ''stream_id'') (\<lambda>s. Inr (jset ''stream_id'' s base))
         else Inr base)"

text \<open>
  The loop over the pages.  The fuel is the number of session rows and one more; that it is
  enough on reachable ledgers is proved below.
\<close>

fun capsule_pages ::
    "jlib \<Rightarrow> (batch \<Rightarrow> bool) \<Rightarrow> ledger \<Rightarrow> rat \<Rightarrow> nat \<Rightarrow> json \<Rightarrow> json list \<Rightarrow> json list res option" where
  "capsule_pages lib persist L ts 0 args rows = None"
| "capsule_pages lib persist L ts (Suc n) args rows =
     (case rbind (call lib persist ts L ''session_list'' args) (\<lambda>page.
           rbind (jat page ''rows'') (\<lambda>rs. rbind (jat page ''after'') (\<lambda>after. Inr (rs, after)))) of
        Inl e \<Rightarrow> Some (Inl e)
      | Inr (rs, after) \<Rightarrow>
          if after = JNull then Some (Inr (rows @ jitems rs))
          else capsule_pages lib persist L ts n (jset ''after'' after args) (rows @ jitems rs))"

definition session_count :: "ledger \<Rightarrow> nat" where
  "session_count L = (case table_at L ''thread_sessions'' of Inl e \<Rightarrow> 0 | Inr t \<Rightarrow> length (t_rows t))"

definition capsule_rows :: "jlib \<Rightarrow> (batch \<Rightarrow> bool) \<Rightarrow> ledger \<Rightarrow> rat \<Rightarrow> json \<Rightarrow> bool \<Rightarrow> json res" where
  "capsule_rows lib persist L ts key manifest =
     rbind (page_args key manifest) (\<lambda>args.
       case capsule_pages lib persist L ts (Suc (session_count L)) args [] of
         None \<Rightarrow> Inl (Runtime_error ''more pages than sessions'')
       | Some r \<Rightarrow> rbind r (\<lambda>rows. Inr (JArr rows)))"

section \<open>Saving\<close>

definition session_get :: "jlib \<Rightarrow> (batch \<Rightarrow> bool) \<Rightarrow> ledger \<Rightarrow> rat \<Rightarrow> string \<Rightarrow> json res" where
  "session_get lib persist L ts sid = call lib persist ts L ''session_get'' (jobj [(''session_id'', JStr sid)])"

definition bind_args :: "json \<Rightarrow> json \<Rightarrow> json \<Rightarrow> json" where
  "bind_args sid pd cap =
     jobj [(''session_id'', sid), (''project_dir'', pd), (''metadata'', jobj [(''handoff'', cap)])]"

text \<open>A refusal leaves the ledger; an accepted capsule is in it when the call returns.\<close>

definition capsule_save_op ::
    "jlib \<Rightarrow> (batch \<Rightarrow> bool) \<Rightarrow> files \<Rightarrow> rat \<Rightarrow> rat \<Rightarrow> ledger \<Rightarrow> json \<Rightarrow> ((string + json) \<times> ledger) res" where
  "capsule_save_op lib persist fs now ts L args =
     rbind (capsule_save lib fs now (session_get lib persist L ts)
              (\<lambda>key. capsule_rows lib persist L ts key False) args) (\<lambda>r.
       case r of
         Inl e \<Rightarrow> Inr (Inl e, L)
       | Inr cap \<Rightarrow>
           rbind (jat cap ''session_id'') (\<lambda>sid.
           rbind (jat cap ''project_dir'') (\<lambda>pd.
           rbind (run lib persist ts L ''session_bind'' (bind_args sid pd cap)) (\<lambda>(b, L', ob).
             Inr (Inr cap, L')))))"

text \<open>
  The other writer: a \<open>session_bind\<close> whose metadata has a handoff.  It brings the capsule with
  the revision it will have; a handoff of an older version may not replace one of version 2.
\<close>

definition bind_capsule ::
    "jlib \<Rightarrow> (batch \<Rightarrow> bool) \<Rightarrow> rat \<Rightarrow> ledger \<Rightarrow> json \<Rightarrow> json \<Rightarrow> (string + json) res" where
  "bind_capsule lib persist ts L args cap =
     rbind (jvalue_str cap ''session_id'' []) (\<lambda>own.
     rbind (jvalue_str args ''session_id'' []) (\<lambda>asked.
     if own \<noteq> asked then Inr (Inl ''capsule session_id mismatch'')
     else
       rbind (jat args ''session_id'') (\<lambda>sid.
       rbind (call lib persist ts L ''session_get'' (jobj [(''session_id'', sid)])) (\<lambda>bound.
       rbind (row_handoff lib bound) (\<lambda>previous.
       rbind (jvalue_int previous ''version'' 0) (\<lambda>pv.
       if pv = 2 \<and> capsule_key previous \<noteq> capsule_key cap then Inr (Inl ''capsule session key is immutable'')
       else
         rbind (capsule_rows lib persist L ts cap False) (\<lambda>rows.
         rbind (latest_by_key lib rows cap) (\<lambda>old.
         rbind (jvalue_u64 old ''revision'') (\<lambda>revision.
         if \<not> jcontains args ''expected_revision'' \<or> \<not> jeq (jidx args ''expected_revision'') (JInt (int revision))
         then Inr (Inl ''capsule revision mismatch'')
         else
           rbind (jat cap ''revision'') (\<lambda>given.
           if \<not> jeq given (JInt (int (next_revision revision))) then Inr (Inl ''capsule revision mismatch'')
           else
             rbind (rbind (jat cap ''saved_at'') get_double) (\<lambda>saved.
             rbind (capsule_v2 lib cap (next_revision revision) saved) (\<lambda>cap'. Inr (Inr cap')))))))))))))"

definition session_bind_op ::
    "jlib \<Rightarrow> (batch \<Rightarrow> bool) \<Rightarrow> rat \<Rightarrow> ledger \<Rightarrow> json \<Rightarrow> ((string + json) \<times> ledger) res" where
  "session_bind_op lib persist ts L args =
     (let bind = (\<lambda>args. rbind (run lib persist ts L ''session_bind'' args) (\<lambda>(b, L', ob). Inr (Inr b, L')))
      in rbind (jvalue args ''metadata'' (JObj [])) (\<lambda>m.
         if \<not> jcontains m ''handoff'' then bind args
         else
           rbind (jat m ''handoff'') (\<lambda>cap.
           rbind (jvalue_int cap ''version'' 0) (\<lambda>v.
           if v = 2 then
             rbind (bind_capsule lib persist ts L args cap) (\<lambda>r.
               case r of
                 Inl e \<Rightarrow> Inr (Inl e, L)
               | Inr cap' \<Rightarrow> bind (jset ''metadata'' (jset ''handoff'' cap' m) args))
           else
             rbind (jat args ''session_id'') (\<lambda>sid.
             rbind (call lib persist ts L ''session_get'' (jobj [(''session_id'', sid)])) (\<lambda>row.
             rbind (row_handoff lib row) (\<lambda>old.
             rbind (jvalue_int old ''version'' 0) (\<lambda>ov.
             if ov = 2 then Inr (Inl ''cannot overwrite v2 capsule with unversioned writer'', L) else bind args))))))))"

section \<open>The rows of a capsule's key\<close>

lemma prefix_starts: "prefix p s = starts_with p s"
  unfolding starts_with_def prefix_def by (metis append_eq_conv_conj append_take_drop_id)

lemma canonical_key: "repository_key = canonical_repository"
  by (rule ext) (simp only: repository_key_def canonical_repository_def prefix_starts)

lemma call_list:
  "call lib persist ts L ''session_list'' a = rbind (op_list lib L ''session_list'' a ts) (\<lambda>(r, cs). Inr r)"
proof -
  have "dispatch lib L ''session_list'' a ts = op_list lib L ''session_list'' a ts" by (simp add: dispatch_def)
  then show ?thesis
    using read_ops_no_change(4) [of lib L "''session_list''" a ts]
    by (cases "op_list lib L ''session_list'' a ts") (auto simp: call_def run_def)
qed

lemma op_list_shape:
  "op_list lib L opn a ts = Inr (r, cs) \<Longrightarrow> \<exists>page cur. r = jobj [(''rows'', JArr page), (''after'', cur)]"
  by (auto simp: op_list_def rbind_eq_Inr Let_def case_prod_beta split: option.splits; blast)

lemma pages_follow:
  "follow lib L ''session_list'' ts n a = Some out \<Longrightarrow>
     capsule_pages lib persist L ts n a rows = Some (Inr (rows @ out))"
proof (induction n arbitrary: a out rows)
  case (Suc n)
  from Suc.prems obtain r cs where r: "op_list lib L ''session_list'' a ts = Inr (r, cs)"
    by (auto split: sum.splits)
  with op_list_shape obtain page cur where s: "r = jobj [(''rows'', JArr page), (''after'', cur)]" by blast
  show ?case
  proof (cases "cur = JNull")
    case True
    with Suc.prems r s show ?thesis by (simp add: call_list jidx_def jat_def)
  next
    case False
    with Suc.prems r s obtain more where "follow lib L ''session_list'' ts n (jset ''after'' cur a) = Some more" "out = page @ more"
      by (auto simp: jidx_def)
    with Suc.IH False r s show ?thesis by (simp add: call_list jat_def)
  qed
qed simp

lemma follow_more: "follow lib L opn ts n a = Some out \<Longrightarrow> n \<le> m \<Longrightarrow> follow lib L opn ts m a = Some out"
proof (induction n arbitrary: a out m)
  case (Suc n)
  then obtain m' where m: "m = Suc m'" "n \<le> m'" by (cases m) auto
  from Suc.prems(1) show ?case
    unfolding m(1) using Suc.IH [OF _ m(2)]
    by (auto split: sum.splits prod.splits option.splits json.splits if_splits)
qed simp

text \<open>Stored rows carry the columns of their capsule.\<close>

lemma reach_upgraded: "reach lib L bs \<Longrightarrow> row_of L tb i = Some r \<Longrightarrow> upgrade_row lib tb r = Inr r"
proof (induction arbitrary: tb i r rule: reach.induct)
  case start
  then show ?case by (simp add: row_of_ledger_init)
next
  case (step L bs a persist ts opn res L' ob)
  have wf: "wf_ledger lib L" by (rule reach_wf [OF step.hyps(1)])
  from run_effect [OF wf step.hyps(2,3)] obtain cs where cs: "dispatch lib L opn a ts = Inr (res, cs)"
    "\<And>tb i. row_of L' tb i = row_after cs tb i (row_of L tb i)" by metis
  have "good_change lib c" if "c \<in> set cs" for c
    using dispatch_good [OF wf step.hyps(2) cs(1) that] .
  then show ?case
    using row_after_cases [of cs tb i "row_of L tb i"] step.prems cs(2) step.IH
    by (auto simp: good_change_def split: if_splits)
qed

lemma jobj_Nil: "jobj [] = JObj []"
  by (simp add: jobj_def om_of_list_def)

lemma handoff_row:
  "is_object row \<Longrightarrow> row_handoff lib row = rbind (jvalue_str row ''metadata_json'' ''{}'') (handoff_of lib)"
  by (cases "jvalue_str row ''metadata_json'' ''{}''")
    (auto simp: row_handoff_def metadata_def handoff_of_def jobj_Nil jvalue_def jfind_def split: option.split json.split)

lemma str0_jvalue: "jvalue_str j k [] = Inr s \<Longrightarrow> str0 j k = s"
  by (auto simp: jvalue_str_def jvalue_def rbind_eq_Inr field_str_def split: if_splits option.splits)

lemma capsule_columns:
  assumes "reach lib L bs" "row_of L ''thread_sessions'' i = Some row" "row_handoff lib row = Inr c"
    "jvalue_int c ''version'' 0 = Inr 2"
  shows "jfind row ''repository'' = Some (JStr (canonical_repository (str0 c ''repository'')))"
    "jfind row ''stream_id'' = Some (JStr (str0 c ''stream_id''))"
proof -
  have jok: "jok row" by (rule row_of_jok [OF reach_wf [OF assms(1)] assms(2)])
  obtain ms where ms: "jvalue_str row ''metadata_json'' ''{}'' = Inr ms" "handoff_of lib ms = Inr c"
    using assms(3) jok by (auto simp: handoff_row rbind_eq_Inr)
  have "is_object c" using assms(4) by (auto simp: jvalue_int_def jvalue_def rbind_eq_Inr split: if_splits)
  with reach_upgraded [OF assms(1,2)] ms assms(4) jok obtain p s where
    "jvalue_str c ''repository'' [] = Inr p" "jvalue_str c ''stream_id'' [] = Inr s"
    and e: "row = jset ''stream_id'' (JStr s) (jset ''repository'' (JStr (repository_key p))
       (jset ''stream_id'' (JStr []) (jset ''repository'' (JStr []) row)))"
    by (auto simp: upgrade_row_def rbind_eq_Inr Let_def)
  then have v: "str0 c ''repository'' = p" "str0 c ''stream_id'' = s" by (simp_all add: str0_jvalue)
  show "jfind row ''repository'' = Some (JStr (canonical_repository (str0 c ''repository'')))"
    by (subst e) (use jok v in \<open>simp add: canonical_key\<close>)
  show "jfind row ''stream_id'' = Some (JStr (str0 c ''stream_id''))"
    by (subst e) (use jok v in simp)
qed

text \<open>The arguments of the listing and the filters it makes of them.\<close>

lemma page_args_Inr:
  "\<exists>a. page_args key False = Inr a \<and> jok a \<and> jfind a ''limit'' = Some (JInt 100)
     \<and> jfind a ''repository'' = Some (JStr (canonical_repository (str0 key ''repository'')))
     \<and> jfind a ''stream_id'' = (if str0 key ''stream_id'' = [] then None else Some (JStr (str0 key ''stream_id'')))
     \<and> (\<forall>k. k \<notin> {''limit'', ''repository'', ''stream_id''} \<longrightarrow> jfind a k = None)"
proof (cases "str0 key ''stream_id'' = []")
  case True
  then show ?thesis by (simp add: page_args_def)
next
  case False
  then have f: "jfind key ''stream_id'' = Some (JStr (str0 key ''stream_id''))"
    by (auto simp: field_str_def split: option.splits json.splits)
  then have "is_object key" by (cases key) (auto simp: jfind_def)
  with f False show ?thesis by (simp add: page_args_def jat_def)
qed

lemma session_filters:
  assumes "table_at L ''thread_sessions'' = Inr t" "wf_ledger lib L" "jok a"
    "jfind a ''repository'' = Some (JStr p)" "jfind a ''stream_id'' \<in> {None, Some (JStr s)}"
    "\<forall>k. k \<notin> {''limit'', ''repository'', ''stream_id''} \<longrightarrow> jfind a k = None"
  shows "\<exists>fs. list_filters ''session_list'' a t = Inr fs
     \<and> (\<forall>(f, v) \<in> set fs. f \<in> set (om_keys (t_indexes t))
          \<and> (f = ''repository'' \<and> v = JStr (repository_key p) \<or> f = ''stream_id'' \<and> jfind a ''stream_id'' = Some v))"
proof -
  from table_at_schema [OF assms(2,1)] have keys: "map fst (t_indexes t) = [''project_dir'', ''repository'', ''status'', ''stream_id'', ''thread_id'']"
    by (auto simp: schema_def om_keys_def)
  define g where "g f = (case jfind a f of None \<Rightarrow> []
      | Some v \<Rightarrow> if v = JNull \<or> (''session_list'' = ''artifact_list'' \<and> v = JStr []) then [] else [(f, v)])" for f
  have "concat (map (\<lambda>(f, _). g f) (t_indexes t)) = concat (map g (map fst (t_indexes t)))"
    unfolding map_map comp_def case_prod_unfold by (rule refl)
  also have "\<dots> = (''repository'', JStr p) # (case jfind a ''stream_id'' of None \<Rightarrow> [] | Some v \<Rightarrow> [(''stream_id'', v)])"
    using assms(4,5) unfolding keys g_def by (simp add: assms(6)) (auto split: option.split)
  finally have c: "concat (map (\<lambda>(f, _). g f) (t_indexes t)) = \<dots>" .
  let ?fs = "om_of_list ((''repository'', JStr p) # (case jfind a ''stream_id'' of None \<Rightarrow> [] | Some v \<Rightarrow> [(''stream_id'', v)]))"
  have l: "list_filters ''session_list'' a t = Inr (om_put ''repository'' (JStr (repository_key p)) ?fs)"
    unfolding list_filters_def c [unfolded g_def] Let_def by simp
  have "f \<in> set (om_keys (t_indexes t))
          \<and> (f = ''repository'' \<and> v = JStr (repository_key p) \<or> f = ''stream_id'' \<and> jfind a ''stream_id'' = Some v)"
    if "(f, v) \<in> set (om_put ''repository'' (JStr (repository_key p)) ?fs)" for f v
  proof -
    have "om_get (om_put ''repository'' (JStr (repository_key p)) ?fs) f = Some v"
      using that by (subst om_get_Some_iff) simp_all
    then show ?thesis unfolding om_keys_def keys by (auto split: if_splits option.splits)
  qed
  with l show ?thesis by blast
qed

lemma session_matches:
  assumes r: "reach lib L bs" and t: "table_at L ''thread_sessions'' = Inr t" and f: "list_filters ''session_list'' a t = Inr fs"
    and ix: "\<forall>(f, v) \<in> set fs. f \<in> set (om_keys (t_indexes t))"
  shows "list_matches lib ''session_list'' a ts t = Inr (scan_select fs t)"
proof -
  from table_at_schema [OF reach_wf [OF r] t] have "wf_table lib t" by blast
  from table_select_scan [OF this ix] have "list_candidates lib ''session_list'' a t fs = Inr (scan_select fs t)"
    by (simp add: list_candidates_def inbox_realm_def)
  moreover have "list_keep lib ''session_list'' a ts = (\<lambda>row. Inr True)"
    by (rule ext) (simp add: list_keep_def inbox_realm_def)
  moreover have "res_filter (\<lambda>row. Inr True) xs = Inr xs" for xs :: "json list" by (induction xs) simp_all
  ultimately show ?thesis using f by (simp add: list_matches_def)
qed

text \<open>
  On a reachable ledger the listing ends within its fuel, and gives every session whose capsule
  is of the repository and, if the key names one, of the stream.
\<close>

lemma capsule_rows_total:
  assumes "reach lib L bs"
  shows "\<exists>rows. capsule_rows lib persist L ts key False = Inr (JArr rows)
     \<and> (\<forall>i row c. row_of L ''thread_sessions'' i = Some row \<longrightarrow> row_handoff lib row = Inr c \<longrightarrow>
          jvalue_int c ''version'' 0 = Inr 2 \<longrightarrow>
          canonical_repository (str0 c ''repository'') = canonical_repository (canonical_repository (str0 key ''repository'')) \<longrightarrow>
          (str0 key ''stream_id'' \<noteq> [] \<longrightarrow> str0 c ''stream_id'' = str0 key ''stream_id'') \<longrightarrow> row \<in> set rows)"
proof -
  let ?p = "canonical_repository (str0 key ''repository'')"
  have wf: "wf_ledger lib L" by (rule reach_wf [OF assms])
  have "schema ''thread_sessions'' = Some (''session_id'', [''project_dir'', ''repository'', ''status'', ''stream_id'', ''thread_id''])"
    by (simp add: schema_def)
  from wf_ledgerD [OF wf this] obtain t where t: "om_get (l_tables L) ''thread_sessions'' = Some t" "wf_table lib t" by blast
  then have at: "table_at L ''thread_sessions'' = Inr t" by (simp add: table_at_def)
  obtain a where a: "page_args key False = Inr a" "jok a" "jfind a ''limit'' = Some (JInt 100)" "jfind a ''repository'' = Some (JStr ?p)"
    "jfind a ''stream_id'' = (if str0 key ''stream_id'' = [] then None else Some (JStr (str0 key ''stream_id'')))"
    "\<forall>k. k \<notin> {''limit'', ''repository'', ''stream_id''} \<longrightarrow> jfind a k = None"
    using page_args_Inr by blast
  from a(5) have "jfind a ''stream_id'' \<in> {None, Some (JStr (str0 key ''stream_id''))}" by simp
  from session_filters [OF at wf a(2,4) this a(6)] obtain fs where fs: "list_filters ''session_list'' a t = Inr fs"
    "\<forall>(f, v) \<in> set fs. f \<in> set (om_keys (t_indexes t))
          \<and> (f = ''repository'' \<and> v = JStr (repository_key ?p) \<or> f = ''stream_id'' \<and> jfind a ''stream_id'' = Some v)" by blast
  then have ix: "\<forall>(f, v) \<in> set fs. f \<in> set (om_keys (t_indexes t))" by blast
  note ms = session_matches [OF assms at fs(1) ix, of ts]
  have lm: "jvalue_int a ''limit'' 100 = Inr 100" using a(2,3) by (simp add: jvalue_int_def jvalue_def to_int32_def)
  have m: "map_of list_tables ''session_list'' = Some ''thread_sessions''" by (simp add: list_tables_def)
  have no: "jfind a ''after'' \<in> {None, Some JNull}" using a(6) by simp
  obtain out where out: "follow lib L ''session_list'' ts (Suc (length (scan_select fs t))) a = Some out"
    "mset out = mset (scan_select fs t)" using follow_all [OF assms m at a(2) no ms lm] by blast
  have "length (scan_select fs t) \<le> session_count L"
    unfolding session_count_def at scan_select_def by (simp add: order.trans [OF length_filter_le])
  with follow_more [OF out(1)] have "follow lib L ''session_list'' ts (Suc (session_count L)) a = Some out" by (simp del: follow.simps)
  from pages_follow [OF this, of persist "[]"] have rows: "capsule_rows lib persist L ts key False = Inr (JArr out)"
    by (simp add: capsule_rows_def a(1) del: capsule_pages.simps)
  have "row \<in> set out" if row: "row_of L ''thread_sessions'' i = Some row" "row_handoff lib row = Inr c" "jvalue_int c ''version'' 0 = Inr 2"
      and rep: "canonical_repository (str0 c ''repository'') = canonical_repository ?p"
      and str: "str0 key ''stream_id'' \<noteq> [] \<longrightarrow> str0 c ''stream_id'' = str0 key ''stream_id''" for i row c
  proof -
    note cols = capsule_columns [OF assms row]
    have "row_sat fs row" unfolding row_sat_def
    proof (rule ballI, clarify)
      fix f v assume "(f, v) \<in> set fs"
      with fs(2) have "f = ''repository'' \<and> v = JStr (repository_key ?p) \<or> f = ''stream_id'' \<and> jfind a ''stream_id'' = Some v" by blast
      then show "\<exists>w. jfind row f = Some w \<and> jeq w v"
        using cols rep str a(5) by (auto simp: canonical_key split: if_splits)
    qed
    moreover have "row \<in> snd ` set (t_rows t)"
      using row(1) t(1) by (force simp: row_of_def dest: om_get_SomeD)
    ultimately have "row \<in> set (scan_select fs t)" by (auto simp: scan_select_def)
    then show ?thesis using out(2) by (metis set_mset_mset)
  qed
  with rows show ?thesis by blast
qed

section \<open>Later writers are refused\<close>

text \<open>Two capsules, or requests, of one repository and one stream, or one session without a stream.\<close>

definition same_place :: "json \<Rightarrow> json \<Rightarrow> bool" where
  "same_place x y =
     (canonical_repository (str0 x ''repository'') = canonical_repository (str0 y ''repository'')
      \<and> str0 x ''stream_id'' = str0 y ''stream_id''
      \<and> (str0 x ''stream_id'' = [] \<longrightarrow> str0 x ''session_id'' = str0 y ''session_id''))"

text \<open>Some session holds a capsule of that place with at least the given revision.\<close>

definition holds_revision :: "jlib \<Rightarrow> ledger \<Rightarrow> json \<Rightarrow> nat \<Rightarrow> bool" where
  "holds_revision lib L cap n =
     (\<exists>i row c q. row_of L ''thread_sessions'' i = Some row \<and> row_handoff lib row = Inr c
        \<and> jvalue_int c ''version'' 0 = Inr 2 \<and> jvalue_u64 c ''revision'' = Inr q \<and> n \<le> q \<and> same_place c cap)"

lemma same_place_key: "same_place x y \<Longrightarrow> capsule_key x = capsule_key y"
  by (simp add: same_place_def capsule_key_def)

lemma held_row:
  assumes "reach lib L bs" "holds_revision lib L cap q" "same_place input cap"
    "canonical_repository (canonical_repository (str0 input ''repository'')) = canonical_repository (str0 input ''repository'')"
  shows "\<exists>rows row c k. capsule_rows lib persist L ts input False = Inr (JArr rows) \<and> row \<in> set (jitems (JArr rows))
    \<and> capsule_of lib (capsule_key input) row c k \<and> q \<le> k"
proof -
  from assms(2) obtain i row c k where row: "row_of L ''thread_sessions'' i = Some row" "row_handoff lib row = Inr c"
    "jvalue_int c ''version'' 0 = Inr 2" "jvalue_u64 c ''revision'' = Inr k" "q \<le> k" "same_place c cap"
    unfolding holds_revision_def by blast
  have p: "same_place c input" using row(6) assms(3) by (auto simp: same_place_def)
  obtain rows where rows: "capsule_rows lib persist L ts input False = Inr (JArr rows)" "row \<in> set rows"
    using capsule_rows_total [OF assms(1), of persist ts input] row(1-3) p assms(4) by (auto simp: same_place_def)
  have "capsule_of lib (capsule_key input) row c k" using row same_place_key [OF p] by (simp add: capsule_of_def)
  with rows row(5) show ?thesis by (intro exI [of _ rows] exI [of _ row] exI [of _ c] exI [of _ k]) simp
qed

lemma save_refused:
  assumes "reach lib L bs" "holds_revision lib L cap q" "n < q"
    "capsule_input fs args = Inr input" "same_place input cap" "jeq (jidx args ''expected_revision'') (JInt (int n))"
    "canonical_repository (canonical_repository (str0 input ''repository'')) = canonical_repository (str0 input ''repository'')"
  shows "capsule_save_op lib persist fs now ts L args \<noteq> Inr (Inr cap', L')"
proof -
  from held_row [OF assms(1,2,5,7)] obtain rows row c k where h: "capsule_rows lib persist L ts input False = Inr (JArr rows)"
    "row \<in> set (jitems (JArr rows))" "capsule_of lib (capsule_key input) row c k" "q \<le> k" by blast
  from save_refused_by_row [where capsule_rows = "\<lambda>key. capsule_rows lib persist L ts key False", OF assms(4) h(1-3) _ assms(6)]
    h(4) assms(3) have "capsule_save lib fs now (session_get lib persist L ts)
      (\<lambda>key. capsule_rows lib persist L ts key False) args \<noteq> Inr (Inr cap')" by simp
  then show ?thesis
    by (auto simp: capsule_save_op_def rbind_eq_Inr split: sum.splits)
qed

lemma bind_refused:
  assumes "reach lib L bs" "holds_revision lib L cap q" "n < q"
    "jvalue args ''metadata'' (JObj []) = Inr m" "jfind m ''handoff'' = Some input" "jvalue_int input ''version'' 0 = Inr 2"
    "same_place input cap" "jeq (jidx args ''expected_revision'') (JInt (int n))"
    "canonical_repository (canonical_repository (str0 input ''repository'')) = canonical_repository (str0 input ''repository'')"
  shows "session_bind_op lib persist ts L args \<noteq> Inr (Inr r, L')"
proof
  assume acc: "session_bind_op lib persist ts L args = Inr (Inr r, L')"
  have "jcontains m ''handoff''" "jat m ''handoff'' = Inr input"
    using assms(5) by (cases m; auto simp: jcontains_def jat_def jfind_def)+
  with acc assms(4,6) obtain x where x: "bind_capsule lib persist ts L args input = Inr x"
    "(case x of Inl e \<Rightarrow> Inr (Inl e, L)
       | Inr cap' \<Rightarrow> rbind (run lib persist ts L ''session_bind'' (jset ''metadata'' (jset ''handoff'' cap' m) args))
           (\<lambda>(b, L', ob). Inr (Inr b, L'))) = Inr (Inr r, L')"
    unfolding session_bind_op_def Let_def by (auto simp: rbind_eq_Inr)
  then obtain cap' where c: "x = Inr cap'" by (cases x) auto
  from held_row [OF assms(1,2,7,9)] obtain rows row d k where h: "capsule_rows lib persist L ts input False = Inr (JArr rows)"
    "row \<in> set (jitems (JArr rows))" "capsule_of lib (capsule_key input) row d k" "q \<le> k" by blast
  from x(1) [unfolded c] h(1) obtain old n' where l: "latest_by_key lib (JArr rows) input = Inr old"
    "jvalue_u64 old ''revision'' = Inr n'" "jeq (jidx args ''expected_revision'') (JInt (int n'))"
    unfolding bind_capsule_def by (auto simp: rbind_eq_Inr split: if_splits)
  from latest_not_expected [OF l(1,2) h(2,3) _ assms(8)] h(4) assms(3) l(3) show False by simp
qed

section \<open>What a save leaves in the ledger\<close>

text \<open>
  What the library is relied on: a parsed object lists its fields in order, and the metadata that
  the save prints parses back.  The second is stated of the one document the save prints.
\<close>

definition session_text :: "ledger \<Rightarrow> string \<Rightarrow> string" where
  "session_text L sid =
     (case row_of L ''thread_sessions'' sid of None \<Rightarrow> ''{}'' | Some row \<Rightarrow> str0 row ''metadata_json'')"

definition saved_metadata :: "jlib \<Rightarrow> ledger \<Rightarrow> json \<Rightarrow> json" where
  "saved_metadata lib L cap = merged_metadata lib (bind_args JNull JNull cap) (session_text L (str0 cap ''session_id''))"

lemma merged_handoff:
  assumes "\<forall>t j. jparse lib t = Some j \<longrightarrow> jcan j"
  shows "merged_metadata lib (bind_args sid pd cap) ms = merged_metadata lib (bind_args sid' pd' cap) ms"
    "jok (merged_metadata lib (bind_args sid pd cap) ms)" "jfind (merged_metadata lib (bind_args sid pd cap) ms) ''handoff'' = Some cap"
proof -
  define md where "md = (case jparse lib ms of None \<Rightarrow> jobj [] | Some m \<Rightarrow> if is_object m then m else jobj [])"
  have o: "jobj [(''handoff'', cap)] = JObj [(''handoff'', cap)]" by (simp add: jobj_def om_of_list_def)
  have e: "merged_metadata lib (bind_args x y cap) ms = jset ''handoff'' cap md" for x y
    by (simp add: merged_metadata_def bind_args_def md_def [symmetric] o Let_def)
  have "jok md" using assms by (auto simp: md_def jok_iff split: option.split)
  then show "jok (merged_metadata lib (bind_args sid pd cap) ms)" "jfind (merged_metadata lib (bind_args sid pd cap) ms) ''handoff'' = Some cap"
    by (simp_all add: e)
  show "merged_metadata lib (bind_args sid pd cap) ms = merged_metadata lib (bind_args sid' pd' cap) ms" by (simp add: e)
qed

lemma set_nonempty_fields:
  "set_nonempty a k row = Inr row' \<Longrightarrow> jok row \<Longrightarrow> jok row' \<and> (\<forall>k'. k' \<noteq> k \<longrightarrow> jfind row' k' = jfind row k')"
  by (auto simp: set_nonempty_def rbind_eq_Inr split: if_splits)

lemma bind_row:
  assumes "op_session_bind lib L (bind_args (JStr sid) pd cap) ts = Inr (r, cs)" "sid \<noteq> []" "wf_ledger lib L"
  obtains c where "cs = [c]" "c_table c = ''thread_sessions''" "c_id c = sid" "jok (c_row c)"
    "jfind (c_row c) ''metadata_json'' =
       Some (JStr (jdump lib (merged_metadata lib (bind_args (JStr sid) pd cap) (session_text L sid))))"
proof -
  let ?a = "bind_args (JStr sid) pd cap"
  from assms(1,2) obtain old row row1 ms st c where o: "lrow L ''thread_sessions'' sid = Inr old"
    "res_fold (set_nonempty ?a) [''client'', ''project_dir'', ''transcript_path''] (if old = JNull then new_session_row sid ts else old) = Inr row"
    "bind_thread L ?a row = Inr row1" "jidx row1 ''metadata_json'' = JStr ms"
    and m: "mk_change lib ''thread_sessions'' sid
                (jset ''ended_at'' JNull (jset ''last_active_at'' (JFloat ts)
                  (jset ''status'' (JStr st)
                    (jset ''metadata_json'' (JStr (jdump lib (merged_metadata lib ?a ms))) row1)))) = Inr c"
    and cs: "cs = [c]"
    by (auto simp: op_session_bind_def rbind_eq_Inr idarg_def bind_args_def jat_def simp del: res_fold.simps)
  have old: "old = (case row_of L ''thread_sessions'' sid of None \<Rightarrow> JNull | Some r \<Rightarrow> r)" by (rule lrow_Inr [OF o(1)])
  let ?row0 = "if old = JNull then new_session_row sid ts else old"
  have j0: "jok ?row0"
    using old row_of_jok [OF assms(3)] by (auto simp: new_session_row_def split: option.splits)
  from o(2) obtain w1 w2 where w: "set_nonempty ?a ''client'' ?row0 = Inr w1" "set_nonempty ?a ''project_dir'' w1 = Inr w2"
    "set_nonempty ?a ''transcript_path'' w2 = Inr row" by (auto simp: rbind_eq_Inr)
  note s1 = set_nonempty_fields [OF w(1) j0]
  note s2 = set_nonempty_fields [OF w(2) conjunct1 [OF s1]]
  note s3 = set_nonempty_fields [OF w(3) conjunct1 [OF s2]]
  have row: "jok row" "jfind row ''metadata_json'' = jfind ?row0 ''metadata_json''"
    using s1 s2 s3 by simp_all
  have r1: "row1 = row" using o(3) by (simp add: bind_thread_def bind_args_def)
  have ms: "ms = session_text L sid"
  proof (cases "row_of L ''thread_sessions'' sid")
    case None
    then show ?thesis using old o(4) row(2) by (auto simp: r1 jidx_def session_text_def new_session_row_def)
  next
    case (Some r)
    then have "old = r" "r \<noteq> JNull" using old row_of_jok [OF assms(3)] jok_neq_null by auto
    then show ?thesis using o(4) row(2) Some by (auto simp: r1 jidx_def session_text_def field_str_def split: option.splits)
  qed
  have j1: "jok (jset ''ended_at'' JNull (jset ''last_active_at'' (JFloat ts)
                  (jset ''status'' (JStr st)
                    (jset ''metadata_json'' (JStr (jdump lib (merged_metadata lib ?a ms))) row1))))"
    using row(1) by (simp add: r1)
  note g = mk_change_good [OF m jok_jcan [OF j1]]
  have "jok (c_row c)"
  proof -
    from m obtain r where u: "upgrade_row lib ''thread_sessions'' (jset ''ended_at'' JNull (jset ''last_active_at'' (JFloat ts)
                  (jset ''status'' (JStr st)
                    (jset ''metadata_json'' (JStr (jdump lib (merged_metadata lib ?a ms))) row1)))) = Inr r" "c_row c = r"
      by (auto simp: mk_change_def rbind_eq_Inr)
    show ?thesis using upgrade_facts(1,2) [OF jok_jcan [OF j1] u(1)] j1 u(2) by (simp add: jok_iff)
  qed
  moreover have "jfind (c_row c) ''metadata_json'' = Some (JStr (jdump lib (merged_metadata lib ?a ms)))"
    using g(5) [of "''metadata_json''"] row(1) by (simp add: r1)
  ultimately show thesis using that [OF cs] g(2,3) ms by simp
qed

lemma save_session:
  "capsule_save lib fs now sget rows args = Inr (Inr cap) \<Longrightarrow> \<exists>sid. jat cap ''session_id'' = Inr (JStr sid) \<and> sid \<noteq> []"
  by (auto simp: capsule_save_def rbind_eq_Inr split: if_splits)

lemma capsule_save_op_accepted:
  assumes "capsule_save_op lib persist fs now ts L args = Inr (Inr cap, L')"
  obtains sid pd b ob where
    "capsule_save lib fs now (session_get lib persist L ts) (\<lambda>key. capsule_rows lib persist L ts key False) args = Inr (Inr cap)"
    "jfind cap ''session_id'' = Some (JStr sid)" "sid \<noteq> []"
    "run lib persist ts L ''session_bind'' (bind_args (JStr sid) pd cap) = Inr (b, L', ob)"
proof -
  from assms obtain r where r: "capsule_save lib fs now (session_get lib persist L ts)
      (\<lambda>key. capsule_rows lib persist L ts key False) args = Inr r"
    and rest: "(case r of
         Inl e \<Rightarrow> Inr (Inl e, L)
       | Inr cap \<Rightarrow>
           rbind (jat cap ''session_id'') (\<lambda>sid.
           rbind (jat cap ''project_dir'') (\<lambda>pd.
           rbind (run lib persist ts L ''session_bind'' (bind_args sid pd cap)) (\<lambda>(b, L', ob).
             Inr (Inr cap, L'))))) = Inr (Inr cap, L')"
    unfolding capsule_save_op_def rbind_eq_Inr by blast
  from rest obtain c where c: "r = Inr c" by (cases r) auto
  from rest obtain sid pd b ob where s: "c = cap" "jat cap ''session_id'' = Inr sid"
    "run lib persist ts L ''session_bind'' (bind_args sid pd cap) = Inr (b, L', ob)"
    unfolding c by (auto simp: rbind_eq_Inr)
  obtain i where "jat cap ''session_id'' = Inr (JStr i)" "i \<noteq> []" using save_session [OF r [unfolded c s(1)]] by blast
  with s that r c show thesis by (auto simp: jat_eq_Inr)
qed

lemma save_stored:
  assumes "reach lib L bs" "\<forall>t j. jparse lib t = Some j \<longrightarrow> jcan j"
    "capsule_save_op lib persist fs now ts L args = Inr (Inr cap, L')"
    "jparse lib (jdump lib (saved_metadata lib L cap)) = Some (saved_metadata lib L cap)"
  shows "\<exists>bs' row. reach lib L' bs' \<and> row_of L' ''thread_sessions'' (str0 cap ''session_id'') = Some row
    \<and> row_handoff lib row = Inr cap"
proof -
  obtain sid pd b ob where "capsule_save lib fs now (session_get lib persist L ts)
      (\<lambda>key. capsule_rows lib persist L ts key False) args = Inr (Inr cap)"
    and sid: "jfind cap ''session_id'' = Some (JStr sid)" "sid \<noteq> []"
    and run: "run lib persist ts L ''session_bind'' (bind_args (JStr sid) pd cap) = Inr (b, L', ob)"
    by (rule capsule_save_op_accepted [OF assms(3)])
  have wf: "wf_ledger lib L" by (rule reach_wf [OF assms(1)])
  have a: "args_ok (bind_args (JStr sid) pd cap)" by (simp add: args_ok_def bind_args_def)
  from run_effect [OF wf a run] obtain cs where cs: "dispatch lib L ''session_bind'' (bind_args (JStr sid) pd cap) ts = Inr (b, cs)"
    "\<And>tb i. row_of L' tb i = row_after cs tb i (row_of L tb i)" by metis
  from cs(1) have d: "op_session_bind lib L (bind_args (JStr sid) pd cap) ts = Inr (b, cs)" by (simp add: dispatch_def)
  from bind_row [OF d sid(2) wf] obtain c where c: "cs = [c]" "c_table c = ''thread_sessions''" "c_id c = sid" "jok (c_row c)"
    "jfind (c_row c) ''metadata_json'' =
       Some (JStr (jdump lib (merged_metadata lib (bind_args (JStr sid) pd cap) (session_text L sid))))" by blast
  have s0: "str0 cap ''session_id'' = sid" using sid(1) by (simp add: field_str_def)
  note m = merged_handoff [OF assms(2)]
  have M: "merged_metadata lib (bind_args (JStr sid) pd cap) (session_text L sid) = saved_metadata lib L cap"
    unfolding saved_metadata_def s0 by (rule m(1))
  have "jok (saved_metadata lib L cap)" "jfind (saved_metadata lib L cap) ''handoff'' = Some cap"
    unfolding saved_metadata_def by (rule m(2), rule m(3))
  then have h: "handoff_of lib (jdump lib (saved_metadata lib L cap)) = Inr cap"
    using assms(4) by (simp add: handoff_of_def jvalue_def)
  have "row_of L' ''thread_sessions'' sid = Some (c_row c)"
    unfolding cs(2) c(1) using jok_neq_null [OF c(4)] by (simp add: c(2,3))
  moreover have "row_handoff lib (c_row c) = Inr cap"
    using c(4,5) h by (simp add: handoff_row M jvalue_str_def jvalue_def)
  moreover have "\<exists>bs'. reach lib L' bs'" using reach.step [OF assms(1) a run] by blast
  ultimately show ?thesis using s0 by blast
qed

lemma input_place:
  assumes "capsule_v2 lib input r now = Inr cap" "canonical_repository (str0 cap ''repository'') = str0 cap ''repository''"
  shows "same_place input cap"
proof -
  note v = capsule_v2_finds(6) [OF assms(1)] capsule_v2_takes(10,11) [OF assms(1)]
  from v(1) have p: "str0 cap ''repository'' = canonical_repository (str0 input ''repository'')"
    by (auto simp: field_str_def jvalue_def split: if_splits option.splits)
  have "str0 input k = str0 cap k" if "takes input (JStr []) cap k" for k
    using that by (auto simp: takes_def jvalue_def field_str_def split: if_splits option.splits)
  with v(2,3) show ?thesis using p assms(2) by (simp add: same_place_def)
qed

text \<open>
  C25: saving a capsule is a compare-and-set.  On a reachable ledger a save that is accepted takes the
  revision after the one it expected, and leaves a reachable ledger in which its session holds the
  capsule.  From then on, on every reachable ledger in which some session holds a capsule of the
  same repository and stream (or session, without a stream) with at least that revision, neither a
  save nor a \<open>session_bind\<close> with a capsule of that place that expects the old revision is
  accepted; the repeated request is one of that place.  The 64-bit revision must not have wrapped to zero, the canonical path of the
  repository must be its own canonical path, and the metadata printed must parse back.
\<close>

theorem capsule_save_cas:
  assumes "reach lib L bs" and "\<forall>t j. jparse lib t = Some j \<longrightarrow> jcan j"
    and "capsule_save_op lib persist fs now ts L args = Inr (Inr cap, L1)"
    and "jfind cap ''revision'' \<noteq> Some (JInt 0)"
    and "jparse lib (jdump lib (saved_metadata lib L cap)) = Some (saved_metadata lib L cap)"
    and "canonical_repository (str0 cap ''repository'') = str0 cap ''repository''"
  shows "\<exists>n. jeq (jidx args ''expected_revision'') (JInt (int n)) \<and> jfind cap ''revision'' = Some (JInt (int (n + 1)))
    \<and> (\<exists>bs1. reach lib L1 bs1) \<and> holds_revision lib L1 cap (n + 1)
    \<and> (\<forall>input. capsule_input fs args = Inr input \<longrightarrow> same_place input cap)
    \<and> (\<forall>L2 bs2 fs' args' input persist' now' ts' cap' L3. reach lib L2 bs2 \<longrightarrow> holds_revision lib L2 cap (n + 1) \<longrightarrow>
         capsule_input fs' args' = Inr input \<longrightarrow> same_place input cap \<longrightarrow>
         jidx args' ''expected_revision'' = jidx args ''expected_revision'' \<longrightarrow>
         capsule_save_op lib persist' fs' now' ts' L2 args' \<noteq> Inr (Inr cap', L3))
    \<and> (\<forall>L2 bs2 args' m input persist' ts' r L3. reach lib L2 bs2 \<longrightarrow> holds_revision lib L2 cap (n + 1) \<longrightarrow>
         jvalue args' ''metadata'' (JObj []) = Inr m \<longrightarrow> jfind m ''handoff'' = Some input \<longrightarrow>
         jvalue_int input ''version'' 0 = Inr 2 \<longrightarrow> same_place input cap \<longrightarrow>
         jidx args' ''expected_revision'' = jidx args ''expected_revision'' \<longrightarrow>
         session_bind_op lib persist' ts' L2 args' \<noteq> Inr (Inr r, L3))"
proof -
  have sv: "capsule_save lib fs now (session_get lib persist L ts)
      (\<lambda>key. capsule_rows lib persist L ts key False) args = Inr (Inr cap)"
    by (rule capsule_save_op_accepted [OF assms(3)])
  from save_takes_next [OF sv assms(4)] obtain input n where n: "capsule_input fs args = Inr input"
    "jeq (jidx args ''expected_revision'') (JInt (int n))" "capsule_v2 lib input (n + 1) now = Inr cap" "n + 1 < 2 ^ 64" .
  have place: "same_place input cap" by (rule input_place [OF n(3) assms(6)])
  from save_stored [OF assms(1,2,3,5)] obtain bs1 row where st: "reach lib L1 bs1"
    "row_of L1 ''thread_sessions'' (str0 cap ''session_id'') = Some row" "row_handoff lib row = Inr cap" by blast
  have held: "holds_revision lib L1 cap (n + 1)"
    unfolding holds_revision_def same_place_def using st(2,3) capsule_fields [OF n(3,4)] by blast
  have later: "capsule_save_op lib persist' fs' now' ts' L2 args' \<noteq> Inr (Inr cap', L3)"
    if "reach lib L2 bs2" "holds_revision lib L2 cap (n + 1)" "capsule_input fs' args' = Inr input'" "same_place input' cap"
      "jidx args' ''expected_revision'' = jidx args ''expected_revision''"
    for L2 bs2 fs' args' input' persist' now' ts' cap' L3
  proof (rule save_refused [OF that(1,2) _ that(3,4)])
    show "n < n + 1" by simp
    show "jeq (jidx args' ''expected_revision'') (JInt (int n))" using n(2) that(5) by simp
    show "canonical_repository (canonical_repository (str0 input' ''repository'')) = canonical_repository (str0 input' ''repository'')"
      using that(4) assms(6) by (simp add: same_place_def)
  qed
  have binds: "session_bind_op lib persist' ts' L2 args' \<noteq> Inr (Inr r, L3)"
    if "reach lib L2 bs2" "holds_revision lib L2 cap (n + 1)" "jvalue args' ''metadata'' (JObj []) = Inr m"
      "jfind m ''handoff'' = Some input'" "jvalue_int input' ''version'' 0 = Inr 2" "same_place input' cap"
      "jidx args' ''expected_revision'' = jidx args ''expected_revision''"
    for L2 bs2 args' m input' persist' ts' r L3
  proof (rule bind_refused [OF that(1,2) _ that(3-6)])
    show "n < n + 1" by simp
    show "jeq (jidx args' ''expected_revision'') (JInt (int n))" using n(2) that(7) by simp
    show "canonical_repository (canonical_repository (str0 input' ''repository'')) = canonical_repository (str0 input' ''repository'')"
      using that(6) assms(6) by (simp add: same_place_def)
  qed
  have "jfind cap ''revision'' = Some (JInt (int (n + 1)))" using capsule_v2_ok [OF n(3)] by simp
  with n(1,2) place st(1) held later binds show ?thesis by (intro exI [of _ n] conjI) (blast | simp)+
qed

text \<open>Two savers that expect revision 0 of the same session's capsule, from the empty ledger.\<close>

definition demo_glib :: jlib where
  "demo_glib = \<lparr>jdump = (\<lambda>j. case j of JObj m \<Rightarrow> ''m'' | _ \<Rightarrow> []),
     jparse = (\<lambda>t. if t = ''m'' then Some (JObj [(''handoff'', demo_cap)]) else None), fnmatch = (\<lambda>p t. False)\<rparr>"

definition demo_save :: json where
  "demo_save = JObj [(''capsule'', demo_input), (''expected_revision'', JInt 0)]"

lemma demo_save_accepted:
  "case capsule_save_op demo_glib (\<lambda>b. True) (\<lambda>p. None) 0 0 ledger_init demo_save of
     Inr (Inr cap, L1) \<Rightarrow> cap = demo_cap | _ \<Rightarrow> False"
  by code_simp

theorem capsule_save_cas_witness:
  "\<exists>L1. capsule_save_op demo_glib (\<lambda>b. True) (\<lambda>p. None) 0 0 ledger_init demo_save = Inr (Inr demo_cap, L1)
    \<and> holds_revision demo_glib L1 demo_cap 1
    \<and> (\<forall>cap' L3. capsule_save_op demo_glib (\<lambda>b. True) (\<lambda>p. None) 5 5 L1 demo_save \<noteq> Inr (Inr cap', L3))"
proof -
  from demo_save_accepted obtain L1 where
    L1: "capsule_save_op demo_glib (\<lambda>b. True) (\<lambda>p. None) 0 0 ledger_init demo_save = Inr (Inr demo_cap, L1)"
    by (auto split: sum.splits prod.splits)
  have can: "\<forall>t j. jparse demo_glib t = Some j \<longrightarrow> jcan j"
    by (simp add: demo_glib_def jcan_def om_inv_def)
  have rev: "jfind demo_cap ''revision'' = Some (JInt 1)" by code_simp
  have prints: "jparse demo_glib (jdump demo_glib (saved_metadata demo_glib ledger_init demo_cap)) = Some (saved_metadata demo_glib ledger_init demo_cap)"
    by code_simp
  have path: "canonical_repository (str0 demo_cap ''repository'') = str0 demo_cap ''repository''" by code_simp
  have ne: "jfind demo_cap ''revision'' \<noteq> Some (JInt 0)" using rev by simp
  have "case capsule_input (\<lambda>p. None) demo_save of Inr i \<Rightarrow> True | Inl e \<Rightarrow> False" by code_simp
  then obtain input where i: "capsule_input (\<lambda>p. None) demo_save = Inr input" by (auto split: sum.splits)
  from capsule_save_cas [OF reach.start can L1 ne prints path] show ?thesis
  proof (elim exE conjE)
    fix n bs1
    assume n: "jfind demo_cap ''revision'' = Some (JInt (int (n + 1)))" and r: "reach demo_glib L1 bs1"
      and h: "holds_revision demo_glib L1 demo_cap (n + 1)"
      and p: "\<forall>input. capsule_input (\<lambda>p. None) demo_save = Inr input \<longrightarrow> same_place input demo_cap"
      and later: "\<forall>L2 bs2 fs' args' input persist' now' ts' cap' L3. reach demo_glib L2 bs2 \<longrightarrow>
         holds_revision demo_glib L2 demo_cap (n + 1) \<longrightarrow> capsule_input fs' args' = Inr input \<longrightarrow> same_place input demo_cap \<longrightarrow>
         jidx args' ''expected_revision'' = jidx demo_save ''expected_revision'' \<longrightarrow>
         capsule_save_op demo_glib persist' fs' now' ts' L2 args' \<noteq> Inr (Inr cap', L3)"
    have "n = 0" using n rev by simp
    with h have "holds_revision demo_glib L1 demo_cap 1" by simp
    moreover have "same_place input demo_cap" using p i by blast
    with later r h i have "capsule_save_op demo_glib (\<lambda>b. True) (\<lambda>p. None) 5 5 L1 demo_save \<noteq> Inr (Inr cap', L3)" for cap' L3
      by blast
    ultimately show ?thesis using L1 by blast
  qed
qed

end
