(* ===== verification/Embed_Cache.thy ===== *)
theory Embed_Cache
  imports Provenance_Spine
begin

text \<open>
  The embedding cache of the embedding queue (\<open>embed_queue.hpp\<close>): a hash map from text
  hashes to vectors, each entry with an iterator into a recency list.  A list iterator is
  the number of its node, so that two nodes with the same key stay apart, as they do in the
  code.  With bounded writes on, the cache is a list of distinct keys in the order of their
  last use; with bounded writes off, storing a key that is present leaves its old node
  behind.
\<close>

type_synonym vec = "u32 list"

section \<open>State and operations\<close>

record cache_entry =
  ce_vec :: vec
  ce_node :: nat

record cache =
  cache_map :: "(nat \<times> cache_entry) list"
  cache_lru :: "(nat \<times> nat) list"
  cache_fresh :: nat

definition cache_new :: cache where
  "cache_new = \<lparr>cache_map = [], cache_lru = [], cache_fresh = 0\<rparr>"

definition k_cache_size :: nat where
  "k_cache_size = 512"

definition erase_node :: "nat \<Rightarrow> (nat \<times> nat) list \<Rightarrow> (nat \<times> nat) list" where
  "erase_node n l = filter (\<lambda>x. fst x \<noteq> n) l"

definition splice_front :: "nat \<Rightarrow> (nat \<times> nat) list \<Rightarrow> (nat \<times> nat) list" where
  "splice_front n l = filter (\<lambda>x. fst x = n) l @ erase_node n l"

definition cache_get :: "nat \<Rightarrow> cache \<Rightarrow> vec option \<times> cache" where
  "cache_get key c =
     (case map_of (cache_map c) key of
        None \<Rightarrow> (None, c)
      | Some e \<Rightarrow> (Some (ce_vec e), c\<lparr>cache_lru := splice_front (ce_node e) (cache_lru c)\<rparr>))"

definition forget_old :: "bool \<Rightarrow> nat \<Rightarrow> cache \<Rightarrow> cache" where
  "forget_old bounded key c =
     (case map_of (cache_map c) key of
        Some old \<Rightarrow>
          if bounded then
            c\<lparr>cache_lru := erase_node (ce_node old) (cache_lru c), cache_map := AList.delete key (cache_map c)\<rparr>
          else c
      | None \<Rightarrow> c)"

definition evict_last :: "cache \<Rightarrow> cache" where
  "evict_last c =
     (if length (cache_map c) \<ge> k_cache_size then
        c\<lparr>cache_map := AList.delete (snd (last (cache_lru c))) (cache_map c), cache_lru := butlast (cache_lru c)\<rparr>
      else c)"

definition cache_put :: "bool \<Rightarrow> nat \<Rightarrow> vec \<Rightarrow> cache \<Rightarrow> cache" where
  "cache_put bounded key v c =
     (let c1 = evict_last (forget_old bounded key c);
          lit = cache_fresh c1
      in c1\<lparr>cache_lru := (lit, key) # cache_lru c1,
            cache_map := AList.update key \<lparr>ce_vec = v, ce_node = lit\<rparr> (cache_map c1),
            cache_fresh := lit + 1\<rparr>)"

definition cache_size :: "cache \<Rightarrow> nat" where
  "cache_size c = length (cache_map c)"

section \<open>The recency list\<close>

text \<open>
  The contract: keys with their vectors, last used first, at most 512 of them.
\<close>

type_synonym recency = "(nat \<times> vec) list"

definition others :: "nat \<Rightarrow> recency \<Rightarrow> recency" where
  "others k l = filter (\<lambda>x. fst x \<noteq> k) l"

definition rec_get :: "nat \<Rightarrow> recency \<Rightarrow> vec option \<times> recency" where
  "rec_get k l = (case map_of l k of None \<Rightarrow> (None, l) | Some v \<Rightarrow> (Some v, (k, v) # others k l))"

definition rec_put :: "nat \<Rightarrow> vec \<Rightarrow> recency \<Rightarrow> recency" where
  "rec_put k v l = (k, v) # take (k_cache_size - 1) (others k l)"

text \<open>
  The invariants: nodes are distinct and older than the next one, every entry points to a
  node of its key; and with bounded writes the nodes are exactly the nodes of the entries.
\<close>

definition cache_wf :: "cache \<Rightarrow> bool" where
  "cache_wf c =
     (distinct (map fst (cache_map c)) \<and> distinct (map fst (cache_lru c))
      \<and> (\<forall>x \<in> set (cache_lru c). fst x < cache_fresh c)
      \<and> (\<forall>x \<in> set (cache_map c). (ce_node (snd x), fst x) \<in> set (cache_lru c)))"

definition cache_exact :: "cache \<Rightarrow> bool" where
  "cache_exact c =
     (cache_wf c \<and> distinct (map snd (cache_lru c)) \<and> snd ` set (cache_lru c) = fst ` set (cache_map c)
      \<and> length (cache_map c) \<le> k_cache_size)"

definition entry_vec :: "cache \<Rightarrow> nat \<Rightarrow> vec" where
  "entry_vec c k = (case map_of (cache_map c) k of Some e \<Rightarrow> ce_vec e | None \<Rightarrow> [])"

definition recency_of :: "cache \<Rightarrow> recency" where
  "recency_of c = map (\<lambda>x. (snd x, entry_vec c (snd x))) (cache_lru c)"

lemmas cache_defs = cache_get_def cache_put_def forget_old_def evict_last_def erase_node_def splice_front_def Let_def

lemma cache_new_exact: "cache_exact cache_new"
  by (simp add: cache_exact_def cache_wf_def cache_new_def k_cache_size_def)

text \<open>In an exact cache the node of an entry is the only node of its key.\<close>

lemma exact_node:
  assumes "cache_exact c" "map_of (cache_map c) k = Some e" "x \<in> set (cache_lru c)"
  shows "fst x = ce_node e \<longleftrightarrow> snd x = k"
proof -
  have e: "(ce_node e, k) \<in> set (cache_lru c)"
    using assms map_of_SomeD [OF assms(2)] by (force simp: cache_exact_def cache_wf_def)
  have "distinct (map fst (cache_lru c))" "distinct (map snd (cache_lru c))"
    using assms(1) by (simp_all add: cache_exact_def cache_wf_def)
  then show ?thesis using e assms(3) by (auto simp: distinct_map inj_on_def) force+
qed

lemma exact_filter:
  assumes "cache_exact c" "map_of (cache_map c) k = Some e"
  shows "erase_node (ce_node e) (cache_lru c) = filter (\<lambda>x. snd x \<noteq> k) (cache_lru c)"
    and "filter (\<lambda>x. fst x = ce_node e) (cache_lru c) = [(ce_node e, k)]"
proof -
  show "erase_node (ce_node e) (cache_lru c) = filter (\<lambda>x. snd x \<noteq> k) (cache_lru c)"
    unfolding erase_node_def using exact_node [OF assms] by (intro filter_cong) auto
  have d: "distinct (map fst (cache_lru c))" using assms(1) by (simp add: cache_exact_def cache_wf_def)
  have m: "(ce_node e, k) \<in> set (cache_lru c)"
    using assms map_of_SomeD [OF assms(2)] by (force simp: cache_exact_def cache_wf_def)
  have "\<exists>x. filter (\<lambda>x. fst x = n) l = [x]" if "distinct (map fst l)" "n \<in> fst ` set l"
    for n and l :: "(nat \<times> nat) list"
    using that
  proof (induction l)
    case (Cons a l)
    then show ?case by (cases "fst a = n") (auto simp: filter_empty_conv image_iff)
  qed simp
  with d m obtain x where "filter (\<lambda>x. fst x = ce_node e) (cache_lru c) = [x]" by (metis fst_conv image_eqI)
  moreover have "(ce_node e, k) \<in> set (filter (\<lambda>x. fst x = ce_node e) (cache_lru c))" using m by simp
  ultimately show "filter (\<lambda>x. fst x = ce_node e) (cache_lru c) = [(ce_node e, k)]" by auto
qed

lemma entry_vec_delete: "k \<noteq> j \<Longrightarrow> entry_vec (c\<lparr>cache_map := AList.delete k m\<rparr>) j = entry_vec (c\<lparr>cache_map := m\<rparr>) j"
  by (simp add: entry_vec_def AList.delete_conv)

lemma keys_delete_set: "fst ` set (AList.delete k al) = fst ` set al - {k}"
  by (auto simp: AList.delete_eq image_iff)

lemma distinct_filter_map: "distinct (map f xs) \<Longrightarrow> distinct (map f (filter P xs))"
  by (induction xs) auto

lemma length_delete_absent: "k \<notin> fst ` set al \<Longrightarrow> AList.delete k al = al"
  by (induction al) auto

lemma exact_length:
  assumes "cache_exact c"
  shows "length (cache_lru c) = length (cache_map c)"
proof -
  have "length (cache_lru c) = card (snd ` set (cache_lru c))"
    using assms distinct_card [of "map snd (cache_lru c)"] by (simp add: cache_exact_def)
  also have "\<dots> = length (cache_map c)"
    using assms distinct_card [of "map fst (cache_map c)"] by (simp add: cache_exact_def cache_wf_def)
  finally show ?thesis .
qed

lemma recency_keys: "map fst (recency_of c) = map snd (cache_lru c)"
  by (simp add: recency_of_def)

lemma recency_lookup:
  assumes "cache_exact c"
  shows "map_of (recency_of c) k = map_option ce_vec (map_of (cache_map c) k)"
proof (cases "map_of (cache_map c) k")
  case None
  then have "k \<notin> snd ` set (cache_lru c)" using assms by (simp add: cache_exact_def map_of_eq_None_iff)
  then have "map_of (recency_of c) k = None" by (force simp: recency_of_def map_of_eq_None_iff)
  then show ?thesis using None by simp
next
  case (Some e)
  then have k: "k \<in> snd ` set (cache_lru c)"
    using assms map_of_SomeD [OF Some] by (force simp: cache_exact_def)
  then have "(k, entry_vec c k) \<in> set (recency_of c)" by (auto simp: recency_of_def)
  moreover have "distinct (map fst (recency_of c))" using assms by (simp add: recency_keys cache_exact_def)
  ultimately show ?thesis using Some by (simp add: entry_vec_def)
qed


lemma recency_filter: "others k (recency_of c) = map (\<lambda>x. (snd x, entry_vec c (snd x))) (filter (\<lambda>x. snd x \<noteq> k) (cache_lru c))"
  by (simp add: others_def recency_of_def filter_map comp_def)

lemma exact_remove:
  assumes "cache_exact c"
  shows "cache_exact (c\<lparr>cache_map := AList.delete k (cache_map c), cache_lru := filter (\<lambda>x. snd x \<noteq> k) (cache_lru c)\<rparr>)"
proof -
  have "snd ` set (filter (\<lambda>x. snd x \<noteq> k) (cache_lru c)) = snd ` set (cache_lru c) - {k}" by auto
  then have "snd ` set (filter (\<lambda>x. snd x \<noteq> k) (cache_lru c)) = fst ` set (AList.delete k (cache_map c))"
    using assms by (simp add: cache_exact_def keys_delete_set)
  moreover have "length (AList.delete k (cache_map c)) \<le> k_cache_size"
    using assms AList.length_delete_le [of k "cache_map c"] by (simp add: cache_exact_def)
  moreover have "(ce_node (snd x), fst x) \<in> set (filter (\<lambda>x. snd x \<noteq> k) (cache_lru c))"
    if "x \<in> set (AList.delete k (cache_map c))" for x
    using that assms by (auto simp: cache_exact_def cache_wf_def AList.delete_eq)
  moreover have "\<forall>x \<in> set (filter (\<lambda>x. snd x \<noteq> k) (cache_lru c)). fst x < cache_fresh c"
    using assms by (simp add: cache_exact_def cache_wf_def)
  ultimately show ?thesis using assms
    by (simp add: cache_exact_def cache_wf_def AList.distinct_delete distinct_filter_map del: set_filter)
qed

lemma exact_reorder:
  assumes "cache_exact c" "set l = set (cache_lru c)" "distinct (map fst l)" "distinct (map snd l)"
  shows "cache_exact (c\<lparr>cache_lru := l\<rparr>)"
  using assms by (simp add: cache_exact_def cache_wf_def)

section \<open>Bounded writes: the cache is its recency list\<close>

lemma get_exact:
  assumes "cache_exact c"
  shows "cache_exact (snd (cache_get k c))"
    and "fst (cache_get k c) = fst (rec_get k (recency_of c))"
    and "recency_of (snd (cache_get k c)) = snd (rec_get k (recency_of c))"
proof -
  have "cache_exact (snd (cache_get k c)) \<and> fst (cache_get k c) = fst (rec_get k (recency_of c))
        \<and> recency_of (snd (cache_get k c)) = snd (rec_get k (recency_of c))"
  proof (cases "map_of (cache_map c) k")
    case None
    then show ?thesis using assms recency_lookup [OF assms, of k] by (simp add: cache_get_def rec_get_def)
  next
    case (Some e)
    let ?l = "(ce_node e, k) # filter (\<lambda>x. snd x \<noteq> k) (cache_lru c)"
    have l: "splice_front (ce_node e) (cache_lru c) = ?l"
      using exact_filter [OF assms Some] by (simp add: splice_front_def)
    have m: "(ce_node e, k) \<in> set (cache_lru c)"
      using assms map_of_SomeD [OF Some] by (force simp: cache_exact_def cache_wf_def)
    have "x = (ce_node e, k)" if "x \<in> set (cache_lru c)" "snd x = k" for x
      using exact_node [OF assms Some that(1)] that(2) by (simp add: prod_eq_iff)
    with m have s: "set ?l = set (cache_lru c)" unfolding list.set(2) set_filter by blast
    have "ce_node e \<notin> fst ` set (filter (\<lambda>x. snd x \<noteq> k) (cache_lru c))"
    proof
      assume "ce_node e \<in> fst ` set (filter (\<lambda>x. snd x \<noteq> k) (cache_lru c))"
      then obtain x where "x \<in> set (cache_lru c)" "snd x \<noteq> k" "fst x = ce_node e" by auto
      then show False using exact_node [OF assms Some] by blast
    qed
    then have d: "distinct (map fst ?l)"
      using assms distinct_filter_map [of fst "cache_lru c" "\<lambda>x. snd x \<noteq> k"] by (simp add: cache_exact_def cache_wf_def)
    have "distinct (map snd ?l)"
      using assms distinct_filter_map [of snd "cache_lru c" "\<lambda>x. snd x \<noteq> k"] by (auto simp: cache_exact_def)
    with assms s d have "cache_exact (c\<lparr>cache_lru := ?l\<rparr>)" by (rule exact_reorder)
    moreover have "recency_of (c\<lparr>cache_lru := ?l\<rparr>) = (k, ce_vec e) # others k (recency_of c)"
      unfolding recency_filter by (simp add: recency_of_def entry_vec_def Some)
    ultimately show ?thesis using Some recency_lookup [OF assms, of k]
      by (simp add: cache_get_def rec_get_def l)
  qed
  then show "cache_exact (snd (cache_get k c))"
    and "fst (cache_get k c) = fst (rec_get k (recency_of c))"
    and "recency_of (snd (cache_get k c)) = snd (rec_get k (recency_of c))" by simp_all
qed

text \<open>Storing: after the old entry is forgotten the key is absent, and after the last one is evicted there is room.\<close>

lemma forget_exact:
  assumes "cache_exact c"
  shows "cache_exact (forget_old True k c)" "k \<notin> fst ` set (cache_map (forget_old True k c))"
    and "recency_of (forget_old True k c) = others k (recency_of c)"
proof -
  have "cache_exact (forget_old True k c) \<and> k \<notin> fst ` set (cache_map (forget_old True k c))
        \<and> recency_of (forget_old True k c) = others k (recency_of c)"
  proof (cases "map_of (cache_map c) k")
    case None
    then have "k \<notin> fst ` set (cache_map c)" by (simp add: map_of_eq_None_iff)
    moreover from this have "k \<notin> fst ` set (recency_of c)"
      using assms by (auto simp: cache_exact_def recency_of_def image_iff)
    then have "others k (recency_of c) = recency_of c" by (auto simp: others_def filter_id_conv image_iff)
    ultimately show ?thesis using assms None by (simp add: forget_old_def)
  next
    case (Some e)
    let ?d = "c\<lparr>cache_lru := filter (\<lambda>x. snd x \<noteq> k) (cache_lru c), cache_map := AList.delete k (cache_map c)\<rparr>"
    have f: "forget_old True k c = ?d" using exact_filter(1) [OF assms Some] by (simp add: forget_old_def Some)
    have "?d = c\<lparr>cache_map := AList.delete k (cache_map c), cache_lru := filter (\<lambda>x. snd x \<noteq> k) (cache_lru c)\<rparr>" by simp
    then have "cache_exact ?d" using exact_remove [OF assms, of k] by (simp only:)
    moreover have "recency_of ?d = others k (recency_of c)"
      unfolding recency_filter by (auto simp: recency_of_def entry_vec_def AList.delete_conv)
    ultimately show ?thesis by (simp add: f keys_delete_set)
  qed
  then show "cache_exact (forget_old True k c)" "k \<notin> fst ` set (cache_map (forget_old True k c))"
    and "recency_of (forget_old True k c) = others k (recency_of c)" by simp_all
qed

lemma evict_exact:
  assumes "cache_exact c"
  shows "cache_exact (evict_last c)" "length (cache_map (evict_last c)) < k_cache_size"
    and "recency_of (evict_last c) = take (k_cache_size - 1) (recency_of c)"
    and "fst ` set (cache_map (evict_last c)) \<subseteq> fst ` set (cache_map c)"
proof -
  have "cache_exact (evict_last c) \<and> length (cache_map (evict_last c)) < k_cache_size
    \<and> recency_of (evict_last c) = take (k_cache_size - 1) (recency_of c)
    \<and> fst ` set (cache_map (evict_last c)) \<subseteq> fst ` set (cache_map c)"
  proof (cases "length (cache_map c) \<ge> k_cache_size")
    case False
    then have "length (recency_of c) \<le> k_cache_size - 1" using exact_length [OF assms] by (simp add: recency_of_def)
    then show ?thesis using assms False by (simp add: evict_last_def)
  next
    case True
    then have n: "length (cache_map c) = k_cache_size" using assms by (simp add: cache_exact_def)
    then have nl: "length (cache_lru c) = k_cache_size" using exact_length [OF assms] by simp
    then have ne: "cache_lru c \<noteq> []" by (auto simp: k_cache_size_def)
    obtain l x where lx: "cache_lru c = l @ [x]" using ne by (metis append_butlast_last_id)
    let ?d = "c\<lparr>cache_map := AList.delete (snd x) (cache_map c), cache_lru := l\<rparr>"
    have e: "evict_last c = ?d" using True by (simp add: evict_last_def lx)
    have x: "snd x \<in> fst ` set (cache_map c)" using assms by (auto simp: cache_exact_def lx)
    have fl: "filter (\<lambda>y. snd y \<noteq> snd x) (cache_lru c) = l"
      using assms by (auto simp: cache_exact_def lx filter_id_conv image_iff)
    have len: "length (AList.delete (snd x) (cache_map c)) < k_cache_size"
    proof -
      have "length (AList.delete (snd x) (cache_map c)) = card (fst ` set (cache_map c) - {snd x})"
        using assms distinct_card [of "map fst (AList.delete (snd x) (cache_map c))"]
        by (simp add: cache_exact_def cache_wf_def AList.distinct_delete keys_delete_set)
      also have "\<dots> < card (fst ` set (cache_map c))" using x by (intro psubset_card_mono) auto
      also have "\<dots> \<le> k_cache_size" using n card_length [of "map fst (cache_map c)"] by simp
      finally show ?thesis .
    qed
    have "cache_exact ?d" using exact_remove [OF assms, of "snd x"] by (simp only: fl)
    moreover have "recency_of ?d = take (k_cache_size - 1) (recency_of c)"
    proof -
      have "length l = k_cache_size - 1" using nl lx by simp
      then have "take (k_cache_size - 1) (recency_of c) = map (\<lambda>y. (snd y, entry_vec c (snd y))) l"
        by (simp add: recency_of_def lx)
      moreover have "snd y \<noteq> snd x" if "y \<in> set l" for y
        using that assms by (simp add: cache_exact_def lx) (metis imageI)
      ultimately show ?thesis by (simp add: recency_of_def entry_vec_def AList.delete_conv)
    qed
    ultimately show ?thesis using len by (auto simp: e keys_delete_set)
  qed
  then show "cache_exact (evict_last c)" "length (cache_map (evict_last c)) < k_cache_size"
    and "recency_of (evict_last c) = take (k_cache_size - 1) (recency_of c)"
    and "fst ` set (cache_map (evict_last c)) \<subseteq> fst ` set (cache_map c)" by simp_all
qed

lemma put_exact:
  assumes "cache_exact c"
  shows "cache_exact (cache_put True k v c)"
    and "recency_of (cache_put True k v c) = rec_put k v (recency_of c)"
proof -
  let ?d = "evict_last (forget_old True k c)"
  let ?e = "?d\<lparr>cache_lru := (cache_fresh ?d, k) # cache_lru ?d,
              cache_map := cache_map ?d @ [(k, \<lparr>ce_vec = v, ce_node = cache_fresh ?d\<rparr>)], cache_fresh := cache_fresh ?d + 1\<rparr>"
  note f = forget_exact [OF assms, of k]
  note d = evict_exact [OF f(1)]
  have k: "k \<notin> fst ` set (cache_map ?d)" using d(4) f(2) by auto
  have "AList.update k w al = al @ [(k, w)]" if "k \<notin> fst ` set al" for w :: cache_entry and al
    using that by (induction al) auto
  then have e: "cache_put True k v c = ?e" using k by (simp add: cache_put_def Let_def)
  have fresh: "\<forall>x \<in> set (cache_lru ?d). fst x < cache_fresh ?d" using d(1) by (simp add: cache_exact_def cache_wf_def)
  have kl: "k \<notin> snd ` set (cache_lru ?d)" using d(1) k by (simp add: cache_exact_def)
  have "cache_fresh ?d \<notin> fst ` set (cache_lru ?d)" using fresh by auto
  then have "cache_exact ?e"
    using d(1,2) fresh k kl unfolding cache_exact_def cache_wf_def by (auto simp: less_Suc_eq)
  then show "cache_exact (cache_put True k v c)" by (simp add: e)
  have m: "map_of (al @ [(k, w)]) = (map_of al)(k \<mapsto> w)" if "k \<notin> fst ` set al" for w :: cache_entry and al
    using that by (auto simp: map_add_def fun_eq_iff map_of_eq_None_iff [THEN iffD2] split: option.splits)
  have "recency_of ?e = (k, v) # recency_of ?d"
    using kl by (simp add: recency_of_def entry_vec_def m [OF k] del: map_of_append) (metis imageI)
  then show "recency_of (cache_put True k v c) = rec_put k v (recency_of c)"
    by (simp add: e rec_put_def d(3) f(3))
qed

text \<open>A sequence of uses of the cache.\<close>

datatype cache_op = Get nat | Put nat vec

fun op_key :: "cache_op \<Rightarrow> nat" where
  "op_key (Get k) = k" | "op_key (Put k v) = k"

fun cache_do :: "bool \<Rightarrow> cache_op \<Rightarrow> cache \<Rightarrow> cache" where
  "cache_do b (Get k) c = snd (cache_get k c)"
| "cache_do b (Put k v) c = cache_put b k v c"

fun rec_do :: "cache_op \<Rightarrow> recency \<Rightarrow> recency" where
  "rec_do (Get k) l = snd (rec_get k l)"
| "rec_do (Put k v) l = rec_put k v l"

lemma do_exact:
  assumes "cache_exact c"
  shows "cache_exact (cache_do True a c)" "recency_of (cache_do True a c) = rec_do a (recency_of c)"
  using get_exact [OF assms] put_exact [OF assms] by (cases a; simp)+

lemma run_exact:
  assumes "cache_exact c"
  shows "cache_exact (fold (cache_do True) as c) \<and> recency_of (fold (cache_do True) as c) = fold rec_do as (recency_of c)"
  using assms by (induction "as" arbitrary: c) (simp_all add: do_exact)

text \<open>
  The keys in front of a key in the recency list were all used after it, so fewer than 512
  of them keep it from being evicted.
\<close>

definition retains :: "nat \<Rightarrow> vec \<Rightarrow> nat set \<Rightarrow> recency \<Rightarrow> bool" where
  "retains k v T l = (\<exists>a b. l = a @ (k, v) # b \<and> fst ` set a \<subseteq> T \<and> distinct (map fst l))"

lemma others_append: "others j (a @ b) = others j a @ others j b"
  by (simp add: others_def)

lemma others_keys: "fst ` set (others j l) = fst ` set l - {j}"
  by (auto simp: others_def)

lemma retains_front:
  assumes "retains k v T l" "j \<noteq> k" "j \<in> T"
  shows "retains k v T ((j, w) # others j l)"
proof -
  from assms(1) obtain a b where l: "l = a @ (k, v) # b" "fst ` set a \<subseteq> T" "distinct (map fst l)"
    unfolding retains_def by blast
  have "distinct (map fst (others j l))" using l(3) unfolding others_def by (rule distinct_filter_map)
  moreover have "j \<notin> fst ` set (others j l)" by (simp add: others_keys)
  ultimately have "distinct (map fst ((j, w) # others j l))" by simp
  moreover have "(j, w) # others j l = ((j, w) # others j a) @ (k, v) # others j b"
    using assms(2) by (simp add: l(1) others_append) (simp add: others_def)
  moreover have "fst ` set ((j, w) # others j a) \<subseteq> T" using l(2) assms(3) by (auto simp: others_def)
  ultimately show ?thesis unfolding retains_def by blast
qed

lemma retains_take:
  assumes "retains k v T l" "finite T" "card T < n"
  shows "retains k v T (take n l)"
proof -
  from assms(1) obtain a b where l: "l = a @ (k, v) # b" "fst ` set a \<subseteq> T" "distinct (map fst l)"
    unfolding retains_def by blast
  have "length a = card (fst ` set a)" using l(3) distinct_card [of "map fst a"] by (simp add: l(1))
  also have "\<dots> \<le> card T" using l(2) assms(2) by (rule card_mono [rotated])
  finally have n: "length a < n" using assms(3) by simp
  have "take n l = a @ (k, v) # take (n - length a - 1) b"
    using n by (simp add: l(1) take_Cons')
  moreover have "distinct (map fst (take n l))" using l(3) by (simp add: take_map [symmetric] distinct_take)
  ultimately show ?thesis using l(2) unfolding retains_def by blast
qed

lemma rec_put_take: "rec_put j w l = take k_cache_size ((j, w) # others j l)"
  by (simp add: rec_put_def k_cache_size_def)

lemma retains_do:
  assumes "retains k v T l" "finite T" "card T < k_cache_size"
    and "op_key a \<noteq> k \<Longrightarrow> op_key a \<in> T" "\<And>w. a \<noteq> Put k w"
  shows "retains k v T (rec_do a l)"
proof (cases a)
  case (Put j w)
  then have "j \<noteq> k" "j \<in> T" using assms(4,5) by auto
  then show ?thesis
    using retains_take [OF retains_front [OF assms(1)] assms(2,3)] by (simp add: Put rec_put_take)
next
  case (Get j)
  show ?thesis
  proof (cases "j = k")
    case False
    then show ?thesis using assms(1,4) retains_front [OF assms(1) False] by (auto simp: Get rec_get_def split: option.splits)
  next
    case True
    from assms(1) obtain x y where l: "l = x @ (k, v) # y" "distinct (map fst l)" unfolding retains_def by blast
    then have m: "map_of l k = Some v" by (intro map_of_is_SomeI) auto
    have "distinct (map fst (others k l))" using l(2) unfolding others_def by (rule distinct_filter_map)
    moreover have "k \<notin> fst ` set (others k l)" by (simp add: others_keys)
    ultimately show ?thesis unfolding retains_def
      by (intro exI [of _ "[]"] exI [of _ "others k l"]) (simp add: Get True rec_get_def m)
  qed
qed

lemma retains_run:
  assumes "retains k v T l" "finite T" "card T < k_cache_size"
    and "op_key ` set as - {k} \<subseteq> T" "\<And>w. Put k w \<notin> set as"
  shows "retains k v T (fold rec_do as l)"
  using assms
proof (induction "as" arbitrary: l)
  case (Cons a as)
  have "retains k v T (rec_do a l)"
    using Cons.prems by (intro retains_do) auto
  then show ?case using Cons by (simp add: insert_Diff_if split: if_splits)
qed simp

text \<open>
  C12: With bounded writes the cache with its node list behaves, on every sequence of lookups
  and stores from the empty cache, as a list of distinct keys in the order of their last use
  from which storing drops what comes after the first 512: the next lookup gives what the
  list gives, and the cache never holds more than 512 entries.
\<close>

theorem embed_cache_refines:
  "recency_of (fold (cache_do True) ops cache_new) = fold rec_do ops []
   \<and> fst (cache_get k (fold (cache_do True) ops cache_new)) = map_of (fold rec_do ops []) k
   \<and> cache_size (fold (cache_do True) ops cache_new) \<le> 512"
proof -
  have n: "recency_of cache_new = []" by (simp add: recency_of_def cache_new_def)
  note r = run_exact [OF cache_new_exact, of ops, unfolded n]
  have "fst (rec_get k l) = map_of l k" for l by (simp add: rec_get_def split: option.splits)
  then show ?thesis using r get_exact(2) [OF conjunct1 [OF r]]
    by (simp add: cache_size_def cache_exact_def k_cache_size_def)
qed

text \<open>
  With bounded writes a stored vector is still found after any uses of the cache that touch
  fewer than 512 other keys and do not store the key again.
\<close>

theorem embed_cache_retention:
  assumes "card (op_key ` set later - {k}) < 512"
    and "\<forall>w. Put k w \<notin> set later"
  shows "fst (cache_get k (fold (cache_do True) (earlier @ Put k v # later) cache_new)) = Some v"
proof -
  define c where "c = fold (cache_do True) earlier cache_new"
  define d where "d = cache_put True k v c"
  have c: "cache_exact c" unfolding c_def using run_exact [OF cache_new_exact] by blast
  have d: "cache_exact d" and rd: "recency_of d = rec_put k v (recency_of c)"
    unfolding d_def using put_exact [OF c] by blast+
  have "distinct (map fst (recency_of d))" using d by (simp add: recency_keys cache_exact_def)
  then have "retains k v (op_key ` set later - {k}) (recency_of d)"
    unfolding retains_def by (intro exI [of _ "[]"] exI [of _ "take (k_cache_size - 1) (others k (recency_of c))"])
      (simp add: rd rec_put_def)
  then have "retains k v (op_key ` set later - {k}) (fold rec_do later (recency_of d))"
    using assms by (intro retains_run) (auto simp: k_cache_size_def)
  then have "map_of (fold rec_do later (recency_of d)) k = Some v"
    unfolding retains_def by (metis in_set_conv_decomp map_of_is_SomeI)
  moreover note r = run_exact [OF d, of later]
  ultimately have "fst (cache_get k (fold (cache_do True) later d)) = Some v"
    using get_exact(2) [OF conjunct1 [OF r]] by (simp add: rec_get_def)
  then show ?thesis by (simp add: c_def d_def)
qed

theorem embed_cache_retention_witness:
  "fst (cache_get 7 (fold (cache_do True) ([Put 1 [5]] @ Put 7 [1, 2] # [Put 2 [3], Get 7, Get 9]) cache_new)) = Some [1, 2]"
  by (rule embed_cache_retention) (simp_all add: card_insert_if insert_Diff_if)

section \<open>Unbounded writes: an old node evicts a fresh entry\<close>

lemma put_absent:
  assumes "k \<notin> fst ` set (cache_map c)" "length (cache_map c) < k_cache_size"
  shows "cache_put False k v c =
    \<lparr>cache_map = cache_map c @ [(k, \<lparr>ce_vec = v, ce_node = cache_fresh c\<rparr>)],
     cache_lru = (cache_fresh c, k) # cache_lru c, cache_fresh = cache_fresh c + 1\<rparr>"
proof -
  have "AList.update k w al = al @ [(k, w)]" if "k \<notin> fst ` set al" for w :: cache_entry and al
    using that by (induction al) auto
  moreover have "map_of (cache_map c) k = None" using assms(1) by (simp add: map_of_eq_None_iff)
  ultimately show ?thesis using assms by (simp add: cache_defs)
qed

lemma put_full:
  assumes "length (cache_map c) \<ge> k_cache_size" "k \<notin> fst ` set (cache_map c)"
  shows "map_of (cache_map (cache_put False k v c)) =
    (map_of (cache_map c))(snd (last (cache_lru c)) := None, k \<mapsto> \<lparr>ce_vec = v, ce_node = cache_fresh c\<rparr>)"
proof -
  have "map_of (cache_map c) k = None" using assms(2) by (simp add: map_of_eq_None_iff)
  then show ?thesis using assms(1)
    by (simp add: cache_put_def forget_old_def evict_last_def Let_def AList.update_conv' AList.delete_conv')
qed

lemma puts_absent:
  assumes "n \<le> k_cache_size"
  shows "fold (cache_do False) (map (\<lambda>i. Put i [v]) [0..<n]) cache_new =
    \<lparr>cache_map = map (\<lambda>i. (i, \<lparr>ce_vec = [v], ce_node = i\<rparr>)) [0..<n], cache_lru = rev (map (\<lambda>i. (i, i)) [0..<n]), cache_fresh = n\<rparr>"
  using assms
proof (induction n)
  case 0
  then show ?case by (simp add: cache_new_def)
next
  case (Suc n)
  then show ?case by (simp add: put_absent image_iff)
qed

text \<open>
  Without bounded writes the guarantee is lost: after 511 keys are stored, key 0 is stored
  again, which leaves its first node at the end of the list, and two more keys are enough to
  evict it.
\<close>

theorem unbounded_evicts_recent:
  "fst (cache_get 0 (fold (cache_do False) (map (\<lambda>i. Put i [v]) [0..<511] @ Put 0 [v] # [Put 511 [v], Put 512 [v]]) cache_new)) = None"
proof -
  define m where "m = map (\<lambda>i. (i :: nat, \<lparr>ce_vec = [v], ce_node = i\<rparr>)) [1..<511]"
  define l where "l = rev (map (\<lambda>i. (i :: nat, i)) [1..<511])"
  have n: "511 \<le> k_cache_size" by (simp add: k_cache_size_def)
  have u: "[0..<511] = 0 # [1..<(511::nat)]" by (rule upt_eq_Cons_conv [THEN iffD2]) simp
  have "fold (cache_do False) (map (\<lambda>i. Put i [v]) [0..<511]) cache_new =
    \<lparr>cache_map = (0, \<lparr>ce_vec = [v], ce_node = 0\<rparr>) # m, cache_lru = l @ [(0, 0)], cache_fresh = 511\<rparr>"
    by (subst puts_absent [OF n]) (simp only: u m_def l_def list.map rev.simps)
  then have f: "fold (cache_do False) (map (\<lambda>i. Put i [v]) [0..<511] @ Put 0 [v] # [Put 511 [v], Put 512 [v]]) cache_new =
      cache_put False 512 [v] (cache_put False 511 [v] (cache_put False 0 [v]
        \<lparr>cache_map = (0, \<lparr>ce_vec = [v], ce_node = 0\<rparr>) # m, cache_lru = l @ [(0, 0)], cache_fresh = 511\<rparr>))"
    by simp
  have m: "length m = 510" "fst ` set m = {1..<511}" by (auto simp: m_def image_iff)
  from m(2) have m0: "AList.delete 0 m = m" by (intro length_delete_absent) simp
  define c1 where "c1 = \<lparr>cache_map = (0, \<lparr>ce_vec = [v], ce_node = 511\<rparr>) # m, cache_lru = (511, 0) # l @ [(0, 0)], cache_fresh = 512\<rparr>"
  have c1: "cache_put False 0 [v] \<lparr>cache_map = (0, \<lparr>ce_vec = [v], ce_node = 0\<rparr>) # m, cache_lru = l @ [(0, 0)], cache_fresh = 511\<rparr> = c1"
    by (simp add: cache_put_def forget_old_def evict_last_def k_cache_size_def m(1) c1_def)
  have c2: "cache_put False 511 [v] c1 =
    \<lparr>cache_map = cache_map c1 @ [(511, \<lparr>ce_vec = [v], ce_node = 512\<rparr>)], cache_lru = (512, 511) # cache_lru c1, cache_fresh = 513\<rparr>"
    by (subst put_absent) (simp_all add: c1_def m k_cache_size_def)
  have "map_of (cache_map (cache_put False 512 [v] (cache_put False 511 [v] c1))) 0 = None"
    by (subst put_full) (simp_all add: c2, simp_all add: c1_def m k_cache_size_def)
  then show ?thesis unfolding f c1 by (simp add: cache_get_def)
qed

end
