(* ===== verification/Embed_Queue.thy ===== *)
theory Embed_Queue
  imports Embed_Cache Step_Systems "HOL-Library.Multiset"
begin

text \<open>
  The embedding queue (\<open>embed_queue.hpp\<close>): callers ask for the embedding of a text, look it
  up in the cache, join a job in flight for the same hash or enqueue a new one, and wait on
  its future; one read worker and, with bounded writes, a number of write workers take jobs
  from the two lanes, run the model, fill the cache and fulfil the promise.

  A job is a cell of a store, as its shared pointer makes it one; queues and the table of
  jobs in flight hold its index, and its promise is a field of it.  Each critical section
  and each atomic update is one step.  Parameters: the string hash, and \<open>transform\<close> of the
  wrapped model, where an exception is \<open>None\<close>.  Times are milliseconds.  The waits on
  condition variables are guards of the steps; the pause of a write worker under recall
  pressure, which only delays it, is left out.
\<close>

section \<open>State\<close>

record artha =
  certainty :: u32
  nu :: vec

record job =
  jtext :: string
  jkey :: nat
  jdeadline :: "nat option"
  jwrite :: bool
  jprom :: "vec option"

datatype ethread =
    Idle
  | Took nat
  | Got nat vec
  | Sending nat vec
  | Fulfilled nat
  | Exited

datatype ecall =
    Query string nat
  | QueryMissed string nat
  | Warm string
  | WarmMissed string
  | Write string
  | WriteMissed string
  | Waiting_for string nat bool
  | Returned string "exn + vec"

record equeue =
  write_workers_count :: nat
  write_cap :: nat
  eq_stop :: bool
  jobs :: "job list"
  read_q :: "nat list"
  write_q :: "nat list"
  inflight :: "(nat \<times> nat) list"
  ecache :: cache
  threads :: "(bool \<times> ethread) list"
  ecalls :: "ecall list"
  enow :: nat

definition k_read_queue_cap :: nat where
  "k_read_queue_cap = 8"

definition k_write_queue_cap :: nat where
  "k_write_queue_cap = 64"

section \<open>Configuration\<close>

text \<open>
  \<open>strtoul\<close> in base ten: the value, saturated at the largest \<open>unsigned long\<close> and negated modulo
  its range after a minus sign, and what follows the number.
\<close>

definition strtoul :: "string \<Rightarrow> int \<times> string" where
  "strtoul s =
     (let s1 = dropWhile is_space s;
          neg = (s1 \<noteq> [] \<and> hd s1 = CHR ''-'');
          s2 = (if s1 \<noteq> [] \<and> (hd s1 = CHR ''-'' \<or> hd s1 = CHR ''+'') then tl s1 else s1);
          ds = takeWhile is_digit s2;
          v = int (decnum ds)
      in if ds = [] then (0, s)
         else (if v > 2 ^ 64 - 1 then 2 ^ 64 - 1 else if neg then (- v) mod 2 ^ 64 else v, dropWhile is_digit s2))"

definition env_size :: "string option \<Rightarrow> nat \<Rightarrow> nat \<Rightarrow> nat" where
  "env_size raw fallback maximum =
     (case raw of
        None \<Rightarrow> fallback
      | Some r \<Rightarrow>
          if c_str r = [] then fallback
          else
            let (v, rest) = strtoul (c_str r)
            in if rest \<noteq> [] \<or> v > int maximum \<or> (v = 0 \<and> fallback \<noteq> 0) then fallback else nat v)"

definition embed_queue_new :: "(string \<Rightarrow> string option) \<Rightarrow> equeue" where
  "embed_queue_new getenv =
     (let w0 = env_size (getenv ''CHITTA_EMBED_WRITE_WORKERS'') 0 32;
          contexts = env_size (getenv ''CHITTA_EMBED_CONTEXTS'') 4 16;
          w = min w0 (max 1 (contexts - 1));
          cap = (if w \<noteq> 0 then env_size (getenv ''CHITTA_EMBED_WRITE_DEPTH'') k_write_queue_cap 65536
                 else k_write_queue_cap)
      in \<lparr>write_workers_count = w, write_cap = cap, eq_stop = False, jobs = [], read_q = [], write_q = [],
          inflight = [], ecache = cache_new, threads = (False, Idle) # replicate w (True, Idle), ecalls = [], enow = 0\<rparr>)"

definition bounded_writes :: "equeue \<Rightarrow> bool" where
  "bounded_writes q = (write_workers_count q \<noteq> 0)"

section \<open>The callers\<close>

text \<open>The part of a call under the lock of the cache.\<close>

definition look_up :: "nat \<Rightarrow> equeue \<Rightarrow> vec option \<times> equeue" where
  "look_up key q = (case cache_get key (ecache q) of (r, c) \<Rightarrow> (r, q\<lparr>ecache := c\<rparr>))"

text \<open>
  The parts under the lock of the queues: a query joins a job in flight, promoting it from the
  write lane when there is room, or enters the read lane; a warming request enters the write
  lane; a write waits for a place there.
\<close>

definition promote :: "nat \<Rightarrow> equeue \<Rightarrow> equeue" where
  "promote key q =
     (if bounded_writes q \<and> length (read_q q) < k_read_queue_cap then
        case List.find (\<lambda>i. jkey (jobs q ! i) = key) (write_q q) of
          Some i \<Rightarrow> q\<lparr>read_q := i # read_q q, write_q := remove1 i (write_q q)\<rparr>
        | None \<Rightarrow> q
      else q)"

definition new_job :: "string \<Rightarrow> nat \<Rightarrow> nat option \<Rightarrow> bool \<Rightarrow> equeue \<Rightarrow> nat \<times> equeue" where
  "new_job text key deadline w q =
     (length (jobs q),
      q\<lparr>jobs := jobs q @ [\<lparr>jtext = text, jkey = key, jdeadline = deadline, jwrite = w, jprom = None\<rparr>]\<rparr>)"

definition query_admit :: "(string \<Rightarrow> nat) \<Rightarrow> string \<Rightarrow> nat \<Rightarrow> equeue \<Rightarrow> nat option \<times> equeue" where
  "query_admit hsh text wait q =
     (let key = hsh text
      in case map_of (inflight q) key of
           Some f \<Rightarrow> (Some f, promote key q)
         | None \<Rightarrow>
             if length (read_q q) \<ge> k_read_queue_cap then (None, q)
             else
               let (i, q1) = new_job text key (Some (enow q + wait)) False q
               in (Some i, q1\<lparr>inflight := AList.update key i (inflight q1), read_q := read_q q1 @ [i]\<rparr>))"

definition enqueue_admit :: "(string \<Rightarrow> nat) \<Rightarrow> string \<Rightarrow> equeue \<Rightarrow> equeue" where
  "enqueue_admit hsh text q =
     (let key = hsh text
      in if map_of (inflight q) key \<noteq> None then q
         else if eq_stop q \<or> length (write_q q) \<ge> write_cap q then q
         else
           let (i, q1) = new_job text key None True q;
               q2 = (if bounded_writes q1 then q1\<lparr>inflight := AList.update key i (inflight q1)\<rparr> else q1)
           in q2\<lparr>write_q := write_q q2 @ [i]\<rparr>)"

definition write_ready :: "nat \<Rightarrow> equeue \<Rightarrow> bool" where
  "write_ready key q = (eq_stop q \<or> map_of (inflight q) key \<noteq> None \<or> length (write_q q) < write_cap q)"

definition write_admit :: "(string \<Rightarrow> nat) \<Rightarrow> string \<Rightarrow> equeue \<Rightarrow> nat res \<times> equeue" where
  "write_admit hsh text q =
     (let key = hsh text
      in if \<not> write_ready key q then (Inl (Runtime_error ''embedding write queue admission timed out''), q)
         else if eq_stop q then (Inl (Runtime_error ''embedding queue stopped''), q)
         else case map_of (inflight q) key of
                Some f \<Rightarrow> (Inr f, q)
              | None \<Rightarrow>
                  let (i, q1) = new_job text key None True q
                  in (Inr i, q1\<lparr>inflight := AList.update key i (inflight q1), write_q := write_q q1 @ [i]\<rparr>))"

section \<open>The workers\<close>

definition available :: "bool \<Rightarrow> equeue \<Rightarrow> bool" where
  "available write_worker q =
     (if write_worker then write_q q \<noteq> [] else read_q q \<noteq> [] \<or> (\<not> bounded_writes q \<and> write_q q \<noteq> []))"

definition take_job :: "bool \<Rightarrow> equeue \<Rightarrow> nat \<times> equeue" where
  "take_job write_worker q =
     (let (i, q1) = (if \<not> write_worker \<and> read_q q \<noteq> [] then (hd (read_q q), q\<lparr>read_q := tl (read_q q)\<rparr>)
                     else (hd (write_q q), q\<lparr>write_q := tl (write_q q)\<rparr>))
      in (i, if bounded_writes q1 then q1 else q1\<lparr>inflight := AList.delete (jkey (jobs q1 ! i)) (inflight q1)\<rparr>))"

definition stale :: "nat \<Rightarrow> job \<Rightarrow> bool" where
  "stale now j = (\<not> jwrite j \<and> (case jdeadline j of None \<Rightarrow> False | Some d \<Rightarrow> now > d))"

definition embed_of :: "(string \<Rightarrow> artha option) \<Rightarrow> string \<Rightarrow> vec" where
  "embed_of transform text =
     (case transform text of None \<Rightarrow> [] | Some a \<Rightarrow> if f32_less 0 (certainty a) then nu a else [])"

definition set_value :: "nat \<Rightarrow> vec \<Rightarrow> equeue \<Rightarrow> equeue" where
  "set_value i v q = q\<lparr>jobs := (jobs q)[i := (jobs q ! i)\<lparr>jprom := Some v\<rparr>]\<rparr>"

definition set_thread :: "nat \<Rightarrow> ethread \<Rightarrow> equeue \<Rightarrow> equeue" where
  "set_thread k p q = q\<lparr>threads := (threads q)[k := (fst (threads q ! k), p)]\<rparr>"

definition start_job :: "(string \<Rightarrow> artha option) \<Rightarrow> nat \<Rightarrow> nat \<Rightarrow> equeue \<Rightarrow> equeue" where
  "start_job transform k i q =
     (if stale (enow q) (jobs q ! i) then set_thread k (Fulfilled i) (set_value i [] q)
      else set_thread k (Got i (embed_of transform (jtext (jobs q ! i)))) q)"

definition store_vec :: "nat \<Rightarrow> nat \<Rightarrow> vec \<Rightarrow> equeue \<Rightarrow> equeue" where
  "store_vec k i v q =
     set_thread k (Sending i v)
       (if v \<noteq> [] then q\<lparr>ecache := cache_put (bounded_writes q) (jkey (jobs q ! i)) v (ecache q)\<rparr> else q)"

definition finish_job :: "nat \<Rightarrow> nat \<Rightarrow> equeue \<Rightarrow> equeue" where
  "finish_job k i q =
     set_thread k Idle
       (if bounded_writes q then q\<lparr>inflight := AList.delete (jkey (jobs q ! i)) (inflight q)\<rparr> else q)"

section \<open>Steps\<close>

definition set_call :: "nat \<Rightarrow> ecall \<Rightarrow> equeue \<Rightarrow> equeue" where
  "set_call c x q = q\<lparr>ecalls := (ecalls q)[c := x]\<rparr>"

definition call_is :: "equeue \<Rightarrow> nat \<Rightarrow> ecall \<Rightarrow> bool" where
  "call_is q c x = (c < length (ecalls q) \<and> ecalls q ! c = x)"

definition thread_is :: "equeue \<Rightarrow> nat \<Rightarrow> bool \<Rightarrow> ethread \<Rightarrow> bool" where
  "thread_is q k w x = (k < length (threads q) \<and> threads q ! k = (w, x))"

inductive worker_step :: "(string \<Rightarrow> artha option) \<Rightarrow> equeue \<Rightarrow> equeue \<Rightarrow> bool" for transform where
  w_take: "thread_is q k w Idle \<Longrightarrow> available w q \<Longrightarrow> take_job w q = (i, q1) \<Longrightarrow>
    worker_step transform q (set_thread k (Took i) q1)"
| w_exit: "thread_is q k w Idle \<Longrightarrow> eq_stop q \<Longrightarrow> \<not> available w q \<Longrightarrow>
    worker_step transform q (set_thread k Exited q)"
| w_start: "thread_is q k w (Took i) \<Longrightarrow> worker_step transform q (start_job transform k i q)"
| w_store: "thread_is q k w (Got i v) \<Longrightarrow> worker_step transform q (store_vec k i v q)"
| w_send: "thread_is q k w (Sending i v) \<Longrightarrow>
    worker_step transform q (set_thread k (Fulfilled i) (set_value i v q))"
| w_finish: "thread_is q k w (Fulfilled i) \<Longrightarrow> worker_step transform q (finish_job k i q)"

text \<open>
  Calls start while the queue is alive.  The stop flag may be set while calls are under way, as
  the code that wakes waiting writers provides for.
\<close>

inductive call_step :: "(string \<Rightarrow> nat) \<Rightarrow> equeue \<Rightarrow> equeue \<Rightarrow> bool" for hsh where
  c_tick: "enow q \<le> now \<Longrightarrow> call_step hsh q (q\<lparr>enow := now\<rparr>)"
| c_stop: "call_step hsh q (q\<lparr>eq_stop := True\<rparr>)"
| c_query: "\<not> eq_stop q \<Longrightarrow> call_step hsh q (q\<lparr>ecalls := ecalls q @ [Query text wait]\<rparr>)"
| c_warm: "\<not> eq_stop q \<Longrightarrow> call_step hsh q (q\<lparr>ecalls := ecalls q @ [Warm text]\<rparr>)"
| c_write: "\<not> eq_stop q \<Longrightarrow> call_step hsh q (q\<lparr>ecalls := ecalls q @ [Write text]\<rparr>)"
| q_hit: "call_is q c (Query text wait) \<Longrightarrow> look_up (hsh text) q = (Some v, q1) \<Longrightarrow>
    call_step hsh q (set_call c (Returned text (Inr v)) q1)"
| q_miss: "call_is q c (Query text wait) \<Longrightarrow> look_up (hsh text) q = (None, q1) \<Longrightarrow>
    call_step hsh q (set_call c (QueryMissed text wait) q1)"
| q_full: "call_is q c (QueryMissed text wait) \<Longrightarrow> query_admit hsh text wait q = (None, q1) \<Longrightarrow>
    call_step hsh q (set_call c (Returned text (Inr [])) q1)"
| q_admit: "call_is q c (QueryMissed text wait) \<Longrightarrow> query_admit hsh text wait q = (Some f, q1) \<Longrightarrow>
    call_step hsh q (set_call c (Waiting_for text f True) q1)"
| e_hit: "call_is q c (Warm text) \<Longrightarrow> look_up (hsh text) q = (Some v, q1) \<Longrightarrow>
    call_step hsh q (set_call c (Returned text (Inr [])) q1)"
| e_miss: "call_is q c (Warm text) \<Longrightarrow> look_up (hsh text) q = (None, q1) \<Longrightarrow>
    call_step hsh q (set_call c (WarmMissed text) q1)"
| e_admit: "call_is q c (WarmMissed text) \<Longrightarrow> enqueue_admit hsh text q = q1 \<Longrightarrow>
    call_step hsh q (set_call c (Returned text (Inr [])) q1)"
| w_plain: "call_is q c (Write text) \<Longrightarrow> \<not> bounded_writes q \<Longrightarrow>
    call_step hsh q (set_call c (Query text 30000) q)"
| w_hit: "call_is q c (Write text) \<Longrightarrow> bounded_writes q \<Longrightarrow> look_up (hsh text) q = (Some v, q1) \<Longrightarrow>
    call_step hsh q (set_call c (Returned text (Inr v)) q1)"
| w_miss: "call_is q c (Write text) \<Longrightarrow> bounded_writes q \<Longrightarrow> look_up (hsh text) q = (None, q1) \<Longrightarrow>
    call_step hsh q (set_call c (WriteMissed text) q1)"
| w_refused: "call_is q c (WriteMissed text) \<Longrightarrow> bounded_writes q \<Longrightarrow> write_admit hsh text q = (Inl e, q1) \<Longrightarrow>
    call_step hsh q (set_call c (Returned text (Inl e)) q1)"
| w_admit: "call_is q c (WriteMissed text) \<Longrightarrow> bounded_writes q \<Longrightarrow> write_admit hsh text q = (Inr f, q1) \<Longrightarrow>
    call_step hsh q (set_call c (Waiting_for text f False) q1)"
| f_get: "call_is q c (Waiting_for text f b) \<Longrightarrow> jprom (jobs q ! f) = Some v \<Longrightarrow>
    call_step hsh q (set_call c (Returned text (Inr v)) q)"
| f_timeout: "call_is q c (Waiting_for text f True) \<Longrightarrow> jprom (jobs q ! f) = None \<Longrightarrow>
    call_step hsh q (set_call c (Returned text (Inr [])) q)"

definition embed_step :: "(string \<Rightarrow> nat) \<Rightarrow> (string \<Rightarrow> artha option) \<Rightarrow> equeue \<Rightarrow> equeue \<Rightarrow> bool" where
  "embed_step hsh transform q r = (worker_step transform q r \<or> call_step hsh q r)"

definition embed_init :: "equeue \<Rightarrow> bool" where
  "embed_init q = (\<exists>getenv. q = embed_queue_new getenv)"


section \<open>Invariants\<close>

fun held_by :: "ethread \<Rightarrow> nat list" where
  "held_by (Took i) = [i]" | "held_by (Got i v) = [i]" | "held_by (Sending i v) = [i]"
| "held_by (Fulfilled i) = [i]" | "held_by p = []"

fun fulfilled_by :: "ethread \<Rightarrow> nat list" where
  "fulfilled_by (Fulfilled i) = [i]" | "fulfilled_by p = []"

definition held_jobs :: "equeue \<Rightarrow> nat list" where
  "held_jobs q = concat (map (held_by \<circ> snd) (threads q))"

definition live_jobs :: "equeue \<Rightarrow> nat list" where
  "live_jobs q = read_q q @ write_q q @ held_jobs q"

definition fulfilled_jobs :: "equeue \<Rightarrow> nat list" where
  "fulfilled_jobs q = concat (map (fulfilled_by \<circ> snd) (threads q))"

text \<open>
  The store: a job is in one place, and its promise is open exactly while it is queued or in
  the hands of a worker that has not fulfilled it.
\<close>

definition inv_jobs :: "equeue \<Rightarrow> bool" where
  "inv_jobs q =
     (distinct (live_jobs q)
      \<and> (\<forall>i. i \<in> set (live_jobs q) \<longrightarrow> i < length (jobs q))
      \<and> (\<forall>i < length (jobs q). jprom (jobs q ! i) = None \<longleftrightarrow> i \<in> set (live_jobs q) - set (fulfilled_jobs q)))"

definition inv_lanes :: "equeue \<Rightarrow> bool" where
  "inv_lanes q = (length (read_q q) \<le> k_read_queue_cap \<and> length (write_q q) \<le> write_cap q)"

definition inv_threads :: "equeue \<Rightarrow> bool" where
  "inv_threads q =
     (map fst (threads q) = False # replicate (write_workers_count q) True
      \<and> (\<not> eq_stop q \<longrightarrow> Exited \<notin> snd ` set (threads q)))"

text \<open>
  The table of jobs in flight: an entry names a job of its key, a live one with bounded writes
  and a queued one without, and with bounded writes every live job has its entry.
\<close>

definition tracked :: "equeue \<Rightarrow> nat set" where
  "tracked q = (if bounded_writes q then set (live_jobs q) else set (read_q q @ write_q q))"

definition inv_inflight :: "equeue \<Rightarrow> bool" where
  "inv_inflight q =
     (distinct (map fst (inflight q))
      \<and> (\<forall>x \<in> set (inflight q). snd x \<in> tracked q \<and> jkey (jobs q ! snd x) = fst x)
      \<and> (bounded_writes q \<longrightarrow> (\<forall>i \<in> set (live_jobs q). (jkey (jobs q ! i), i) \<in> set (inflight q))))"

lemmas eq_ops = look_up_def promote_def new_job_def query_admit_def enqueue_admit_def write_admit_def
  take_job_def set_value_def set_thread_def start_job_def store_vec_def finish_job_def set_call_def Let_def

lemma thread_update:
  assumes "thread_is q k w p"
  shows "mset (concat (map (f \<circ> snd) ((threads q)[k := (w, p')]))) + mset (f p) =
         mset (concat (map (f \<circ> snd) (threads q))) + mset (f p')"
  using assms mset_concat_update [of k "threads q" "f \<circ> snd" "(w, p')"] by (simp add: thread_is_def)

lemma set_thread_simps [simp]:
  "jobs (set_thread k p q) = jobs q" "read_q (set_thread k p q) = read_q q" "write_q (set_thread k p q) = write_q q"
  "inflight (set_thread k p q) = inflight q" "ecache (set_thread k p q) = ecache q" "ecalls (set_thread k p q) = ecalls q"
  "eq_stop (set_thread k p q) = eq_stop q" "write_cap (set_thread k p q) = write_cap q"
  "write_workers_count (set_thread k p q) = write_workers_count q" "enow (set_thread k p q) = enow q"
  "bounded_writes (set_thread k p q) = bounded_writes q"
  by (simp_all add: set_thread_def bounded_writes_def)

lemma set_call_simps [simp]:
  "jobs (set_call c x q) = jobs q" "read_q (set_call c x q) = read_q q" "write_q (set_call c x q) = write_q q"
  "inflight (set_call c x q) = inflight q" "ecache (set_call c x q) = ecache q" "threads (set_call c x q) = threads q"
  "eq_stop (set_call c x q) = eq_stop q" "write_cap (set_call c x q) = write_cap q"
  "write_workers_count (set_call c x q) = write_workers_count q" "enow (set_call c x q) = enow q"
  "bounded_writes (set_call c x q) = bounded_writes q"
  by (simp_all add: set_call_def bounded_writes_def)

text \<open>What a worker holds before and after a step of its own.\<close>

lemma held_set_thread:
  assumes "thread_is q k w p" "threads r = threads q"
  shows "mset (held_jobs (set_thread k p' r)) + mset (held_by p) = mset (held_jobs q) + mset (held_by p')"
    and "mset (fulfilled_jobs (set_thread k p' r)) + mset (fulfilled_by p) = mset (fulfilled_jobs q) + mset (fulfilled_by p')"
  using thread_update [OF assms(1), of held_by p'] thread_update [OF assms(1), of fulfilled_by p'] assms
  by (simp_all add: held_jobs_def fulfilled_jobs_def set_thread_def thread_is_def)

lemma held_thread:
  assumes "thread_is q k w p"
  shows "set (held_by p) \<subseteq> set (held_jobs q)" "set (fulfilled_by p) \<subseteq> set (fulfilled_jobs q)"
  using assms nth_mem [of k "threads q"] by (force simp: thread_is_def held_jobs_def fulfilled_jobs_def)+

lemma fulfilled_held: "set (fulfilled_jobs q) \<subseteq> set (held_jobs q)"
proof -
  have "set (fulfilled_by p) \<subseteq> set (held_by p)" for p by (cases p) auto
  then show ?thesis by (fastforce simp: fulfilled_jobs_def held_jobs_def)
qed


text \<open>
  What a call does to the store, the lanes and the table: nothing but moving jobs between the
  lanes, or one new job.
\<close>

definition frame_eq :: "equeue \<Rightarrow> equeue \<Rightarrow> bool" where
  "frame_eq q r =
     (threads r = threads q \<and> write_workers_count r = write_workers_count q \<and> write_cap r = write_cap q
      \<and> (eq_stop q \<longrightarrow> eq_stop r))"

definition same_jobs :: "equeue \<Rightarrow> equeue \<Rightarrow> bool" where
  "same_jobs q r =
     (frame_eq q r \<and> jobs r = jobs q \<and> inflight r = inflight q
      \<and> mset (read_q r @ write_q r) = mset (read_q q @ write_q q))"

definition adds_job :: "(string \<Rightarrow> nat) \<Rightarrow> string \<Rightarrow> equeue \<Rightarrow> equeue \<Rightarrow> bool" where
  "adds_job hsh text q r =
     (frame_eq q r \<and> map_of (inflight q) (hsh text) = None
      \<and> (\<exists>d w. jobs r = jobs q @ [\<lparr>jtext = text, jkey = hsh text, jdeadline = d, jwrite = w, jprom = None\<rparr>])
      \<and> mset (read_q r @ write_q r) = add_mset (length (jobs q)) (mset (read_q q @ write_q q))
      \<and> (inflight r = AList.update (hsh text) (length (jobs q)) (inflight q)
         \<or> \<not> bounded_writes q \<and> inflight r = inflight q))"

lemma promote_same: "same_jobs q (promote key q)"
proof -
  have "mset (i # read_q q @ remove1 i (write_q q)) = mset (read_q q @ write_q q)"
    if "List.find P (write_q q) = Some i" for P i
  proof -
    have "i \<in> set (write_q q)" using that by (auto simp: find_Some_iff)
    then show ?thesis by simp
  qed
  then show ?thesis by (auto simp: same_jobs_def frame_eq_def promote_def split: option.splits)
qed

lemma query_admit_effect:
  assumes "query_admit hsh text wait q = (a, q1)"
  shows "same_jobs q q1 \<and> (\<forall>f. a = Some f \<longrightarrow> map_of (inflight q) (hsh text) = Some f)
         \<or> adds_job hsh text q q1 \<and> a = Some (length (jobs q))"
  using assms promote_same [of q "hsh text"]
  by (auto simp: query_admit_def new_job_def adds_job_def frame_eq_def same_jobs_def Let_def
      split: option.splits if_splits)

lemma enqueue_admit_effect: "same_jobs q (enqueue_admit hsh text q) \<or> adds_job hsh text q (enqueue_admit hsh text q)"
  by (auto simp: enqueue_admit_def new_job_def adds_job_def frame_eq_def same_jobs_def bounded_writes_def Let_def)

lemma write_admit_effect:
  assumes "write_admit hsh text q = (a, q1)"
  shows "same_jobs q q1 \<and> (\<forall>f. a = Inr f \<longrightarrow> map_of (inflight q) (hsh text) = Some f)
         \<or> adds_job hsh text q q1 \<and> a = Inr (length (jobs q))"
  using assms
  by (auto simp: write_admit_def new_job_def adds_job_def frame_eq_def same_jobs_def Let_def
      split: option.splits if_splits)

lemma look_up_effect: "look_up key q = (a, q1) \<Longrightarrow> same_jobs q q1"
  by (auto simp: look_up_def same_jobs_def frame_eq_def split: prod.splits)

lemma same_jobs_call: "same_jobs q (set_call c x r) = same_jobs q r" "adds_job hsh text q (set_call c x r) = adds_job hsh text q r"
  by (simp_all add: same_jobs_def adds_job_def frame_eq_def)

lemma call_step_effect:
  assumes "call_step hsh q r"
  shows "same_jobs q r \<or> (\<exists>t. adds_job hsh t q r)"
  using assms
proof (cases rule: call_step.cases)
  case (q_full c t wait q1)
  then show ?thesis using query_admit_effect [of hsh t wait q] by (auto simp: same_jobs_call)
next
  case (q_admit c t wait f q1)
  then show ?thesis using query_admit_effect [of hsh t wait q] by (auto simp: same_jobs_call)
next
  case (e_admit c t q1)
  then show ?thesis using enqueue_admit_effect [of q hsh t] by (auto simp: same_jobs_call)
next
  case (w_refused c t e q1)
  then show ?thesis using write_admit_effect [of hsh t q] by (auto simp: same_jobs_call)
next
  case (w_admit c t f q1)
  then show ?thesis using write_admit_effect [of hsh t q] by (auto simp: same_jobs_call)
qed (auto simp: same_jobs_call dest: look_up_effect simp: same_jobs_def frame_eq_def)

lemma same_live:
  assumes "same_jobs q r"
  shows "mset (live_jobs r) = mset (live_jobs q)" "fulfilled_jobs r = fulfilled_jobs q"
  using assms by (simp_all add: same_jobs_def frame_eq_def live_jobs_def held_jobs_def fulfilled_jobs_def)

lemma adds_live:
  assumes "adds_job hsh text q r"
  shows "mset (live_jobs r) = add_mset (length (jobs q)) (mset (live_jobs q))" "fulfilled_jobs r = fulfilled_jobs q"
  using assms by (simp_all add: adds_job_def frame_eq_def live_jobs_def held_jobs_def fulfilled_jobs_def)


lemma inv_jobs_same:
  assumes "inv_jobs q" "mset (live_jobs r) = mset (live_jobs q)" "set (fulfilled_jobs r) = set (fulfilled_jobs q)" "jobs r = jobs q"
  shows "inv_jobs r"
  using assms mset_eq_setD [OF assms(2)] mset_eq_imp_distinct_iff [OF assms(2)] by (simp add: inv_jobs_def)

lemma inv_jobs_adds:
  assumes "inv_jobs q" "adds_job hsh t q r"
  shows "inv_jobs r"
proof -
  note l = adds_live [OF assms(2)]
  have new: "length (jobs q) \<notin> set (live_jobs q)" using assms(1) by (auto simp: inv_jobs_def)
  obtain j where j: "jobs r = jobs q @ [j]" "jprom j = None" using assms(2) by (auto simp: adds_job_def)
  have m: "mset (live_jobs r) = mset (length (jobs q) # live_jobs q)" using l(1) by simp
  have "distinct (live_jobs r)"
    using mset_eq_imp_distinct_iff [OF m] new assms(1) by (simp add: inv_jobs_def)
  moreover have s: "set (live_jobs r) = insert (length (jobs q)) (set (live_jobs q))" using mset_eq_setD [OF m] by simp
  moreover have "fulfilled_jobs r = fulfilled_jobs q" "set (fulfilled_jobs q) \<subseteq> set (live_jobs q)"
    using l(2) fulfilled_held [of q] by (auto simp: live_jobs_def)
  ultimately show ?thesis using assms(1) new by (auto simp: inv_jobs_def j nth_append less_Suc_eq)
qed

lemma live_set_thread:
  assumes "thread_is q k w p" "threads r = threads q" "mset (read_q r @ write_q r) + mset (held_by p') = mset (read_q q @ write_q q) + mset (held_by p)"
  shows "mset (live_jobs (set_thread k p' r)) = mset (live_jobs q)"
proof -
  have "mset (live_jobs (set_thread k p' r)) + mset (held_by p) =
    mset (read_q r @ write_q r) + (mset (held_jobs (set_thread k p' r)) + mset (held_by p))"
    by (simp add: live_jobs_def)
  also have "\<dots> = mset (read_q r @ write_q r) + (mset (held_jobs q) + mset (held_by p'))"
    using held_set_thread(1) [OF assms(1,2), of p'] by simp
  also have "\<dots> = mset (live_jobs q) + mset (held_by p)"
    using assms(3) by (simp add: live_jobs_def union_ac)
  finally show ?thesis by simp
qed

lemma fulfilled_set_thread:
  assumes "thread_is q k w p" "threads r = threads q" "fulfilled_by p = fulfilled_by p'"
  shows "set (fulfilled_jobs (set_thread k p' r)) = set (fulfilled_jobs q)"
  using held_set_thread(2) [OF assms(1,2), of p'] unfolding assms(3) add_right_cancel by (rule mset_eq_setD)

lemma inv_jobs_fulfil:
  assumes "inv_jobs q" "thread_is q k w p" "held_by p = [i]" "fulfilled_by p = []"
  shows "inv_jobs (set_thread k (Fulfilled i) (set_value i v q))"
proof -
  define r where "r = set_thread k (Fulfilled i) (set_value i v q)"
  have t: "threads (set_value i v q) = threads q" by (simp add: set_value_def)
  have l: "mset (live_jobs r) = mset (live_jobs q)"
    unfolding r_def using assms(2,3) by (intro live_set_thread [OF _ t]) (simp_all add: set_value_def)
  have f: "set (fulfilled_jobs r) = insert i (set (fulfilled_jobs q))"
    using arg_cong [OF held_set_thread(2) [OF assms(2) t, of "Fulfilled i"], of set_mset] assms(4) by (simp add: r_def)
  have j: "jobs r = (jobs q)[i := (jobs q ! i)\<lparr>jprom := Some v\<rparr>]" by (simp add: r_def set_value_def)
  have i: "i \<in> set (live_jobs q)" using held_thread(1) [OF assms(2)] assms(3) by (simp add: live_jobs_def)
  then have "i < length (jobs q)" using assms(1) by (simp add: inv_jobs_def)
  then have "inv_jobs r" using assms(1) mset_eq_setD [OF l] mset_eq_imp_distinct_iff [OF l]
    by (auto simp: inv_jobs_def f j nth_list_update)
  then show ?thesis by (simp add: r_def)
qed

lemma take_job_effect:
  assumes "take_job w q = (i, q1)" "available w q"
  shows "mset (read_q q1 @ write_q q1) + {#i#} = mset (read_q q @ write_q q)" "jobs q1 = jobs q" "threads q1 = threads q"
    and "frame_eq q q1" "length (read_q q1) \<le> length (read_q q)" "length (write_q q1) \<le> length (write_q q)"
    and "inflight q1 = (if bounded_writes q then inflight q else AList.delete (jkey (jobs q ! i)) (inflight q))"
    and "ecache q1 = ecache q" "ecalls q1 = ecalls q" "enow q1 = enow q"
  using assms
  by (cases "read_q q"; cases "write_q q"; auto simp: take_job_def available_def frame_eq_def bounded_writes_def split: if_splits)+

lemma inv_jobs_step:
  assumes "worker_step transform q r" "inv_jobs q"
  shows "inv_jobs r"
  using assms(1)
proof (cases rule: worker_step.cases)
  case (w_take k w i q1)
  note e = take_job_effect [OF w_take(4,3)]
  show ?thesis using assms(2) unfolding w_take(1)
  proof (rule inv_jobs_same)
    show "mset (live_jobs (set_thread k (Took i) q1)) = mset (live_jobs q)"
      using e(1) by (intro live_set_thread [OF w_take(2) e(3)]) simp
    show "set (fulfilled_jobs (set_thread k (Took i) q1)) = set (fulfilled_jobs q)"
      by (rule fulfilled_set_thread [OF w_take(2) e(3)]) simp
  qed (simp add: e(2))
next
  case (w_exit k w)
  show ?thesis using assms(2) unfolding w_exit(1)
    by (rule inv_jobs_same) (simp_all add: live_set_thread [OF w_exit(2)] fulfilled_set_thread [OF w_exit(2)])
next
  case (w_start k w i)
  then show ?thesis
    using assms(2) inv_jobs_fulfil [OF assms(2) w_start(2), of i "[]"]
      inv_jobs_same [OF assms(2), of "set_thread k (Got i v) q" for v]
    by (simp add: start_job_def live_set_thread [OF w_start(2)] fulfilled_set_thread [OF w_start(2)])
next
  case (w_store k w i v)
  show ?thesis using assms(2) unfolding w_store(1) store_vec_def
    by (rule inv_jobs_same) (auto simp: live_set_thread [OF w_store(2)] fulfilled_set_thread [OF w_store(2)])
next
  case (w_send k w i v)
  then show ?thesis using inv_jobs_fulfil [OF assms(2) w_send(2), of i v] by simp
next
  case (w_finish k w i)
  let ?q1 = "if bounded_writes q then q\<lparr>inflight := AList.delete (jkey (jobs q ! i)) (inflight q)\<rparr> else q"
  have r: "r = set_thread k Idle ?q1" using w_finish(1) by (simp add: finish_job_def)
  have t: "threads ?q1 = threads q" "jobs ?q1 = jobs q" "read_q ?q1 = read_q q" "write_q ?q1 = write_q q" by simp_all
  note h = held_set_thread [OF w_finish(2) t(1), of Idle]
  have l: "mset (i # live_jobs r) = mset (live_jobs q)" using h(1) t by (simp add: r live_jobs_def)
  have f: "mset (i # fulfilled_jobs r) = mset (fulfilled_jobs q)" using h(2) by (simp add: r)
  have d: "distinct (i # live_jobs r)" using mset_eq_imp_distinct_iff [OF l] assms(2) by (simp add: inv_jobs_def)
  have "set (fulfilled_jobs r) \<subseteq> set (live_jobs r)" using fulfilled_held [of r] by (auto simp: live_jobs_def)
  then show ?thesis using assms(2) d mset_eq_setD [OF l, symmetric] mset_eq_setD [OF f, symmetric] t(2)
    by (auto simp: inv_jobs_def r)
qed


lemma inv_jobs_call:
  assumes "call_step hsh q r" "inv_jobs q"
  shows "inv_jobs r"
  using call_step_effect [OF assms(1)]
proof (elim disjE exE)
  assume s: "same_jobs q r"
  then have "jobs r = jobs q" by (simp add: same_jobs_def)
  with same_live [OF s] show ?thesis by (intro inv_jobs_same [OF assms(2)]) simp_all
qed (rule inv_jobs_adds [OF assms(2)])

lemma inv_lanes_call:
  assumes "call_step hsh q r" "inv_lanes q"
  shows "inv_lanes r"
proof -
  have p: "length (read_q (promote k q)) \<le> k_read_queue_cap" "length (write_q (promote k q)) \<le> write_cap q"
    "write_cap (promote k q) = write_cap q" for k
    using assms(2) by (auto simp: inv_lanes_def promote_def length_remove1 split: option.splits)
  have c: "inv_lanes (set_call c x u) = inv_lanes u" for c x u by (simp add: inv_lanes_def)
  have l: "look_up k q = (a, q1) \<Longrightarrow> inv_lanes q1" for k a q1
    using assms(2) by (auto simp: look_up_def inv_lanes_def split: prod.splits)
  have a: "query_admit hsh t wait q = (a, q1) \<Longrightarrow> inv_lanes q1" for t wait a q1
    using assms(2) p [of "hsh t"] by (auto simp: query_admit_def new_job_def inv_lanes_def Let_def split: option.splits if_splits)
  have e: "inv_lanes (enqueue_admit hsh t q)" for t
    using assms(2) by (auto simp: enqueue_admit_def new_job_def inv_lanes_def Let_def)
  have w: "write_admit hsh t q = (b, q1) \<Longrightarrow> inv_lanes q1" for t b q1
    using assms(2) by (auto simp: write_admit_def write_ready_def new_job_def inv_lanes_def Let_def split: option.splits if_splits)
  show ?thesis using assms
    by (cases rule: call_step.cases) (auto simp: c e dest: l a w, auto simp: inv_lanes_def)
qed

lemma worker_lanes:
  assumes "worker_step transform q r"
  shows "length (read_q r) \<le> length (read_q q) \<and> length (write_q r) \<le> length (write_q q) \<and> write_cap r = write_cap q
         \<and> write_workers_count r = write_workers_count q \<and> eq_stop r = eq_stop q \<and> map fst (threads r) = map fst (threads q)"
proof -
  have m: "thread_is q k w p \<Longrightarrow> threads u = threads q \<Longrightarrow> map fst (threads (set_thread k p' u)) = map fst (threads q)" for k w p p' u
    by (simp add: set_thread_def thread_is_def map_update) (metis fst_conv list_update_id nth_map)
  have e: "take_job w q = (i, q1) \<Longrightarrow> eq_stop q1 = eq_stop q" for w i q1 by (auto simp: take_job_def split: if_splits)
  show ?thesis using assms
  proof (cases rule: worker_step.cases)
    case (w_take k w i q1)
    then show ?thesis using take_job_effect [OF w_take(4,3)] m [OF w_take(2)] e by (simp add: frame_eq_def)
  next
    case (w_start k w i)
    then show ?thesis using m [OF w_start(2)] by (auto simp: start_job_def set_value_def)
  next
    case (w_store k w i v)
    then show ?thesis using m [OF w_store(2)] by (auto simp: store_vec_def)
  next
    case (w_send k w i v)
    then show ?thesis using m [OF w_send(2)] by (auto simp: set_value_def)
  next
    case (w_finish k w i)
    then show ?thesis using m [OF w_finish(2)] by (auto simp: finish_job_def)
  next
    case (w_exit k w)
    then show ?thesis using m [OF w_exit(2)] by simp
  qed
qed

lemma inv_threads_worker:
  assumes "worker_step transform q r" "inv_threads q"
  shows "inv_threads r"
proof -
  have s: "Exited \<notin> snd ` set (threads (set_thread k p u))"
    if "Exited \<notin> snd ` set (threads q)" "threads u = threads q" "p \<noteq> Exited" for k p u
    using that set_update_subset_insert [of "threads q" k "(fst (threads q ! k), p)"] by (force simp: set_thread_def)
  have "Exited \<notin> snd ` set (threads r)" if n: "\<not> eq_stop r"
  proof -
    have n': "\<not> eq_stop q" "Exited \<notin> snd ` set (threads q)"
      using worker_lanes [OF assms(1)] n assms(2) by (auto simp: inv_threads_def)
    show ?thesis using assms(1)
    proof (cases rule: worker_step.cases)
      case (w_take k w i q1)
      then show ?thesis using s [OF n'(2) take_job_effect(3) [OF w_take(4,3)]] by simp
    qed (use n' in \<open>simp_all add: s [OF n'(2)] start_job_def store_vec_def finish_job_def set_value_def\<close>)
  qed
  then show ?thesis using worker_lanes [OF assms(1)] assms(2) by (simp add: inv_threads_def)
qed

lemma inv_threads_call:
  assumes "call_step hsh q r" "inv_threads q"
  shows "inv_threads r"
  using call_step_effect [OF assms(1)] assms(2)
  by (auto simp: same_jobs_def adds_job_def frame_eq_def inv_threads_def)


lemma delete_entry: "x \<in> set (AList.delete k al) \<longleftrightarrow> x \<in> set al \<and> fst x \<noteq> k"
  by (cases x) (auto simp: AList.delete_eq)

lemma update_absent: "k \<notin> fst ` set al \<Longrightarrow> AList.update k v al = al @ [(k, v)]"
  by (induction al) auto

lemma drop_entry:
  assumes "\<forall>x \<in> set al. snd x \<in> insert i T \<and> jkey (js ! snd x) = fst x"
  shows "\<forall>x \<in> set (AList.delete (jkey (js ! i)) al). snd x \<in> T \<and> jkey (js ! snd x) = fst x"
proof
  fix x assume "x \<in> set (AList.delete (jkey (js ! i)) al)"
  then have "x \<in> set al" "fst x \<noteq> jkey (js ! i)" by (simp_all add: delete_entry)
  then show "snd x \<in> T \<and> jkey (js ! snd x) = fst x" using assms by (metis insertE)
qed

lemma tracked_live: "tracked q \<subseteq> set (live_jobs q)"
  by (auto simp: tracked_def live_jobs_def)

lemma inv_inflight_same:
  assumes "inv_inflight q" "same_jobs q r"
  shows "inv_inflight r"
proof -
  have l: "set (live_jobs r) = set (live_jobs q)" using same_live(1) [OF assms(2)] by (rule mset_eq_setD)
  have "set (read_q r @ write_q r) = set (read_q q @ write_q q)" using assms(2) unfolding same_jobs_def by (intro mset_eq_setD) simp
  with l have "tracked r = tracked q" using assms(2) by (simp add: tracked_def same_jobs_def frame_eq_def bounded_writes_def)
  with l show ?thesis using assms by (simp add: inv_inflight_def same_jobs_def frame_eq_def bounded_writes_def)
qed

lemma inv_inflight_adds:
  assumes "inv_inflight q" "inv_jobs q" "adds_job hsh t q r"
  shows "inv_inflight r"
proof -
  let ?n = "length (jobs q)"
  have "set (live_jobs r) = set (?n # live_jobs q)" using adds_live(1) [OF assms(3)] by (intro mset_eq_setD) simp
  then have l: "set (live_jobs r) = insert ?n (set (live_jobs q))" by simp
  have "set (read_q r @ write_q r) = set (?n # read_q q @ write_q q)"
    using assms(3) by (intro mset_eq_setD) (simp add: adds_job_def)
  with l have tr: "tracked r = insert ?n (tracked q)"
    using assms(3) by (simp add: tracked_def adds_job_def frame_eq_def bounded_writes_def)
  have lt: "\<forall>i \<in> set (live_jobs q). i < ?n" using assms(2) by (simp add: inv_jobs_def)
  have k: "hsh t \<notin> fst ` set (inflight q)" using assms(3) by (simp add: adds_job_def map_of_eq_None_iff)
  have b: "bounded_writes r = bounded_writes q" using assms(3) by (simp add: adds_job_def frame_eq_def bounded_writes_def)
  obtain d w where j: "jobs r = jobs q @ [\<lparr>jtext = t, jkey = hsh t, jdeadline = d, jwrite = w, jprom = None\<rparr>]"
    using assms(3) by (auto simp: adds_job_def)
  have old: "jobs r ! i = jobs q ! i" if "i \<in> set (live_jobs q)" for i using that lt by (simp add: j nth_append)
  then have ent: "\<forall>x \<in> set (inflight q). snd x \<in> tracked q \<and> jkey (jobs r ! snd x) = fst x"
    using assms(1) tracked_live [of q] by (auto simp: inv_inflight_def subset_iff)
  have new: "jkey (jobs r ! ?n) = hsh t" by (simp add: j)
  have "inflight r = inflight q @ [(hsh t, ?n)] \<or> \<not> bounded_writes q \<and> inflight r = inflight q"
    using assms(3) k by (auto simp: adds_job_def update_absent)
  then show ?thesis
  proof
    assume "inflight r = inflight q @ [(hsh t, ?n)]"
    then show ?thesis using assms(1) ent k new unfolding inv_inflight_def b l tr by (auto simp: old)
  next
    assume "\<not> bounded_writes q \<and> inflight r = inflight q"
    then show ?thesis using assms(1) ent unfolding inv_inflight_def b l tr by auto
  qed
qed

lemma inv_inflight_call: "call_step hsh q r \<Longrightarrow> inv_jobs q \<Longrightarrow> inv_inflight q \<Longrightarrow> inv_inflight r"
  using call_step_effect inv_inflight_same inv_inflight_adds by blast

lemma set_value_keys: "map jkey (jobs (set_value i v q)) = map jkey (jobs q)"
proof (cases "i < length (jobs q)")
  case True
  then have "(map jkey (jobs q))[i := jkey (jobs q ! i)] = map jkey (jobs q)" by (metis list_update_id nth_map)
  then show ?thesis by (simp add: set_value_def map_update)
qed (simp add: set_value_def list_update_beyond)

lemma inv_inflight_cong:
  assumes "inv_inflight q" "inv_jobs q" "set (live_jobs r) = set (live_jobs q)" "tracked r = tracked q"
    "map jkey (jobs r) = map jkey (jobs q)" "inflight r = inflight q" "bounded_writes r = bounded_writes q"
  shows "inv_inflight r"
proof -
  have "length (jobs r) = length (jobs q)" using assms(5) by (rule map_eq_imp_length_eq)
  then have "jkey (jobs r ! i) = jkey (jobs q ! i)" if "i \<in> set (live_jobs q)" for i
    using that assms(2,5) nth_map [of i "jobs r" jkey] nth_map [of i "jobs q" jkey] by (simp add: inv_jobs_def)
  then show ?thesis using assms(1,3,4,6,7) tracked_live [of q] unfolding inv_inflight_def by (auto simp: subset_iff)
qed

text \<open>A step of a worker that leaves the lanes and the table alone.\<close>

lemma inv_inflight_thread:
  assumes "inv_inflight q" "inv_jobs q" "thread_is q k w p" "held_by p' = held_by p" "threads u = threads q"
    "read_q u = read_q q" "write_q u = write_q q" "map jkey (jobs u) = map jkey (jobs q)" "inflight u = inflight q"
    "write_workers_count u = write_workers_count q"
  shows "inv_inflight (set_thread k p' u)"
proof -
  have "set (live_jobs (set_thread k p' u)) = set (live_jobs q)"
    using assms by (intro mset_eq_setD live_set_thread) simp_all
  moreover from this have "tracked (set_thread k p' u) = tracked q"
    using assms by (simp add: tracked_def bounded_writes_def)
  ultimately show ?thesis using assms by (intro inv_inflight_cong [OF assms(1,2)]) (simp_all add: bounded_writes_def)
qed

lemma finish_live:
  assumes "thread_is q k w (Fulfilled i)"
  shows "mset (i # live_jobs (finish_job k i q)) = mset (live_jobs q)"
  using held_set_thread(1) [OF assms, of q Idle] held_set_thread(1) [OF assms, of "q\<lparr>inflight := x\<rparr>" Idle for x]
  by (simp add: finish_job_def live_jobs_def)

lemma inv_inflight_finish:
  assumes "inv_inflight q" "inv_jobs q" "thread_is q k w (Fulfilled i)"
  shows "inv_inflight (finish_job k i q)"
proof -
  define r where "r = finish_job k i q"
  have m: "mset (i # live_jobs r) = mset (live_jobs q)" unfolding r_def using assms(3) by (rule finish_live)
  have j: "jobs r = jobs q" "bounded_writes r = bounded_writes q" "read_q r = read_q q" "write_q r = write_q q"
    by (simp_all add: r_def finish_job_def bounded_writes_def)
  have d: "distinct (i # live_jobs r)" using mset_eq_imp_distinct_iff [OF m] assms(2) by (simp add: inv_jobs_def)
  have l: "set (live_jobs q) = insert i (set (live_jobs r))" using mset_eq_setD [OF m, symmetric] by simp
  show ?thesis
  proof (cases "bounded_writes q")
    case True
    have f: "inflight r = AList.delete (jkey (jobs q ! i)) (inflight q)" using True by (simp add: r_def finish_job_def)
    have t: "tracked q = insert i (tracked r)" "tracked r = set (live_jobs r)" using True l j by (simp_all add: tracked_def)
    have b: "(jkey (jobs q ! x), x) \<in> set (inflight q)" if "x \<in> set (live_jobs q)" for x
      using that assms(1) True by (simp add: inv_inflight_def)
    have "jkey (jobs q ! x) \<noteq> jkey (jobs q ! i)" if "x \<in> set (live_jobs r)" for x
    proof
      assume "jkey (jobs q ! x) = jkey (jobs q ! i)"
      with b [of x] b [of i] l that have "(jkey (jobs q ! i), x) \<in> set (inflight q)" "(jkey (jobs q ! i), i) \<in> set (inflight q)"
        by simp_all
      moreover have "distinct (map fst (inflight q))" using assms(1) by (simp add: inv_inflight_def)
      ultimately have "x = i" by (metis eq_key_imp_eq_value)
      with that d show False by simp
    qed
    then have "\<forall>x \<in> set (live_jobs r). (jkey (jobs q ! x), x) \<in> set (inflight r)"
      using b l by (simp add: f delete_entry)
    moreover have "\<forall>x \<in> set (inflight r). snd x \<in> tracked r \<and> jkey (jobs q ! snd x) = fst x"
      unfolding f using assms(1) t(1) by (intro drop_entry) (simp add: inv_inflight_def)
    moreover have "distinct (map fst (inflight r))" using assms(1) by (simp add: f inv_inflight_def AList.distinct_delete)
    ultimately show ?thesis unfolding r_def [symmetric] inv_inflight_def j by simp
  next
    case False
    then have "inflight r = inflight q" "tracked r = tracked q" using j by (simp_all add: r_def finish_job_def tracked_def)
    then show ?thesis using assms(1) False j unfolding r_def [symmetric] inv_inflight_def by simp
  qed
qed

lemma inv_inflight_worker:
  assumes "worker_step transform q r" "inv_jobs q" "inv_inflight q"
  shows "inv_inflight r"
  using assms(1)
proof (cases rule: worker_step.cases)
  case (w_take k w i q1)
  note e = take_job_effect [OF w_take(4,3)]
  have l: "set (live_jobs r) = set (live_jobs q)" unfolding w_take(1)
    using e(1) by (intro mset_eq_setD live_set_thread [OF w_take(2) e(3)]) simp
  show ?thesis
  proof (cases "bounded_writes q")
    case True
    then show ?thesis using e l w_take(1)
      by (intro inv_inflight_cong [OF assms(3,2) l]) (simp_all add: tracked_def frame_eq_def bounded_writes_def)
  next
    case False
    have rw: "set (read_q q @ write_q q) = insert i (set (read_q q1 @ write_q q1))"
      using mset_eq_setD [of "i # read_q q1 @ write_q q1" "read_q q @ write_q q"] e(1) by simp
    have t: "tracked q = insert i (tracked r)" and nb: "\<not> bounded_writes r" and j: "jobs r = jobs q"
      and f: "inflight r = AList.delete (jkey (jobs q ! i)) (inflight q)"
      using rw False e w_take(1) by (simp_all add: tracked_def frame_eq_def bounded_writes_def)
    have "\<forall>x \<in> set (inflight r). snd x \<in> tracked r \<and> jkey (jobs q ! snd x) = fst x"
      unfolding f using assms(3) t by (intro drop_entry) (simp add: inv_inflight_def)
    moreover have "distinct (map fst (inflight r))" using assms(3) by (simp add: f inv_inflight_def AList.distinct_delete)
    ultimately show ?thesis using nb by (simp add: inv_inflight_def j)
  qed
next
  case (w_exit k w)
  then show ?thesis using inv_inflight_thread [OF assms(3,2) w_exit(2), of Exited q] by simp
next
  case (w_start k w i)
  show ?thesis
  proof (cases "stale (enow q) (jobs q ! i)")
    case True
    have "inv_inflight (set_thread k (Fulfilled i) (set_value i [] q))"
      by (rule inv_inflight_thread [OF assms(3,2) w_start(2)]) (simp_all only: set_value_keys, simp_all add: set_value_def)
    then show ?thesis using True w_start(1) by (simp add: start_job_def)
  next
    case False
    have "inv_inflight (set_thread k (Got i v) q)" for v
      by (rule inv_inflight_thread [OF assms(3,2) w_start(2)]) simp_all
    then show ?thesis using False w_start(1) by (simp add: start_job_def)
  qed
next
  case (w_store k w i v)
  show ?thesis unfolding w_store(1) store_vec_def
    by (rule inv_inflight_thread [OF assms(3,2) w_store(2)]) simp_all
next
  case (w_send k w i v)
  show ?thesis unfolding w_send(1)
    by (rule inv_inflight_thread [OF assms(3,2) w_send(2)]) (simp_all only: set_value_keys, simp_all add: set_value_def)
next
  case (w_finish k w i)
  then show ?thesis using inv_inflight_finish [OF assms(3,2) w_finish(2)] by simp
qed


section \<open>What a call returns\<close>

text \<open>
  A vector answers a key when it is empty or the embedding of a text with that hash.
\<close>

definition answers :: "(string \<Rightarrow> nat) \<Rightarrow> (string \<Rightarrow> artha option) \<Rightarrow> nat \<Rightarrow> vec \<Rightarrow> bool" where
  "answers hsh transform key v = (v = [] \<or> (\<exists>t. hsh t = key \<and> v = embed_of transform t))"

definition job_ok :: "(string \<Rightarrow> nat) \<Rightarrow> (string \<Rightarrow> artha option) \<Rightarrow> job \<Rightarrow> bool" where
  "job_ok hsh transform j =
     (jkey j = hsh (jtext j) \<and> (case jprom j of None \<Rightarrow> True | Some v \<Rightarrow> answers hsh transform (jkey j) v))"

fun thread_ok :: "(string \<Rightarrow> artha option) \<Rightarrow> job list \<Rightarrow> ethread \<Rightarrow> bool" where
  "thread_ok transform js (Got i v) = (v = embed_of transform (jtext (js ! i)))"
| "thread_ok transform js (Sending i v) = (v = embed_of transform (jtext (js ! i)))"
| "thread_ok transform js p = True"

fun call_ok :: "(string \<Rightarrow> nat) \<Rightarrow> (string \<Rightarrow> artha option) \<Rightarrow> job list \<Rightarrow> ecall \<Rightarrow> bool" where
  "call_ok hsh transform js (Waiting_for t f b) = (f < length js \<and> jkey (js ! f) = hsh t)"
| "call_ok hsh transform js (Returned t (Inr v)) = answers hsh transform (hsh t) v"
| "call_ok hsh transform js c = True"

definition inv_results :: "(string \<Rightarrow> nat) \<Rightarrow> (string \<Rightarrow> artha option) \<Rightarrow> equeue \<Rightarrow> bool" where
  "inv_results hsh transform q =
     ((\<forall>j \<in> set (jobs q). job_ok hsh transform j)
      \<and> (\<forall>p \<in> snd ` set (threads q). thread_ok transform (jobs q) p)
      \<and> (\<forall>x \<in> set (cache_map (ecache q)). answers hsh transform (fst x) (ce_vec (snd x)))
      \<and> (\<forall>c \<in> set (ecalls q). call_ok hsh transform (jobs q) c))"

definition inv_cache :: "equeue \<Rightarrow> bool" where
  "inv_cache q = (bounded_writes q \<longrightarrow> cache_exact (ecache q))"

definition embed_inv :: "(string \<Rightarrow> nat) \<Rightarrow> (string \<Rightarrow> artha option) \<Rightarrow> equeue \<Rightarrow> bool" where
  "embed_inv hsh transform q =
     (inv_jobs q \<and> inv_lanes q \<and> inv_threads q \<and> inv_inflight q \<and> inv_cache q \<and> inv_results hsh transform q)"

lemma get_map: "cache_map (snd (cache_get k c)) = cache_map c"
  by (simp add: cache_get_def split: option.splits)

lemma get_found: "fst (cache_get k c) = Some v \<Longrightarrow> \<exists>x \<in> set (cache_map c). fst x = k \<and> ce_vec (snd x) = v"
  by (force simp: cache_get_def split: option.splits dest!: map_of_SomeD)

lemma update_subset: "set (AList.update k v al) \<subseteq> insert (k, v) (set al)"
  by (induction al) auto

lemma put_entries:
  "set (cache_map (cache_put b k v c)) \<subseteq> insert (k, \<lparr>ce_vec = v, ce_node = cache_fresh (evict_last (forget_old b k c))\<rparr>) (set (cache_map c))"
proof -
  have "set (cache_map (forget_old b k c)) \<subseteq> set (cache_map c)"
    by (auto simp: forget_old_def delete_entry split: option.splits)
  moreover have "set (cache_map (evict_last d)) \<subseteq> set (cache_map d)" for d
    by (auto simp: evict_last_def delete_entry)
  ultimately have "set (cache_map (evict_last (forget_old b k c))) \<subseteq> set (cache_map c)" by blast
  then show ?thesis using update_subset by (fastforce simp: cache_put_def Let_def)
qed

text \<open>Jobs keep their text and key, and the store only grows.\<close>

definition extends :: "job list \<Rightarrow> job list \<Rightarrow> bool" where
  "extends js js' = (length js \<le> length js' \<and> (\<forall>i < length js. jkey (js' ! i) = jkey (js ! i) \<and> jtext (js' ! i) = jtext (js ! i)))"

lemma extends_refl [simp]: "extends js js"
  by (simp add: extends_def)

lemma extends_new [simp]: "extends js (js @ [j])"
  by (simp add: extends_def nth_append)

lemma extends_set [simp]: "extends (jobs q) (jobs (set_value i v q))"
  by (cases "i < length (jobs q)") (auto simp: extends_def set_value_def nth_list_update list_update_beyond)

lemma call_ok_extends: "call_ok hsh transform js c \<Longrightarrow> extends js js' \<Longrightarrow> call_ok hsh transform js' c"
  by (cases "(hsh, transform, js, c)" rule: call_ok.cases) (auto simp: extends_def)

lemma results_calls:
  assumes "inv_results hsh transform q" "extends (jobs q) js"
  shows "\<forall>c \<in> set (ecalls q). call_ok hsh transform js c"
  using assms call_ok_extends by (auto simp: inv_results_def)

lemma job_ok_new: "job_ok hsh transform \<lparr>jtext = t, jkey = hsh t, jdeadline = d, jwrite = w, jprom = None\<rparr>"
  by (simp add: job_ok_def)


lemma set_value_text: "jtext (jobs (set_value i v q) ! n) = jtext (jobs q ! n)"
proof (cases "i = n")
  case True
  then show ?thesis by (cases "n < length (jobs q)") (simp_all add: set_value_def list_update_beyond)
qed (simp add: set_value_def)

lemma thread_ok_text:
  assumes "\<And>n. jtext (js' ! n) = jtext (js ! n)"
  shows "thread_ok transform js' p = thread_ok transform js p"
  using assms by (cases p) simp_all

lemma results_thread:
  assumes "inv_results hsh transform q" "threads u = threads q" "ecalls u = ecalls q" "extends (jobs q) (jobs u)"
    and "\<And>n. jtext (jobs u ! n) = jtext (jobs q ! n)" "\<forall>j \<in> set (jobs u). job_ok hsh transform j"
    and "\<forall>x \<in> set (cache_map (ecache u)). answers hsh transform (fst x) (ce_vec (snd x))" "thread_ok transform (jobs q) p'"
  shows "inv_results hsh transform (set_thread k p' u)"
proof -
  have "snd ` set (threads (set_thread k p' u)) \<subseteq> insert p' (snd ` set (threads q))"
    using set_update_subset_insert [of "threads q" k "(fst (threads q ! k), p')"] by (auto simp: set_thread_def assms(2))
  then have "\<forall>p \<in> snd ` set (threads (set_thread k p' u)). thread_ok transform (jobs q) p"
    using assms(1,8) unfolding inv_results_def by blast
  then have "\<forall>p \<in> snd ` set (threads (set_thread k p' u)). thread_ok transform (jobs u) p"
    using thread_ok_text [OF assms(5)] by blast
  then show ?thesis using assms(3,6,7) results_calls [OF assms(1,4)] by (simp add: inv_results_def)
qed

lemma job_ok_set:
  assumes "inv_results hsh transform q" "answers hsh transform (jkey (jobs q ! i)) v"
  shows "\<forall>j \<in> set (jobs (set_value i v q)). job_ok hsh transform j"
proof (cases "i < length (jobs q)")
  case True
  then have "job_ok hsh transform (jobs q ! i)" using assms(1) by (simp add: inv_results_def)
  then have "job_ok hsh transform ((jobs q ! i)\<lparr>jprom := Some v\<rparr>)" using assms(2) by (simp add: job_ok_def)
  then show ?thesis using assms(1) set_update_subset_insert [of "jobs q" i]
    by (auto simp: set_value_def inv_results_def)
next
  case False
  then show ?thesis using assms(1) by (simp add: set_value_def inv_results_def list_update_beyond)
qed

lemma thread_result:
  assumes "inv_results hsh transform q" "inv_jobs q" "thread_is q k w p" "i \<in> set (held_by p)"
  shows "thread_ok transform (jobs q) p" "jkey (jobs q ! i) = hsh (jtext (jobs q ! i))"
proof -
  have "p \<in> snd ` set (threads q)" using assms(3) nth_mem by (force simp: thread_is_def)
  then show "thread_ok transform (jobs q) p" using assms(1) unfolding inv_results_def by blast
  have "i < length (jobs q)" using held_thread(1) [OF assms(3)] assms(2,4) by (auto simp: inv_jobs_def live_jobs_def)
  then show "jkey (jobs q ! i) = hsh (jtext (jobs q ! i))" using assms(1) by (simp add: inv_results_def job_ok_def)
qed

lemma inv_results_worker:
  assumes "worker_step transform q r" "inv_jobs q" "inv_results hsh transform q"
  shows "inv_results hsh transform r"
  using assms(1)
proof (cases rule: worker_step.cases)
  case (w_take k w i q1)
  note e = take_job_effect [OF w_take(4,3)]
  show ?thesis unfolding w_take(1)
    using assms(3) by (intro results_thread [OF assms(3)]) (simp_all add: e, simp_all add: inv_results_def)
next
  case (w_exit k w)
  show ?thesis unfolding w_exit(1)
    using assms(3) by (intro results_thread [OF assms(3)]) (simp_all add: inv_results_def)
next
  case (w_start k w i)
  have s: "inv_results hsh transform (set_thread k (Fulfilled i) (set_value i [] q))"
  proof (rule results_thread [OF assms(3)])
    show "\<forall>j \<in> set (jobs (set_value i [] q)). job_ok hsh transform j"
      by (rule job_ok_set [OF assms(3)]) (simp add: answers_def)
    show "\<forall>x \<in> set (cache_map (ecache (set_value i [] q))). answers hsh transform (fst x) (ce_vec (snd x))"
      using assms(3) by (simp add: set_value_def inv_results_def)
  qed (simp_all add: set_value_text, simp_all add: set_value_def)
  have "inv_results hsh transform (set_thread k (Got i (embed_of transform (jtext (jobs q ! i)))) q)"
    using assms(3) by (intro results_thread [OF assms(3)]) (simp_all add: inv_results_def)
  with s w_start(1) show ?thesis by (simp add: start_job_def)
next
  case (w_store k w i v)
  note t = thread_result [OF assms(3,2) w_store(2), of i, simplified]
  have "answers hsh transform (jkey (jobs q ! i)) v" using t by (auto simp: answers_def)
  then have "\<forall>x \<in> set (cache_map (cache_put b (jkey (jobs q ! i)) v (ecache q))). answers hsh transform (fst x) (ce_vec (snd x))" for b
    using assms(3) put_entries [of b "jkey (jobs q ! i)" v "ecache q"] by (auto simp: inv_results_def)
  then show ?thesis unfolding w_store(1) store_vec_def
    using assms(3) t(1) by (intro results_thread [OF assms(3)]) (simp_all add: inv_results_def)
next
  case (w_send k w i v)
  note t = thread_result [OF assms(3,2) w_send(2), of i, simplified]
  show ?thesis unfolding w_send(1)
  proof (rule results_thread [OF assms(3)])
    show "\<forall>j \<in> set (jobs (set_value i v q)). job_ok hsh transform j"
      using t by (intro job_ok_set [OF assms(3)]) (auto simp: answers_def)
    show "\<forall>x \<in> set (cache_map (ecache (set_value i v q))). answers hsh transform (fst x) (ce_vec (snd x))"
      using assms(3) by (simp add: set_value_def inv_results_def)
  qed (simp_all add: set_value_text, simp_all add: set_value_def)
next
  case (w_finish k w i)
  show ?thesis unfolding w_finish(1) finish_job_def
    using assms(3) by (intro results_thread [OF assms(3)]) (simp_all add: inv_results_def)
qed


lemma thread_ok_extends:
  assumes "thread_ok transform js p" "extends js js'" "\<forall>i \<in> set (held_by p). i < length js"
  shows "thread_ok transform js' p"
  using assms by (cases p) (simp_all add: extends_def)

lemma results_call:
  assumes "inv_results hsh transform q" "inv_jobs q" "threads u = threads q" "ecalls u = ecalls q" "extends (jobs q) (jobs u)"
    and "\<forall>j \<in> set (jobs u). job_ok hsh transform j"
    and "\<forall>x \<in> set (cache_map (ecache u)). answers hsh transform (fst x) (ce_vec (snd x))" "call_ok hsh transform (jobs u) x"
  shows "inv_results hsh transform (set_call c x u)"
proof -
  have "thread_ok transform (jobs u) p" if p: "p \<in> snd ` set (threads q)" for p
  proof -
    have "set (held_by p) \<subseteq> set (live_jobs q)" using p by (force simp: live_jobs_def held_jobs_def)
    then have "\<forall>i \<in> set (held_by p). i < length (jobs q)" using assms(2) by (auto simp: inv_jobs_def)
    moreover have "thread_ok transform (jobs q) p" using p assms(1) unfolding inv_results_def by blast
    ultimately show ?thesis using assms(5) thread_ok_extends by blast
  qed
  moreover have "set (ecalls (set_call c x u)) \<subseteq> insert x (set (ecalls q))"
    using set_update_subset_insert [of "ecalls q" c x] by (simp add: set_call_def assms(4))
  then have "\<forall>y \<in> set (ecalls (set_call c x u)). call_ok hsh transform (jobs u) y"
    using results_calls [OF assms(1,5)] assms(8) by blast
  ultimately show ?thesis using assms(3,6,7) unfolding inv_results_def by simp
qed

lemma effect_jobs:
  assumes "same_jobs q u \<or> adds_job hsh t q u" "inv_results hsh transform q"
  shows "threads u = threads q" "extends (jobs q) (jobs u)" "\<forall>j \<in> set (jobs u). job_ok hsh transform j"
proof -
  have "threads u = threads q \<and> extends (jobs q) (jobs u) \<and> (\<forall>j \<in> set (jobs u). job_ok hsh transform j)"
    using assms(1)
  proof
    assume "same_jobs q u"
    then show ?thesis using assms(2) by (simp add: same_jobs_def frame_eq_def inv_results_def)
  next
    assume a: "adds_job hsh t q u"
    then obtain d w where j: "jobs u = jobs q @ [\<lparr>jtext = t, jkey = hsh t, jdeadline = d, jwrite = w, jprom = None\<rparr>]"
      by (auto simp: adds_job_def)
    show ?thesis using a assms(2) job_ok_new [of hsh transform t d w] by (auto simp: j adds_job_def frame_eq_def inv_results_def)
  qed
  then show "threads u = threads q" "extends (jobs q) (jobs u)" "\<forall>j \<in> set (jobs u). job_ok hsh transform j" by blast+
qed

lemma results_admit:
  assumes "inv_results hsh transform q" "inv_jobs q" "same_jobs q u \<or> adds_job hsh t q u"
    and "ecalls u = ecalls q" "cache_map (ecache u) = cache_map (ecache q)" "call_ok hsh transform (jobs u) x"
  shows "inv_results hsh transform (set_call c x u)"
  using assms(1) effect_jobs [OF assms(3,1)] assms(4-6)
  by (intro results_call [OF assms(1,2)]) (simp_all add: inv_results_def)

lemma results_outside:
  assumes "inv_results hsh transform q" "jobs r = jobs q" "threads r = threads q" "ecache r = ecache q"
    and "set (ecalls r) \<subseteq> insert x (set (ecalls q))" "call_ok hsh transform (jobs q) x"
  shows "inv_results hsh transform r"
  using assms(1,5,6) unfolding inv_results_def assms(2-4) by blast

text \<open>A job found in flight is one of the key, and the admitted job is one of the text.\<close>

lemma inflight_job:
  assumes "map_of (inflight q) k = Some f" "inv_inflight q" "inv_jobs q"
  shows "f < length (jobs q)" "jkey (jobs q ! f) = k"
  using map_of_SomeD [OF assms(1)] assms(2,3) tracked_live [of q] by (force simp: inv_inflight_def inv_jobs_def)+

lemma found_or_new:
  assumes "same_jobs q u \<and> map_of (inflight q) (hsh t) = Some f \<or> adds_job hsh t q u \<and> f = length (jobs q)"
    and "inv_inflight q" "inv_jobs q"
  shows "f < length (jobs u) \<and> jkey (jobs u ! f) = hsh t"
  using assms(1)
proof
  assume a: "same_jobs q u \<and> map_of (inflight q) (hsh t) = Some f"
  then show ?thesis using inflight_job [of q "hsh t" f] assms(2,3) by (simp add: same_jobs_def)
next
  assume "adds_job hsh t q u \<and> f = length (jobs q)"
  then show ?thesis by (auto simp: adds_job_def)
qed

lemma look_up_frame:
  "look_up k q = (a, u) \<Longrightarrow> ecalls u = ecalls q \<and> cache_map (ecache u) = cache_map (ecache q)"
  using get_map [of k "ecache q"] by (auto simp: look_up_def split: prod.splits)

lemma look_up_found:
  assumes "look_up k q = (Some v, u)" "inv_results hsh transform q"
  shows "answers hsh transform k v"
proof -
  have "fst (cache_get k (ecache q)) = Some v" using assms(1) by (auto simp: look_up_def split: prod.splits)
  then obtain x where "x \<in> set (cache_map (ecache q))" "fst x = k" "ce_vec (snd x) = v" using get_found by blast
  then show ?thesis using assms(2) by (auto simp: inv_results_def)
qed

lemma admit_frame:
  "query_admit hsh t wait q = (a, u) \<Longrightarrow> ecalls u = ecalls q \<and> ecache u = ecache q"
  "ecalls (enqueue_admit hsh t q) = ecalls q \<and> ecache (enqueue_admit hsh t q) = ecache q"
  "write_admit hsh t q = (b, u) \<Longrightarrow> ecalls u = ecalls q \<and> ecache u = ecache q"
  by (auto simp: query_admit_def enqueue_admit_def write_admit_def new_job_def promote_def Let_def
      split: option.splits if_splits)


lemma inv_results_call:
  assumes "call_step hsh q r" "inv_jobs q" "inv_inflight q" "inv_results hsh transform q"
  shows "inv_results hsh transform r"
proof -
  note admit = results_admit [OF assms(4,2)]
  have look: "inv_results hsh transform (set_call c x u)"
    if "look_up k q = (a, u)" "call_ok hsh transform (jobs q) x" for k a u c x
    using that look_up_effect [OF that(1)] look_up_frame [OF that(1)] by (intro admit) (auto simp: same_jobs_def)
  have new: "inv_results hsh transform (q\<lparr>ecalls := ecalls q @ [x]\<rparr>)" if "call_ok hsh transform (jobs q) x" for x
    using that by (intro results_outside [OF assms(4), of _ x]) simp_all
  have stay: "inv_results hsh transform (set_call c x q)" if "call_ok hsh transform (jobs q) x" for c x
    using that set_update_subset_insert [of "ecalls q" c x]
    by (intro results_outside [OF assms(4), of _ x]) (simp_all add: set_call_def)
  show ?thesis using assms(1)
  proof (cases rule: call_step.cases)
    case (q_full c t wait q1)
    have "same_jobs q q1 \<or> adds_job hsh t q q1" using query_admit_effect [OF q_full(3)] by blast
    then show ?thesis unfolding q_full(1) using admit_frame(1) [OF q_full(3)] by (intro admit) (auto simp: answers_def)
  next
    case (q_admit c t wait f q1)
    note e = query_admit_effect [OF q_admit(3)]
    have "f < length (jobs q1) \<and> jkey (jobs q1 ! f) = hsh t"
      using e by (intro found_or_new [OF _ assms(3,2)]) auto
    moreover have "same_jobs q q1 \<or> adds_job hsh t q q1" using e by blast
    ultimately show ?thesis unfolding q_admit(1) using admit_frame(1) [OF q_admit(3)] by (intro admit) auto
  next
    case (e_admit c t q1)
    then have "same_jobs q q1 \<or> adds_job hsh t q q1" using enqueue_admit_effect [of q hsh t] by blast
    then show ?thesis unfolding e_admit(1) using admit_frame(2) [of hsh t q] e_admit(3) by (intro admit) (auto simp: answers_def)
  next
    case (w_refused c t e q1)
    have "same_jobs q q1 \<or> adds_job hsh t q q1" using write_admit_effect [OF w_refused(4)] by blast
    then show ?thesis unfolding w_refused(1) using admit_frame(3) [OF w_refused(4)] by (intro admit) auto
  next
    case (w_admit c t f q1)
    note e = write_admit_effect [OF w_admit(4)]
    have "f < length (jobs q1) \<and> jkey (jobs q1 ! f) = hsh t"
      using e by (intro found_or_new [OF _ assms(3,2)]) auto
    moreover have "same_jobs q q1 \<or> adds_job hsh t q q1" using e by blast
    ultimately show ?thesis unfolding w_admit(1) using admit_frame(3) [OF w_admit(4)] by (intro admit) auto
  next
    case (q_hit c t wait v q1)
    then show ?thesis using look [OF q_hit(3)] look_up_found [OF q_hit(3) assms(4)] by simp
  next
    case (w_hit c t v q1)
    then show ?thesis using look [OF w_hit(4)] look_up_found [OF w_hit(4) assms(4)] by simp
  next
    case (e_hit c t v q1)
    then show ?thesis using look [OF e_hit(3)] by (simp add: answers_def)
  next
    case (f_get c t f b v)
    have "Waiting_for t f b \<in> set (ecalls q)" using f_get(2) nth_mem [of c "ecalls q"] by (simp add: call_is_def)
    then have f: "f < length (jobs q)" "jkey (jobs q ! f) = hsh t" using assms(4) by (auto simp: inv_results_def)
    then have "job_ok hsh transform (jobs q ! f)" using assms(4) by (simp add: inv_results_def)
    then have "answers hsh transform (jkey (jobs q ! f)) v" unfolding job_ok_def f_get(3) option.case by blast
    then have "answers hsh transform (hsh t) v" by (simp only: f(2))
    then show ?thesis unfolding f_get(1) by (intro stay) simp
  next
    case (c_tick now)
    show ?thesis unfolding c_tick(1) by (rule results_outside [OF assms(4), of _ "Returned [] (Inl Type_error)"]) auto
  next
    case c_stop
    show ?thesis unfolding c_stop(1) by (rule results_outside [OF assms(4), of _ "Returned [] (Inl Type_error)"]) auto
  next
    case (c_query t wait)
    show ?thesis unfolding c_query(1) by (rule new) simp
  next
    case (c_warm t)
    show ?thesis unfolding c_warm(1) by (rule new) simp
  next
    case (c_write t)
    show ?thesis unfolding c_write(1) by (rule new) simp
  next
    case (q_miss c t wait q1)
    show ?thesis unfolding q_miss(1) by (rule look [OF q_miss(3)]) simp
  next
    case (e_miss c t q1)
    show ?thesis unfolding e_miss(1) by (rule look [OF e_miss(3)]) simp
  next
    case (w_plain c t)
    show ?thesis unfolding w_plain(1) by (rule stay) simp
  next
    case (w_miss c t q1)
    show ?thesis unfolding w_miss(1) by (rule look [OF w_miss(4)]) simp
  next
    case (f_timeout c t f)
    show ?thesis unfolding f_timeout(1) by (rule stay) (simp add: answers_def)
  qed
qed

lemma inv_cache_worker:
  assumes "worker_step transform q r" "inv_cache q"
  shows "inv_cache r"
  using assms(1)
proof (cases rule: worker_step.cases)
  case (w_take k w i q1)
  then show ?thesis using take_job_effect [OF w_take(4,3)] assms(2) by (simp add: inv_cache_def frame_eq_def bounded_writes_def)
next
  case (w_store k w i v)
  then show ?thesis using assms(2) put_exact(1) by (auto simp: store_vec_def inv_cache_def bounded_writes_def)
qed (use assms(2) in \<open>auto simp: start_job_def finish_job_def set_value_def inv_cache_def bounded_writes_def\<close>)

lemma inv_cache_call:
  assumes "call_step hsh q r" "inv_cache q"
  shows "inv_cache r"
proof -
  have l: "inv_cache u" if "look_up k q = (a, u)" for k a u
    using that assms(2) get_exact(1) [of "ecache q" k] by (auto simp: look_up_def inv_cache_def bounded_writes_def split: prod.splits)
  have c: "inv_cache (set_call c x u) = inv_cache u" for c x u by (simp add: inv_cache_def)
  have f: "inv_cache u" if "ecache u = ecache q" "frame_eq q u" for u
    using that assms(2) by (simp add: inv_cache_def frame_eq_def bounded_writes_def)
  have e: "frame_eq q u" if "same_jobs q u \<or> adds_job hsh t q u" for t u using that by (auto simp: same_jobs_def adds_job_def)
  show ?thesis using assms(1)
  proof (cases rule: call_step.cases)
    case (q_full c t wait q1)
    show ?thesis unfolding q_full(1) c
      using admit_frame(1) [OF q_full(3)] query_admit_effect [OF q_full(3)] e by (intro f) auto
  next
    case (q_admit c t wait x q1)
    show ?thesis unfolding q_admit(1) c
      using admit_frame(1) [OF q_admit(3)] query_admit_effect [OF q_admit(3)] e by (intro f) auto
  next
    case (e_admit c t q1)
    show ?thesis unfolding e_admit(1) c
      using admit_frame(2) [of hsh t q] enqueue_admit_effect [of q hsh t] e e_admit(3) by (intro f) auto
  next
    case (w_refused c t x q1)
    show ?thesis unfolding w_refused(1) c
      using admit_frame(3) [OF w_refused(4)] write_admit_effect [OF w_refused(4)] e by (intro f) auto
  next
    case (w_admit c t x q1)
    show ?thesis unfolding w_admit(1) c
      using admit_frame(3) [OF w_admit(4)] write_admit_effect [OF w_admit(4)] e by (intro f) auto
  qed (use assms(2) in \<open>auto simp: c dest: l\<close>, use assms(2) in \<open>auto simp: inv_cache_def bounded_writes_def\<close>)
qed

lemma embed_inv_step:
  assumes "embed_inv hsh transform q" "embed_step hsh transform q r"
  shows "embed_inv hsh transform r"
  using assms(2) unfolding embed_step_def
proof
  assume s: "worker_step transform q r"
  note i = assms(1) [unfolded embed_inv_def]
  have "inv_lanes r" using worker_lanes [OF s] i by (simp add: inv_lanes_def)
  then show ?thesis unfolding embed_inv_def
    using i inv_jobs_step [OF s] inv_threads_worker [OF s] inv_inflight_worker [OF s] inv_cache_worker [OF s] inv_results_worker [OF s]
    by (simp only: simp_thms)
next
  assume s: "call_step hsh q r"
  note i = assms(1) [unfolded embed_inv_def]
  show ?thesis unfolding embed_inv_def
    using i inv_jobs_call [OF s] inv_lanes_call [OF s] inv_threads_call [OF s] inv_inflight_call [OF s] inv_cache_call [OF s]
      inv_results_call [OF s]
    by (simp only: simp_thms)
qed

lemma embed_inv_init:
  assumes "embed_init q"
  shows "embed_inv hsh transform q"
proof -
  obtain w cap where q: "q = \<lparr>write_workers_count = w, write_cap = cap, eq_stop = False, jobs = [], read_q = [], write_q = [],
      inflight = [], ecache = cache_new, threads = (False, Idle) # replicate w (True, Idle), ecalls = [], enow = 0\<rparr>"
    using assms unfolding embed_init_def embed_queue_new_def Let_def by blast
  have h: "held_jobs q = []" "fulfilled_jobs q = []" by (simp_all add: q held_jobs_def fulfilled_jobs_def)
  have "inv_jobs q" "inv_lanes q" "inv_threads q" "inv_inflight q" "inv_cache q"
    by (auto simp: h inv_jobs_def inv_lanes_def inv_threads_def inv_inflight_def inv_cache_def live_jobs_def cache_new_exact)
      (auto simp: q cache_new_exact)
  moreover have "inv_results hsh transform q" by (auto simp: q inv_results_def cache_new_def)
  ultimately show ?thesis by (simp add: embed_inv_def)
qed


section \<open>Properties\<close>

lemma embed_reachable_inv:
  assumes "embed_init q0" "(embed_step hsh transform)\<^sup>*\<^sup>* q0 q"
  shows "embed_inv hsh transform q"
  using assms(2)
proof (induction rule: rtranclp_induct)
  case base
  then show ?case using assms(1) by (rule embed_inv_init)
next
  case (step q r)
  then show ?case by (blast intro: embed_inv_step)
qed

lemma worker_run_inv:
  assumes "embed_inv hsh transform q" "\<not> eq_stop q" "(worker_step transform)\<^sup>*\<^sup>* q r"
  shows "embed_inv hsh transform r \<and> \<not> eq_stop r"
  using assms(3)
proof (induction rule: rtranclp_induct)
  case base
  then show ?case using assms(1,2) by blast
next
  case (step r s)
  then have "embed_step hsh transform r s" by (simp add: embed_step_def)
  then show ?case using step embed_inv_step [of hsh transform r s] worker_lanes [OF step.hyps(2)] by simp
qed

fun thread_work :: "ethread \<Rightarrow> nat" where
  "thread_work (Took i) = 5" | "thread_work (Got i v) = 4" | "thread_work (Sending i v) = 3"
| "thread_work (Fulfilled i) = 2" | "thread_work Idle = 1" | "thread_work Exited = 0"

definition work :: "equeue \<Rightarrow> nat" where
  "work q = 6 * (length (read_q q) + length (write_q q)) + sum_list (map (thread_work \<circ> snd) (threads q))"

lemma work_thread:
  assumes "thread_is q k w p" "threads u = threads q"
  shows "work (set_thread k p' u) + thread_work p =
    6 * (length (read_q u) + length (write_q u)) + sum_list (map (thread_work \<circ> snd) (threads q)) + thread_work p'"
  using assms sum_list_update_nat [of k "threads q" "thread_work \<circ> snd" "(w, p')"]
  by (simp add: work_def set_thread_def thread_is_def)

lemma work_thread_less:
  assumes "thread_is q k w p" "threads u = threads q" "read_q u = read_q q" "write_q u = write_q q" "thread_work p' < thread_work p"
  shows "work (set_thread k p' u) < work q"
  using work_thread [OF assms(1,2), of p'] assms(3-5) by (simp add: work_def)

lemma work_decreases:
  assumes "worker_step transform q r"
  shows "work r < work q"
  using assms
proof (cases rule: worker_step.cases)
  case (w_take k w i q1)
  note e = take_job_effect [OF w_take(4,3)]
  have "length (read_q q) + length (write_q q) = length (read_q q1) + length (write_q q1) + 1"
    using arg_cong [OF e(1), of size] by simp
  then show ?thesis using work_thread [OF w_take(2) e(3), of "Took i"] by (simp add: w_take(1) work_def)
next
  case (w_exit k w)
  show ?thesis unfolding w_exit(1) by (rule work_thread_less [OF w_exit(2)]) simp_all
next
  case (w_start k w i)
  have "work (set_thread k p' u) < work q" if "p' = Fulfilled i \<or> p' = Got i v" "u = set_value i [] q \<or> u = q" for p' u v
    using that by (intro work_thread_less [OF w_start(2)]) (auto simp: set_value_def)
  then show ?thesis by (auto simp: w_start(1) start_job_def)
next
  case (w_store k w i v)
  show ?thesis unfolding w_store(1) store_vec_def by (rule work_thread_less [OF w_store(2)]) simp_all
next
  case (w_send k w i v)
  show ?thesis unfolding w_send(1) by (rule work_thread_less [OF w_send(2)]) (simp_all add: set_value_def)
next
  case (w_finish k w i)
  show ?thesis unfolding w_finish(1) finish_job_def by (rule work_thread_less [OF w_finish(2)]) simp_all
qed

interpretation em: decreasing "worker_step transform" "\<lambda>_. True" work for transform
  by unfold_locales (simp_all add: work_decreases)

text \<open>A state in which no worker can move has no job left.\<close>

lemma quiet_threads:
  assumes "\<nexists>u. worker_step transform q u" "k < length (threads q)"
  shows "snd (threads q ! k) = Exited \<or> snd (threads q ! k) = Idle \<and> \<not> available (fst (threads q ! k)) q"
proof (cases "snd (threads q ! k)")
  case Idle
  then have t: "thread_is q k (fst (threads q ! k)) Idle" using assms(2) by (simp add: thread_is_def prod_eq_iff)
  obtain i q1 where "take_job (fst (threads q ! k)) q = (i, q1)" by force
  then show ?thesis using worker_step.w_take [OF t] Idle assms(1) by blast
next
  case (Took i)
  then have "thread_is q k (fst (threads q ! k)) (Took i)" using assms(2) by (simp add: thread_is_def prod_eq_iff)
  then show ?thesis using worker_step.w_start assms(1) by blast
next
  case (Got i v)
  then have "thread_is q k (fst (threads q ! k)) (Got i v)" using assms(2) by (simp add: thread_is_def prod_eq_iff)
  then show ?thesis using worker_step.w_store assms(1) by blast
next
  case (Sending i v)
  then have "thread_is q k (fst (threads q ! k)) (Sending i v)" using assms(2) by (simp add: thread_is_def prod_eq_iff)
  then show ?thesis using worker_step.w_send assms(1) by blast
next
  case (Fulfilled i)
  then have "thread_is q k (fst (threads q ! k)) (Fulfilled i)" using assms(2) by (simp add: thread_is_def prod_eq_iff)
  then show ?thesis using worker_step.w_finish assms(1) by blast
qed simp

lemma quiet_done:
  assumes "\<nexists>u. worker_step transform q u" "embed_inv hsh transform q" "\<not> eq_stop q"
  shows "live_jobs q = []" "\<forall>j \<in> set (jobs q). jprom j \<noteq> None" "inflight q = []"
proof -
  have inv: "inv_jobs q" "inv_threads q" "inv_inflight q" using assms(2) by (simp_all add: embed_inv_def)
  have f: "map fst (threads q) = False # replicate (write_workers_count q) True" and x: "Exited \<notin> snd ` set (threads q)"
    using inv(2) assms(3) by (simp_all add: inv_threads_def)
  have idle: "snd (threads q ! k) = Idle \<and> \<not> available (fst (threads q ! k)) q" if "k < length (threads q)" for k
    using quiet_threads [OF assms(1) that] x that by (metis imageI nth_mem)
  have len: "length (threads q) = write_workers_count q + 1" using arg_cong [OF f, of length] by simp
  have t0: "fst (threads q ! 0) = False" using arg_cong [OF f, of "\<lambda>l. l ! 0"] len by simp
  then have "\<not> available False q" using idle [of 0] len by simp
  then have r: "read_q q = []" "\<not> bounded_writes q \<Longrightarrow> write_q q = []" by (auto simp: available_def)
  have "write_q q = []" if b: "bounded_writes q"
  proof -
    have n: "1 < length (threads q)" using b len by (simp add: bounded_writes_def)
    then have "fst (threads q ! 1) = True" using arg_cong [OF f, of "\<lambda>l. l ! 1"] b by (simp add: bounded_writes_def)
    then show ?thesis using idle [OF n] by (simp add: available_def)
  qed
  with r have "read_q q = []" "write_q q = []" by auto
  moreover have "held_by (snd t) = []" if t: "t \<in> set (threads q)" for t
    using t idle by (auto simp: in_set_conv_nth)
  then have "held_jobs q = []" by (simp add: held_jobs_def)
  ultimately show l: "live_jobs q = []" by (simp add: live_jobs_def)
  show "\<forall>j \<in> set (jobs q). jprom j \<noteq> None" using inv(1) l by (auto simp: inv_jobs_def in_set_conv_nth)
  have "tracked q = {}" using tracked_live [of q] l by simp
  then have "\<nexists>x. x \<in> set (inflight q)" using inv(3) unfolding inv_inflight_def by blast
  then show "inflight q = []" by (metis list.set_intros(1) neq_Nil_conv)
qed

text \<open>
  C13: In every reachable state of the embedding queue the lanes keep their bounds, no job is in
  two places, a promise is open exactly while its job is queued or with a worker that has not
  fulfilled it, and every entry of the table of jobs in flight names a job of its key.  With
  bounded writes (a configuration with write workers, which is not the default) each live job is
  the one entry of its key, so two callers never have the same text embedded twice at a time,
  and the cache holds at most 512 vectors.
\<close>

theorem embed_queue_safe:
  assumes "embed_init q0" "(embed_step hsh transform)\<^sup>*\<^sup>* q0 q"
  shows "length (read_q q) \<le> 8 \<and> length (write_q q) \<le> write_cap q \<and> distinct (live_jobs q)
    \<and> (\<forall>i < length (jobs q). jprom (jobs q ! i) = None \<longleftrightarrow> i \<in> set (live_jobs q) - set (fulfilled_jobs q))
    \<and> (\<forall>(k, i) \<in> set (inflight q). i < length (jobs q) \<and> jkey (jobs q ! i) = k)
    \<and> (bounded_writes q \<longrightarrow>
         (\<forall>i \<in> set (live_jobs q). map_of (inflight q) (jkey (jobs q ! i)) = Some i) \<and> cache_size (ecache q) \<le> 512)"
proof -
  have i: "embed_inv hsh transform q" using assms by (rule embed_reachable_inv)
  have "i < length (jobs q) \<and> jkey (jobs q ! i) = k" if "(k, i) \<in> set (inflight q)" for k i
    using i that tracked_live [of q] by (force simp: embed_inv_def inv_inflight_def inv_jobs_def)
  moreover have "map_of (inflight q) (jkey (jobs q ! i)) = Some i" if "bounded_writes q" "i \<in> set (live_jobs q)" for i
    using i that by (simp add: embed_inv_def inv_inflight_def)
  moreover have "cache_size (ecache q) \<le> 512" if "bounded_writes q"
    using i that by (simp add: embed_inv_def inv_cache_def cache_exact_def cache_size_def k_cache_size_def)
  ultimately show ?thesis using i
    by (auto simp: embed_inv_def inv_lanes_def k_read_queue_cap_def inv_jobs_def)
qed

text \<open>
  C14: Whatever a query or a write returns for a text is empty or the embedding of a text with the
  same hash: the embedding of the text itself when no other text shares its hash.
\<close>

theorem embed_answers:
  assumes "embed_init q0" "(embed_step hsh transform)\<^sup>*\<^sup>* q0 q" "Returned t (Inr v) \<in> set (ecalls q)"
  shows "v = [] \<or> (\<exists>t'. hsh t' = hsh t \<and> v = embed_of transform t')"
proof -
  have "call_ok hsh transform (jobs q) (Returned t (Inr v))"
    using embed_reachable_inv [OF assms(1,2)] assms(3) unfolding embed_inv_def inv_results_def by blast
  then show ?thesis by (simp add: answers_def)
qed

text \<open>
  C15: No future is lost: from every reachable state of a queue that has not been stopped, the
  workers alone come to rest after at most \<open>work\<close> steps, and at rest every promise has been
  fulfilled, no job is queued or held, and nothing is in flight.
\<close>

theorem embed_drains:
  assumes "embed_init q0" "(embed_step hsh transform)\<^sup>*\<^sup>* q0 q" "\<not> eq_stop q"
  shows "(\<forall>n r. (worker_step transform ^^ n) q r \<longrightarrow> n \<le> work q)
    \<and> (\<exists>r. (worker_step transform)\<^sup>*\<^sup>* q r \<and> (\<nexists>u. worker_step transform r u))
    \<and> (\<forall>r. (worker_step transform)\<^sup>*\<^sup>* q r \<and> (\<nexists>u. worker_step transform r u) \<longrightarrow>
         live_jobs r = [] \<and> inflight r = [] \<and> (\<forall>j \<in> set (jobs r). jprom j \<noteq> None))"
proof (intro conjI allI impI)
  show "n \<le> work q" if "(worker_step transform ^^ n) q r" for n r
    using em.run_bound [OF TrueI that] by simp
  show "\<exists>r. (worker_step transform)\<^sup>*\<^sup>* q r \<and> (\<nexists>u. worker_step transform r u)"
    using em.run_ends by blast
  fix r assume r: "(worker_step transform)\<^sup>*\<^sup>* q r \<and> (\<nexists>u. worker_step transform r u)"
  then have "embed_inv hsh transform r \<and> \<not> eq_stop r"
    using worker_run_inv [OF embed_reachable_inv [OF assms(1,2)] assms(3)] by blast
  then show "live_jobs r = []" "inflight r = []" "\<forall>j \<in> set (jobs r). jprom j \<noteq> None"
    using quiet_done r by blast+
qed


text \<open>A run: with bounded writes a query for \<open>''ab''\<close> misses the cache and is answered by the read worker.\<close>

definition demo_env :: "string \<Rightarrow> string option" where
  "demo_env name = (if name = ''CHITTA_EMBED_WRITE_WORKERS'' then Some ''1'' else None)"

definition demo_hash :: "string \<Rightarrow> nat" where
  "demo_hash t = (if t = ''ab'' then 7 else 0)"

definition demo_transform :: "string \<Rightarrow> artha option" where
  "demo_transform t = Some \<lparr>certainty = 0x3F800000, nu = [0x40000000]\<rparr>"

definition demo_job :: "vec option \<Rightarrow> job" where
  "demo_job v = \<lparr>jtext = ''ab'', jkey = 7, jdeadline = Some 5, jwrite = False, jprom = v\<rparr>"

definition demo_state :: "job list \<Rightarrow> nat list \<Rightarrow> (nat \<times> nat) list \<Rightarrow> cache \<Rightarrow> ethread \<Rightarrow> ecall list \<Rightarrow> equeue" where
  "demo_state js rq fl c p calls =
     \<lparr>write_workers_count = 1, write_cap = 64, eq_stop = False, jobs = js, read_q = rq, write_q = [], inflight = fl,
      ecache = c, threads = [(False, p), (True, Idle)], ecalls = calls, enow = 0\<rparr>"

lemma demo_init: "embed_init (demo_state [] [] [] cache_new Idle [])"
proof -
  have "env_size (demo_env ''CHITTA_EMBED_WRITE_WORKERS'') 0 32 = 1" by code_simp
  moreover have "env_size (demo_env ''CHITTA_EMBED_CONTEXTS'') 4 16 = 4" by (simp add: env_size_def demo_env_def)
  moreover have "env_size (demo_env ''CHITTA_EMBED_WRITE_DEPTH'') k_write_queue_cap 65536 = 64"
    by (simp add: env_size_def demo_env_def k_write_queue_cap_def)
  ultimately have "embed_queue_new demo_env = demo_state [] [] [] cache_new Idle []"
    by (simp add: embed_queue_new_def demo_state_def)
  then show ?thesis unfolding embed_init_def by metis
qed

lemma demo_vec: "embed_of demo_transform t = [0x40000000]"
proof -
  have "f32_less 0 0x3F800000" by code_simp
  then show ?thesis by (simp add: embed_of_def demo_transform_def)
qed


definition demo_cache :: cache where
  "demo_cache = cache_put True 7 [0x40000000] cache_new"

lemmas demo_defs = demo_state_def demo_job_def demo_hash_def thread_is_def call_is_def set_thread_def set_call_def set_value_def

lemma demo_steps:
  defines "st \<equiv> embed_step demo_hash demo_transform"
  shows "st (demo_state [] [] [] cache_new Idle []) (demo_state [] [] [] cache_new Idle [Query ''ab'' 5])"
    "st (demo_state [] [] [] cache_new Idle [Query ''ab'' 5]) (demo_state [] [] [] cache_new Idle [QueryMissed ''ab'' 5])"
    "st (demo_state [] [] [] cache_new Idle [QueryMissed ''ab'' 5])
        (demo_state [demo_job None] [0] [(7, 0)] cache_new Idle [Waiting_for ''ab'' 0 True])"
    "st (demo_state [demo_job None] [0] [(7, 0)] cache_new Idle [Waiting_for ''ab'' 0 True])
        (demo_state [demo_job None] [] [(7, 0)] cache_new (Took 0) [Waiting_for ''ab'' 0 True])"
    "st (demo_state [demo_job None] [] [(7, 0)] cache_new (Took 0) [Waiting_for ''ab'' 0 True])
        (demo_state [demo_job None] [] [(7, 0)] cache_new (Got 0 [0x40000000]) [Waiting_for ''ab'' 0 True])"
    "st (demo_state [demo_job None] [] [(7, 0)] cache_new (Got 0 [0x40000000]) [Waiting_for ''ab'' 0 True])
        (demo_state [demo_job None] [] [(7, 0)] demo_cache (Sending 0 [0x40000000]) [Waiting_for ''ab'' 0 True])"
    "st (demo_state [demo_job None] [] [(7, 0)] demo_cache (Sending 0 [0x40000000]) [Waiting_for ''ab'' 0 True])
        (demo_state [demo_job (Some [0x40000000])] [] [(7, 0)] demo_cache (Fulfilled 0) [Waiting_for ''ab'' 0 True])"
    "st (demo_state [demo_job (Some [0x40000000])] [] [(7, 0)] demo_cache (Fulfilled 0) [Waiting_for ''ab'' 0 True])
        (demo_state [demo_job (Some [0x40000000])] [] [(7, 0)] demo_cache (Fulfilled 0) [Returned ''ab'' (Inr [0x40000000])])"
proof -
  have w: "worker_step demo_transform q r \<Longrightarrow> st q r" and c: "call_step demo_hash q r \<Longrightarrow> st q r" for q r
    by (simp_all add: st_def embed_step_def)
  show "st (demo_state [] [] [] cache_new Idle []) (demo_state [] [] [] cache_new Idle [Query ''ab'' 5])"
    using call_step.c_query [of "demo_state [] [] [] cache_new Idle []" demo_hash "''ab''" 5] by (intro c) (simp add: demo_defs)
  have m: "cache_get k cache_new = (None, cache_new)" for k by (simp add: cache_get_def cache_new_def)
  show "st (demo_state [] [] [] cache_new Idle [Query ''ab'' 5]) (demo_state [] [] [] cache_new Idle [QueryMissed ''ab'' 5])"
    using call_step.q_miss [of "demo_state [] [] [] cache_new Idle [Query ''ab'' 5]" 0 "''ab''" 5 demo_hash]
    by (intro c) (simp add: demo_defs look_up_def m)
  show "st (demo_state [] [] [] cache_new Idle [QueryMissed ''ab'' 5])
        (demo_state [demo_job None] [0] [(7, 0)] cache_new Idle [Waiting_for ''ab'' 0 True])"
    using call_step.q_admit [of "demo_state [] [] [] cache_new Idle [QueryMissed ''ab'' 5]" 0 "''ab''" 5 demo_hash 0]
    by (intro c) (simp add: demo_defs query_admit_def new_job_def k_read_queue_cap_def)
  show "st (demo_state [demo_job None] [0] [(7, 0)] cache_new Idle [Waiting_for ''ab'' 0 True])
        (demo_state [demo_job None] [] [(7, 0)] cache_new (Took 0) [Waiting_for ''ab'' 0 True])"
    using worker_step.w_take [of "demo_state [demo_job None] [0] [(7, 0)] cache_new Idle [Waiting_for ''ab'' 0 True]" 0 False]
    by (intro w) (simp add: demo_defs available_def take_job_def bounded_writes_def)
  show "st (demo_state [demo_job None] [] [(7, 0)] cache_new (Took 0) [Waiting_for ''ab'' 0 True])
        (demo_state [demo_job None] [] [(7, 0)] cache_new (Got 0 [0x40000000]) [Waiting_for ''ab'' 0 True])"
    using worker_step.w_start [of "demo_state [demo_job None] [] [(7, 0)] cache_new (Took 0) [Waiting_for ''ab'' 0 True]" 0 False 0 demo_transform]
    by (intro w) (simp add: demo_defs start_job_def stale_def demo_vec)
  show "st (demo_state [demo_job None] [] [(7, 0)] cache_new (Got 0 [0x40000000]) [Waiting_for ''ab'' 0 True])
        (demo_state [demo_job None] [] [(7, 0)] demo_cache (Sending 0 [0x40000000]) [Waiting_for ''ab'' 0 True])"
    using worker_step.w_store [of "demo_state [demo_job None] [] [(7, 0)] cache_new (Got 0 [0x40000000]) [Waiting_for ''ab'' 0 True]" 0 False 0 "[0x40000000]" demo_transform]
    by (intro w) (simp add: demo_defs store_vec_def bounded_writes_def demo_cache_def)
  show "st (demo_state [demo_job None] [] [(7, 0)] demo_cache (Sending 0 [0x40000000]) [Waiting_for ''ab'' 0 True])
        (demo_state [demo_job (Some [0x40000000])] [] [(7, 0)] demo_cache (Fulfilled 0) [Waiting_for ''ab'' 0 True])"
    using worker_step.w_send [of "demo_state [demo_job None] [] [(7, 0)] demo_cache (Sending 0 [0x40000000]) [Waiting_for ''ab'' 0 True]" 0 False 0 "[0x40000000]" demo_transform]
    by (intro w) (simp add: demo_defs)
  show "st (demo_state [demo_job (Some [0x40000000])] [] [(7, 0)] demo_cache (Fulfilled 0) [Waiting_for ''ab'' 0 True])
        (demo_state [demo_job (Some [0x40000000])] [] [(7, 0)] demo_cache (Fulfilled 0) [Returned ''ab'' (Inr [0x40000000])])"
    using call_step.f_get [of "demo_state [demo_job (Some [0x40000000])] [] [(7, 0)] demo_cache (Fulfilled 0) [Waiting_for ''ab'' 0 True]" 0 "''ab''" 0 True "[0x40000000]" demo_hash]
    by (intro c) (simp add: demo_defs)
qed

lemma demo_run:
  "(embed_step demo_hash demo_transform)\<^sup>*\<^sup>* (demo_state [] [] [] cache_new Idle [])
     (demo_state [demo_job (Some [0x40000000])] [] [(7, 0)] demo_cache (Fulfilled 0) [Returned ''ab'' (Inr [0x40000000])])"
  by (rule converse_rtranclp_into_rtranclp, rule demo_steps(1), rule converse_rtranclp_into_rtranclp, rule demo_steps(2),
      rule converse_rtranclp_into_rtranclp, rule demo_steps(3), rule converse_rtranclp_into_rtranclp, rule demo_steps(4),
      rule converse_rtranclp_into_rtranclp, rule demo_steps(5), rule converse_rtranclp_into_rtranclp, rule demo_steps(6),
      rule converse_rtranclp_into_rtranclp, rule demo_steps(7), rule r_into_rtranclp, rule demo_steps(8))

theorem embed_queue_safe_witness:
  "length (read_q (demo_state [demo_job (Some [0x40000000])] [] [(7, 0)] demo_cache (Fulfilled 0) [Returned ''ab'' (Inr [0x40000000])])) \<le> 8
   \<and> cache_size demo_cache \<le> 512"
  using embed_queue_safe [OF demo_init demo_run] by (simp add: demo_state_def bounded_writes_def)

theorem embed_answers_witness:
  "Returned ''ab'' (Inr [0x40000000]) \<in> set (ecalls (demo_state [demo_job (Some [0x40000000])] [] [(7, 0)] demo_cache (Fulfilled 0) [Returned ''ab'' (Inr [0x40000000])]))
   \<and> (\<exists>t'. demo_hash t' = demo_hash ''ab'' \<and> [0x40000000] = embed_of demo_transform t')"
  using embed_answers [OF demo_init demo_run, of "''ab''" "[0x40000000]"] by (simp add: demo_state_def)

theorem embed_drains_witness:
  "\<exists>r. (worker_step demo_transform)\<^sup>*\<^sup>*
     (demo_state [demo_job (Some [0x40000000])] [] [(7, 0)] demo_cache (Fulfilled 0) [Returned ''ab'' (Inr [0x40000000])]) r
     \<and> (\<nexists>u. worker_step demo_transform r u) \<and> inflight r = []"
proof -
  have "\<not> eq_stop (demo_state [demo_job (Some [0x40000000])] [] [(7, 0)] demo_cache (Fulfilled 0) [Returned ''ab'' (Inr [0x40000000])])"
    by (simp add: demo_state_def)
  from embed_drains [OF demo_init demo_run this] show ?thesis by blast
qed

end
