(* ===== verification/Float_Arith.thy ===== *)
theory Float_Arith
  imports Complex_Main "HOL-Library.Log_Nat"
begin

text \<open>
  Binary floating-point arithmetic as the scores use it: a finite value is a rational number
  of the format, and every operation gives the exact result rounded to the nearest value of
  the format, ties to even, with infinities and not-a-number.  The sign of a zero is not
  kept; no operation of the modelled code divides by a zero it could tell apart.
\<close>

section \<open>Values and rounding\<close>

datatype flt = Fin rat | PInf | NInf | NaN

record fformat =
  precision :: nat
  emax :: int

definition single :: fformat where
  "single = \<lparr>precision = 24, emax = 127\<rparr>"

definition double :: fformat where
  "double = \<lparr>precision = 53, emax = 1023\<rparr>"

definition pow2 :: "int \<Rightarrow> rat" where
  "pow2 e = (if e \<ge> 0 then 2 ^ nat e else 1 / 2 ^ nat (- e))"

text \<open>The exponent of a positive number: the \<open>e\<close> with \<open>2 ^ e \<le> x < 2 ^ (e + 1)\<close>.\<close>

definition exponent :: "rat \<Rightarrow> int" where
  "exponent x =
     (let (n, d) = quotient_of x;
          e = int (floorlog 2 (nat n)) - int (floorlog 2 (nat d))
      in if x < pow2 e then e - 1 else e)"

definition round_even :: "rat \<Rightarrow> int" where
  "round_even x =
     (let f = \<lfloor>x\<rfloor>; r = x - of_int f
      in if r < 1 / 2 then f else if r > 1 / 2 then f + 1 else if even f then f else f + 1)"

definition ulp :: "fformat \<Rightarrow> rat \<Rightarrow> rat" where
  "ulp fm x = pow2 (max (exponent x) (1 - emax fm) - (int (precision fm) - 1))"

definition fround :: "fformat \<Rightarrow> rat \<Rightarrow> flt" where
  "fround fm x =
     (if x = 0 then Fin 0
      else
        let u = ulp fm \<bar>x\<bar>;
            y = of_int (round_even (\<bar>x\<bar> / u)) * u
        in if y \<ge> pow2 (emax fm + 1) then (if x < 0 then NInf else PInf) else Fin (if x < 0 then - y else y))"

section \<open>Operations\<close>

fun fneg :: "flt \<Rightarrow> flt" where
  "fneg (Fin x) = Fin (- x)" | "fneg PInf = NInf" | "fneg NInf = PInf" | "fneg NaN = NaN"

fun fabs :: "flt \<Rightarrow> flt" where
  "fabs (Fin x) = Fin \<bar>x\<bar>" | "fabs PInf = PInf" | "fabs NInf = PInf" | "fabs NaN = NaN"

fun fadd :: "fformat \<Rightarrow> flt \<Rightarrow> flt \<Rightarrow> flt" where
  "fadd fm (Fin x) (Fin y) = fround fm (x + y)"
| "fadd fm NaN b = NaN"
| "fadd fm a NaN = NaN"
| "fadd fm PInf NInf = NaN"
| "fadd fm NInf PInf = NaN"
| "fadd fm PInf b = PInf"
| "fadd fm NInf b = NInf"
| "fadd fm a b = b"

definition fsub :: "fformat \<Rightarrow> flt \<Rightarrow> flt \<Rightarrow> flt" where
  "fsub fm a b = fadd fm a (fneg b)"

fun fsgn :: "flt \<Rightarrow> int" where
  "fsgn (Fin x) = (if x < 0 then - 1 else if x = 0 then 0 else 1)" | "fsgn PInf = 1" | "fsgn NInf = - 1" | "fsgn NaN = 0"

definition finf :: "int \<Rightarrow> flt" where
  "finf s = (if s > 0 then PInf else if s < 0 then NInf else NaN)"

fun fmul :: "fformat \<Rightarrow> flt \<Rightarrow> flt \<Rightarrow> flt" where
  "fmul fm (Fin x) (Fin y) = fround fm (x * y)"
| "fmul fm NaN b = NaN"
| "fmul fm a NaN = NaN"
| "fmul fm a b = finf (fsgn a * fsgn b)"

text \<open>A division by zero takes the sign of a positive zero.\<close>

fun fdiv :: "fformat \<Rightarrow> flt \<Rightarrow> flt \<Rightarrow> flt" where
  "fdiv fm (Fin x) (Fin y) = (if y = 0 then finf (fsgn (Fin x)) else fround fm (x / y))"
| "fdiv fm NaN b = NaN"
| "fdiv fm a NaN = NaN"
| "fdiv fm (Fin x) b = Fin 0"
| "fdiv fm a (Fin y) = finf (fsgn a * (if y < 0 then - 1 else 1))"
| "fdiv fm a b = NaN"

text \<open>The square root: the integer root by its bits, then the nearest multiple of the last place.\<close>

fun isqrt_bits :: "nat \<Rightarrow> int \<Rightarrow> int \<Rightarrow> int" where
  "isqrt_bits 0 n r = r"
| "isqrt_bits (Suc k) n r = (let r' = r + 2 ^ k in isqrt_bits k n (if r' * r' \<le> n then r' else r))"

fun fsqrt :: "fformat \<Rightarrow> flt \<Rightarrow> flt" where
  "fsqrt fm (Fin x) =
     (if x < 0 then NaN
      else if x = 0 then Fin 0
      else
        let u = pow2 (exponent x div 2 - (int (precision fm) - 1));
            q = x / (u * u);
            n = isqrt_bits (precision fm + 1) \<lfloor>q\<rfloor> 0;
            h = of_int n + 1 / 2
        in Fin (of_int (if q > h * h then n + 1 else n) * u))"
| "fsqrt fm NInf = NaN"
| "fsqrt fm a = a"

fun fless :: "flt \<Rightarrow> flt \<Rightarrow> bool" where
  "fless (Fin x) (Fin y) = (x < y)"
| "fless NaN b = False"
| "fless a NaN = False"
| "fless NInf b = (b \<noteq> NInf)"
| "fless a PInf = (a \<noteq> PInf)"
| "fless a b = False"

fun fle :: "flt \<Rightarrow> flt \<Rightarrow> bool" where
  "fle NaN b = False"
| "fle a b = (fless a b \<or> a = b)"

text \<open>\<open>std::max\<close> and \<open>std::clamp\<close>.\<close>

definition fmax :: "flt \<Rightarrow> flt \<Rightarrow> flt" where
  "fmax a b = (if fless a b then b else a)"

definition fclamp :: "flt \<Rightarrow> flt \<Rightarrow> flt \<Rightarrow> flt" where
  "fclamp x lo hi = (if fless x lo then lo else if fless hi x then hi else x)"

definition fof_nat :: "fformat \<Rightarrow> nat \<Rightarrow> flt" where
  "fof_nat fm n = fround fm (of_nat n)"

text \<open>A literal of the source, given by its decimal value, and a narrowing conversion.\<close>

definition flit :: "fformat \<Rightarrow> rat \<Rightarrow> flt" where
  "flit fm x = fround fm x"

text \<open>The conversion to an unsigned integer, for values in its range.\<close>

fun fto_nat :: "flt \<Rightarrow> nat" where
  "fto_nat (Fin x) = nat \<lfloor>x\<rfloor>" | "fto_nat a = 0"

section \<open>Facts\<close>

lemma pow2_pos: "pow2 e > 0"
  by (simp add: pow2_def)

lemma round_even_mono: "x \<le> y \<Longrightarrow> round_even x \<le> round_even y"
proof -
  assume xy: "x \<le> y"
  have b: "\<lfloor>z\<rfloor> \<le> round_even z \<and> round_even z \<le> \<lfloor>z\<rfloor> + 1" for z by (simp add: round_even_def Let_def)
  show "round_even x \<le> round_even y"
  proof (cases "\<lfloor>x\<rfloor> = \<lfloor>y\<rfloor>")
    case True
    then show ?thesis using xy by (auto simp: round_even_def Let_def)
  next
    case False
    then have "\<lfloor>x\<rfloor> + 1 \<le> \<lfloor>y\<rfloor>" using floor_mono [OF xy] by simp
    then show ?thesis using b [of x] b [of y] by linarith
  qed
qed

lemma round_even_int [simp]: "round_even (of_int n) = n"
  by (simp add: round_even_def Let_def)

lemma fle_refl: "a \<noteq> NaN \<Longrightarrow> fle a a"
  by (cases a) auto

lemma fless_irrefl [simp]: "\<not> fless a a"
  by (cases a) auto

lemma fless_trans: "fless a b \<Longrightarrow> fless b c \<Longrightarrow> fless a c"
  by (cases a; cases b; cases c) auto

lemma fclamp_bounds:
  assumes "x \<noteq> NaN" "fle lo hi" "hi \<noteq> NaN"
  shows "fle lo (fclamp x lo hi) \<and> fle (fclamp x lo hi) hi"
  using assms by (cases x; cases lo; cases hi) (auto simp: fclamp_def)

end
