(* ===== verification/Compact_Base.thy ===== *)
theory Compact_Base
  imports Float_Arith Hook_Base Utf8_Text Provenance_Spine "HOL-Library.Multiset" "HOL-Library.Sublist"
begin

text \<open>
  What the two compaction handlers share: results of tools, vectors of single-precision
  values and their cosine, reading single-precision parameters, rendering numbers, and the
  embedding of a text on the write path.
\<close>

section \<open>Results\<close>

record tool_result =
  is_error :: bool
  tr_content :: string
  tr_structured :: json

definition tool_ok :: "string \<Rightarrow> json \<Rightarrow> tool_result" where
  "tool_ok s d = \<lparr>is_error = False, tr_content = s, tr_structured = d\<rparr>"

definition tool_error :: "string \<Rightarrow> tool_result" where
  "tool_error s = \<lparr>is_error = True, tr_content = s, tr_structured = JNull\<rparr>"

section \<open>Single precision\<close>

abbreviation lit :: "rat \<Rightarrow> flt" where
  "lit x \<equiv> flit single x"

abbreviation add :: "flt \<Rightarrow> flt \<Rightarrow> flt" where
  "add \<equiv> fadd single"

abbreviation mul :: "flt \<Rightarrow> flt \<Rightarrow> flt" where
  "mul \<equiv> fmul single"

text \<open>\<open>get<float>\<close> accepts any number and a Boolean.\<close>

fun get_float :: "json \<Rightarrow> flt res" where
  "get_float (JInt i) = Inr (fround single (of_int i))"
| "get_float (JFloat r) = Inr (fround single r)"
| "get_float (JBool b) = Inr (Fin (if b then 1 else 0))"
| "get_float j = Inl Type_error"

definition jvalue_float :: "json \<Rightarrow> string \<Rightarrow> rat \<Rightarrow> flt res" where
  "jvalue_float j k d =
     rbind (jvalue j k JNull) (\<lambda>v. if jcontains j k then get_float v else Inr (lit d))"

text \<open>A stored bit pattern as a value.\<close>

definition flt_of_bits :: "u32 \<Rightarrow> flt" where
  "flt_of_bits w =
     (if f32_nan w then NaN
      else if drop_bit 23 w AND 0xFF = 0xFF then (if bit w 31 then NInf else PInf)
      else Fin (f32_val w))"

fun dot_loop :: "flt list \<Rightarrow> flt list \<Rightarrow> flt \<times> flt \<times> flt \<Rightarrow> flt \<times> flt \<times> flt" where
  "dot_loop (x # xs) (y # ys) (d, na, nb) =
     dot_loop xs ys (add d (mul x y), add na (mul x x), add nb (mul y y))"
| "dot_loop xs ys acc = acc"

definition cosine_sim :: "flt list \<Rightarrow> flt list \<Rightarrow> flt" where
  "cosine_sim a b =
     (if length a \<noteq> length b \<or> a = [] then Fin 0
      else
        let (dot, na, nb) = dot_loop a b (Fin 0, Fin 0, Fin 0);
            denom = mul (fsqrt single na) (fsqrt single nb)
        in if fless (lit (1 / 10 ^ 9)) denom then fdiv single dot denom else Fin 0)"

section \<open>Numbers as text and as documents\<close>

definition nat_json :: "nat \<Rightarrow> json" where
  "nat_json n = JInt (int n)"

text \<open>A finite number; an infinity or not-a-number is printed as null.\<close>

fun flt_json :: "flt \<Rightarrow> json" where
  "flt_json (Fin x) = JFloat x" | "flt_json a = JNull"

text \<open>\<open>std::fixed\<close> with one digit, of a value that is not negative.\<close>

fun fixed1 :: "flt \<Rightarrow> string" where
  "fixed1 (Fin x) = (let n = nat (round_even (10 * x)) in dec_of (n div 10) @ ''.'' @ [decd (n mod 10)])"
| "fixed1 PInf = ''inf''" | "fixed1 NInf = ''-inf''" | "fixed1 NaN = ''nan''"

definition arrow :: string where
  "arrow = '' '' @ [cc 0xE2, cc 0x86, cc 0x92] @ '' ''"

section \<open>Embedding a text to be stored\<close>

text \<open>
  With an embedding queue the text is only handed to the queue, and the vector is empty; the
  second component is what the queue was handed.
\<close>

record embedder =
  has_queue :: bool
  has_model :: bool
  model_embed :: "string \<Rightarrow> u32 \<times> u32 list"
  query_embed :: "string \<Rightarrow> u32 list"

definition embed_text :: "embedder \<Rightarrow> string \<Rightarrow> flt list \<times> string list" where
  "embed_text e t =
     (if t = [] then ([], [])
      else if has_queue e then ([], [t])
      else if \<not> has_model e then ([], [])
      else case model_embed e t of (c, v) \<Rightarrow> (if f32_less 0 c then map flt_of_bits v else [], []))"

definition embed_query :: "embedder \<Rightarrow> string \<Rightarrow> flt list" where
  "embed_query e t = map flt_of_bits (query_embed e t)"

section \<open>Selections of a list\<close>

text \<open>The elements at the positions marked, in their order.\<close>

fun marked :: "bool list \<Rightarrow> 'a list \<Rightarrow> 'a list" where
  "marked (b # bs) (x # xs) = (if b then x # marked bs xs else marked bs xs)"
| "marked bs xs = []"

lemma marked_map: "map f (marked bs xs) = marked bs (map f xs)"
  by (induction bs xs rule: marked.induct) auto

lemma marked_subseq: "subseq (marked bs xs) xs"
  by (induction bs xs rule: marked.induct) auto

lemma marked_all: "marked (replicate (length xs) True) xs = xs"
  by (induction xs) auto

lemma sum_marked:
  fixes f :: "'a \<Rightarrow> nat"
  assumes "length bs = length xs"
  shows "sum_list (map f (marked bs xs)) = (\<Sum>i < length xs. if bs ! i then f (xs ! i) else 0)"
  using assms
proof (induction bs xs rule: marked.induct)
  case (1 b bs x xs)
  then show ?case by (simp add: sum.lessThan_Suc_shift del: sum.lessThan_Suc cong: if_cong)
qed auto

lemma sum_filter:
  fixes f :: "'a \<Rightarrow> nat"
  shows "sum_list (map f (filter P xs)) = (\<Sum>i < length xs. if P (xs ! i) then f (xs ! i) else 0)"
  by (induction xs) (simp_all add: sum.lessThan_Suc_shift del: sum.lessThan_Suc cong: if_cong)

end
