(* ===== verification/Transcript_Parser.thy ===== *)
theory Transcript_Parser
  imports Hook_Base "HOL-Library.Sublist"
begin

text \<open>
  The transcript parser (\<open>transcript_parser.cpp\<close>): a file of JSON lines in the formats of two
  clients is read from a checkpoint, at most a given number of lines at a time, into the
  turns of the conversation; reminders the client injected are cut out, and a conversation
  that is too long is shortened to its head and tail.  A line whose document cannot be parsed
  or has a field of another type is skipped, as the exception handler skips it: an exception
  is \<open>Inl\<close> here.  The file is given by its contents, or \<open>None\<close> when it cannot be opened.
\<close>

section \<open>Reminders\<close>

definition open_tag :: string where
  "open_tag = ''<system-reminder>''"

definition close_tag :: string where
  "close_tag = ''</system-reminder>''"

text \<open>\<open>std::string::find\<close>: the first position of a text in another one.\<close>

fun find_pos :: "string \<Rightarrow> string \<Rightarrow> nat option" where
  "find_pos p [] = (if p = [] then Some 0 else None)"
| "find_pos p (c # s) = (if starts_with p (c # s) then Some 0 else map_option Suc (find_pos p s))"

definition contains_str :: "string \<Rightarrow> string \<Rightarrow> bool" where
  "contains_str p s = (find_pos p s \<noteq> None)"

lemma find_pos_Some:
  "find_pos p s = Some n \<Longrightarrow> n \<le> length s \<and> starts_with p (drop n s) \<and> (\<forall>m < n. \<not> starts_with p (drop m s))"
proof (induction s arbitrary: n)
  case Nil
  then show ?case by (auto simp: starts_with_def split: if_splits)
next
  case (Cons c s)
  then show ?case by (auto simp: less_Suc_eq_0_disj split: if_splits)
qed

lemma find_pos_None: "find_pos p s = None \<longleftrightarrow> (\<forall>m \<le> length s. \<not> starts_with p (drop m s))"
proof (induction s)
  case Nil
  then show ?case by (auto simp: starts_with_def)
next
  case (Cons c s)
  have "(\<forall>m \<le> Suc (length s). P m) \<longleftrightarrow> P 0 \<and> (\<forall>m \<le> length s. P (Suc m))" for P :: "nat \<Rightarrow> bool"
    by (metis Suc_le_mono not0_implies_Suc zero_le)
  from this [of "\<lambda>m. \<not> starts_with p (drop m (c # s))"] show ?case using Cons by auto
qed

text \<open>One cut, and the loop that repeats it while an opening tag is left.\<close>

definition cut_reminder :: "nat \<Rightarrow> string \<Rightarrow> string" where
  "cut_reminder pos r =
     (case find_pos close_tag (drop pos r) of
        Some k \<Rightarrow> take pos r @ drop (pos + k + 18) r
      | None \<Rightarrow> take pos r)"

lemma cut_reminder_shorter:
  assumes "find_pos open_tag r = Some pos"
  shows "length (cut_reminder pos r) < length r"
proof -
  have s: "starts_with open_tag (drop pos r)" and p: "pos \<le> length r" using find_pos_Some [OF assms] by auto
  have "length (take (length open_tag) (drop pos r)) = length open_tag" using s by (simp add: starts_with_def)
  then have "pos < length r" by (simp add: open_tag_def)
  then show ?thesis by (auto simp: cut_reminder_def split: option.splits)
qed

function filter_reminders_loop :: "string \<Rightarrow> string" where
  "filter_reminders_loop r =
     (case find_pos open_tag r of None \<Rightarrow> r | Some pos \<Rightarrow> filter_reminders_loop (cut_reminder pos r))"
  by pat_completeness auto
termination
  by (relation "measure length") (auto intro: cut_reminder_shorter)

declare filter_reminders_loop.simps [simp del]

definition filter_system_reminders :: "string \<Rightarrow> string" where
  "filter_system_reminders t = filter_reminders_loop t"

section \<open>Content\<close>

definition all_blank :: "string \<Rightarrow> bool" where
  "all_blank s = list_all (\<lambda>c. c = CHR '' '' \<or> c = CHR 0x09 \<or> c = lf \<or> c = CHR 0x0D) s"

definition operations :: "string list" where
  "operations = [''Bash'', ''Read'', ''Write'', ''Edit'', ''Glob'', ''Grep'']"

text \<open>Text after text, a line break between them.\<close>

definition add_line :: "string \<Rightarrow> string \<Rightarrow> string" where
  "add_line content t = (if content \<noteq> [] then content @ [lf] @ t else t)"

definition clean :: "bool \<Rightarrow> string \<Rightarrow> string" where
  "clean f s = (if f then filter_system_reminders s else s)"

definition substantial :: "string \<Rightarrow> bool" where
  "substantial s = (length s > 100)"

definition thinking_block :: "string \<Rightarrow> string" where
  "thinking_block s = ''<thinking>'' @ [lf] @ s @ [lf] @ ''</thinking>''"

definition tool_line :: "string \<Rightarrow> string \<Rightarrow> string" where
  "tool_line name args = ''[tool:'' @ name @ ''] '' @ args"

definition tool_arg :: "json \<Rightarrow> string \<Rightarrow> string \<Rightarrow> string res" where
  "tool_arg input key acc =
     (if jcontains input key then
        rbind (get_string (jidx input key)) (\<lambda>val.
          Inr ((if acc \<noteq> [] then acc @ '' '' else acc) @ key @ ''='' @ take 200 val))
      else Inr acc)"

definition tool_args :: "json \<Rightarrow> string res" where
  "tool_args input = res_fold (tool_arg input) [''command'', ''file_path'', ''pattern''] []"

definition content_block :: "bool \<Rightarrow> bool \<Rightarrow> json \<Rightarrow> string \<Rightarrow> string res" where
  "content_block thinking reminders block content =
     rbind (jvalue_str block ''type'' []) (\<lambda>ty.
       if ty = ''text'' \<and> jcontains block ''text'' then
         rbind (get_string (jidx block ''text'')) (\<lambda>t.
           let t1 = clean reminders t in Inr (if all_blank t1 then content else add_line content t1))
       else if thinking \<and> ty = ''thinking'' \<and> jcontains block ''thinking'' then
         rbind (get_string (jidx block ''thinking'')) (\<lambda>t.
           Inr (if substantial t then add_line content (thinking_block t) else content))
       else if ty = ''tool_use'' \<and> jcontains block ''name'' \<and> jcontains block ''input'' then
         rbind (jvalue_str block ''name'' []) (\<lambda>name.
           if name \<in> set operations then
             rbind (tool_args (jidx block ''input'')) (\<lambda>s.
               Inr (if s \<noteq> [] then add_line content (tool_line name s) else content))
           else Inr content)
       else Inr content)"

definition extract_content :: "bool \<Rightarrow> bool \<Rightarrow> json \<Rightarrow> string res" where
  "extract_content thinking reminders entry =
     (if \<not> jcontains entry ''message'' then Inr []
      else let msg = jidx entry ''message''
           in if \<not> jcontains msg ''content'' then Inr []
              else case jidx msg ''content'' of
                     JStr s \<Rightarrow> Inr (clean reminders s)
                   | JArr blocks \<Rightarrow> res_fold (content_block thinking reminders) blocks []
                   | _ \<Rightarrow> Inr [])"

definition codex_block :: "bool \<Rightarrow> json \<Rightarrow> string \<Rightarrow> string res" where
  "codex_block reminders block content =
     rbind (jvalue_str block ''type'' []) (\<lambda>ty.
       if (ty = ''input_text'' \<or> ty = ''output_text'') \<and> jcontains block ''text'' then
         rbind (get_string (jidx block ''text'')) (\<lambda>t.
           let t1 = clean reminders t in Inr (if all_blank t1 then content else add_line content t1))
       else Inr content)"

definition extract_content_codex :: "bool \<Rightarrow> json \<Rightarrow> string res" where
  "extract_content_codex reminders payload =
     (case jfind payload ''content'' of
        Some (JArr blocks) \<Rightarrow> res_fold (codex_block reminders) blocks []
      | _ \<Rightarrow> Inr [])"

definition reasoning_item :: "json \<Rightarrow> string \<Rightarrow> string res" where
  "reasoning_item s content =
     (if is_object s \<and> jcontains s ''text'' then
        rbind (get_string (jidx s ''text'')) (\<lambda>t. Inr (if substantial t then add_line content t else content))
      else Inr content)"

definition extract_reasoning_codex :: "json \<Rightarrow> string res" where
  "extract_reasoning_codex payload =
     rbind (case jfind payload ''summary'' of Some (JArr items) \<Rightarrow> res_fold reasoning_item items [] | _ \<Rightarrow> Inr [])
       (\<lambda>content. Inr (if content = [] then [] else thinking_block content))"

definition extract_function_call_codex :: "json \<Rightarrow> string res" where
  "extract_function_call_codex payload =
     rbind (jvalue_str payload ''name'' []) (\<lambda>name.
       if name = [] \<or> name \<notin> set operations then Inr []
       else rbind (jvalue_str payload ''arguments'' []) (\<lambda>args. Inr (tool_line name (take 200 args))))"

section \<open>Lines\<close>

record parse_options =
  skip_lines :: int
  max_lines :: int
  include_thinking :: bool
  filter_system :: bool

record turn =
  t_role :: string
  t_content :: string
  t_line :: int
  t_index :: int

text \<open>The role and the content of an entry, \<open>None\<close> where the loop goes on to the next line.\<close>

definition payload_turn :: "bool \<Rightarrow> bool \<Rightarrow> json \<Rightarrow> (string \<times> string) option res" where
  "payload_turn thinking reminders p =
     rbind (jvalue_str p ''type'' []) (\<lambda>pty.
     rbind (jvalue_str p ''role'' []) (\<lambda>prole.
       if pty = ''message'' \<and> (prole = ''user'' \<or> prole = ''assistant'') then
         rbind (extract_content_codex reminders p) (\<lambda>c. Inr (Some (prole, c)))
       else if thinking \<and> pty = ''reasoning'' then
         rbind (extract_reasoning_codex p) (\<lambda>c. Inr (Some (''assistant'', c)))
       else if pty = ''function_call'' then
         rbind (extract_function_call_codex p) (\<lambda>c. Inr (Some (''assistant'', c)))
       else Inr None))"

definition entry_turn :: "bool \<Rightarrow> bool \<Rightarrow> json \<Rightarrow> (string \<times> string) option res" where
  "entry_turn thinking reminders entry =
     rbind (jvalue_str entry ''type'' []) (\<lambda>ty.
       if ty = ''user'' \<or> ty = ''assistant'' then
         rbind (extract_content thinking reminders entry) (\<lambda>c. Inr (Some (ty, c)))
       else if ty = ''response_item'' \<and> jcontains entry ''payload'' then
         payload_turn thinking reminders (jidx entry ''payload'')
       else Inr None)"

definition line_turn :: "jlib \<Rightarrow> parse_options \<Rightarrow> string \<Rightarrow> (string \<times> string) option" where
  "line_turn lib opts line =
     (if line = [] then None
      else case jparse lib line of
        None \<Rightarrow> None
      | Some entry \<Rightarrow>
          (case entry_turn (include_thinking opts) (filter_system opts) entry of
             Inr (Some (role, c)) \<Rightarrow> if c \<noteq> [] then Some (role, c) else None
           | _ \<Rightarrow> None))"

fun skip_to :: "int \<Rightarrow> int \<Rightarrow> string list \<Rightarrow> int \<times> string list" where
  "skip_to n cur ls =
     (case ls of
        [] \<Rightarrow> (cur, [])
      | l # ls' \<Rightarrow> if cur < n then skip_to n (cur + 1) ls' else (cur, ls))"

declare skip_to.simps [simp del]

fun read_lines :: "jlib \<Rightarrow> parse_options \<Rightarrow> int \<Rightarrow> int \<Rightarrow> string list \<Rightarrow> turn list \<times> int \<times> bool" where
  "read_lines lib opts cur idx [] = ([], cur, False)"
| "read_lines lib opts cur idx (l # ls) =
     (if max_lines opts > 0 \<and> cur - skip_lines opts \<ge> max_lines opts then ([], cur, True)
      else case line_turn lib opts l of
             None \<Rightarrow> read_lines lib opts (cur + 1) idx ls
           | Some (role, c) \<Rightarrow>
               let (ts, r) = read_lines lib opts (cur + 1) (idx + 1) ls
               in (\<lparr>t_role = role, t_content = c, t_line = cur + 1, t_index = idx\<rparr> # ts, r))"

record parse_result =
  p_turns :: "turn list"
  p_last_line :: "int option"
  p_error :: string
  p_cap :: bool

definition parse :: "jlib \<Rightarrow> parse_options \<Rightarrow> string \<Rightarrow> string option \<Rightarrow> parse_result" where
  "parse lib opts path file =
     (case file of
        None \<Rightarrow> \<lparr>p_turns = [], p_last_line = None, p_error = ''Cannot open file: '' @ path, p_cap = False\<rparr>
      | Some data \<Rightarrow>
          let (cur, rest) = skip_to (skip_lines opts) 0 (getlines data);
              (ts, last, cap) = read_lines lib opts cur 0 rest
          in \<lparr>p_turns = ts, p_last_line = Some last, p_error = [], p_cap = cap\<rparr>)"

section \<open>The conversation\<close>

record truncation =
  max_chars :: nat
  head_chars :: nat
  tail_chars :: nat

definition turn_text :: "string \<Rightarrow> string \<Rightarrow> string" where
  "turn_text role content = ''['' @ role @ '']'' @ [lf] @ content @ [lf, lf]"

definition conversation_text :: "turn list \<Rightarrow> string" where
  "conversation_text ts = concat (map (\<lambda>t. turn_text (t_role t) (t_content t)) ts)"

definition truncation_note :: "nat \<Rightarrow> truncation \<Rightarrow> string" where
  "truncation_note n p =
     [lf, lf] @ ''[... truncated '' @ dec_of n @ '' chars, keeping first '' @ dec_of (head_chars p)
     @ '' + last '' @ dec_of (tail_chars p) @ '' ...]'' @ [lf, lf]"

text \<open>A start of \<open>substr\<close> beyond the end, here by wrap-around of the subtraction, raises.\<close>

definition build_conversation :: "turn list \<Rightarrow> truncation \<Rightarrow> string res" where
  "build_conversation ts p =
     (let c = conversation_text ts
      in if length c > max_chars p then
           if tail_chars p > length c then Inl Out_of_range
           else Inr (take (head_chars p) c @ truncation_note (length c) p @ drop (length c - tail_chars p) c)
         else Inr c)"


section \<open>What the filter leaves\<close>

lemma contains_str_iff: "contains_str p s \<longleftrightarrow> (\<exists>a b. s = a @ p @ b)"
proof
  assume "contains_str p s"
  then obtain n where "find_pos p s = Some n" by (auto simp: contains_str_def)
  then have n: "starts_with p (drop n s)" "n \<le> length s" using find_pos_Some by blast+
  then have "drop n s = p @ drop (length p) (drop n s)" by (metis append_take_drop_id starts_with_def)
  then show "\<exists>a b. s = a @ p @ b" by (metis append_take_drop_id)
next
  assume "\<exists>a b. s = a @ p @ b"
  then obtain a b where s: "s = a @ p @ b" by blast
  then have "starts_with p (drop (length a) s)" "length a \<le> length s" by (simp_all add: starts_with_def)
  then show "contains_str p s" using find_pos_None [of p s] by (auto simp: contains_str_def)
qed

lemma filter_loop_done: "find_pos open_tag (filter_reminders_loop r) = None"
proof (induction r rule: filter_reminders_loop.induct)
  case (1 r)
  then show ?case by (subst filter_reminders_loop.simps) (auto split: option.splits)
qed

lemma filter_loop_same: "find_pos open_tag r = None \<Longrightarrow> filter_reminders_loop r = r"
  by (subst filter_reminders_loop.simps) simp

lemma cut_subseq: "subseq (cut_reminder pos r) r"
proof -
  have "r = take pos r @ drop pos r" by simp
  moreover have "subseq (take pos r @ drop (pos + k + 18) r) (take pos r @ drop pos r)" for k
    by (rule list_emb_append_mono [OF subseq_order.order_refl])
      (metis add.assoc add.commute drop_drop suffix_drop suffix_imp_subseq)
  ultimately show ?thesis
    by (auto simp: cut_reminder_def intro: prefix_imp_subseq [OF take_is_prefix] split: option.splits)
qed

lemma filter_loop_subseq: "subseq (filter_reminders_loop r) r"
proof (induction r rule: filter_reminders_loop.induct)
  case (1 r)
  show ?case
  proof (cases "find_pos open_tag r")
    case None
    then show ?thesis by (simp add: filter_loop_same)
  next
    case (Some pos)
    then have "filter_reminders_loop r = filter_reminders_loop (cut_reminder pos r)" by (subst filter_reminders_loop.simps) simp
    then show ?thesis using 1 [OF Some] cut_subseq [of pos r] by (metis subseq_order.trans)
  qed
qed

lemma find_pos_at:
  assumes "\<forall>m < length a. \<not> starts_with p (drop m (a @ p @ b))"
  shows "find_pos p (a @ p @ b) = Some (length a)"
  using assms
proof (induction a)
  case Nil
  have "starts_with p (p @ b)" by (simp add: starts_with_def)
  then show ?case by (cases "p @ b") auto
next
  case (Cons c a)
  have "\<not> starts_with p (c # a @ p @ b)" using Cons.prems by (metis append_Cons drop0 length_greater_0_conv list.distinct(1))
  moreover have "\<forall>m < length a. \<not> starts_with p (drop m (a @ p @ b))" using Cons.prems by (auto dest: spec [of _ "Suc _"])
  ultimately show ?case using Cons.IH by simp
qed

text \<open>
  The loop over the reminders always ends, with a text that has no opening tag left and is
  the given text with pieces cut out; a text without an opening tag is returned as it is, and
  the reminder between the first opening tag and the first closing tag after it is what is cut.
\<close>

theorem reminders_removed:
  "\<not> contains_str open_tag (filter_system_reminders s) \<and> subseq (filter_system_reminders s) s
   \<and> (\<not> contains_str open_tag s \<longrightarrow> filter_system_reminders s = s)
   \<and> (s = a @ open_tag @ x @ close_tag @ b \<and> find_pos open_tag s = Some (length a)
        \<and> find_pos close_tag (open_tag @ x @ close_tag @ b) = Some (length (open_tag @ x))
      \<longrightarrow> filter_system_reminders s = filter_system_reminders (a @ b))"
proof -
  have "filter_system_reminders s = filter_system_reminders (a @ b)"
    if s: "s = a @ open_tag @ x @ close_tag @ b" and o: "find_pos open_tag s = Some (length a)"
      and c: "find_pos close_tag (open_tag @ x @ close_tag @ b) = Some (length (open_tag @ x))"
  proof -
    have "length close_tag = 18" by (simp add: close_tag_def)
    then have "cut_reminder (length a) s = a @ b" using c by (simp add: s cut_reminder_def)
    then show ?thesis using o by (subst filter_system_reminders_def, subst filter_reminders_loop.simps) (simp add: filter_system_reminders_def)
  qed
  then show ?thesis using filter_loop_done [of s] filter_loop_same [of s] filter_loop_subseq [of s]
    by (auto simp: filter_system_reminders_def contains_str_def)
qed

theorem reminders_removed_witness:
  "filter_system_reminders (''a<system-reminder>x</system-reminder>b'') = ''ab''"
proof -
  let ?s = "''a<system-reminder>x</system-reminder>b''"
  have "?s = ''a'' @ open_tag @ ''x'' @ close_tag @ ''b'' \<and> find_pos open_tag ?s = Some (length ''a'')
        \<and> find_pos close_tag (open_tag @ ''x'' @ close_tag @ ''b'') = Some (length (open_tag @ ''x''))" by code_simp
  with reminders_removed [of ?s "''a''" "''x''" "''b''"]
  have "filter_system_reminders ?s = filter_system_reminders (''a'' @ ''b'')" by blast
  also have "\<dots> = ''ab''" using reminders_removed [of "''ab''" "[]" "[]" "[]"]
    by (simp add: contains_str_def open_tag_def starts_with_def)
  finally show ?thesis .
qed


section \<open>Reading in passes\<close>

definition entry_of :: "turn \<Rightarrow> string \<times> string \<times> int" where
  "entry_of t = (t_role t, t_content t, t_line t)"

lemma entry_of_turn [simp]: "entry_of \<lparr>t_role = r, t_content = c, t_line = n, t_index = i\<rparr> = (r, c, n)"
  by (simp add: entry_of_def)

definition unlimited :: "parse_options \<Rightarrow> parse_options" where
  "unlimited opts = opts\<lparr>max_lines := 0\<rparr>"

text \<open>The turns of consecutive lines, the first of which has number \<open>cur + 1\<close>.\<close>

fun line_entries :: "jlib \<Rightarrow> parse_options \<Rightarrow> int \<Rightarrow> string list \<Rightarrow> (string \<times> string \<times> int) list" where
  "line_entries lib opts cur [] = []"
| "line_entries lib opts cur (l # ls) =
     (case line_turn lib opts l of
        None \<Rightarrow> line_entries lib opts (cur + 1) ls
      | Some (role, c) \<Rightarrow> (role, c, cur + 1) # line_entries lib opts (cur + 1) ls)"

lemma line_entries_append:
  "line_entries lib opts cur (xs @ ys) = line_entries lib opts cur xs @ line_entries lib opts (cur + int (length xs)) ys"
  by (induction xs arbitrary: cur) (auto simp: add.assoc split: option.splits)

lemma line_turn_limits [simp]: "line_turn lib (opts\<lparr>skip_lines := n, max_lines := m\<rparr>) l = line_turn lib opts l"
  "line_turn lib (opts\<lparr>max_lines := m\<rparr>) l = line_turn lib opts l" "line_turn lib (opts\<lparr>skip_lines := n\<rparr>) l = line_turn lib opts l"
  by (simp_all add: line_turn_def cong: if_cong option.case_cong)

lemma line_entries_limits [simp]: "line_entries lib (opts\<lparr>skip_lines := n, max_lines := m\<rparr>) cur ls = line_entries lib opts cur ls"
  "line_entries lib (opts\<lparr>max_lines := m\<rparr>) cur ls = line_entries lib opts cur ls"
  "line_entries lib (opts\<lparr>skip_lines := n\<rparr>) cur ls = line_entries lib opts cur ls"
  by (induction ls arbitrary: cur) (simp_all split: option.splits)

definition pass_length :: "parse_options \<Rightarrow> int \<Rightarrow> string list \<Rightarrow> nat" where
  "pass_length opts cur ls =
     (if max_lines opts > 0 then min (length ls) (nat (skip_lines opts + max_lines opts - cur)) else length ls)"

lemma pass_length_Cons:
  "\<not> (max_lines opts > 0 \<and> cur - skip_lines opts \<ge> max_lines opts) \<Longrightarrow>
    pass_length opts cur (l # ls) = Suc (pass_length opts (cur + 1) ls)"
  by (auto simp: pass_length_def min_def)

lemma read_lines_pass:
  "\<exists>ts. read_lines lib opts cur idx ls = (ts, cur + int (pass_length opts cur ls), pass_length opts cur ls < length ls)
      \<and> map entry_of ts = line_entries lib opts cur (take (pass_length opts cur ls) ls)
      \<and> map t_index ts = map (\<lambda>i. idx + int i) [0..<length ts]"
proof (induction ls arbitrary: cur idx)
  case Nil
  then show ?case by (simp add: pass_length_def)
next
  case (Cons l ls)
  show ?case
  proof (cases "max_lines opts > 0 \<and> cur - skip_lines opts \<ge> max_lines opts")
    case True
    then have "pass_length opts cur (l # ls) = 0" by (simp add: pass_length_def)
    then show ?thesis using True by simp
  next
    case False
    note n = pass_length_Cons [OF False]
    show ?thesis
    proof (cases "line_turn lib opts l")
      case None
      from Cons [of "cur + 1" idx] show ?thesis using False None by (auto simp: n)
    next
      case (Some rc)
      obtain role c where rc: "rc = (role, c)" by force
      from Cons [of "cur + 1" "idx + 1"] obtain ts where ts:
        "read_lines lib opts (cur + 1) (idx + 1) ls =
           (ts, cur + 1 + int (pass_length opts (cur + 1) ls), pass_length opts (cur + 1) ls < length ls)"
        "map entry_of ts = line_entries lib opts (cur + 1) (take (pass_length opts (cur + 1) ls) ls)"
        "map t_index ts = map (\<lambda>i. idx + 1 + int i) [0..<length ts]" by blast
      have "map (\<lambda>i. idx + int i) [0..<Suc (length ts)] = idx # map (\<lambda>i. idx + 1 + int i) [0..<length ts]"
        by (simp add: upt_conv_Cons map_Suc_upt [symmetric] comp_def add.assoc del: upt_Suc)
      with ts show ?thesis
        using False Some by (intro exI [of _ "\<lparr>t_role = role, t_content = c, t_line = cur + 1, t_index = idx\<rparr> # ts"])
          (simp add: rc n)
    qed
  qed
qed

lemma skip_to_drop:
  "cur \<le> n \<Longrightarrow> skip_to n cur ls = (min n (cur + int (length ls)), drop (nat (n - cur)) ls)"
proof (induction ls arbitrary: cur)
  case Nil
  then show ?case by (subst skip_to.simps) simp
next
  case (Cons l ls)
  show ?case
  proof (cases "cur < n")
    case True
    then have "nat (n - cur) = Suc (nat (n - (cur + 1)))" by simp
    then show ?thesis using True Cons.IH [of "cur + 1"] by (subst skip_to.simps) (simp add: algebra_simps)
  next
    case False
    then show ?thesis using Cons.prems by (subst skip_to.simps) simp
  qed
qed

text \<open>One pass of \<open>parse\<close>: the checkpoint it reports, whether lines are left, and the turns it found.\<close>

lemma parse_pass:
  fixes data :: string
  assumes "0 \<le> skip_lines opts"
  defines "cur \<equiv> min (skip_lines opts) (int (length (getlines data)))"
  defines "rest \<equiv> drop (nat (skip_lines opts)) (getlines data)"
  shows "p_last_line (parse lib opts path (Some data)) = Some (cur + int (pass_length opts cur rest))"
    and "p_cap (parse lib opts path (Some data)) \<longleftrightarrow> pass_length opts cur rest < length rest"
    and "map entry_of (p_turns (parse lib opts path (Some data))) = line_entries lib opts cur (take (pass_length opts cur rest) rest)"
    and "map t_index (p_turns (parse lib opts path (Some data))) = map int [0..<length (p_turns (parse lib opts path (Some data)))]"
proof -
  have "skip_to (skip_lines opts) 0 (getlines data) = (cur, rest)"
    using skip_to_drop [OF assms(1), of "getlines data"] by (simp add: cur_def rest_def)
  moreover obtain ts where "read_lines lib opts cur 0 rest = (ts, cur + int (pass_length opts cur rest), pass_length opts cur rest < length rest)"
    "map entry_of ts = line_entries lib opts cur (take (pass_length opts cur rest) rest)"
    "map t_index ts = map (\<lambda>i. 0 + int i) [0..<length ts]" using read_lines_pass by blast
  ultimately show "p_last_line (parse lib opts path (Some data)) = Some (cur + int (pass_length opts cur rest))"
    and "p_cap (parse lib opts path (Some data)) \<longleftrightarrow> pass_length opts cur rest < length rest"
    and "map entry_of (p_turns (parse lib opts path (Some data))) = line_entries lib opts cur (take (pass_length opts cur rest) rest)"
    and "map t_index (p_turns (parse lib opts path (Some data))) = map int [0..<length (p_turns (parse lib opts path (Some data)))]"
    by (simp_all add: parse_def)
qed

text \<open>
  C37: Reading a transcript in passes loses no turn and repeats none: a pass from a checkpoint
  with a cap on its lines, followed by a pass without a cap from the line it reports, finds
  the turns, in order and with their line numbers, that one pass without a cap finds; and the
  cap flag says whether the second pass has a line to read.
\<close>

theorem transcript_resumes:
  assumes "0 \<le> skip_lines opts" and "p_last_line (parse lib opts path (Some data)) = Some l"
  shows "map entry_of (p_turns (parse lib opts path (Some data)))
         @ map entry_of (p_turns (parse lib (opts\<lparr>skip_lines := l, max_lines := 0\<rparr>) path (Some data)))
       = map entry_of (p_turns (parse lib (opts\<lparr>max_lines := 0\<rparr>) path (Some data)))
    \<and> (p_cap (parse lib opts path (Some data)) \<longleftrightarrow> l < int (length (getlines data)))"
proof -
  define ls where "ls = getlines data"
  define cur where "cur = min (skip_lines opts) (int (length ls))"
  define rest where "rest = drop (nat (skip_lines opts)) ls"
  define k where "k = pass_length opts cur rest"
  note p1 = parse_pass [OF assms(1), where data = data and lib = lib and path = path, folded ls_def, folded cur_def rest_def, folded k_def]
  have l: "l = cur + int k" using p1(1) assms(2) by simp
  have k: "k \<le> length rest" by (simp add: k_def pass_length_def)
  have cur0: "0 \<le> cur" using assms(1) by (simp add: cur_def)
  have l_le: "l \<le> int (length ls)" "0 \<le> l" using k cur0 by (auto simp: l cur_def rest_def min_def)
  have dl: "drop (nat l) ls = drop k rest"
  proof (cases "skip_lines opts \<le> int (length ls)")
    case True
    then have "nat l = nat (skip_lines opts) + k" using assms(1) by (simp add: l cur_def nat_add_distrib)
    then show ?thesis by (simp add: rest_def add.commute)
  next
    case False
    then have "rest = []" "nat l \<ge> length ls" by (simp_all add: rest_def l cur_def)
    then show ?thesis by simp
  qed
  have p2: "map entry_of (p_turns (parse lib (opts\<lparr>skip_lines := l, max_lines := 0\<rparr>) path (Some data)))
      = line_entries lib opts (cur + int k) (drop k rest)"
    using parse_pass(3) [where opts = "opts\<lparr>skip_lines := l, max_lines := 0\<rparr>" and data = data and lib = lib and path = path, folded ls_def] l_le dl
    by (simp add: pass_length_def l)
  have p3: "map entry_of (p_turns (parse lib (opts\<lparr>max_lines := 0\<rparr>) path (Some data))) = line_entries lib opts cur rest"
    using parse_pass(3) [where opts = "opts\<lparr>max_lines := 0\<rparr>" and data = data and lib = lib and path = path, folded ls_def] assms(1)
    by (simp add: pass_length_def cur_def rest_def)
  have "line_entries lib opts cur rest = line_entries lib opts cur (take k rest) @ line_entries lib opts (cur + int k) (drop k rest)"
    using line_entries_append [of lib opts cur "take k rest" "drop k rest"] k by (simp add: min_def)
  moreover have "l < int (length ls) \<longleftrightarrow> k < length rest"
    using assms(1) k by (auto simp: l cur_def rest_def min_def)
  ultimately show ?thesis using p1(2,3) p2 p3 by (simp add: ls_def)
qed


theorem transcript_resumes_witness:
  "let lib = \<lparr>jdump = \<lambda>_. [], jparse = \<lambda>s. Some (jobj [(''type'', JStr ''user''), (''message'', jobj [(''content'', JStr s)])]),
              fnmatch = \<lambda>_ _. False\<rparr>;
       opts = \<lparr>skip_lines = 0, max_lines = 1, include_thinking = True, filter_system = True\<rparr>;
       data = ''a'' @ [lf] @ ''b''
   in map entry_of (p_turns (parse lib opts [] (Some data)))
      @ map entry_of (p_turns (parse lib (opts\<lparr>skip_lines := 1, max_lines := 0\<rparr>) [] (Some data)))
    = [(''user'', ''a'', 1), (''user'', ''b'', 2)]"
proof -
  define lib where "lib = \<lparr>jdump = \<lambda>_. [], jparse = \<lambda>s. Some (jobj [(''type'', JStr ''user''), (''message'', jobj [(''content'', JStr s)])]),
              fnmatch = \<lambda>_ _. False\<rparr>"
  define opts where "opts = \<lparr>skip_lines = 0, max_lines = 1, include_thinking = True, filter_system = True\<rparr>"
  have t: "line_turn lib m s = (if s = [] then None else Some (''user'', filter_system_reminders s))"
    if "filter_system_reminders s = s" for s m
    using that by (simp add: line_turn_def entry_turn_def lib_def opts_def jvalue_str_def jvalue_def extract_content_def jcontains_def jidx_def clean_def)
  have f: "filter_system_reminders ''a'' = ''a''" "filter_system_reminders ''b'' = ''b''" by code_simp+
  have g: "getlines (''a'' @ [lf] @ ''b'') = [''a'', ''b'']" by code_simp
  have p: "parse lib opts' [] (Some (''a'' @ [lf] @ ''b'')) =
      (let (cur, rest) = skip_to (skip_lines opts') 0 [''a'', ''b''];
           (ts, last, cap) = read_lines lib opts' cur 0 rest
       in \<lparr>p_turns = ts, p_last_line = Some last, p_error = [], p_cap = cap\<rparr>)" for opts'
    by (simp only: parse_def option.case g)
  have "p_last_line (parse lib opts [] (Some (''a'' @ [lf] @ ''b''))) = Some 1"
    using t [OF f(1)] unfolding p by (simp add: skip_to.simps f opts_def)
  from transcript_resumes [OF _ this] have
    "map entry_of (p_turns (parse lib opts [] (Some (''a'' @ [lf] @ ''b''))))
      @ map entry_of (p_turns (parse lib (opts\<lparr>skip_lines := 1, max_lines := 0\<rparr>) [] (Some (''a'' @ [lf] @ ''b''))))
    = map entry_of (p_turns (parse lib (opts\<lparr>max_lines := 0\<rparr>) [] (Some (''a'' @ [lf] @ ''b''))))"
    by (simp add: opts_def)
  also have "\<dots> = [(''user'', ''a'', 1), (''user'', ''b'', 2)]"
    using t [OF f(1)] t [OF f(2)] unfolding p by (simp add: skip_to.simps f opts_def)
  finally show ?thesis by (simp add: lib_def opts_def)
qed

section \<open>The shortened conversation\<close>

text \<open>
  A conversation within the limit is returned whole; a longer one becomes its first
  \<open>head_chars\<close> and last \<open>tail_chars\<close> characters around a note; and the call raises exactly when
  a conversation over the limit is shorter than the tail it should keep.
\<close>

theorem conversation_truncated:
  "(length (conversation_text ts) \<le> max_chars p \<longrightarrow> build_conversation ts p = Inr (conversation_text ts))
   \<and> ((\<exists>e. build_conversation ts p = Inl e) \<longleftrightarrow>
        max_chars p < length (conversation_text ts) \<and> length (conversation_text ts) < tail_chars p)
   \<and> (\<forall>r. build_conversation ts p = Inr r \<and> max_chars p < length (conversation_text ts) \<longrightarrow>
        (\<exists>h t. r = h @ truncation_note (length (conversation_text ts)) p @ t
           \<and> prefix h (conversation_text ts) \<and> suffix t (conversation_text ts)
           \<and> length h \<le> head_chars p \<and> length t = tail_chars p))"
proof (intro conjI allI impI)
  let ?c = "conversation_text ts"
  show "build_conversation ts p = Inr ?c" if "length ?c \<le> max_chars p" using that by (simp add: build_conversation_def)
  show "(\<exists>e. build_conversation ts p = Inl e) \<longleftrightarrow> max_chars p < length ?c \<and> length ?c < tail_chars p"
    by (auto simp: build_conversation_def Let_def)
  fix r assume r: "build_conversation ts p = Inr r \<and> max_chars p < length ?c"
  then have "tail_chars p \<le> length ?c"
    and "r = take (head_chars p) ?c @ truncation_note (length ?c) p @ drop (length ?c - tail_chars p) ?c"
    by (auto simp: build_conversation_def Let_def split: if_splits)
  then show "\<exists>h t. r = h @ truncation_note (length ?c) p @ t \<and> prefix h ?c \<and> suffix t ?c
      \<and> length h \<le> head_chars p \<and> length t = tail_chars p"
    by (intro exI [of _ "take (head_chars p) ?c"] exI [of _ "drop (length ?c - tail_chars p) ?c"])
      (simp add: take_is_prefix suffix_drop)
qed

end
