(* ===== verification/Context_Compact.thy ===== *)
theory Context_Compact
  imports Compact_Base Transcript_Parser
begin

text \<open>
  The handler that compacts a context (\<open>handlers/compact.cpp\<close>): the messages of a
  conversation are scored by role, recency, similarity to a query and what the memory store
  already covers, kept greedily within a budget of tokens, and the novel ones among the
  dropped are stored as memories.

  Parameters: the embedder, the recall of the memory store (the scores of the best hits for
  a vector), and the order \<open>std::sort\<close> puts the positions in, which the code needs to be a
  permutation of them only.
\<close>

section \<open>Messages\<close>

record compact_env =
  embedder_of :: embedder
  has_store :: bool
  recall :: "flt list \<Rightarrow> nat \<Rightarrow> flt list"
  score_order :: "flt list \<Rightarrow> nat list"

record message =
  m_json :: json
  m_content :: string
  m_role :: string
  m_tokens :: nat

definition text_part :: "json \<Rightarrow> string \<Rightarrow> string res" where
  "text_part block out =
     (if \<not> is_object block then Inr out
      else rbind (jvalue_str block ''type'' []) (\<lambda>ty.
        if ty = ''text'' \<and> jcontains block ''text'' then
          rbind (get_string (jidx block ''text'')) (\<lambda>t. Inr ((if out \<noteq> [] then out @ '' '' else out) @ t))
        else Inr out))"

definition message_content :: "json \<Rightarrow> string res" where
  "message_content msg =
     (case jfind msg ''content'' of
        Some (JStr s) \<Rightarrow> Inr s
      | Some (JArr blocks) \<Rightarrow> res_fold text_part blocks []
      | _ \<Rightarrow> Inr [])"

definition read_message :: "json \<Rightarrow> message res" where
  "read_message msg =
     rbind (message_content msg) (\<lambda>content.
     rbind (jvalue_str msg ''role'' []) (\<lambda>role.
       Inr \<lparr>m_json = msg, m_content = content, m_role = role, m_tokens = estimate_tokens content\<rparr>))"

definition is_system :: "message \<Rightarrow> bool" where
  "is_system m = (m_role m = ''system'')"

definition tokens_of :: "message list \<Rightarrow> nat" where
  "tokens_of ms = sum_list (map m_tokens ms)"

section \<open>Scores\<close>

definition structural_weight :: "string \<Rightarrow> flt" where
  "structural_weight role =
     (if role = ''system'' then lit 2
      else if role = ''user'' then lit 1
      else if role = ''assistant'' then lit (8 / 10)
      else if role = ''tool'' \<or> role = ''tool_result'' then lit (5 / 10)
      else lit (6 / 10))"

definition recency_of_turn :: "nat \<Rightarrow> nat \<Rightarrow> flt" where
  "recency_of_turn tot idx =
     (if tot \<le> 1 then lit 1
      else add (lit (1 / 10)) (mul (lit (9 / 10)) (fdiv single (fof_nat single idx) (fof_nat single (tot - 1)))))"

definition coverage_of :: "compact_env \<Rightarrow> flt list \<Rightarrow> flt" where
  "coverage_of env emb =
     (if has_model (embedder_of env) \<and> emb \<noteq> [] \<and> has_store env then
        foldl fmax (Fin 0) (recall env emb 3)
      else Fin 0)"

definition message_score :: "compact_env \<Rightarrow> flt list \<Rightarrow> flt list \<Rightarrow> nat \<Rightarrow> nat \<Rightarrow> string \<Rightarrow> flt \<times> flt" where
  "message_score env query_emb emb tot idx role =
     (let recency = recency_of_turn tot idx;
          semantic = (if query_emb \<noteq> [] \<and> emb \<noteq> [] then cosine_sim emb query_emb else lit (1 / 2));
          coverage = coverage_of env emb
      in (mul (structural_weight role)
            (add (add (mul (lit (3 / 10)) recency) (mul (lit (4 / 10)) semantic))
              (mul (lit (3 / 10)) (fsub single (lit 1) coverage))), coverage))"

text \<open>The scores and coverages, in one pass that counts the messages that are not of the system.\<close>

fun score_loop :: "compact_env \<Rightarrow> flt list \<Rightarrow> nat \<Rightarrow> nat \<Rightarrow> message list \<Rightarrow> flt list list \<Rightarrow> (flt \<times> flt) list" where
  "score_loop env q tot idx (m # ms) (e # es) =
     (if is_system m then (lit (10 ^ 9), Fin 0) # score_loop env q tot idx ms es
      else message_score env q e tot idx (m_role m) # score_loop env q tot (idx + 1) ms es)"
| "score_loop env q tot idx ms es = []"

text \<open>The embeddings, and the texts handed to the embedding queue on the way.\<close>

fun embed_messages :: "embedder \<Rightarrow> message list \<Rightarrow> flt list list \<times> string list" where
  "embed_messages e [] = ([], [])"
| "embed_messages e (m # ms) =
     (let (v, w) = (if has_model e \<and> \<not> is_system m \<and> m_content m \<noteq> [] then embed_text e (m_content m) else ([], []));
          (vs, ws) = embed_messages e ms
      in (v # vs, w @ ws))"

section \<open>The greedy selection\<close>

fun keep_loop :: "message list \<Rightarrow> nat \<Rightarrow> nat list \<Rightarrow> bool list \<times> nat \<Rightarrow> bool list \<times> nat" where
  "keep_loop ms budget [] s = s"
| "keep_loop ms budget (i # is) (keep, used) =
     (if is_system (ms ! i) then keep_loop ms budget is (keep[i := True], used)
      else if used + m_tokens (ms ! i) \<le> budget then keep_loop ms budget is (keep[i := True], used + m_tokens (ms ! i))
      else keep_loop ms budget is (keep, used))"

section \<open>Memories from what is dropped\<close>

definition lower_ascii :: "string \<Rightarrow> string" where
  "lower_ascii s = map (\<lambda>c. let n = of_char c :: nat in if 65 \<le> n \<and> n \<le> 90 then cc (n + 32) else c) s"

definition contains_ci :: "string \<Rightarrow> string \<Rightarrow> bool" where
  "contains_ci hay needle = contains_str needle (lower_ascii hay)"

definition classify_kind :: "string \<Rightarrow> string \<Rightarrow> string" where
  "classify_kind role t =
     (if list_ex (contains_ci t)
           [''wrong'', ''mistake'', ''incorrect'', ''that'' @ [cc 39] @ ''s not'', ''not what i'', ''should be'', ''actually, '']
      then ''correction''
      else if list_ex (contains_ci t)
           [''i prefer'', ''i always'', ''please always'', ''please don'' @ [cc 39] @ ''t'', ''from now on'', ''in the future'',
            ''never do'', ''stop doing'']
      then ''preference''
      else if list_ex (contains_ci t) [''every time'', ''whenever'', ''habit'', ''pattern'', ''convention'', ''standard'']
      then ''habit''
      else if role = ''assistant'' \<and> list_ex (contains_ci t)
           [''the reason'', ''because'', ''the fix'', ''the way to'', ''the correct'', ''you should'', ''best practice'', ''important:'']
      then ''wisdom''
      else ''episode'')"

record memory =
  mem_kind :: string
  mem_realm :: string
  mem_content :: string
  mem_embedding :: "flt list"
  mem_confidence :: flt
  mem_decay :: flt

definition distilled :: "string \<Rightarrow> message \<Rightarrow> flt list \<Rightarrow> flt \<Rightarrow> memory" where
  "distilled realm m emb coverage =
     \<lparr>mem_kind = classify_kind (m_role m) (m_content m), mem_realm = realm,
      mem_content = ''[distill-on-drop:'' @ m_role m @ ''] '' @ take 600 (m_content m),
      mem_embedding = emb,
      mem_confidence = add (lit (1 / 2)) (mul (lit (1 / 4)) (fsub single (lit 1) coverage)),
      mem_decay = lit (1 / 1000)\<rparr>"

definition novel :: "flt \<Rightarrow> bool \<Rightarrow> message \<Rightarrow> flt \<Rightarrow> bool" where
  "novel threshold kept m coverage =
     (\<not> (kept \<or> is_system m) \<and> \<not> length (m_content m) < 40 \<and> \<not> fle threshold coverage)"

definition distill_loop :: "string \<Rightarrow> flt \<Rightarrow> bool list \<Rightarrow> message list \<Rightarrow> flt list list \<Rightarrow> (flt \<times> flt) list \<Rightarrow> memory list" where
  "distill_loop realm threshold keep ms embs scs =
     concat (map (\<lambda>(k, m, e, s). if novel threshold k m (snd s) then [distilled realm m e (snd s)] else [])
       (zip keep (zip ms (zip embs scs))))"

fun count_kinds :: "memory list \<Rightarrow> json \<Rightarrow> json" where
  "count_kinds [] j = j"
| "count_kinds (m # ms) j =
     count_kinds ms (jset (mem_kind m) (JInt ((case jfind j (mem_kind m) of Some (JInt n) \<Rightarrow> n | _ \<Rightarrow> 0) + 1)) j)"

section \<open>The handler\<close>

record compact_out =
  c_result :: tool_result
  c_stored :: "memory list"
  c_warmed :: "string list"

definition no_effect :: "tool_result \<Rightarrow> compact_out" where
  "no_effect r = \<lparr>c_result = r, c_stored = [], c_warmed = []\<rparr>"

definition compact_summary :: "nat \<Rightarrow> nat \<Rightarrow> nat \<Rightarrow> nat \<Rightarrow> flt \<Rightarrow> string" where
  "compact_summary tot after dropped cnt pct =
     ''Compacted '' @ dec_of tot @ arrow @ dec_of after @ '' tok ('' @ dec_of dropped @ '' dropped''
     @ (if cnt > 0 then '', '' @ dec_of cnt @ '' distilled into memory'' else [])
     @ '', '' @ fixed1 pct @ ''%)''"

definition compact_stats :: "nat \<Rightarrow> nat \<Rightarrow> nat \<Rightarrow> flt \<Rightarrow> nat \<Rightarrow> json list \<Rightarrow> bool \<Rightarrow> json" where
  "compact_stats before after dropped pct cnt kinds has_embedder =
     jobj ([(''before_tokens'', nat_json before), (''after_tokens'', nat_json after), (''dropped'', nat_json dropped),
        (''dropped_pct'', flt_json pct), (''distilled'', nat_json cnt), (''embedding'', JBool has_embedder)]
        @ map (\<lambda>k. (''distilled_kinds'', k)) kinds)"

definition compact_messages ::
  "compact_env \<Rightarrow> string \<Rightarrow> flt \<Rightarrow> bool \<Rightarrow> flt \<Rightarrow> string \<Rightarrow> json list \<Rightarrow> message list \<Rightarrow> compact_out" where
  "compact_messages env query target_ratio distill_novel novel_threshold realm msgs ms =
     (let has_embedder = has_model (embedder_of env);
          tot = tokens_of ms;
          system = tokens_of (filter is_system ms);
          target = fto_nat (mul (fof_nat single tot) target_ratio)
      in if target \<ge> tot then
           no_effect (tool_ok ''Already within budget''
             (jobj [(''messages'', JArr msgs), (''stats'', compact_stats tot tot 0 (Fin 0) 0 [] has_embedder)]))
         else
           let (embs, warmed) = embed_messages (embedder_of env) ms;
               query_emb = (if has_embedder \<and> query \<noteq> [] then embed_query (embedder_of env) query else []);
               scs = score_loop env query_emb (length (filter (\<lambda>m. \<not> is_system m) ms)) 0 ms embs;
               budget = (if target > system then target - system else 0);
               (keep, used) = keep_loop ms budget (score_order env (map fst scs)) (replicate (length ms) False, 0);
               stored = (if distill_novel \<and> has_embedder \<and> has_store env
                         then distill_loop realm novel_threshold keep ms embs scs else []);
               kept = map m_json (marked keep ms);
               dropped = length ms - length kept;
               after = system + used;
               pct = fmul double (fdiv double (fof_nat double dropped) (fof_nat double (length ms))) (Fin 100)
           in \<lparr>c_result = tool_ok (compact_summary tot after dropped (length stored) pct)
                 (jobj [(''messages'', JArr kept),
                        (''stats'', compact_stats tot after dropped pct (length stored) [count_kinds stored (JObj [])] has_embedder)]),
               c_stored = stored, c_warmed = warmed\<rparr>)"

definition compact_context :: "compact_env \<Rightarrow> json \<Rightarrow> compact_out res" where
  "compact_context env params =
     (case jfind params ''messages'' of
        Some (JArr msgs) \<Rightarrow>
          if msgs = [] then
            Inr (no_effect (tool_ok ''No messages to compact''
              (jobj [(''messages'', JArr []), (''stats'', compact_stats 0 0 0 (Fin 0) 0 [] False)])))
          else
            rbind (jvalue_str params ''query'' []) (\<lambda>query.
            rbind (jvalue_float params ''target_ratio'' (4 / 10)) (\<lambda>ratio.
            rbind (jvalue_bool params ''distill_novel'' False) (\<lambda>distill_novel.
            rbind (jvalue_float params ''novel_threshold'' (5 / 10)) (\<lambda>threshold.
            rbind (jvalue_str params ''distill_realm'' ''brahman'') (\<lambda>realm.
            rbind (res_map read_message msgs) (\<lambda>ms.
              Inr (compact_messages env query (fclamp ratio (lit (5 / 100)) (lit 1)) distill_novel threshold realm msgs ms)))))))
      | _ \<Rightarrow> Inr (no_effect (tool_error ''messages (array) is required'')))"


section \<open>The selection\<close>

lemma keep_loop_spec:
  assumes "keep_loop ms budget is (keep, used) = (keep', used')" "distinct is" "\<forall>i \<in> set is. i < length keep \<and> \<not> keep ! i"
    "used \<le> budget"
  shows "length keep' = length keep \<and> (\<forall>i. i \<notin> set is \<longrightarrow> keep' ! i = keep ! i)
    \<and> (\<forall>i \<in> set is. is_system (ms ! i) \<longrightarrow> keep' ! i)
    \<and> used' = used + (\<Sum>i \<in> set is. if keep' ! i \<and> \<not> is_system (ms ! i) then m_tokens (ms ! i) else 0)
    \<and> used' \<le> budget \<and> (\<forall>i \<in> set is. \<not> keep' ! i \<longrightarrow> used' + m_tokens (ms ! i) > budget)"
  using assms
proof (induction "is" arbitrary: keep used)
  case Nil
  then show ?case by simp
next
  case (Cons i "is")
  have d: "distinct is" "i \<notin> set is" "i < length keep" "\<not> keep ! i" using Cons.prems(2,3) by auto
  let ?k = "keep[i := True]"
  have fresh: "\<forall>j \<in> set is. j < length ?k \<and> \<not> ?k ! j" using Cons.prems(3) d(2) by (auto simp: nth_list_update)
  show ?case
  proof (cases "is_system (ms ! i)")
    case True
    with Cons.prems(1) have "keep_loop ms budget is (?k, used) = (keep', used')" by simp
    from Cons.IH [OF this d(1) fresh Cons.prems(4)] show ?thesis using True d by (auto simp: nth_list_update)
  next
    case ns: False
    show ?thesis
    proof (cases "used + m_tokens (ms ! i) \<le> budget")
      case True
      with ns Cons.prems(1) have "keep_loop ms budget is (?k, used + m_tokens (ms ! i)) = (keep', used')" by simp
      from Cons.IH [OF this d(1) fresh True] show ?thesis using ns d by (auto simp: nth_list_update)
    next
      case False
      with ns Cons.prems(1) have "keep_loop ms budget is (keep, used) = (keep', used')" by simp
      from Cons.IH [OF this d(1) _ Cons.prems(4)] Cons.prems(3) have
        IH: "length keep' = length keep" "\<forall>j. j \<notin> set is \<longrightarrow> keep' ! j = keep ! j"
        "\<forall>j \<in> set is. is_system (ms ! j) \<longrightarrow> keep' ! j"
        "used' = used + (\<Sum>j \<in> set is. if keep' ! j \<and> \<not> is_system (ms ! j) then m_tokens (ms ! j) else 0)"
        "used' \<le> budget" "\<forall>j \<in> set is. \<not> keep' ! j \<longrightarrow> used' + m_tokens (ms ! j) > budget" by auto
      have "\<not> keep' ! i" using IH(2) d by simp
      moreover have "used' + m_tokens (ms ! i) > budget" using IH(4) False by simp
      ultimately show ?thesis using IH ns d by auto
    qed
  qed
qed

lemma read_message_json: "read_message j = Inr m \<Longrightarrow> m_json m = j"
  by (auto simp: read_message_def rbind_eq_Inr)

lemma read_messages_json: "res_map read_message msgs = Inr ms \<Longrightarrow> map m_json ms = msgs"
  by (induction msgs arbitrary: ms) (auto simp: rbind_eq_Inr read_message_json)

lemma score_loop_length: "length es = length ms \<Longrightarrow> length (score_loop env q tot idx ms es) = length ms"
  by (induction env q tot idx ms es rule: score_loop.induct) auto

lemma embed_messages_length: "length (fst (embed_messages e ms)) = length ms"
  by (induction ms) (auto simp: split_beta Let_def)

definition permutes_positions :: "compact_env \<Rightarrow> bool" where
  "permutes_positions env = (\<forall>scs. mset (score_order env scs) = mset [0..<length scs])"

text \<open>What one call keeps, given the tokens it aims at.\<close>

definition good_selection :: "message list \<Rightarrow> nat \<Rightarrow> bool list \<Rightarrow> bool" where
  "good_selection ms target keep =
     (length keep = length ms
      \<and> (\<forall>i < length ms. is_system (ms ! i) \<longrightarrow> keep ! i)
      \<and> tokens_of (marked keep ms) \<le> max target (tokens_of (filter is_system ms))
      \<and> (\<forall>i < length ms. \<not> keep ! i \<longrightarrow>
           tokens_of (marked keep ms) + m_tokens (ms ! i) > max target (tokens_of (filter is_system ms))))"

lemma keep_loop_good:
  assumes "keep_loop ms (if target > tokens_of (filter is_system ms) then target - tokens_of (filter is_system ms) else 0) ord
      (replicate (length ms) False, 0) = (keep, used)" "mset ord = mset [0..<length ms]"
  shows "good_selection ms target keep" "tokens_of (marked keep ms) = tokens_of (filter is_system ms) + used"
proof -
  let ?sys = "tokens_of (filter is_system ms)"
  let ?b = "if target > ?sys then target - ?sys else 0"
  have "set ord = set [0..<length ms]" using assms(2) by (rule mset_eq_setD)
  then have s: "set ord = {..<length ms}" by (simp only: set_upt atLeast0LessThan)
  have d: "distinct ord" using mset_eq_imp_distinct_iff [OF assms(2)] by simp
  from keep_loop_spec [OF assms(1) d] s have k:
    "length keep = length ms" "\<forall>i < length ms. is_system (ms ! i) \<longrightarrow> keep ! i"
    "used = (\<Sum>i < length ms. if keep ! i \<and> \<not> is_system (ms ! i) then m_tokens (ms ! i) else 0)"
    "used \<le> ?b" "\<forall>i < length ms. \<not> keep ! i \<longrightarrow> used + m_tokens (ms ! i) > ?b" by auto
  have "tokens_of (marked keep ms) = (\<Sum>i < length ms. if keep ! i then m_tokens (ms ! i) else 0)"
    using sum_marked [OF k(1)] by (simp add: tokens_of_def)
  also have "\<dots> = (\<Sum>i < length ms. (if is_system (ms ! i) then m_tokens (ms ! i) else 0)
      + (if keep ! i \<and> \<not> is_system (ms ! i) then m_tokens (ms ! i) else 0))"
    using k(2) by (intro sum.cong) auto
  also have "\<dots> = ?sys + used" by (simp add: sum.distrib k(3) tokens_of_def sum_filter)
  finally show t: "tokens_of (marked keep ms) = ?sys + used" .
  have u: "?sys + ?b = max target ?sys" by auto
  have "?sys + used \<le> max target ?sys" using k(4) unfolding u [symmetric] by (rule add_left_mono)
  moreover have "?sys + used + m_tokens (ms ! i) > max target ?sys" if "i < length ms" "\<not> keep ! i" for i
  proof -
    have "?b < used + m_tokens (ms ! i)" using k(5) that by blast
    then have "?sys + ?b < ?sys + (used + m_tokens (ms ! i))" by (rule add_strict_left_mono)
    then show ?thesis by (simp only: u add.assoc)
  qed
  ultimately show "good_selection ms target keep" using k(1,2) unfolding good_selection_def t by blast
qed

lemma compact_messages_out:
  assumes "\<not> fto_nat (mul (fof_nat single (tokens_of ms)) ratio) \<ge> tokens_of ms"
    and "keep_loop ms (if fto_nat (mul (fof_nat single (tokens_of ms)) ratio) > tokens_of (filter is_system ms)
           then fto_nat (mul (fof_nat single (tokens_of ms)) ratio) - tokens_of (filter is_system ms) else 0)
        (score_order env (map fst (score_loop env
          (if has_model (embedder_of env) \<and> query \<noteq> [] then embed_query (embedder_of env) query else [])
          (length (filter (\<lambda>m. \<not> is_system m) ms)) 0 ms (fst (embed_messages (embedder_of env) ms)))))
        (replicate (length ms) False, 0) = (keep, used)"
  shows "jfind (tr_structured (c_result (compact_messages env query ratio dn th realm msgs ms))) ''messages''
      = Some (JArr (map m_json (marked keep ms)))"
    and "\<exists>st. jfind (tr_structured (c_result (compact_messages env query ratio dn th realm msgs ms))) ''stats'' = Some st
      \<and> jfind st ''after_tokens'' = Some (nat_json (tokens_of (filter is_system ms) + used))"
proof -
  obtain embs warmed where e: "embed_messages (embedder_of env) ms = (embs, warmed)" by force
  show "jfind (tr_structured (c_result (compact_messages env query ratio dn th realm msgs ms))) ''messages''
      = Some (JArr (map m_json (marked keep ms)))"
    using assms(2) unfolding compact_messages_def Let_def e prod.case if_not_P [OF assms(1)] fst_conv
    by (simp add: tool_ok_def)
  show "\<exists>st. jfind (tr_structured (c_result (compact_messages env query ratio dn th realm msgs ms))) ''stats'' = Some st
      \<and> jfind st ''after_tokens'' = Some (nat_json (tokens_of (filter is_system ms) + used))"
    using assms(2) unfolding compact_messages_def Let_def e prod.case if_not_P [OF assms(1)] fst_conv
    by (simp add: tool_ok_def compact_stats_def)
qed

text \<open>
  C38: When the handler compacts a conversation it keeps every system message and the order of
  the messages; the tokens it keeps are at most the target, or those of the system messages
  where these alone exceed it; no dropped message would have fitted into the rest of the
  budget; and the number of tokens it reports is that of the messages it returns.  This holds
  whatever the embedder, the memory store and the order of equal scores are.
\<close>

theorem compact_selection:
  assumes "compact_context env params = Inr out" "jfind params ''messages'' = Some (JArr msgs)" "msgs \<noteq> []"
    and "permutes_positions env"
  shows "\<exists>ms ratio keep. res_map read_message msgs = Inr ms \<and> jvalue_float params ''target_ratio'' (4 / 10) = Inr ratio
    \<and> good_selection ms (fto_nat (mul (fof_nat single (tokens_of ms)) (fclamp ratio (lit (5 / 100)) (lit 1)))) keep
    \<and> jfind (tr_structured (c_result out)) ''messages'' = Some (JArr (marked keep msgs))
    \<and> (\<exists>st. jfind (tr_structured (c_result out)) ''stats'' = Some st
         \<and> jfind st ''after_tokens'' = Some (nat_json (tokens_of (marked keep ms))))"
proof -
  obtain query ratio dn th realm ms where r:
    "jvalue_float params ''target_ratio'' (4 / 10) = Inr ratio" "res_map read_message msgs = Inr ms"
    "out = compact_messages env query (fclamp ratio (lit (5 / 100)) (lit 1)) dn th realm msgs ms"
    using assms(1-3) by (auto simp: compact_context_def rbind_eq_Inr)
  note j = read_messages_json [OF r(2)]
  let ?t = "fto_nat (mul (fof_nat single (tokens_of ms)) (fclamp ratio (lit (5 / 100)) (lit 1)))"
  have "\<exists>keep. good_selection ms ?t keep
    \<and> jfind (tr_structured (c_result out)) ''messages'' = Some (JArr (marked keep msgs))
    \<and> (\<exists>st. jfind (tr_structured (c_result out)) ''stats'' = Some st
         \<and> jfind st ''after_tokens'' = Some (nat_json (tokens_of (marked keep ms))))"
  proof (cases "?t \<ge> tokens_of ms")
    case True
    have "length msgs = length ms" using j by auto
    then have m: "marked (replicate (length ms) True) msgs = msgs" using marked_all [of msgs] by simp
    have "good_selection ms ?t (replicate (length ms) True)"
      using True by (simp add: good_selection_def marked_all max_def)
    then show ?thesis using True
      by (intro exI [of _ "replicate (length ms) True"])
        (simp add: r(3) compact_messages_def Let_def no_effect_def tool_ok_def compact_stats_def m marked_all)
  next
    case False
    let ?embs = "fst (embed_messages (embedder_of env) ms)"
    let ?q = "if has_model (embedder_of env) \<and> query \<noteq> [] then embed_query (embedder_of env) query else []"
    let ?scs = "score_loop env ?q (length (filter (\<lambda>m. \<not> is_system m) ms)) 0 ms ?embs"
    let ?sys = "tokens_of (filter is_system ms)"
    obtain keep used where k: "keep_loop ms (if ?t > ?sys then ?t - ?sys else 0) (score_order env (map fst ?scs))
      (replicate (length ms) False, 0) = (keep, used)" by force
    have "mset (score_order env (map fst ?scs)) = mset [0..<length ms]"
      using assms(4) by (simp add: permutes_positions_def score_loop_length embed_messages_length)
    note g = keep_loop_good [OF k this]
    have "map m_json (marked keep ms) = marked keep msgs" by (simp add: marked_map j)
    then have "jfind (tr_structured (c_result out)) ''messages'' = Some (JArr (marked keep msgs))"
      "\<exists>st. jfind (tr_structured (c_result out)) ''stats'' = Some st \<and> jfind st ''after_tokens'' = Some (nat_json (tokens_of (marked keep ms)))"
      using compact_messages_out [OF False k, of dn th realm msgs] g(2) by (simp_all only: r(3))
    then show ?thesis using g(1) by blast
  qed
  then show ?thesis using r by blast
qed


text \<open>
  A call with three messages.  The order is the positions by
  falling score, an insertion of each position before the first one with a smaller score.
\<close>

fun insert_position :: "flt list \<Rightarrow> nat \<Rightarrow> nat list \<Rightarrow> nat list" where
  "insert_position scs i [] = [i]"
| "insert_position scs i (k # ks) = (if fless (scs ! k) (scs ! i) then i # k # ks else k # insert_position scs i ks)"

definition falling_order :: "flt list \<Rightarrow> nat list" where
  "falling_order scs = fold (insert_position scs) [0..<length scs] []"

lemma insert_position_mset: "mset (insert_position scs i ks) = add_mset i (mset ks)"
  by (induction ks) auto

lemma falling_order_mset: "mset (falling_order scs) = mset [0..<length scs]"
proof -
  have "mset (fold (insert_position scs) xs ks) = mset xs + mset ks" for xs ks
    by (induction xs arbitrary: ks) (simp_all add: insert_position_mset)
  then show ?thesis by (simp add: falling_order_def)
qed

definition demo_env :: compact_env where
  "demo_env = \<lparr>embedder_of = \<lparr>has_queue = False, has_model = False, model_embed = \<lambda>_. (0, []), query_embed = \<lambda>_. []\<rparr>,
     has_store = False, recall = \<lambda>_ _. [], score_order = falling_order\<rparr>"

definition demo_message :: "string \<Rightarrow> string \<Rightarrow> json" where
  "demo_message role content = jobj [(''role'', JStr role), (''content'', JStr content)]"

definition demo_messages :: "json list" where
  "demo_messages = [demo_message ''system'' ''a'', demo_message ''user'' ''a a a a a a a a a a a a'', demo_message ''user'' ''b'']"

definition demo_params :: json where
  "demo_params = jobj [(''messages'', JArr demo_messages)]"

lemma demo_order: "permutes_positions demo_env"
  by (simp add: permutes_positions_def demo_env_def falling_order_mset)

theorem compact_selection_witness:
  "\<exists>out ms ratio keep. compact_context demo_env demo_params = Inr out \<and> res_map read_message demo_messages = Inr ms
     \<and> jfind (tr_structured (c_result out)) ''messages'' = Some (JArr (marked keep demo_messages))
     \<and> good_selection ms (fto_nat (mul (fof_nat single (tokens_of ms)) (fclamp ratio (lit (5 / 100)) (lit 1)))) keep"
proof -
  have m: "read_message (demo_message role c)
      = Inr \<lparr>m_json = demo_message role c, m_content = c, m_role = role, m_tokens = estimate_tokens c\<rparr>" for role c
    by (simp add: read_message_def message_content_def demo_message_def jvalue_str_def jvalue_obj)
  have p: "jfind demo_params ''messages'' = Some (JArr demo_messages)" "demo_messages \<noteq> []"
    by (simp_all add: demo_params_def demo_messages_def)
  have "\<exists>ms. res_map read_message demo_messages = Inr ms" by (simp add: demo_messages_def m)
  then obtain out where "compact_context demo_env demo_params = Inr out"
    using p by (auto simp: compact_context_def demo_params_def jvalue_str_def jvalue_bool_def jvalue_float_def jvalue_obj jcontains_def)
  from compact_selection [OF this p demo_order] this show ?thesis by blast
qed

section \<open>Coverage behind an embedding queue\<close>

text \<open>
  With an embedding queue the write path returns no vector, so the memory store is never asked
  what it covers: the result does not depend on it, and the test for novelty passes for every
  dropped message of at least forty characters when the threshold is above zero.
\<close>

lemma embed_queue_empty:
  assumes "has_queue e"
  shows "fst (embed_messages e ms) = map (\<lambda>_. []) ms"
  using assms by (induction ms) (auto simp: embed_text_def split_beta Let_def)

lemma score_loop_recall:
  "score_loop (env\<lparr>recall := r\<rparr>) q tot idx ms (map (\<lambda>_. []) ms) = score_loop env q tot idx ms (map (\<lambda>_. []) ms)"
  by (induction ms arbitrary: idx) (auto simp: message_score_def coverage_of_def)

lemma compact_messages_recall:
  assumes "has_queue (embedder_of env)"
  shows "compact_messages (env\<lparr>recall := r\<rparr>) query ratio dn th realm msgs ms = compact_messages env query ratio dn th realm msgs ms"
proof -
  obtain embs warmed where e: "embed_messages (embedder_of env) ms = (embs, warmed)" by force
  have "embs = map (\<lambda>_. []) ms" using embed_queue_empty [OF assms, of ms] by (simp add: e)
  then have sl: "score_loop (env\<lparr>recall := r\<rparr>) q tot idx ms embs = score_loop env q tot idx ms embs" for q tot idx
    by (simp only: score_loop_recall)
  have f: "embedder_of (env\<lparr>recall := r\<rparr>) = embedder_of env" "has_store (env\<lparr>recall := r\<rparr>) = has_store env"
    "score_order (env\<lparr>recall := r\<rparr>) = score_order env" by simp_all
  show ?thesis unfolding compact_messages_def Let_def f e prod.case sl by (rule refl)
qed

text \<open>
  C39: When the daemon embeds through its queue, the result of the handler and the memories it
  stores do not depend on what the memory store contains: the coverage of every message is
  zero, and messages the store already holds are stored again.
\<close>

theorem queue_hides_coverage:
  assumes "has_queue (embedder_of env)"
  shows "compact_context (env\<lparr>recall := r\<rparr>) params = compact_context env params"
  unfolding compact_context_def compact_messages_recall [OF assms] by (rule refl)

theorem queue_hides_coverage_witness:
  "compact_context (demo_env\<lparr>embedder_of := (embedder_of demo_env)\<lparr>has_queue := True, has_model := True\<rparr>, has_store := True, recall := \<lambda>_ _. [Fin 1]\<rparr>) demo_params
   = compact_context (demo_env\<lparr>embedder_of := (embedder_of demo_env)\<lparr>has_queue := True, has_model := True\<rparr>, has_store := True\<rparr>) demo_params"
proof -
  let ?e = "demo_env\<lparr>embedder_of := (embedder_of demo_env)\<lparr>has_queue := True, has_model := True\<rparr>, has_store := True\<rparr>"
  have "has_queue (embedder_of ?e)" by simp
  from queue_hides_coverage [OF this, of "\<lambda>_ _. [Fin 1]"] show ?thesis by simp
qed

end
