(* ===== verification/Trajectory_Compact.thy ===== *)
theory Trajectory_Compact
  imports Compact_Base Transcript_Parser "HOL-Library.Sublist"
begin

text \<open>
  The handler that briefs another agent on a session (\<open>handlers/trajectory_compact.cpp\<close>):
  the transcript is parsed, its turns are scored by similarity to the task, recency and
  role, those above the median by a multiple of the median absolute deviation are taken, the
  lowest of them are dropped while the budget of tokens is exceeded, the rest of the budget
  is filled from below the threshold, and the last two turns are added within a tolerance.

  Parameters: the file system (\<open>HOME\<close>, \<open>glob\<close>, the contents of a file), JSON parsing, the
  embedder, and \<open>std::sort\<close>, of which only that it permutes is used.
\<close>

section \<open>State\<close>

type_synonym candidate = "nat \<times> flt"

record trajectory_env =
  home :: "string option"
  glob :: "string \<Rightarrow> string option"
  read_file :: "string \<Rightarrow> string option"
  json_lib :: jlib
  task_embedder :: embedder
  transform_batch :: "string list \<Rightarrow> u32 list list"
  sort_by :: "(flt \<Rightarrow> flt \<Rightarrow> bool) \<Rightarrow> candidate list \<Rightarrow> candidate list"

section \<open>Finding the turns\<close>

definition transcript_path :: "trajectory_env \<Rightarrow> string \<Rightarrow> string \<Rightarrow> string" where
  "transcript_path env path session_id =
     (if path = [] \<and> session_id \<noteq> [] then
        case home env of
          None \<Rightarrow> path
        | Some h \<Rightarrow> (case glob env (h @ ''/.claude/projects/*/'' @ session_id @ ''.jsonl'') of Some p \<Rightarrow> p | None \<Rightarrow> path)
      else path)"

definition briefing_options :: parse_options where
  "briefing_options = \<lparr>skip_lines = 0, max_lines = 0, include_thinking = False, filter_system = True\<rparr>"

definition wanted_turn :: "string \<Rightarrow> turn \<Rightarrow> bool" where
  "wanted_turn role_filter c = (\<not> (role_filter \<noteq> [] \<and> t_role c \<noteq> role_filter) \<and> \<not> length (t_content c) < 20)"

definition turns_of :: "string \<Rightarrow> turn list \<Rightarrow> (string \<times> string) list" where
  "turns_of role_filter convs = map (\<lambda>c. (t_role c, t_content c)) (filter (wanted_turn role_filter) convs)"

section \<open>Scores\<close>

definition turn_embeddings :: "trajectory_env \<Rightarrow> (string \<times> string) list \<Rightarrow> flt list list" where
  "turn_embeddings env turns =
     (if has_model (task_embedder env) then
        let arthas = transform_batch env (map (\<lambda>t. take 512 (snd t)) turns)
        in map (\<lambda>i. if i < length arthas then map flt_of_bits (arthas ! i) else []) [0..<length turns]
      else replicate (length turns) [])"

definition turn_score :: "flt list \<Rightarrow> nat \<Rightarrow> nat \<Rightarrow> string \<Rightarrow> flt list \<Rightarrow> flt" where
  "turn_score task_emb n i role emb =
     (let semantic = (if task_emb \<noteq> [] \<and> emb \<noteq> [] then cosine_sim emb task_emb else lit (5 / 10));
          recency = (if n \<le> 1 then lit 1
                     else add (lit (2 / 10)) (mul (lit (8 / 10)) (fdiv single (fof_nat single i) (fof_nat single (n - 1)))));
          role_w = (if role = ''user'' then lit (11 / 10) else lit 1)
      in mul role_w (add (add (mul (lit (65 / 100)) semantic) (mul (lit (25 / 100)) recency)) (lit (10 / 100))))"

definition turn_scores :: "trajectory_env \<Rightarrow> string \<Rightarrow> (string \<times> string) list \<Rightarrow> flt list" where
  "turn_scores env task turns =
     (let task_emb = (if has_model (task_embedder env) then embed_query (task_embedder env) task else []);
          embs = turn_embeddings env turns;
          n = length turns
      in map (\<lambda>i. turn_score task_emb n i (fst (turns ! i)) (embs ! i)) [0..<n])"

fun finsert :: "flt \<Rightarrow> flt list \<Rightarrow> flt list" where
  "finsert x [] = [x]"
| "finsert x (y # ys) = (if fless x y then x # y # ys else y # finsert x ys)"

definition fsort :: "flt list \<Rightarrow> flt list" where
  "fsort xs = fold finsert xs []"

text \<open>
  The scores are sorted by a stable insertion.  \<open>std::sort\<close> gives the same list as long as no
  score is a NaN; with one the source is undefined and the model still answers.
\<close>

definition median_of :: "flt list \<Rightarrow> flt" where
  "median_of xs =
     (let s = fsort xs; n = length xs
      in if n mod 2 = 0 then fdiv single (add (s ! (n div 2 - 1)) (s ! (n div 2))) (lit 2) else s ! (n div 2))"

definition mad_of :: "flt list \<Rightarrow> flt \<Rightarrow> flt" where
  "mad_of scores median = median_of (map (\<lambda>x. fabs (fsub single x median)) scores)"

section \<open>Selection\<close>

definition cand_tokens :: "nat list \<Rightarrow> candidate list \<Rightarrow> nat" where
  "cand_tokens toks cs = sum_list (map (\<lambda>c. toks ! fst c) cs)"

fun drop_lowest :: "nat list \<Rightarrow> nat \<Rightarrow> nat \<Rightarrow> candidate list \<Rightarrow> nat \<times> candidate list" where
  "drop_lowest toks budget sel [] = (sel, [])"
| "drop_lowest toks budget sel (c # cs) =
     (if sel > budget then drop_lowest toks budget (sel - toks ! fst c) cs else (sel, c # cs))"

fun backfill :: "nat list \<Rightarrow> nat \<Rightarrow> nat \<times> candidate list \<Rightarrow> candidate list \<Rightarrow> nat \<times> candidate list" where
  "backfill toks budget (sel, acc) [] = (sel, acc)"
| "backfill toks budget (sel, acc) (c # cs) =
     (if sel + toks ! fst c > budget then backfill toks budget (sel, acc) cs
      else backfill toks budget (sel + toks ! fst c, acc @ [c]) cs)"

definition within_tolerance :: "nat \<Rightarrow> nat \<Rightarrow> bool" where
  "within_tolerance sel budget = fle (fof_nat double sel) (fmul double (fof_nat double budget) (flit double (12 / 10)))"

fun add_tail :: "nat list \<Rightarrow> flt list \<Rightarrow> nat \<Rightarrow> nat \<times> candidate list \<Rightarrow> nat list \<Rightarrow> nat \<times> candidate list" where
  "add_tail toks scores budget (sel, acc) [] = (sel, acc)"
| "add_tail toks scores budget (sel, acc) (i # is) =
     (if i \<in> fst ` set acc then add_tail toks scores budget (sel, acc) is
      else if within_tolerance (sel + toks ! i) budget
      then add_tail toks scores budget (sel + toks ! i, acc @ [(i, scores ! i)]) is
      else add_tail toks scores budget (sel, acc) is)"

definition tail_positions :: "nat \<Rightarrow> nat list" where
  "tail_positions n = [(if n > 2 then n - 2 else 0)..<n]"

definition select_turns :: "trajectory_env \<Rightarrow> nat list \<Rightarrow> flt list \<Rightarrow> nat \<Rightarrow> flt \<Rightarrow> nat \<times> nat list" where
  "select_turns env toks scores budget threshold =
     (let n = length scores;
          cands = map (\<lambda>i. (i, scores ! i)) [0..<n];
          above = filter (\<lambda>c. fle threshold (snd c)) cands;
          below = filter (\<lambda>c. \<not> fle threshold (snd c)) cands;
          below1 = sort_by env (\<lambda>a b. fless b a) below;
          above1 = sort_by env fless above;
          s1 = drop_lowest toks budget (cand_tokens toks above1) above1;
          s2 = backfill toks budget s1 below1;
          (sel, chosen) = add_tail toks scores budget s2 (tail_positions n)
      in (sel, sort (map fst chosen)))"

section \<open>The handler\<close>

definition briefing :: "(string \<times> string) list \<Rightarrow> string" where
  "briefing ts = concat (map (\<lambda>t. turn_text (fst t) (snd t)) ts)"

definition to_size :: "int \<Rightarrow> nat" where
  "to_size i = (if i < 0 then nat (2 ^ 64 + i) else nat i)"

definition trajectory_summary :: "nat \<Rightarrow> nat \<Rightarrow> nat \<Rightarrow> nat \<Rightarrow> flt \<Rightarrow> string" where
  "trajectory_summary n k tot sel ratio =
     ''Compacted '' @ dec_of n @ '' turns'' @ arrow @ dec_of k @ '' ('' @ dec_of tot @ arrow @ dec_of sel @ '' tok, ''
     @ fixed1 (fmul double ratio (Fin 100)) @ ''%)''"

definition passthrough :: "nat \<Rightarrow> nat \<Rightarrow> (string \<times> string) list \<Rightarrow> tool_result" where
  "passthrough tot budget turns =
     tool_ok (briefing turns)
       (jobj [(''briefing'', JStr (briefing turns)),
              (''stats'', jobj [(''total_turns'', nat_json (length turns)), (''selected_turns'', nat_json (length turns)),
                 (''total_tokens'', nat_json tot), (''budget_tokens'', nat_json budget),
                 (''compression_ratio'', JFloat 1), (''method'', JStr ''passthrough'')])])"

definition compact_turns :: "trajectory_env \<Rightarrow> string \<Rightarrow> nat \<Rightarrow> flt \<Rightarrow> (string \<times> string) list \<Rightarrow> tool_result" where
  "compact_turns env task budget mad_k turns =
     (let toks = map (\<lambda>t. estimate_tokens (snd t)) turns;
          tot = sum_list toks
      in if tot \<le> budget then passthrough tot budget turns
         else
           let scores = turn_scores env task turns;
               median = median_of scores;
               mad = mad_of scores median;
               threshold = add median (mul mad_k mad);
               (sel, chosen) = select_turns env toks scores budget threshold;
               text = briefing (map (\<lambda>i. turns ! i) chosen);
               ratio = (if tot > 0 then fdiv double (fof_nat double sel) (fof_nat double tot) else Fin 1)
           in tool_ok (trajectory_summary (length turns) (length chosen) tot sel ratio)
                (jobj [(''briefing'', JStr text),
                       (''stats'', jobj [(''total_turns'', nat_json (length turns)), (''selected_turns'', nat_json (length chosen)),
                          (''total_tokens'', nat_json tot), (''selected_tokens'', nat_json sel), (''budget_tokens'', nat_json budget),
                          (''compression_ratio'', flt_json ratio), (''mad_threshold'', flt_json threshold),
                          (''median_score'', flt_json median), (''mad'', flt_json mad),
                          (''method'', JStr (if has_model (task_embedder env) then ''embedding+mad'' else ''recency_fallback'')),
                          (''embedding'', JBool (has_model (task_embedder env)))])]))"

definition trajectory_compact :: "trajectory_env \<Rightarrow> json \<Rightarrow> tool_result res" where
  "trajectory_compact env params =
     rbind (jvalue_str params ''task'' []) (\<lambda>task.
       if task = [] then
         Inr (tool_error (''task (string) is required '' @ [cc 0xE2, cc 0x80, cc 0x94] @ '' describe what the downstream agent needs''))
       else
         rbind (jvalue_str params ''path'' []) (\<lambda>path0.
         rbind (jvalue_str params ''session_id'' []) (\<lambda>session_id.
         rbind (jvalue_int params ''budget_tokens'' 4000) (\<lambda>budget.
         rbind (jvalue_float params ''mad_k'' (15 / 10)) (\<lambda>mad_k.
         rbind (jvalue_str params ''role_filter'' []) (\<lambda>role_filter.
           let path = transcript_path env path0 session_id
           in if path = [] then Inr (tool_error ''No transcript: provide path or session_id'')
              else
                let r = parse (json_lib env) briefing_options path (read_file env path)
                in if p_turns r = [] \<and> p_error r \<noteq> [] then Inr (tool_error (p_error r))
                   else
                     let turns = turns_of role_filter (p_turns r)
                     in if turns = [] then Inr (tool_error ''No turns found in transcript'')
                        else Inr (compact_turns env task (to_size budget) mad_k turns)))))))"


section \<open>What is selected\<close>

lemma cand_tokens_simps [simp]:
  "cand_tokens toks [] = 0" "cand_tokens toks (c # cs) = toks ! fst c + cand_tokens toks cs"
  "cand_tokens toks (cs @ ds) = cand_tokens toks cs + cand_tokens toks ds"
  by (simp_all add: cand_tokens_def)

lemma drop_lowest_spec:
  "drop_lowest toks budget (cand_tokens toks cs) cs = (sel, cs') \<Longrightarrow>
    sel = cand_tokens toks cs' \<and> sel \<le> budget \<and> (\<exists>ds. cs = ds @ cs')"
proof (induction cs)
  case (Cons c cs)
  show ?case
  proof (cases "cand_tokens toks (c # cs) > budget")
    case True
    with Cons.prems have "drop_lowest toks budget (cand_tokens toks cs) cs = (sel, cs')" by simp
    from Cons.IH [OF this] show ?thesis by (metis append_Cons)
  qed (use Cons.prems in auto)
qed simp

lemma backfill_spec:
  "backfill toks budget (sel, acc) cs = (sel', acc') \<Longrightarrow> sel = cand_tokens toks acc \<Longrightarrow> sel \<le> budget \<Longrightarrow>
    sel' = cand_tokens toks acc' \<and> sel' \<le> budget \<and> (\<exists>ds. acc' = acc @ ds \<and> subseq ds cs)"
proof (induction cs arbitrary: sel acc)
  case (Cons c cs)
  show ?case
  proof (cases "sel + toks ! fst c > budget")
    case True
    with Cons.prems have "backfill toks budget (sel, acc) cs = (sel', acc')" by simp
    from Cons.IH [OF this Cons.prems(2,3)] show ?thesis by blast
  next
    case False
    with Cons.prems have "backfill toks budget (sel + toks ! fst c, acc @ [c]) cs = (sel', acc')" by simp
    from Cons.IH [OF this] Cons.prems(2) False obtain ds where
      "sel' = cand_tokens toks acc'" "sel' \<le> budget" "acc' = (acc @ [c]) @ ds" "subseq ds cs" by auto
    then show ?thesis by (intro conjI exI [of _ "c # ds"]) auto
  qed
qed simp

lemma add_tail_spec:
  "add_tail toks scores budget (sel, acc) is = (sel', acc') \<Longrightarrow> sel = cand_tokens toks acc \<Longrightarrow> distinct (map fst acc) \<Longrightarrow>
    sel \<le> budget \<or> within_tolerance sel budget \<Longrightarrow>
    sel' = cand_tokens toks acc' \<and> sel \<le> sel' \<and> distinct (map fst acc') \<and> (sel' \<le> budget \<or> within_tolerance sel' budget)
    \<and> fst ` set acc \<subseteq> fst ` set acc' \<and> fst ` set acc' \<subseteq> fst ` set acc \<union> set is
    \<and> (\<forall>i \<in> set is. i \<notin> fst ` set acc' \<longrightarrow> (\<exists>s \<le> sel'. \<not> within_tolerance (s + toks ! i) budget))"
proof (induction "is" arbitrary: sel acc)
  case Nil
  then show ?case by auto
next
  case (Cons i "is")
  show ?case
  proof (cases "i \<in> fst ` set acc")
    case True
    with Cons.prems(1) have "add_tail toks scores budget (sel, acc) is = (sel', acc')" by simp
    from Cons.IH [OF this Cons.prems(2-4)] True show ?thesis by auto
  next
    case new: False
    show ?thesis
    proof (cases "within_tolerance (sel + toks ! i) budget")
      case True
      with new Cons.prems(1) have "add_tail toks scores budget (sel + toks ! i, acc @ [(i, scores ! i)]) is = (sel', acc')" by simp
      from Cons.IH [OF this] Cons.prems(2,3) new True show ?thesis by auto
    next
      case False
      with new Cons.prems(1) have "add_tail toks scores budget (sel, acc) is = (sel', acc')" by simp
      note IH = Cons.IH [OF this Cons.prems(2-4)]
      have "\<exists>s \<le> sel'. \<not> within_tolerance (s + toks ! i) budget" using IH False by blast
      with IH show ?thesis by auto
    qed
  qed
qed

lemma subseq_distinct_list: "subseq xs ys \<Longrightarrow> distinct ys \<Longrightarrow> distinct xs"
  by (induction rule: list_emb.induct) (auto dest: list_emb_set)

definition sort_permutes :: "trajectory_env \<Rightarrow> bool" where
  "sort_permutes env = (\<forall>less xs. mset (sort_by env less xs) = mset xs)"

definition good_turns :: "nat list \<Rightarrow> nat \<Rightarrow> nat \<Rightarrow> nat list \<Rightarrow> bool" where
  "good_turns toks budget sel chosen =
     (sorted_wrt (<) chosen \<and> (\<forall>i \<in> set chosen. i < length toks) \<and> sel = sum_list (map ((!) toks) chosen)
      \<and> (sel \<le> budget \<or> within_tolerance sel budget)
      \<and> (\<forall>i < length toks. length toks \<le> i + 2 \<and> i \<notin> set chosen \<longrightarrow>
           (\<exists>s \<le> sel. \<not> within_tolerance (s + toks ! i) budget)))"

lemma select_turns_good:
  assumes "select_turns env toks scores budget threshold = (sel, chosen)" "sort_permutes env" "length toks = length scores"
  shows "good_turns toks budget sel chosen"
proof -
  define cands where "cands = map (\<lambda>i. (i, scores ! i)) [0..<length scores]"
  define above where "above = sort_by env fless (filter (\<lambda>c. fle threshold (snd c)) cands)"
  define below where "below = sort_by env (\<lambda>a b. fless b a) (filter (\<lambda>c. \<not> fle threshold (snd c)) cands)"
  obtain s1 a1 where 1: "drop_lowest toks budget (cand_tokens toks above) above = (s1, a1)" by force
  obtain s2 a2 where 2: "backfill toks budget (s1, a1) below = (s2, a2)" by force
  obtain s3 a3 where 3: "add_tail toks scores budget (s2, a2) (tail_positions (length scores)) = (s3, a3)" by force
  have out: "sel = s3" "chosen = sort (map fst a3)"
    using assms(1) 1 2 3 unfolding select_turns_def Let_def cands_def [symmetric] above_def [symmetric] below_def [symmetric] by simp_all
  note d = drop_lowest_spec [OF 1]
  have d': "s1 = cand_tokens toks a1" "s1 \<le> budget" using d by blast+
  note b = backfill_spec [OF 2 d']
  from d obtain ds where ds: "above = ds @ a1" by blast
  from b obtain es where es: "a2 = a1 @ es" "subseq es below" by blast
  have "mset above + mset below = mset cands"
    using assms(2) by (simp add: above_def below_def sort_permutes_def)
  then have ab: "mset (above @ below) = mset cands" by simp
  have "distinct (map fst cands)" by (simp add: cands_def comp_def)
  moreover have "mset (map fst (above @ below)) = mset (map fst cands)" using arg_cong [OF ab, of "image_mset fst"] by simp
  ultimately have dab: "distinct (map fst (above @ below))" by (metis mset_eq_imp_distinct_iff)
  have "subseq a2 (above @ below)" using es ds by (simp add: list_emb_append_mono)
    (metis append_assoc list_emb_append2 list_emb_append_mono subseq_order.order_refl)
  then have sub: "subseq (map fst a2) (map fst (above @ below))" by (rule subseq_map)
  then have da: "distinct (map fst a2)" using dab by (rule subseq_distinct_list)
  have "fst ` set a2 \<subseteq> fst ` set cands"
    using list_emb_set [OF sub] mset_eq_setD [OF ab] by (metis (no_types, lifting) image_mono list.set_map set_append subsetI image_set)
  then have r2: "fst ` set a2 \<subseteq> {..<length scores}" by (auto simp: cands_def)
  have b': "s2 = cand_tokens toks a2" "s2 \<le> budget" using b by blast+
  then have "s2 \<le> budget \<or> within_tolerance s2 budget" by blast
  note t = add_tail_spec [OF 3 b'(1) da this]
  have tp: "set (tail_positions (length scores)) = {i. i < length scores \<and> length scores \<le> i + 2}"
    by (auto simp: tail_positions_def)
  have "mset (sort (map fst a3)) = mset (map fst a3)" by simp
  then have "sum_list (map ((!) toks) chosen) = sum_list (map ((!) toks) (map fst a3))"
    unfolding out by (metis mset_map sum_mset_sum_list)
  then have "sel = sum_list (map ((!) toks) chosen)" using t by (simp add: out cand_tokens_def comp_def)
  moreover have "sorted_wrt (<) chosen" using t by (simp add: out strict_sorted_iff)
  moreover have "fst ` set a3 \<subseteq> {..<length scores}" using t r2 tp by blast
  then have "\<forall>i \<in> set chosen. i < length toks" unfolding out assms(3) by (simp only: set_sort list.set_map) blast
  moreover have "\<forall>i < length toks. length toks \<le> i + 2 \<and> i \<notin> set chosen \<longrightarrow> (\<exists>s \<le> sel. \<not> within_tolerance (s + toks ! i) budget)"
    using t tp assms(3) by (auto simp: out)
  ultimately show ?thesis using t unfolding good_turns_def out by blast
qed


lemma turn_scores_length: "length (turn_scores env task turns) = length turns"
  by (simp add: turn_scores_def Let_def)

lemma compact_turns_over:
  assumes "\<not> sum_list (map (\<lambda>t. estimate_tokens (snd t)) turns) \<le> budget"
    and "select_turns env (map (\<lambda>t. estimate_tokens (snd t)) turns) (turn_scores env task turns) budget
      (add (median_of (turn_scores env task turns))
        (mul mad_k (mad_of (turn_scores env task turns) (median_of (turn_scores env task turns))))) = (sel, chosen)"
  shows "jfind (tr_structured (compact_turns env task budget mad_k turns)) ''briefing'' = Some (JStr (briefing (map ((!) turns) chosen)))"
    and "\<exists>st. jfind (tr_structured (compact_turns env task budget mad_k turns)) ''stats'' = Some st
      \<and> jfind st ''selected_tokens'' = Some (nat_json sel)"
proof -
  show "jfind (tr_structured (compact_turns env task budget mad_k turns)) ''briefing'' = Some (JStr (briefing (map ((!) turns) chosen)))"
    unfolding compact_turns_def Let_def if_not_P [OF assms(1)] assms(2) prod.case by (simp add: tool_ok_def)
  show "\<exists>st. jfind (tr_structured (compact_turns env task budget mad_k turns)) ''stats'' = Some st
      \<and> jfind st ''selected_tokens'' = Some (nat_json sel)"
    unfolding compact_turns_def Let_def if_not_P [OF assms(1)] assms(2) prod.case by (simp add: tool_ok_def)
qed

text \<open>
  C40: The briefing consists of turns of the transcript in their order, each once, and the number
  of tokens it reports is theirs.  When the turns exceed the budget, the selected tokens are
  within the budget, or within 1.2 times the budget in double
  precision when one of the last two turns was added over it, and a last turn is missing only
  if it would have exceeded that tolerance.  This holds whatever the scores and the order of
  equal scores are.
\<close>

theorem trajectory_selection:
  assumes "sort_permutes env" and "sum_list (map (\<lambda>t. estimate_tokens (snd t)) turns) > budget"
  shows "\<exists>sel chosen. good_turns (map (\<lambda>t. estimate_tokens (snd t)) turns) budget sel chosen
    \<and> jfind (tr_structured (compact_turns env task budget mad_k turns)) ''briefing'' = Some (JStr (briefing (map ((!) turns) chosen)))
    \<and> (\<exists>st. jfind (tr_structured (compact_turns env task budget mad_k turns)) ''stats'' = Some st
         \<and> jfind st ''selected_tokens'' = Some (nat_json sel))"
proof -
  let ?toks = "map (\<lambda>t. estimate_tokens (snd t)) turns"
  let ?scores = "turn_scores env task turns"
  obtain sel chosen where c: "select_turns env ?toks ?scores budget
      (add (median_of ?scores) (mul mad_k (mad_of ?scores (median_of ?scores)))) = (sel, chosen)" by force
  have n: "\<not> sum_list ?toks \<le> budget" using assms(2) by simp
  have "good_turns ?toks budget sel chosen"
    using c assms(1) by (rule select_turns_good) (simp add: turn_scores_length)
  then show ?thesis using compact_turns_over [OF n c] by blast
qed

definition plain_env :: trajectory_env where
  "plain_env = \<lparr>home = None, glob = \<lambda>_. None, read_file = \<lambda>_. None,
     json_lib = \<lparr>jdump = \<lambda>_. [], jparse = \<lambda>_. None, fnmatch = \<lambda>_ _. False\<rparr>,
     task_embedder = \<lparr>has_queue = False, has_model = False, model_embed = \<lambda>_. (0, []), query_embed = \<lambda>_. []\<rparr>,
     transform_batch = \<lambda>_. [], sort_by = \<lambda>_ xs. xs\<rparr>"

theorem trajectory_selection_witness:
  "\<exists>sel chosen. good_turns [1, 1] 1 sel chosen
    \<and> jfind (tr_structured (compact_turns plain_env ''t'' 1 (Fin 0) [(''user'', ''a''), (''user'', ''b'')])) ''briefing''
      = Some (JStr (briefing (map ((!) [(''user'', ''a''), (''user'', ''b'')]) chosen)))"
proof -
  have e: "estimate_tokens ''a'' = 1" "estimate_tokens ''b'' = 1"
    by (simp_all add: estimate_tokens_def f32_round_def is_space_def)
  have "sort_permutes plain_env" by (simp add: sort_permutes_def plain_env_def)
  moreover have "sum_list (map (\<lambda>t. estimate_tokens (snd t)) [(''user'', ''a''), (''user'', ''b'')]) > 1" by (simp add: e)
  ultimately obtain sel chosen where "good_turns (map (\<lambda>t. estimate_tokens (snd t)) [(''user'', ''a''), (''user'', ''b'')]) 1 sel chosen"
    "jfind (tr_structured (compact_turns plain_env ''t'' 1 (Fin 0) [(''user'', ''a''), (''user'', ''b'')])) ''briefing''
      = Some (JStr (briefing (map ((!) [(''user'', ''a''), (''user'', ''b'')]) chosen)))"
    using trajectory_selection [of plain_env 1 "[(''user'', ''a''), (''user'', ''b'')]" "''t''" "Fin 0"] by blast
  then show ?thesis by (auto simp: e)
qed

end
