(* ===== verification/Soul_Controller.thy ===== *)
theory Soul_Controller
  imports Chitta_Base Step_Systems
begin

text \<open>
  Leader election (\<open>soul_controller.cpp\<close>): instances on several hosts compete for a lease, a
  directory on a shared file system.  Whoever creates the directory leads and keeps renewing
  the file \<open>leader.json\<close> in it; the others remove a lease that looks expired and try again on
  their next tick.

  One step is one system call or one access to an atomic.  Every call may fail, every reading
  of the clock is a parameter of its step, and an instance may die between two steps.  Files
  are cells of a store, because the temporary file that one instance opens can be the one
  another instance renames.  Parameters: the event store, of which only the calls are recorded.
\<close>

section \<open>The shared directory\<close>

text \<open>
  The contents of a file is a lease, or \<open>None\<close> for an empty or cut-off text, which does not
  parse.
\<close>

record lease =
  instance_id :: string
  ts_ms :: int
  epoch :: u64

record lease_fs =
  cells :: "lease option list"
  lease_dir :: bool
  tmp_file :: "nat option"
  leader_json :: "nat option"

definition open_tmp :: "lease_fs \<Rightarrow> (nat \<times> lease_fs) option" where
  "open_tmp fs =
     (if \<not> lease_dir fs then None
      else case tmp_file fs of
             Some i \<Rightarrow> Some (i, fs\<lparr>cells := (cells fs)[i := None]\<rparr>)
           | None \<Rightarrow> Some (length (cells fs), fs\<lparr>cells := cells fs @ [None], tmp_file := Some (length (cells fs))\<rparr>))"

definition rename_tmp :: "lease_fs \<Rightarrow> lease_fs option" where
  "rename_tmp fs =
     (case tmp_file fs of None \<Rightarrow> None | Some i \<Rightarrow> Some (fs\<lparr>tmp_file := None, leader_json := Some i\<rparr>))"

definition remove_marker :: "bool \<Rightarrow> lease_fs \<Rightarrow> lease_fs" where
  "remove_marker ok fs = (if ok then fs\<lparr>leader_json := None\<rparr> else fs)"

definition remove_dir :: "bool \<Rightarrow> lease_fs \<Rightarrow> lease_fs" where
  "remove_dir ok fs =
     (if ok \<and> tmp_file fs = None \<and> leader_json fs = None then fs\<lparr>lease_dir := False\<rparr> else fs)"

definition read_marker :: "lease_fs \<Rightarrow> lease option" where
  "read_marker fs = (case leader_json fs of None \<Rightarrow> None | Some i \<Rightarrow> cells fs ! i)"

definition lease_expired :: "bool \<Rightarrow> int \<Rightarrow> int \<Rightarrow> lease_fs \<Rightarrow> bool" where
  "lease_expired ok ttl now fs =
     (case (if ok then read_marker fs else None) of None \<Rightarrow> True | Some l \<Rightarrow> now - ts_ms l > ttl)"

section \<open>One instance\<close>

datatype marker_use = Acquiring | Renewing

datatype tick_pc =
    Not_started
  | Loop_test
  | Leader_test
  | Mkdir
  | Stamp marker_use
  | Open_tmp marker_use lease
  | Fill marker_use lease nat
  | Rename marker_use
  | Drop_marker
  | Drop_dir
  | Check
  | Stale_marker
  | Stale_dir
  | Won
  | Rise
  | Lost
  | Lost_token
  | Asleep
  | Ended

datatype stop_pc = Serving | Joining | Testing | Release_marker | Release_dir | Stopped

type_synonym event = "string \<times> string \<times> string \<times> string"

record controller =
  my_id :: string
  lease_ttl :: int
  running :: bool
  is_leader :: bool
  fencing_token :: u64
  tick :: tick_pc
  stopper :: stop_pc
  pending :: "event list"
  alive :: bool

definition soul_controller :: "string \<Rightarrow> int \<Rightarrow> controller" where
  "soul_controller i ttl_s =
     \<lparr>my_id = i, lease_ttl = 1000 * ttl_s, running = False, is_leader = False, fencing_token = 0,
      tick = Not_started, stopper = Serving, pending = [], alive = True\<rparr>"

text \<open>Where a thread goes when the marker could not be written.\<close>

fun marker_failed :: "marker_use \<Rightarrow> tick_pc" where
  "marker_failed Acquiring = Drop_marker"
| "marker_failed Renewing = Lost"

fun marker_written :: "marker_use \<Rightarrow> tick_pc" where
  "marker_written Acquiring = Won"
| "marker_written Renewing = Asleep"

fun marker_epoch :: "marker_use \<Rightarrow> u64 \<Rightarrow> u64" where
  "marker_epoch Acquiring tok = tok + 1"
| "marker_epoch Renewing tok = tok"

definition write_marker :: "bool \<Rightarrow> tick_pc \<Rightarrow> lease_fs \<Rightarrow> lease_fs \<times> tick_pc" where
  "write_marker ok pc fs =
     (case pc of
        Open_tmp u l \<Rightarrow>
          (case (if ok then open_tmp fs else None) of
             Some (i, fs') \<Rightarrow> (fs', Fill u l i) | None \<Rightarrow> (fs, marker_failed u))
      | Fill u l i \<Rightarrow> (fs\<lparr>cells := (cells fs)[i := if ok then Some l else None]\<rparr>, Rename u)
      | Rename u \<Rightarrow>
          (case (if ok then rename_tmp fs else None) of
             Some fs' \<Rightarrow> (fs', marker_written u) | None \<Rightarrow> (fs, marker_failed u))
      | _ \<Rightarrow> (fs, pc))"

text \<open>The directory after one attempt to create it, and where the thread goes.\<close>

definition try_mkdir :: "bool \<Rightarrow> lease_fs \<Rightarrow> lease_fs \<times> tick_pc" where
  "try_mkdir ok fs =
     (if \<not> ok then (fs, Asleep)
      else if lease_dir fs then (fs, Check)
      else (fs\<lparr>lease_dir := True\<rparr>, Stamp Acquiring))"

text \<open>One step of the tick thread.\<close>

definition tick_step :: "bool \<Rightarrow> int \<Rightarrow> lease_fs \<Rightarrow> controller \<Rightarrow> (lease_fs \<times> controller) option" where
  "tick_step ok now fs c =
     (case tick c of
        Loop_test \<Rightarrow> Some (fs, c\<lparr>tick := if running c then Leader_test else Ended\<rparr>)
      | Leader_test \<Rightarrow> Some (fs, c\<lparr>tick := if is_leader c then Stamp Renewing else Mkdir\<rparr>)
      | Mkdir \<Rightarrow> Some (case try_mkdir ok fs of (fs', pc) \<Rightarrow> (fs', c\<lparr>tick := pc\<rparr>))
      | Stamp u \<Rightarrow>
          Some (fs, c\<lparr>tick := Open_tmp u \<lparr>instance_id = my_id c, ts_ms = now, epoch = marker_epoch u (fencing_token c)\<rparr>\<rparr>)
      | Open_tmp u l \<Rightarrow> Some (case write_marker ok (tick c) fs of (fs', pc) \<Rightarrow> (fs', c\<lparr>tick := pc\<rparr>))
      | Fill u l i \<Rightarrow> Some (case write_marker ok (tick c) fs of (fs', pc) \<Rightarrow> (fs', c\<lparr>tick := pc\<rparr>))
      | Rename u \<Rightarrow> Some (case write_marker ok (tick c) fs of (fs', pc) \<Rightarrow> (fs', c\<lparr>tick := pc\<rparr>))
      | Drop_marker \<Rightarrow> Some (remove_marker ok fs, c\<lparr>tick := Drop_dir\<rparr>)
      | Drop_dir \<Rightarrow> Some (remove_dir ok fs, c\<lparr>tick := Asleep\<rparr>)
      | Check \<Rightarrow> Some (fs, c\<lparr>tick := if lease_expired ok (lease_ttl c) now fs then Stale_marker else Asleep\<rparr>)
      | Stale_marker \<Rightarrow> Some (remove_marker ok fs, c\<lparr>tick := Stale_dir\<rparr>)
      | Stale_dir \<Rightarrow> Some (remove_dir ok fs, c\<lparr>tick := Asleep\<rparr>)
      | Won \<Rightarrow> Some (fs, c\<lparr>fencing_token := fencing_token c + 1, tick := Rise\<rparr>)
      | Rise \<Rightarrow> Some (fs, c\<lparr>is_leader := True, tick := Asleep\<rparr>)
      | Lost \<Rightarrow> Some (fs, c\<lparr>is_leader := False, tick := Lost_token\<rparr>)
      | Lost_token \<Rightarrow> Some (fs, c\<lparr>fencing_token := fencing_token c + 1, tick := Asleep\<rparr>)
      | Asleep \<Rightarrow> Some (fs, c\<lparr>tick := Loop_test\<rparr>)
      | Not_started \<Rightarrow> None
      | Ended \<Rightarrow> None)"

text \<open>
  The members called from outside: \<open>start\<close> (also after a \<open>stop\<close>), and \<open>stop\<close>, which the
  destructor calls as well.
\<close>

definition start :: "controller \<Rightarrow> controller option" where
  "start c =
     (if (tick c = Not_started \<or> tick c = Ended) \<and> (stopper c = Serving \<or> stopper c = Stopped)
      then Some (c\<lparr>running := True, tick := Loop_test, stopper := Serving\<rparr>) else None)"

definition stop_call :: "controller \<Rightarrow> controller option" where
  "stop_call c =
     (if stopper c = Serving \<or> stopper c = Stopped then Some (c\<lparr>running := False, stopper := Joining\<rparr>) else None)"

definition stop_step :: "bool \<Rightarrow> lease_fs \<Rightarrow> controller \<Rightarrow> (lease_fs \<times> controller) option" where
  "stop_step ok fs c =
     (case stopper c of
        Joining \<Rightarrow> if tick c = Not_started \<or> tick c = Ended then Some (fs, c\<lparr>stopper := Testing\<rparr>) else None
      | Testing \<Rightarrow> Some (fs, c\<lparr>stopper := if is_leader c then Release_marker else Stopped\<rparr>)
      | Release_marker \<Rightarrow> Some (remove_marker ok fs, c\<lparr>stopper := Release_dir\<rparr>)
      | Release_dir \<Rightarrow> Some (remove_dir ok fs, c\<lparr>stopper := Stopped\<rparr>)
      | _ \<Rightarrow> None)"

text \<open>
  \<open>emit_authoritative\<close> tests \<open>is_leader_\<close> and then reads the token; \<open>emit_intent\<close> always
  emits the token 0.
\<close>

definition emit_authoritative :: "event \<Rightarrow> controller \<Rightarrow> bool \<times> controller" where
  "emit_authoritative e c = (if is_leader c then (True, c\<lparr>pending := pending c @ [e]\<rparr>) else (False, c))"

record emission =
  by_instance :: nat
  authoritative :: bool
  token :: u64
  what :: event

definition emit_pending :: "nat \<Rightarrow> nat \<Rightarrow> controller \<Rightarrow> (controller \<times> emission) option" where
  "emit_pending k j c =
     (if j < length (pending c)
      then Some (c\<lparr>pending := take j (pending c) @ drop (Suc j) (pending c)\<rparr>,
                 \<lparr>by_instance = k, authoritative = True, token = fencing_token c, what = pending c ! j\<rparr>)
      else None)"

definition emit_intent :: "nat \<Rightarrow> event \<Rightarrow> emission" where
  "emit_intent k e = \<lparr>by_instance = k, authoritative = False, token = 0, what = e\<rparr>"

section \<open>All instances\<close>

datatype act =
    Tick bool int
  | Start
  | Stop
  | Stop_step bool
  | Emit event
  | Emit_pending nat
  | Intent event
  | Crash

record soul =
  shared :: lease_fs
  insts :: "controller list"
  emitted :: "emission list"

text \<open>What one action of the \<open>k\<close>-th instance does to the directory, the instance and the log.\<close>

definition inst_act :: "nat \<Rightarrow> act \<Rightarrow> lease_fs \<Rightarrow> controller \<Rightarrow> (lease_fs \<times> controller \<times> emission list) option" where
  "inst_act k a fs c =
     (if \<not> alive c then None
      else case a of
        Tick ok now \<Rightarrow> map_option (\<lambda>(fs', c'). (fs', c', [])) (tick_step ok now fs c)
      | Start \<Rightarrow> map_option (\<lambda>c'. (fs, c', [])) (start c)
      | Stop \<Rightarrow> map_option (\<lambda>c'. (fs, c', [])) (stop_call c)
      | Stop_step ok \<Rightarrow> map_option (\<lambda>(fs', c'). (fs', c', [])) (stop_step ok fs c)
      | Emit e \<Rightarrow> Some (fs, snd (emit_authoritative e c), [])
      | Emit_pending j \<Rightarrow> map_option (\<lambda>(c', m). (fs, c', [m])) (emit_pending k j c)
      | Intent e \<Rightarrow> Some (fs, c, [emit_intent k e])
      | Crash \<Rightarrow> Some (fs, c\<lparr>alive := False\<rparr>, []))"

definition soul_act :: "nat \<times> act \<Rightarrow> soul \<Rightarrow> soul option" where
  "soul_act l s =
     (case l of (k, a) \<Rightarrow>
        if k < length (insts s) then
          map_option (\<lambda>(fs, c, ms). \<lparr>shared = fs, insts = (insts s)[k := c], emitted = emitted s @ ms\<rparr>)
            (inst_act k a (shared s) (insts s ! k))
        else None)"

inductive soul_step :: "soul \<Rightarrow> soul \<Rightarrow> bool" where
  soul_stepI: "soul_act l s = Some t \<Longrightarrow> soul_step s t"

fun soul_run :: "(nat \<times> act) list \<Rightarrow> soul \<Rightarrow> soul option" where
  "soul_run [] s = Some s"
| "soul_run (l # ls) s = (case soul_act l s of None \<Rightarrow> None | Some t \<Rightarrow> soul_run ls t)"

definition soul_start :: "(string \<times> int) list \<Rightarrow> soul" where
  "soul_start cs =
     \<lparr>shared = \<lparr>cells = [], lease_dir = False, tmp_file = None, leader_json = None\<rparr>,
      insts = map (\<lambda>(i, ttl). soul_controller i ttl) cs, emitted = []\<rparr>"

section \<open>One leader at a time\<close>

text \<open>
  An instance holds the lease from the moment it created the directory until it gave it up,
  lost it or died.
\<close>

fun acquiring :: "tick_pc \<Rightarrow> bool" where
  "acquiring (Stamp u) = (u = Acquiring)"
| "acquiring (Open_tmp u l) = (u = Acquiring)"
| "acquiring (Fill u l i) = (u = Acquiring)"
| "acquiring (Rename u) = (u = Acquiring)"
| "acquiring Drop_marker = True"
| "acquiring Drop_dir = True"
| "acquiring Won = True"
| "acquiring Rise = True"
| "acquiring pc = False"

definition seeking :: "tick_pc \<Rightarrow> bool" where
  "seeking pc = (acquiring pc \<or> pc = Mkdir \<or> pc = Check \<or> pc = Stale_marker \<or> pc = Stale_dir)"

definition holder :: "controller \<Rightarrow> bool" where
  "holder c = (alive c \<and> (acquiring (tick c) \<or> is_leader c \<and> stopper c \<noteq> Stopped))"

definition leads :: "controller \<Rightarrow> bool" where
  "leads c = (alive c \<and> running c \<and> is_leader c)"

text \<open>
  What the scheme needs: a controller is started once and stopped once, and while an instance
  removes a lease it found expired nobody holds one (leaders renew in time, and nobody looks
  at a lease before its marker is there).
\<close>

fun orderly :: "act \<Rightarrow> controller \<Rightarrow> bool" where
  "orderly Start c = (stopper c = Serving \<and> tick c = Not_started)"
| "orderly Stop c = (stopper c = Serving)"
| "orderly _ c = True"

definition undisturbed :: "soul \<Rightarrow> bool" where
  "undisturbed s =
     (\<forall>c\<in>set (insts s). alive c \<and> (tick c = Stale_marker \<or> tick c = Stale_dir) \<longrightarrow> (\<forall>d\<in>set (insts s). \<not> holder d))"

inductive orderly_step :: "soul \<Rightarrow> soul \<Rightarrow> bool" where
  orderly_stepI: "soul_act (k, a) s = Some t \<Longrightarrow> orderly a (insts s ! k) \<Longrightarrow> undisturbed s \<Longrightarrow> orderly_step s t"

text \<open>The specification: a lock that is free or has one owner.\<close>

definition owners :: "soul \<Rightarrow> nat list" where
  "owners s = filter (\<lambda>k. holder (insts s ! k)) [0..<length (insts s)]"

definition lock_step :: "nat list \<Rightarrow> nat list \<Rightarrow> bool" where
  "lock_step os os' = (os = [] \<and> length os' = 1 \<or> length os = 1 \<and> os' = [])"

definition inst_ok :: "lease_fs \<Rightarrow> controller \<Rightarrow> bool" where
  "inst_ok fs c =
     ((holder c \<longrightarrow> lease_dir fs) \<and> (seeking (tick c) \<longrightarrow> \<not> is_leader c) \<and> (running c \<longrightarrow> stopper c = Serving) \<and>
      (stopper c \<noteq> Serving \<and> stopper c \<noteq> Joining \<longrightarrow> tick c = Not_started \<or> tick c = Ended) \<and>
      (stopper c = Release_marker \<or> stopper c = Release_dir \<longrightarrow> is_leader c))"

definition soul_inv :: "soul \<Rightarrow> bool" where
  "soul_inv s = ((\<forall>c\<in>set (insts s). inst_ok (shared s) c) \<and> length (owners s) \<le> 1)"

lemma open_tmp_dir: "open_tmp fs = Some (i, fs') \<Longrightarrow> lease_dir fs' = lease_dir fs"
  by (auto simp: open_tmp_def split: if_splits option.splits)

lemma rename_tmp_dir: "rename_tmp fs = Some fs' \<Longrightarrow> lease_dir fs' = lease_dir fs"
  by (auto simp: rename_tmp_def split: option.splits)

lemma write_marker_facts:
  assumes "write_marker ok pc fs = (fs', pc')" "(\<exists>l. pc = Open_tmp u l) \<or> (\<exists>l i. pc = Fill u l i) \<or> pc = Rename u"
  shows "lease_dir fs' = lease_dir fs \<and> acquiring pc' = acquiring pc \<and> (seeking pc' \<longrightarrow> seeking pc)"
  using assms by (cases u) (auto simp: seeking_def write_marker_def open_tmp_dir rename_tmp_dir split: if_splits option.splits prod.splits)

text \<open>What one action of one instance does to the directory and to who holds it.\<close>

definition act_effect :: "lease_fs \<Rightarrow> controller \<Rightarrow> lease_fs \<Rightarrow> controller \<Rightarrow> bool" where
  "act_effect fs c fs' c' =
     ((lease_dir fs \<and> \<not> lease_dir fs' \<longrightarrow> \<not> holder c' \<and> (holder c \<or> alive c \<and> tick c = Stale_dir)) \<and>
      (holder c' \<and> \<not> holder c \<longrightarrow> \<not> lease_dir fs \<and> lease_dir fs') \<and>
      (\<not> lease_dir fs \<and> lease_dir fs' \<longrightarrow> holder c'))"

lemma move_effect:
  assumes "lease_dir fs' = lease_dir fs" "acquiring pc = acquiring (tick c)" "c' = c\<lparr>tick := pc\<rparr>"
    "inst_ok fs c" "alive c" "tick c \<noteq> Not_started" "tick c \<noteq> Ended" "seeking pc \<longrightarrow> \<not> is_leader c"
  shows "inst_ok fs' c' \<and> act_effect fs c fs' c'"
  using assms
  by (cases "is_leader c"; cases "running c"; cases "stopper c") (auto simp: inst_ok_def act_effect_def holder_def)

lemma tick_effect:
  assumes "tick_step ok now fs c = Some (fs', c')" "inst_ok fs c" "alive c"
  shows "inst_ok fs' c' \<and> act_effect fs c fs' c'"
proof -
  note b = assms(2,3)
  have st: "stopper c = Serving \<or> stopper c = Joining" if "tick c \<noteq> Not_started" "tick c \<noteq> Ended"
    using b(1) that by (auto simp: inst_ok_def)
  have nl: "\<not> is_leader c" if "seeking (tick c)" using b(1) that by (auto simp: inst_ok_def)
  have wm: ?thesis if "write_marker ok (tick c) fs = (fs', pc)" "c' = c\<lparr>tick := pc\<rparr>"
    "(\<exists>l. tick c = Open_tmp u l) \<or> (\<exists>l i. tick c = Fill u l i) \<or> tick c = Rename u" for pc u
  proof -
    have "lease_dir fs' = lease_dir fs \<and> acquiring pc = acquiring (tick c) \<and> (seeking pc \<longrightarrow> seeking (tick c))"
      using write_marker_facts [OF that(1,3)] by blast
    with that(2,3) nl b show ?thesis by (intro move_effect [of fs' fs pc c c']) auto
  qed
  have mv: ?thesis if "c' = c\<lparr>tick := tick c'\<rparr> \<and> lease_dir fs' = lease_dir fs \<and> acquiring (tick c') = acquiring (tick c) \<and>
      (seeking (tick c') \<longrightarrow> \<not> is_leader c) \<and> tick c \<noteq> Not_started \<and> tick c \<noteq> Ended"
    using that b by (intro move_effect [of fs' fs "tick c'" c c']) auto
  have dirs: "alive c \<and> (acquiring (tick c) \<or> is_leader c \<and> stopper c \<noteq> Stopped) \<longrightarrow> lease_dir fs"
    and rs: "running c \<longrightarrow> stopper c = Serving" using b(1) by (auto simp: inst_ok_def holder_def)
  show ?thesis
  proof (cases "tick c")
    case Mkdir
    with assms(1) have "(fs' = fs\<lparr>lease_dir := True\<rparr> \<and> \<not> lease_dir fs \<and> c' = c\<lparr>tick := Stamp Acquiring\<rparr>) \<or> (fs' = fs \<and> (c' = c\<lparr>tick := Asleep\<rparr> \<or> c' = c\<lparr>tick := Check\<rparr>))"
      by (auto simp: tick_step_def try_mkdir_def split: if_splits prod.splits)
    moreover have "\<not> is_leader c" using nl Mkdir by (simp add: seeking_def)
    ultimately show ?thesis using Mkdir assms(3) st dirs rs
      by (auto simp: inst_ok_def seeking_def act_effect_def holder_def)
  next
    case Drop_dir
    with assms(1) have "c' = c\<lparr>tick := Asleep\<rparr> \<and> (lease_dir fs' \<longrightarrow> lease_dir fs)"
      by (auto simp: tick_step_def remove_dir_def split: if_splits)
    moreover have "\<not> is_leader c" using nl Drop_dir by (simp add: seeking_def)
    ultimately show ?thesis using Drop_dir assms(3) st dirs rs
      by (auto simp: inst_ok_def seeking_def act_effect_def holder_def)
  next
    case Stale_dir
    with assms(1) have "c' = c\<lparr>tick := Asleep\<rparr> \<and> (lease_dir fs' \<longrightarrow> lease_dir fs)"
      by (auto simp: tick_step_def remove_dir_def split: if_splits)
    moreover have "\<not> is_leader c" using nl Stale_dir by (simp add: seeking_def)
    ultimately show ?thesis using Stale_dir assms(3) st dirs rs
      by (auto simp: inst_ok_def seeking_def act_effect_def holder_def)
  next
    case Won
    with assms(1) have "c' = c\<lparr>fencing_token := fencing_token c + 1, tick := Rise\<rparr> \<and> fs' = fs"
      by (auto simp: tick_step_def )
    moreover have "\<not> is_leader c" using nl Won by (simp add: seeking_def)
    ultimately show ?thesis using Won assms(3) st dirs rs
      by (auto simp: inst_ok_def seeking_def act_effect_def holder_def)
  next
    case Rise
    with assms(1) have "c' = c\<lparr>is_leader := True, tick := Asleep\<rparr> \<and> fs' = fs"
      by (auto simp: tick_step_def )
    moreover have "\<not> is_leader c" using nl Rise by (simp add: seeking_def)
    ultimately show ?thesis using Rise assms(3) st dirs rs
      by (auto simp: inst_ok_def seeking_def act_effect_def holder_def)
  next
    case Lost
    with assms(1) have "c' = c\<lparr>is_leader := False, tick := Lost_token\<rparr> \<and> fs' = fs"
      by (auto simp: tick_step_def )
    then show ?thesis using Lost assms(3) st dirs rs
      by (auto simp: inst_ok_def seeking_def act_effect_def holder_def)
  next
    case Lost_token
    with assms(1) have "c' = c\<lparr>fencing_token := fencing_token c + 1, tick := Asleep\<rparr> \<and> fs' = fs"
      by (auto simp: tick_step_def )
    then show ?thesis using Lost_token assms(3) st dirs rs
      by (auto simp: inst_ok_def seeking_def act_effect_def holder_def)
  next
    case (Open_tmp u l)
    with assms(1) obtain pc where "write_marker ok (tick c) fs = (fs', pc)" "c' = c\<lparr>tick := pc\<rparr>"
      by (auto simp: tick_step_def split: prod.splits)
    then show ?thesis using wm [of pc u] Open_tmp by simp
  next
    case (Fill u l i)
    with assms(1) obtain pc where "write_marker ok (tick c) fs = (fs', pc)" "c' = c\<lparr>tick := pc\<rparr>"
      by (auto simp: tick_step_def split: prod.splits)
    then show ?thesis using wm [of pc u] Fill by simp
  next
    case (Rename u)
    with assms(1) obtain pc where "write_marker ok (tick c) fs = (fs', pc)" "c' = c\<lparr>tick := pc\<rparr>"
      by (auto simp: tick_step_def split: prod.splits)
    then show ?thesis using wm [of pc u] Rename by simp
  qed (((rule mv; use assms(1) nl in \<open>auto simp: tick_step_def remove_marker_def seeking_def split: if_splits\<close>)
      | (use assms(1) in \<open>simp add: tick_step_def\<close>))+)
qed

lemma keep_effect:
  assumes "inst_ok fs c" "alive c' \<longrightarrow> alive c" "tick c' = tick c" "is_leader c' = is_leader c"
    "running c' = running c" "stopper c' = stopper c"
  shows "inst_ok fs c' \<and> act_effect fs c fs c'"
  using assms unfolding inst_ok_def act_effect_def holder_def by metis

lemma stop_effect:
  assumes "stop_step ok fs c = Some (fs', c')" "inst_ok fs c" "alive c"
  shows "inst_ok fs' c' \<and> act_effect fs c fs' c'"
proof (cases "stopper c")
  case Joining
  with assms show ?thesis
    by (cases "is_leader c"; cases "running c") (auto simp: stop_step_def inst_ok_def seeking_def act_effect_def holder_def split: if_splits)
next
  case Testing
  with assms show ?thesis
    by (cases "is_leader c"; cases "running c") (auto simp: stop_step_def inst_ok_def seeking_def act_effect_def holder_def split: if_splits)
next
  case Release_marker
  with assms show ?thesis
    by (cases "running c") (auto simp: stop_step_def remove_marker_def inst_ok_def seeking_def act_effect_def holder_def split: if_splits)
next
  case Release_dir
  with assms show ?thesis
    by (cases "running c") (auto simp: stop_step_def remove_dir_def inst_ok_def seeking_def act_effect_def holder_def split: if_splits)
qed (use assms(1) in \<open>simp_all add: stop_step_def\<close>)

lemma inst_act_effect:
  assumes "inst_act k a fs c = Some (fs', c', ms)" "inst_ok fs c" "orderly a c"
  shows "inst_ok fs' c' \<and> act_effect fs c fs' c'"
proof -
  have al: "alive c" using assms(1) by (simp add: inst_act_def split: if_splits)
  show ?thesis
  proof (cases a)
    case (Tick ok now)
    with assms al show ?thesis by (auto simp: inst_act_def tick_effect)
  next
    case (Stop_step ok)
    with assms al show ?thesis by (auto simp: inst_act_def stop_effect)
  next
    case Start
    with assms al have "c' = c\<lparr>running := True, tick := Loop_test, stopper := Serving\<rparr>" "fs' = fs"
      "stopper c = Serving" "tick c = Not_started"
      by (auto simp: inst_act_def start_def split: if_splits)
    with assms(2) al show ?thesis
      by (cases "is_leader c") (auto simp: inst_ok_def act_effect_def holder_def seeking_def)
  next
    case Stop
    with assms al have "c' = c\<lparr>running := False, stopper := Joining\<rparr>" "fs' = fs" "stopper c = Serving"
      by (auto simp: inst_act_def stop_call_def split: if_splits)
    with assms(2) al show ?thesis by (cases "is_leader c") (auto simp: inst_ok_def act_effect_def holder_def)
  qed (use assms al in \<open>auto simp: inst_act_def emit_authoritative_def emit_pending_def keep_effect split: if_splits\<close>)
qed

text \<open>The instances after one of them moved, and who of them holds the lease.\<close>

lemma soul_actD:
  assumes "soul_act (k, a) s = Some t"
  obtains fs c ms where "k < length (insts s)" "inst_act k a (shared s) (insts s ! k) = Some (fs, c, ms)"
    "t = \<lparr>shared = fs, insts = (insts s)[k := c], emitted = emitted s @ ms\<rparr>"
  using assms by (auto simp: soul_act_def split: if_splits)

lemma inst_act_alive: "inst_act k a fs c = Some r \<Longrightarrow> alive c"
  by (auto simp: inst_act_def split: if_splits)

lemma owners_mem: "k \<in> set (owners s) \<longleftrightarrow> k < length (insts s) \<and> holder (insts s ! k)"
  by (auto simp: owners_def)

lemma distinct_owners [simp]: "distinct (owners s)"
  by (simp add: owners_def)

lemma owners_eqI:
  assumes "length (insts t) = length (insts s)" "\<And>j. j < length (insts s) \<Longrightarrow> holder (insts t ! j) = holder (insts s ! j)"
  shows "owners t = owners s"
  using assms unfolding owners_def by (intro filter_cong) auto

lemma owners_at_most_one:
  assumes "length (owners s) \<le> 1" "j < length (insts s)" "holder (insts s ! j)"
  shows "owners s = [j]"
proof -
  have "j \<in> set (owners s)" using assms by (simp add: owners_mem)
  with assms(1) show ?thesis by (cases "owners s") auto
qed

lemma owners_unique:
  assumes "length (owners s) \<le> 1" "i < length (insts s)" "j < length (insts s)" "holder (insts s ! i)" "holder (insts s ! j)"
  shows "i = j"
  using owners_at_most_one [OF assms(1,2,4)] owners_at_most_one [OF assms(1,3,5)] by simp

lemma orderly_step_keeps:
  assumes "soul_inv s" "orderly_step s t"
  shows "soul_inv t \<and> (owners t = owners s \<or> lock_step (owners s) (owners t))"
proof -
  from assms(2) obtain k a fs c' ms where k: "k < length (insts s)"
    and act: "inst_act k a (shared s) (insts s ! k) = Some (fs, c', ms)" and ord: "orderly a (insts s ! k)"
    and t: "t = \<lparr>shared = fs, insts = (insts s)[k := c'], emitted = emitted s @ ms\<rparr>" and und: "undisturbed s"
    by (auto elim!: orderly_step.cases soul_actD)
  define c where "c = insts s ! k"
  have c: "c \<in> set (insts s)" using k by (simp add: c_def)
  have ok: "inst_ok (shared s) d" if "d \<in> set (insts s)" for d using assms(1) that by (simp add: soul_inv_def)
  have one: "length (owners s) \<le> 1" using assms(1) by (simp add: soul_inv_def)
  have eff: "inst_ok fs c'" "act_effect (shared s) c fs c'"
    using inst_act_effect [OF act ok ord] c by (auto simp: c_def)
  have vanish: "\<not> holder (insts s ! j)" if "j < length (insts s)" "j \<noteq> k" "lease_dir (shared s)" "\<not> lease_dir fs" for j
  proof
    assume h: "holder (insts s ! j)"
    from eff(2) that(3,4) have "holder c \<or> alive c \<and> tick c = Stale_dir" by (simp add: act_effect_def)
    then show False
    proof
      assume "holder c"
      then show False using owners_unique [OF one that(1) k h] that(2) by (simp add: c_def)
    next
      assume "alive c \<and> tick c = Stale_dir"
      then show False using und h c that(1) by (auto simp: undisturbed_def)
    qed
  qed
  have others: "inst_ok fs (insts s ! j)" if "j < length (insts s)" "j \<noteq> k" for j
    using ok [of "insts s ! j"] that vanish [OF that] by (auto simp: inst_ok_def)
  have inst: "insts t ! j = (if j = k then c' else insts s ! j)" if "j < length (insts s)" for j
    using that by (simp add: t)
  have len: "length (insts t) = length (insts s)" "shared t = fs" by (simp_all add: t)
  have oks: "\<forall>d\<in>set (insts t). inst_ok (shared t) d"
    using others eff(1) inst len by (auto simp: in_set_conv_nth)
  have own: "owners t = owners s \<or> lock_step (owners s) (owners t)"
  proof (cases "holder c' = holder c")
    case True
    then have "holder (insts t ! j) = holder (insts s ! j)" if "j < length (insts s)" for j
      using inst [OF that] by (simp add: c_def)
    with len(1) have "owners t = owners s" by (intro owners_eqI)
    then show ?thesis ..
  next
    case False
    show ?thesis
    proof (cases "holder c'")
      case True
      with False have "\<not> lease_dir (shared s)" using eff(2) by (auto simp: act_effect_def)
      then have none: "\<not> holder (insts s ! j)" if "j < length (insts s)" for j
        using ok [of "insts s ! j"] that by (auto simp: inst_ok_def)
      then have "owners s = []" by (auto simp: owners_def filter_empty_conv)
      moreover have "set (owners t) = {k}" using none True k inst len(1) by (auto simp: owners_mem split: if_splits)
      then have "length (owners t) = 1" by (metis distinct_card distinct_owners card_1_singleton_iff One_nat_def)
      ultimately show ?thesis by (simp add: lock_step_def)
    next
      case gone: False
      with False have h: "holder (insts s ! k)" by (simp add: c_def)
      have "owners s = [k]" by (rule owners_at_most_one [OF one k h])
      moreover have "\<not> holder (insts t ! x)" if "x < length (insts s)" for x
        using gone inst [OF that] owners_unique [OF one k that h] by (auto split: if_splits)
      then have "owners t = []" using len(1) by (simp add: owners_def filter_empty_conv)
      ultimately show ?thesis by (simp add: lock_step_def)
    qed
  qed
  moreover have "length (owners t) \<le> 1" using own one by (auto simp: lock_step_def)
  ultimately show ?thesis using oks by (simp add: soul_inv_def)
qed

definition soul_init :: "soul \<Rightarrow> bool" where
  "soul_init s = (\<exists>cs. s = soul_start cs)"

lemma soul_start_inv: "soul_inv (soul_start cs) \<and> owners (soul_start cs) = []"
proof -
  have "\<not> holder c \<and> inst_ok fs c" if "c \<in> set (insts (soul_start cs))" for c fs
    using that by (auto simp: soul_start_def soul_controller_def holder_def inst_ok_def seeking_def)
  then show ?thesis by (auto simp: soul_inv_def owners_def filter_empty_conv)
qed

interpretation sc: simulation soul_init orderly_step soul_inv "\<lambda>os. os = []" lock_step owners
  by unfold_locales (use orderly_step_keeps soul_start_inv in \<open>auto simp: soul_init_def\<close>)

lemma leaders_own:
  assumes "soul_inv s"
  shows "length (filter leads (insts s)) \<le> length (owners s)"
proof -
  have "leads c \<longrightarrow> holder c" if "c \<in> set (insts s)" for c
    using assms that by (auto simp: soul_inv_def inst_ok_def leads_def holder_def)
  then have "set (filter (\<lambda>k. leads (insts s ! k)) [0..<length (insts s)]) \<subseteq> set (owners s)"
    by (auto simp: owners_mem)
  moreover have "length (filter leads (insts s)) = length (filter (\<lambda>k. leads (insts s ! k)) [0..<length (insts s)])"
    by (metis (no_types, lifting) length_filter_map comp_def filter_cong map_nth)
  ultimately show ?thesis
    by (metis card_mono distinct_card distinct_filter distinct_owners distinct_upt List.finite_set)
qed

section \<open>Fencing tokens\<close>

text \<open>
  After \<open>n\<close> steps no token exceeds \<open>n\<close>, an instance that leads or is about to emit has
  a token other than 0, and the authoritative emissions of one instance carry tokens that never
  go down and never exceed its own.
\<close>

definition tokens_of :: "nat \<Rightarrow> soul \<Rightarrow> u64 list" where
  "tokens_of k s = map token (filter (\<lambda>m. authoritative m \<and> by_instance m = k) (emitted s))"

definition fenced :: "nat \<Rightarrow> controller \<Rightarrow> bool" where
  "fenced n c =
     (unat (fencing_token c) \<le> n \<and> (is_leader c \<or> tick c = Rise \<or> pending c \<noteq> [] \<longrightarrow> fencing_token c \<noteq> 0))"

definition log_ok :: "soul \<Rightarrow> bool" where
  "log_ok s =
     ((\<forall>m\<in>set (emitted s). (authoritative m \<longleftrightarrow> token m \<noteq> 0) \<and> by_instance m < length (insts s)) \<and>
      (\<forall>k<length (insts s). sorted (tokens_of k s) \<and> (\<forall>w\<in>set (tokens_of k s). w \<le> fencing_token (insts s ! k))))"

lemma token_succ:
  fixes w :: u64
  assumes "unat w \<le> n" "Suc n < 2 ^ 64"
  shows "unat (w + 1) = Suc (unat w)" "w + 1 \<noteq> 0" "w \<le> w + 1"
proof -
  show u: "unat (w + 1) = Suc (unat w)" using assms by (simp add: unat_word_ariths(1))
  then show "w + 1 \<noteq> 0" by (metis unat_0 old.nat.distinct(2))
  show "w \<le> w + 1" using u by (simp add: word_le_nat_alt)
qed

lemma tick_fenced:
  assumes "tick_step ok now fs c = Some (fs', c')" "fenced n c" "Suc n < 2 ^ 64"
  shows "fenced (Suc n) c' \<and> fencing_token c \<le> fencing_token c'"
proof -
  have t: "unat (fencing_token c) \<le> n" using assms(2) by (simp add: fenced_def)
  note succ = token_succ [OF t assms(3)]
  have same: "fencing_token c' = fencing_token c \<and> is_leader c' = is_leader c \<and> pending c' = pending c \<and> tick c' \<noteq> Rise"
    if "tick c \<noteq> Won" "tick c \<noteq> Lost_token" "tick c \<noteq> Rise" "tick c \<noteq> Lost"
  proof (cases "tick c")
    case (Open_tmp u l)
    with assms(1) show ?thesis by (cases u) (auto simp: tick_step_def write_marker_def split: prod.splits option.splits if_splits)
  next
    case (Rename u)
    with assms(1) show ?thesis by (cases u) (auto simp: tick_step_def write_marker_def split: prod.splits option.splits if_splits)
  qed (use assms(1) that in \<open>auto simp: tick_step_def write_marker_def try_mkdir_def split: prod.splits if_splits\<close>)
  show ?thesis
  proof (cases "tick c \<noteq> Won \<and> tick c \<noteq> Lost_token \<and> tick c \<noteq> Rise \<and> tick c \<noteq> Lost")
    case True
    with same assms(2) show ?thesis by (auto simp: fenced_def)
  next
    case False
    with assms(1,2) succ show ?thesis by (auto simp: tick_step_def fenced_def)
  qed
qed

lemma fenced_keeps:
  assumes "fenced n c" "fencing_token c' = fencing_token c"
    "is_leader c' \<or> tick c' = Rise \<or> pending c' \<noteq> [] \<Longrightarrow> is_leader c \<or> tick c = Rise \<or> pending c \<noteq> []"
  shows "fenced (Suc n) c' \<and> fencing_token c \<le> fencing_token c'"
  using assms by (auto simp: fenced_def)

lemma stop_frame:
  "stop_step ok fs c = Some (fs', c') \<Longrightarrow>
   fencing_token c' = fencing_token c \<and> is_leader c' = is_leader c \<and> tick c' = tick c \<and> pending c' = pending c"
  by (cases "stopper c") (auto simp: stop_step_def split: if_splits)

lemma inst_act_fenced:
  assumes "inst_act k a fs c = Some (fs', c', ms)" "fenced n c" "Suc n < 2 ^ 64"
  shows "(fenced (Suc n) c' \<and> fencing_token c \<le> fencing_token c') \<and>
    (\<forall>m\<in>set ms. by_instance m = k \<and> (authoritative m \<longleftrightarrow> token m \<noteq> 0) \<and> (authoritative m \<longrightarrow> token m = fencing_token c))
    \<and> length (filter authoritative ms) \<le> 1"
proof -
  have al: "alive c" using assms(1) by (rule inst_act_alive)
  show ?thesis
  proof (cases a)
    case (Tick ok now)
    with assms al show ?thesis using tick_fenced [OF _ assms(2,3)] by (auto simp: inst_act_def)
  next
    case Start
    with assms(1) al have "ms = []" "c' = c\<lparr>running := True, tick := Loop_test, stopper := Serving\<rparr>"
      by (auto simp: inst_act_def start_def split: if_splits)
    with assms(2) show ?thesis using fenced_keeps [of n c c'] by auto
  next
    case Stop
    with assms(1) al have "ms = []" "c' = c\<lparr>running := False, stopper := Joining\<rparr>"
      by (auto simp: inst_act_def stop_call_def split: if_splits)
    with assms(2) show ?thesis using fenced_keeps [of n c c'] by auto
  next
    case (Stop_step ok)
    with assms(1) al have "ms = []" "stop_step ok fs c = Some (fs', c')" by (auto simp: inst_act_def)
    with assms(2) show ?thesis using fenced_keeps [of n c c'] stop_frame by auto
  next
    case (Emit e)
    with assms(1) al have m: "ms = []" and c': "c' = snd (emit_authoritative e c)" by (auto simp: inst_act_def)
    have "fencing_token c' = fencing_token c" "is_leader c' = is_leader c" "tick c' = tick c"
      "pending c' \<noteq> [] \<longrightarrow> is_leader c \<or> pending c \<noteq> []" by (auto simp: c' emit_authoritative_def)
    with m assms(2) show ?thesis using fenced_keeps [of n c c'] by auto
  next
    case (Emit_pending j)
    with assms(1) al have j: "j < length (pending c)" and c': "c' = c\<lparr>pending := take j (pending c) @ drop (Suc j) (pending c)\<rparr>"
      and m: "ms = [\<lparr>by_instance = k, authoritative = True, token = fencing_token c, what = pending c ! j\<rparr>]"
      by (auto simp: inst_act_def emit_pending_def split: if_splits)
    have "pending c \<noteq> []" using j by auto
    moreover from this have "fencing_token c \<noteq> 0" using assms(2) by (simp add: fenced_def)
    ultimately show ?thesis using fenced_keeps [OF assms(2), of c'] m by (simp add: c')
  next
    case (Intent e)
    with assms(1) al have "ms = [emit_intent k e]" "c' = c" by (auto simp: inst_act_def)
    with assms(2) show ?thesis using fenced_keeps [of n c c'] by (simp add: emit_intent_def)
  next
    case Crash
    with assms(1) al have "ms = []" "c' = c\<lparr>alive := False\<rparr>" by (auto simp: inst_act_def)
    with assms(2) show ?thesis using fenced_keeps [of n c c'] by auto
  qed
qed

lemma soul_fenced:
  assumes "(soul_step ^^ n) (soul_start cs) s" "n < 2 ^ 64"
  shows "(\<forall>c\<in>set (insts s). fenced n c) \<and> log_ok s"
  using assms
proof (induction n arbitrary: s)
  case 0
  then show ?case
    by (auto simp: soul_start_def soul_controller_def fenced_def log_ok_def tokens_of_def)
next
  case (Suc n)
  then obtain r where r: "(soul_step ^^ n) (soul_start cs) r" "soul_step r s" by auto
  then have ih: "\<forall>c\<in>set (insts r). fenced n c" "log_ok r" using Suc by simp_all
  from r(2) obtain k a where "soul_act (k, a) r = Some s" by (metis soul_step.cases surj_pair)
  then obtain fs c ms where k: "k < length (insts r)" and act: "inst_act k a (shared r) (insts r ! k) = Some (fs, c, ms)"
    and s: "s = \<lparr>shared = fs, insts = (insts r)[k := c], emitted = emitted r @ ms\<rparr>"
    by (rule soul_actD)
  have "fenced n (insts r ! k)" using ih k by simp
  note eff = inst_act_fenced [OF act this Suc.prems(2)]
  have up: "fenced (Suc n) d" if "fenced n d" for d using that by (auto simp: fenced_def)
  have all: "\<forall>d\<in>set (insts s). fenced (Suc n) d"
    using ih(1) up eff set_update_subset_insert [of "insts r" k c] by (auto simp: s)
  have "sorted (tokens_of j s) \<and> (\<forall>w\<in>set (tokens_of j s). w \<le> fencing_token (insts s ! j))" if j: "j < length (insts r)" for j
  proof (cases "j = k")
    case False
    have "filter (\<lambda>m. authoritative m \<and> by_instance m = j) ms = []" using eff False by (auto simp: filter_empty_conv)
    then have "tokens_of j s = tokens_of j r" by (simp add: tokens_of_def s)
    with ih(2) j False show ?thesis by (simp add: log_ok_def s)
  next
    case True
    define new where "new = map token (filter (\<lambda>m. authoritative m \<and> by_instance m = k) ms)"
    have "tokens_of k s = tokens_of k r @ new" by (simp add: tokens_of_def new_def s)
    moreover have "\<forall>w\<in>set new. w = fencing_token (insts r ! k)" using eff by (auto simp: new_def)
    moreover have "length new \<le> 1"
    proof -
      have "filter (\<lambda>m. authoritative m \<and> by_instance m = k) ms = filter authoritative ms" using eff by (auto intro: filter_cong)
      with eff show ?thesis by (simp add: new_def)
    qed
    moreover have "sorted (tokens_of k r)" "\<forall>w\<in>set (tokens_of k r). w \<le> fencing_token (insts r ! k)"
      using ih(2) k by (auto simp: log_ok_def)
    ultimately show ?thesis using True eff k
      by (cases new) (auto simp: sorted_append s intro: order_trans)
  qed
  moreover have "\<forall>m\<in>set (emitted s). (authoritative m \<longleftrightarrow> token m \<noteq> 0) \<and> by_instance m < length (insts s)"
    using ih(2) eff k by (auto simp: log_ok_def s)
  moreover have "length (insts s) = length (insts r)" by (simp add: s)
  ultimately show ?case using all by (simp add: log_ok_def)
qed

section \<open>A dead leader's lease\<close>

text \<open>An instance that is neither leading nor about to write or give up a marker.\<close>

fun writes :: "tick_pc \<Rightarrow> bool" where
  "writes (Stamp u) = True"
| "writes (Open_tmp u l) = True"
| "writes (Fill u l i) = True"
| "writes (Rename u) = True"
| "writes Drop_marker = True"
| "writes Drop_dir = True"
| "writes Won = True"
| "writes Rise = True"
| "writes Lost = True"
| "writes Lost_token = True"
| "writes pc = False"

definition quiet :: "controller \<Rightarrow> bool" where
  "quiet c = (\<not> is_leader c \<and> \<not> writes (tick c))"

definition blocked :: "soul \<Rightarrow> bool" where
  "blocked s = (lease_dir (shared s) \<and> tmp_file (shared s) \<noteq> None \<and> (\<forall>c\<in>set (insts s). alive c \<longrightarrow> quiet c))"

lemma tick_blocked:
  assumes "tick_step ok now fs c = Some (fs', c')" "lease_dir fs" "tmp_file fs \<noteq> None" "quiet c"
  shows "lease_dir fs' \<and> tmp_file fs' \<noteq> None \<and> quiet c'"
  using assms
  by (cases "tick c") (auto simp: tick_step_def quiet_def try_mkdir_def remove_marker_def remove_dir_def split: if_splits)

lemma stop_blocked:
  assumes "stop_step ok fs c = Some (fs', c')" "lease_dir fs" "tmp_file fs \<noteq> None"
  shows "lease_dir fs' \<and> tmp_file fs' \<noteq> None"
  using assms by (cases "stopper c") (auto simp: stop_step_def remove_marker_def remove_dir_def split: if_splits)

lemma inst_act_blocked:
  assumes "inst_act k a fs c = Some (fs', c', ms)" "lease_dir fs" "tmp_file fs \<noteq> None" "quiet c"
  shows "lease_dir fs' \<and> tmp_file fs' \<noteq> None \<and> quiet c'"
proof -
  have al: "alive c" using assms(1) by (rule inst_act_alive)
  show ?thesis
  proof (cases a)
    case (Tick ok now)
    with assms al show ?thesis using tick_blocked [OF _ assms(2-4)] by (auto simp: inst_act_def)
  next
    case (Stop_step ok)
    with assms(1) al have "stop_step ok fs c = Some (fs', c')" by (auto simp: inst_act_def)
    then show ?thesis using stop_blocked [OF _ assms(2,3)] stop_frame assms(4) by (auto simp: quiet_def)
  qed (use assms al in \<open>auto simp: inst_act_def start_def stop_call_def emit_authoritative_def emit_pending_def
      quiet_def split: if_splits\<close>)
qed

lemma soul_step_blocked: "soul_step s t \<Longrightarrow> blocked s \<Longrightarrow> blocked t"
proof (induction rule: soul_step.induct)
  case (soul_stepI l s t)
  obtain k a where l: "l = (k, a)" by force
  with soul_stepI obtain fs c ms where k: "k < length (insts s)"
    and act: "inst_act k a (shared s) (insts s ! k) = Some (fs, c, ms)"
    and t: "t = \<lparr>shared = fs, insts = (insts s)[k := c], emitted = emitted s @ ms\<rparr>" by (auto elim: soul_actD)
  have "quiet (insts s ! k)" using soul_stepI(2) k inst_act_alive [OF act] by (auto simp: blocked_def)
  with act soul_stepI(2) have "lease_dir fs \<and> tmp_file fs \<noteq> None \<and> quiet c"
    by (intro inst_act_blocked) (auto simp: blocked_def)
  with soul_stepI(2) show ?case
    using set_update_subset_insert [of "insts s" k c] by (auto simp: blocked_def t)
qed

lemma blocked_stays: "soul_step\<^sup>*\<^sup>* s t \<Longrightarrow> blocked s \<Longrightarrow> blocked t"
  by (induction rule: rtranclp_induct) (auto intro: soul_step_blocked)

section \<open>Properties\<close>

lemma case_SomeD: "(case x of None \<Rightarrow> False | Some s \<Rightarrow> P s) \<Longrightarrow> \<exists>s. x = Some s \<and> P s"
  by (cases x) auto

lemma soul_run_steps: "soul_run ls s = Some t \<Longrightarrow> soul_step\<^sup>*\<^sup>* s t"
proof (induction ls arbitrary: s)
  case Nil
  then show ?case by simp
next
  case (Cons l ls)
  then obtain u where "soul_act l s = Some u" "soul_run ls u = Some t" by (auto split: option.splits)
  with Cons.IH show ?case by (meson converse_rtranclp_into_rtranclp soul_stepI)
qed

lemma soul_run_power: "soul_run ls s = Some t \<Longrightarrow> (soul_step ^^ length ls) s t"
proof (induction ls arbitrary: s)
  case Nil
  then show ?case by simp
next
  case (Cons l ls)
  then obtain u where "soul_step s u" "(soul_step ^^ length ls) u t" by (auto split: option.splits intro: soul_stepI)
  then show ?case by (simp only: length_Cons) (metis relpowp_Suc_I2)
qed

text \<open>Runs of two instances for the witnesses: ticks of one, and the start of one that then leads.\<close>

definition ticks :: "nat \<Rightarrow> nat \<Rightarrow> (nat \<times> act) list" where
  "ticks k n = replicate n (k, Tick True 0)"

definition two_hosts :: soul where
  "two_hosts = soul_start [(''a'', 10), (''b'', 10)]"

fun orderly_run :: "(nat \<times> act) list \<Rightarrow> soul \<Rightarrow> soul option" where
  "orderly_run [] s = Some s"
| "orderly_run ((k, a) # ls) s =
     (if orderly a (insts s ! k) \<and> undisturbed s
      then case soul_act (k, a) s of None \<Rightarrow> None | Some t \<Rightarrow> orderly_run ls t else None)"

lemma orderly_run_steps: "orderly_run ls s = Some t \<Longrightarrow> orderly_step\<^sup>*\<^sup>* s t"
proof (induction ls s rule: orderly_run.induct)
  case (2 k a ls s)
  then obtain u where "orderly_step s u" "orderly_step\<^sup>*\<^sup>* u t"
    by (auto split: option.splits if_splits intro: orderly_stepI)
  then show ?case by (rule converse_rtranclp_into_rtranclp)
qed simp

text \<open>
  C28: The directory is a lock.  However the steps of the instances, their failures and their deaths
  interleave, as long as controllers are started and stopped once and expired leases are
  removed while nobody holds one, the instances holding the lease are the owners of a lock, and
  at most one running instance is leader.
\<close>

theorem soul_one_leader:
  assumes "orderly_step\<^sup>*\<^sup>* (soul_start cs) s"
  shows "lock_step\<^sup>*\<^sup>* [] (owners s) \<and> length (owners s) \<le> 1 \<and> length (filter leads (insts s)) \<le> 1"
proof -
  have init: "soul_init (soul_start cs)" by (auto simp: soul_init_def)
  have inv: "soul_inv s" by (rule sc.reachable_inv [OF init assms])
  have "lock_step\<^sup>*\<^sup>* [] (owners s)" using sc.refines [OF init assms] soul_start_inv by simp
  then show ?thesis using inv leaders_own [OF inv] by (auto simp: soul_inv_def)
qed

lemma demo_takeover:
  "case orderly_run ([(0, Start), (1, Start)] @ ticks 0 9 @ [(0, Crash)] @ replicate 16 (1, Tick True 20000)) two_hosts of
     Some s \<Rightarrow> owners s = [1] \<and> leads (insts s ! 1) | None \<Rightarrow> False"
  by code_simp

theorem soul_one_leader_witness:
  "\<exists>s. owners s = [1] \<and> leads (insts s ! 1) \<and> lock_step\<^sup>*\<^sup>* [] (owners s) \<and> length (filter leads (insts s)) \<le> 1"
proof -
  obtain s where s: "orderly_step\<^sup>*\<^sup>* two_hosts s" "owners s = [1]" "leads (insts s ! 1)"
    using case_SomeD [OF demo_takeover] orderly_run_steps by blast
  note soul_one_leader [OF s(1) [unfolded two_hosts_def]]
  with s(2,3) show ?thesis by blast
qed

text \<open>
  C29: Within one instance the tokens fence: in every run of fewer than \<open>2 ^ 64\<close> steps, whatever fails,
  an emission carries the token 0 exactly when it is an intent, the tokens of an instance's
  authoritative emissions never go down, and an instance that leads has a token other than 0.
\<close>

theorem soul_tokens:
  assumes "(soul_step ^^ n) (soul_start cs) s" "n < 2 ^ 64"
  shows "(\<forall>m\<in>set (emitted s). authoritative m \<longleftrightarrow> token m \<noteq> 0) \<and>
    (\<forall>k<length (insts s). sorted (tokens_of k s) \<and> (is_leader (insts s ! k) \<longrightarrow> fencing_token (insts s ! k) \<noteq> 0))"
  using soul_fenced [OF assms] by (auto simp: log_ok_def fenced_def)

definition demo_emits :: "(nat \<times> act) list" where
  "demo_emits =
     [(0, Start)] @ ticks 0 10 @
     [(0, Emit (''d'', ''k'', ''e'', ''{}'')), (0, Emit_pending 0), (0, Intent (''d'', ''k'', ''e'', ''{}''))]"

lemma demo_emits_log:
  "case soul_run demo_emits two_hosts of
     Some s \<Rightarrow> map (\<lambda>m. (authoritative m, token m)) (emitted s) = [(True, 1), (False, 0)] | None \<Rightarrow> False"
  by code_simp

theorem soul_tokens_witness:
  "\<exists>s::soul. map (\<lambda>m. (authoritative m, token m)) (emitted s) = [(True, 1), (False, 0)] \<and>
    (\<forall>m\<in>set (emitted s). authoritative m \<longleftrightarrow> token m \<noteq> 0)"
proof -
  from case_SomeD [OF demo_emits_log]
  obtain s where s: "soul_run demo_emits two_hosts = Some s \<and>
    map (\<lambda>m. (authoritative m, token m)) (emitted s) = [(True, 1), (False, 0)]" by (rule exE)
  have "length demo_emits < 2 ^ 64" by (simp add: demo_emits_def ticks_def)
  note soul_tokens [OF soul_run_power [OF conjunct1 [OF s], unfolded two_hosts_def] this]
  then have "\<forall>m\<in>set (emitted s). authoritative m \<longleftrightarrow> token m \<noteq> 0" by (rule conjunct1)
  from conjI [OF conjunct2 [OF s] this] show ?thesis by (rule exI)
qed

lemma soul_act_tick:
  assumes "k < length (insts s)" "alive (insts s ! k)" "tick_step ok now (shared s) (insts s ! k) = Some (fs, c)"
  shows "soul_act (k, Tick ok now) s = Some (s\<lparr>shared := fs, insts := (insts s)[k := c]\<rparr>)"
  using assms by (simp add: soul_act_def inst_act_def)

fun solo :: "int \<Rightarrow> nat \<Rightarrow> lease_fs \<Rightarrow> controller \<Rightarrow> (lease_fs \<times> controller) option" where
  "solo now 0 fs c = Some (fs, c)"
| "solo now (Suc n) fs c = (case tick_step True now fs c of None \<Rightarrow> None | Some (fs', c') \<Rightarrow> solo now n fs' c')"

lemma tick_alive: "tick_step ok now fs c = Some (fs', c') \<Longrightarrow> alive c' = alive c"
  by (cases "tick c") (auto simp: tick_step_def split: prod.splits)

lemma solo_run:
  assumes "solo now n (shared s) (insts s ! k) = Some (fs, c)" "k < length (insts s)" "alive (insts s ! k)"
  shows "soul_run (replicate n (k, Tick True now)) s = Some (s\<lparr>shared := fs, insts := (insts s)[k := c]\<rparr>)"
  using assms
proof (induction n arbitrary: s)
  case 0
  then show ?case by (cases s) auto
next
  case (Suc n)
  then obtain fs' c' where st: "tick_step True now (shared s) (insts s ! k) = Some (fs', c')" "solo now n fs' c' = Some (fs, c)"
    by (auto split: option.splits)
  let ?u = "s\<lparr>shared := fs', insts := (insts s)[k := c']\<rparr>"
  have "soul_act (k, Tick True now) s = Some ?u" using st(1) Suc.prems by (intro soul_act_tick)
  moreover have "soul_run (replicate n (k, Tick True now)) ?u = Some (?u\<lparr>shared := fs, insts := (insts ?u)[k := c]\<rparr>)"
    using st tick_alive [OF st(1)] Suc.prems by (intro Suc.IH) simp_all
  ultimately show ?case by simp
qed

lemma solo_takeover:
  assumes "tick c = Loop_test" "running c" "\<not> is_leader c" "lease_dir fs" "tmp_file fs = None"
    "lease_expired True (lease_ttl c) now fs"
  shows "solo now 6 fs c = Some (fs\<lparr>lease_dir := False, leader_json := None\<rparr>, c\<lparr>tick := Asleep\<rparr>)"
  using assms
  by (simp add: eval_nat_numeral tick_step_def try_mkdir_def remove_marker_def remove_dir_def)

lemma solo_lead:
  assumes "tick c = Asleep" "running c" "\<not> is_leader c" "\<not> lease_dir fs" "tmp_file fs = None"
  shows "solo now 10 fs c =
    Some (fs\<lparr>lease_dir := True, leader_json := Some (length (cells fs)),
            cells := cells fs @ [Some \<lparr>instance_id = my_id c, ts_ms = now, epoch = fencing_token c + 1\<rparr>]\<rparr>,
          c\<lparr>is_leader := True, fencing_token := fencing_token c + 1, tick := Asleep\<rparr>)"
  using assms
  by (simp add: eval_nat_numeral tick_step_def try_mkdir_def write_marker_def open_tmp_def rename_tmp_def)

lemma solo_add: "solo now (m + n) fs c = (case solo now m fs c of None \<Rightarrow> None | Some (fs', c') \<Rightarrow> solo now n fs' c')"
  by (induction m arbitrary: fs c) (auto split: option.splits)

text \<open>
  C30: The lease of a dead leader passes on, when nothing interferes: if the marker is missing or
  older than the time to live and no temporary file is left in the directory, then sixteen steps
  of a live instance, with every system call succeeding and no step of any other instance in
  between, make it leader with a marker that no instance whose clock is within the time to live
  takes for expired; nobody else changes.  Its token is its own last token plus one, which says
  nothing about the tokens of earlier leaders.
\<close>

theorem soul_failover:
  assumes "k < length (insts s)" "c = insts s ! k" "alive c" "running c" "\<not> is_leader c" "tick c = Loop_test"
    "lease_dir (shared s)" "tmp_file (shared s) = None" "lease_expired True (lease_ttl c) now (shared s)"
  shows "\<exists>t. soul_run (replicate 16 (k, Tick True now)) s = Some t \<and> is_leader (insts t ! k) \<and>
    fencing_token (insts t ! k) = fencing_token c + 1 \<and>
    read_marker (shared t) = Some \<lparr>instance_id = my_id c, ts_ms = now, epoch = fencing_token c + 1\<rparr> \<and>
    (\<forall>ttl now'. now' - now \<le> ttl \<longrightarrow> \<not> lease_expired True ttl now' (shared t)) \<and>
    (\<forall>j. j \<noteq> k \<longrightarrow> insts t ! j = insts s ! j)"
proof -
  let ?fs = "(shared s)\<lparr>lease_dir := True, leader_json := Some (length (cells (shared s))),
    cells := cells (shared s) @ [Some \<lparr>instance_id = my_id c, ts_ms = now, epoch = fencing_token c + 1\<rparr>]\<rparr>"
  let ?c = "c\<lparr>is_leader := True, fencing_token := fencing_token c + 1, tick := Asleep\<rparr>"
  have "solo now (6 + 10) (shared s) c = Some (?fs, ?c)"
    using assms(4-9) by (simp only: solo_add) (simp add: solo_takeover solo_lead)
  then have "soul_run (replicate 16 (k, Tick True now)) s = Some (s\<lparr>shared := ?fs, insts := (insts s)[k := ?c]\<rparr>)"
    using assms(1-3) by (intro solo_run) simp_all
  then show ?thesis using assms(1) by (auto simp: read_marker_def lease_expired_def)
qed

lemma demo_dead_leader:
  "case soul_run ([(0, Start), (1, Start)] @ ticks 0 9 @ [(0, Crash)]) two_hosts of
     None \<Rightarrow> False
   | Some s \<Rightarrow> 1 < length (insts s) \<and> alive (insts s ! 1) \<and> running (insts s ! 1) \<and> \<not> is_leader (insts s ! 1) \<and>
       tick (insts s ! 1) = Loop_test \<and> lease_dir (shared s) \<and> tmp_file (shared s) = None \<and>
       lease_expired True (lease_ttl (insts s ! 1)) 20000 (shared s)"
  by code_simp

theorem soul_failover_witness:
  "\<exists>s t. soul_run ([(0, Start), (1, Start)] @ ticks 0 9 @ [(0, Crash)]) two_hosts = Some s \<and>
    soul_run (replicate 16 (1, Tick True 20000)) s = Some t \<and> is_leader (insts t ! 1)"
proof -
  obtain s where s: "soul_run ([(0, Start), (1, Start)] @ ticks 0 9 @ [(0, Crash)]) two_hosts = Some s"
    and d: "1 < length (insts s)" "alive (insts s ! 1)" "running (insts s ! 1)" "\<not> is_leader (insts s ! 1)"
      "tick (insts s ! 1) = Loop_test" "lease_dir (shared s)" "tmp_file (shared s) = None"
      "lease_expired True (lease_ttl (insts s ! 1)) 20000 (shared s)"
    using case_SomeD [OF demo_dead_leader] by blast
  note soul_failover [OF d(1) refl d(2-8)]
  with s show ?thesis by blast
qed

text \<open>
  The new leader can lead under the token of the dead one: the token is counted in each
  instance, not in the lease.
\<close>

lemma failover_same_token:
  "case soul_run ([(0, Start), (1, Start)] @ ticks 0 9) two_hosts of
     None \<Rightarrow> False
   | Some s \<Rightarrow> leads (insts s ! 0) \<and> fencing_token (insts s ! 0) = 1 \<and>
       (case soul_run ([(0, Crash)] @ replicate 16 (1, Tick True 20000)) s of
          None \<Rightarrow> False
        | Some t \<Rightarrow> leads (insts t ! 1) \<and> fencing_token (insts t ! 1) = fencing_token (insts s ! 0))"
  by code_simp

text \<open>
  C31: The lease of a leader that dies between opening the temporary file and renaming it never
  passes on: the directory cannot be removed with that file in it, nobody removes the file, and
  in every continuation no live instance leads.
\<close>

theorem leftover_blocks:
  assumes "blocked s" "soul_step\<^sup>*\<^sup>* s t"
  shows "\<forall>c\<in>set (insts t). alive c \<longrightarrow> \<not> is_leader c"
  using blocked_stays [OF assms(2,1)] by (auto simp: blocked_def quiet_def)

lemma demo_leftover:
  "case soul_run ([(0, Start), (1, Start)] @ ticks 0 5 @ [(0, Crash)]) two_hosts of
     Some s \<Rightarrow> blocked s | None \<Rightarrow> False"
  by code_simp

theorem leftover_blocks_witness:
  "\<exists>s. soul_step\<^sup>*\<^sup>* two_hosts s \<and> (\<forall>t. soul_step\<^sup>*\<^sup>* s t \<longrightarrow> (\<forall>c\<in>set (insts t). alive c \<longrightarrow> \<not> is_leader c))"
  using case_SomeD [OF demo_leftover] leftover_blocks soul_run_steps by metis

section \<open>What the scheme does not give\<close>

text \<open>
  Without failures, deaths or late clocks two instances can lead at once, and with the same
  token: the second looks while the first has the directory but no marker yet, and removes the
  lease after the marker appeared.
\<close>

lemma two_leaders:
  "case soul_run ([(0, Start), (1, Start)] @ ticks 0 3 @ ticks 1 4 @ ticks 0 6 @ ticks 1 12) two_hosts of
     Some s \<Rightarrow> leads (insts s ! 0) \<and> leads (insts s ! 1) \<and> fencing_token (insts s ! 0) = 1 \<and> fencing_token (insts s ! 1) = 1
   | None \<Rightarrow> False"
  by code_simp

text \<open>
  \<open>stop\<close> does not reset \<open>is_leader_\<close>, so the destructor of a stopped leader releases the lease
  a second time, which by then is another instance's.
\<close>

lemma stop_twice_drops_lease:
  "case soul_run ([(0, Start), (1, Start)] @ ticks 0 9 @ [(0, Stop)] @ ticks 0 2 @ replicate 4 (0, Stop_step True)
       @ ticks 1 10 @ [(0, Stop)] @ replicate 4 (0, Stop_step True)) two_hosts of
     Some s \<Rightarrow> leads (insts s ! 1) \<and> \<not> lease_dir (shared s) | None \<Rightarrow> False"
  by code_simp

end
