(* ===== verification/Regex_Engine.thy ===== *)
theory Regex_Engine
  imports Hook_Base
begin

text \<open>
  \<open>std::regex\<close> in its default grammar, as far as the policies use it: the matches of an
  expression at a position in the order in which the backtracking executor tries them, so that
  the first one is the match the library reports, with the groups it captured.  The reference
  is the language of the expression as a relation of positions.
\<close>

section \<open>Expressions\<close>

datatype rx =
    Eps
  | Sym "char \<Rightarrow> bool"
  | Cat rx rx
  | Alt rx rx
  | Rep rx
  | Lazy rx
  | Group nat rx
  | At_begin
  | At_end

fun cats :: "rx list \<Rightarrow> rx" where
  "cats [] = Eps"
| "cats [r] = r"
| "cats (r # rs) = Cat r (cats rs)"

fun alts :: "rx list \<Rightarrow> rx" where
  "alts [] = Sym (\<lambda>c. False)"
| "alts [r] = r"
| "alts (r # rs) = Alt r (alts rs)"

definition opt :: "rx \<Rightarrow> rx" where
  "opt r = Alt r Eps"

definition some_of :: "rx \<Rightarrow> rx" where
  "some_of r = Cat r (Rep r)"

text \<open>The quantifiers \<open>{n}\<close> and \<open>{m,n}\<close>.\<close>

definition exactly :: "nat \<Rightarrow> rx \<Rightarrow> rx" where
  "exactly n r = cats (replicate n r)"

fun up_to :: "nat \<Rightarrow> rx \<Rightarrow> rx" where
  "up_to 0 r = Eps"
| "up_to (Suc n) r = opt (Cat r (up_to n r))"

definition between :: "nat \<Rightarrow> nat \<Rightarrow> rx \<Rightarrow> rx" where
  "between m n r = Cat (exactly m r) (up_to (n - m) r)"

definition lit :: "string \<Rightarrow> rx" where
  "lit t = cats (map (\<lambda>c. Sym ((=) c)) t)"

text \<open>\<open>[[:space:]]+\<close>, the dot and \<open>[0-9]+\<close>.\<close>

definition spaces :: rx where
  "spaces = some_of (Sym is_space)"

definition any_char :: rx where
  "any_char = Sym (\<lambda>c. c \<noteq> CHR 0x0A \<and> c \<noteq> CHR 0x0D)"

definition number_rx :: rx where
  "number_rx = some_of (Sym is_digit)"

definition word_char :: "char \<Rightarrow> bool" where
  "word_char c = (is_alnum c \<or> c = CHR ''_'')"

definition is_punct :: "char \<Rightarrow> bool" where
  "is_punct c = (33 \<le> (of_char c :: nat) \<and> (of_char c :: nat) \<le> 126 \<and> \<not> is_alnum c)"

definition to_upper :: "char \<Rightarrow> char" where
  "to_upper c = (if is_lower c then cc (of_char c - 32) else c)"

text \<open>The flag \<open>icase\<close>: a class accepts a character when it accepts it in either case.\<close>

primrec icase :: "rx \<Rightarrow> rx" where
  "icase Eps = Eps"
| "icase (Sym p) = Sym (\<lambda>c. p (to_lower c) \<or> p (to_upper c))"
| "icase (Cat r q) = Cat (icase r) (icase q)"
| "icase (Alt r q) = Alt (icase r) (icase q)"
| "icase (Rep r) = Rep (icase r)"
| "icase (Lazy r) = Lazy (icase r)"
| "icase (Group k r) = Group k (icase r)"
| "icase At_begin = At_begin"
| "icase At_end = At_end"

section \<open>Matching\<close>

type_synonym caps = "(nat \<times> nat \<times> nat) list"

text \<open>
  A repetition tries its body again as long as that consumes something; the positions left
  bound the number of iterations.
\<close>

fun rep_all :: "(nat \<times> caps \<Rightarrow> (nat \<times> caps) list) \<Rightarrow> nat \<Rightarrow> nat \<times> caps \<Rightarrow> (nat \<times> caps) list" where
  "rep_all f 0 st = [st]"
| "rep_all f (Suc n) st = concat (map (rep_all f n) (filter (\<lambda>u. fst st < fst u) (f st))) @ [st]"

fun lazy_all :: "(nat \<times> caps \<Rightarrow> (nat \<times> caps) list) \<Rightarrow> nat \<Rightarrow> nat \<times> caps \<Rightarrow> (nat \<times> caps) list" where
  "lazy_all f 0 st = [st]"
| "lazy_all f (Suc n) st = st # concat (map (lazy_all f n) (filter (\<lambda>u. fst st < fst u) (f st)))"

primrec rx_all :: "rx \<Rightarrow> string \<Rightarrow> nat \<times> caps \<Rightarrow> (nat \<times> caps) list" where
  "rx_all Eps s st = [st]"
| "rx_all (Sym p) s st = (if fst st < length s \<and> p (s ! fst st) then [(Suc (fst st), snd st)] else [])"
| "rx_all (Cat r q) s st = concat (map (rx_all q s) (rx_all r s st))"
| "rx_all (Alt r q) s st = rx_all r s st @ rx_all q s st"
| "rx_all (Rep r) s st = rep_all (rx_all r s) (length s - fst st) st"
| "rx_all (Lazy r) s st = lazy_all (rx_all r s) (length s - fst st) st"
| "rx_all (Group k r) s st = map (\<lambda>u. (fst u, (k, fst st, fst u) # snd u)) (rx_all r s st)"
| "rx_all At_begin s st = (if fst st = 0 then [st] else [])"
| "rx_all At_end s st = (if fst st = length s then [st] else [])"

definition regex_match :: "rx \<Rightarrow> string \<Rightarrow> caps option" where
  "regex_match r s = map_option snd (List.find (\<lambda>u. fst u = length s) (rx_all r s (0, [])))"

text \<open>The first match starting at or after \<open>k\<close>: where it starts and ends, and its groups.\<close>

function search_from :: "rx \<Rightarrow> string \<Rightarrow> nat \<Rightarrow> (nat \<times> nat \<times> caps) option" where
  "search_from r s k =
     (if k > length s then None
      else case rx_all r s (k, []) of
             u # _ \<Rightarrow> Some (k, fst u, snd u)
           | [] \<Rightarrow> search_from r s (Suc k))"
  by pat_completeness auto
termination by (relation "measure (\<lambda>(r, s, k). Suc (length s) - k)") auto

declare search_from.simps [simp del]

definition regex_search :: "rx \<Rightarrow> string \<Rightarrow> (nat \<times> nat \<times> caps) option" where
  "regex_search r s = search_from r s 0"

definition matches :: "string \<Rightarrow> rx \<Rightarrow> bool" where
  "matches s r = (regex_search r s \<noteq> None)"

definition contains :: "string \<Rightarrow> string \<Rightarrow> bool" where
  "contains s t = matches s (lit t)"

definition slice_of :: "string \<Rightarrow> nat \<Rightarrow> nat \<Rightarrow> string" where
  "slice_of s i j = take (j - i) (drop i s)"

text \<open>\<open>match[k].str()\<close>: a group that took no part is empty.\<close>

definition group_str :: "string \<Rightarrow> caps \<Rightarrow> nat \<Rightarrow> string" where
  "group_str s cs k = (case map_of cs k of None \<Rightarrow> [] | Some (i, j) \<Rightarrow> slice_of s i j)"

section \<open>The language of an expression\<close>

primrec rx_lang :: "rx \<Rightarrow> string \<Rightarrow> nat \<Rightarrow> nat \<Rightarrow> bool" where
  "rx_lang Eps s = (=)"
| "rx_lang (Sym p) s = (\<lambda>i j. i < length s \<and> p (s ! i) \<and> j = Suc i)"
| "rx_lang (Cat r q) s = (rx_lang r s OO rx_lang q s)"
| "rx_lang (Alt r q) s = (\<lambda>i j. rx_lang r s i j \<or> rx_lang q s i j)"
| "rx_lang (Rep r) s = (rx_lang r s)\<^sup>*\<^sup>*"
| "rx_lang (Lazy r) s = (rx_lang r s)\<^sup>*\<^sup>*"
| "rx_lang (Group k r) s = rx_lang r s"
| "rx_lang At_begin s = (\<lambda>i j. i = 0 \<and> j = i)"
| "rx_lang At_end s = (\<lambda>i j. i = length s \<and> j = i)"

lemma rtranclp_bounds:
  assumes "\<And>i j. i \<le> n \<Longrightarrow> R i j \<Longrightarrow> i \<le> j \<and> j \<le> n" "R\<^sup>*\<^sup>* i j" "i \<le> (n :: nat)"
  shows "i \<le> j \<and> j \<le> n"
  using assms(2,3) by (induction rule: rtranclp_induct) (use assms(1) order_trans in blast)+

lemma rx_lang_bounds: "rx_lang r s i j \<Longrightarrow> i \<le> length s \<Longrightarrow> i \<le> j \<and> j \<le> length s"
proof (induction r arbitrary: i j)
  case (Cat r q)
  then obtain k where "rx_lang r s i k" "rx_lang q s k j" by auto
  with Cat.IH(1) [of i k] Cat.IH(2) [of k j] Cat.prems(2) show ?case by simp
next
  case (Rep r)
  then show ?case using rtranclp_bounds [of "length s" "rx_lang r s" i j] by simp
next
  case (Lazy r)
  then show ?case using rtranclp_bounds [of "length s" "rx_lang r s" i j] by simp
qed auto

text \<open>A run of a repetition can leave out the iterations that consume nothing.\<close>

lemma rtranclp_moves:
  assumes "R\<^sup>*\<^sup>* i j"
  shows "(\<lambda>i j. R i j \<and> i \<noteq> j)\<^sup>*\<^sup>* i j"
  using assms
proof (induction rule: rtranclp_induct)
  case (step y z)
  then show ?case by (cases "y = z") (auto intro: rtranclp.rtrancl_into_rtrancl)
qed simp

lemma rep_reach:
  assumes f: "\<And>i c. i \<le> m \<Longrightarrow> fst ` set (f (i, c)) = {j. R i j}"
    and b: "\<And>i j. i \<le> m \<Longrightarrow> R i j \<Longrightarrow> i \<le> j \<and> j \<le> m"
    and "m - i \<le> n" "i \<le> m"
  shows "fst ` set (rep_all f n (i, c)) = {j. R\<^sup>*\<^sup>* i j}" "fst ` set (lazy_all f n (i, c)) = {j. R\<^sup>*\<^sup>* i j}"
proof -
  have end_only: "j = i" if "R\<^sup>*\<^sup>* i j" "i = m" for i j
    using rtranclp_bounds [of m R, OF b that(1)] that(2) by simp
  have split: "{j. R\<^sup>*\<^sup>* i j} = insert i (\<Union>k\<in>{k. R i k \<and> i < k}. {j. R\<^sup>*\<^sup>* k j})" if "i \<le> m" for i
  proof (intro set_eqI iffI)
    fix j assume "j \<in> {j. R\<^sup>*\<^sup>* i j}"
    then have "(\<lambda>i j. R i j \<and> i \<noteq> j)\<^sup>*\<^sup>* i j" by (simp add: rtranclp_moves)
    then show "j \<in> insert i (\<Union>k\<in>{k. R i k \<and> i < k}. {j. R\<^sup>*\<^sup>* k j})"
    proof (cases rule: converse_rtranclpE)
      case base
      then show ?thesis by simp
    next
      case (step k)
      then have "R i k" "i < k" using b [OF that] by (auto simp: le_less)
      moreover have "R\<^sup>*\<^sup>* k j" using step(2) by (rule rtranclp_mono [THEN predicate2D, rotated]) auto
      ultimately show ?thesis by blast
    qed
  qed (auto intro: converse_rtranclp_into_rtranclp)
  have *: "fst ` set (rep_all f n (i, c)) = {j. R\<^sup>*\<^sup>* i j} \<and> fst ` set (lazy_all f n (i, c)) = {j. R\<^sup>*\<^sup>* i j}"
    if "m - i \<le> n" "i \<le> m" for i n c
    using that
  proof (induction n arbitrary: i c)
    case 0
    then show ?case using end_only by auto
  next
    case (Suc n)
    let ?U = "{u \<in> set (f (i, c)). i < fst u}"
    have U: "fst ` ?U = {k. R i k \<and> i < k}" using f [OF Suc.prems(2), of c] by auto
    have ih: "fst ` set (rep_all f n u) = {j. R\<^sup>*\<^sup>* (fst u) j} \<and> fst ` set (lazy_all f n u) = {j. R\<^sup>*\<^sup>* (fst u) j}"
      if "u \<in> ?U" for u
    proof -
      have "R i (fst u)" "i < fst u" using U that by auto
      then have "m - fst u \<le> n" "fst u \<le> m" using b [OF Suc.prems(2)] Suc.prems(1) by (auto dest!: b [OF Suc.prems(2)])
      then show ?thesis using Suc.IH [of "fst u" "snd u"] by simp
    qed
    have "(\<Union>u\<in>?U. {j. R\<^sup>*\<^sup>* (fst u) j}) = (\<Union>k\<in>{k. R i k \<and> i < k}. {j. R\<^sup>*\<^sup>* k j})"
      by (simp add: U [symmetric])
    then show ?case using ih by (simp add: split [OF Suc.prems(2)] image_Un image_UN)
  qed
  show "fst ` set (rep_all f n (i, c)) = {j. R\<^sup>*\<^sup>* i j}" "fst ` set (lazy_all f n (i, c)) = {j. R\<^sup>*\<^sup>* i j}"
    using * [OF assms(3,4)] by auto
qed

lemma rx_all_lang: "i \<le> length s \<Longrightarrow> fst ` set (rx_all r s (i, c)) = {j. rx_lang r s i j}"
proof (induction r arbitrary: i c)
  case (Cat r q)
  have "fst ` set (rx_all q s u) = {j. rx_lang q s (fst u) j}" if "u \<in> set (rx_all r s (i, c))" for u
  proof -
    have "rx_lang r s i (fst u)" using Cat.IH(1) [OF Cat.prems, of c] that by blast
    then show ?thesis using Cat.IH(2) [of "fst u" "snd u"] rx_lang_bounds [OF _ Cat.prems] by simp
  qed
  then have "fst ` set (rx_all (Cat r q) s (i, c)) = (\<Union>u\<in>set (rx_all r s (i, c)). {j. rx_lang q s (fst u) j})"
    by (simp add: image_UN)
  also have "\<dots> = (\<Union>k\<in>fst ` set (rx_all r s (i, c)). {j. rx_lang q s k j})" by simp
  also have "\<dots> = {j. rx_lang (Cat r q) s i j}" by (subst Cat.IH(1) [OF Cat.prems]) auto
  finally show ?case .
next
  case (Rep r)
  have "fst ` set (rx_all r s (k, d)) = {j. rx_lang r s k j}" if "k \<le> length s" for k d using Rep.IH that by simp
  from rep_reach(1) [of "length s" "rx_all r s" "rx_lang r s", OF this rx_lang_bounds order_refl Rep.prems]
  show ?case by simp
next
  case (Lazy r)
  have "fst ` set (rx_all r s (k, d)) = {j. rx_lang r s k j}" if "k \<le> length s" for k d using Lazy.IH that by simp
  from rep_reach(2) [of "length s" "rx_all r s" "rx_lang r s", OF this rx_lang_bounds order_refl Lazy.prems]
  show ?case by simp
qed (auto simp: image_Un image_image)

section \<open>The two algorithms\<close>

lemma regex_match_lang: "regex_match r s \<noteq> None \<longleftrightarrow> rx_lang r s 0 (length s)"
proof -
  have "regex_match r s \<noteq> None \<longleftrightarrow> length s \<in> fst ` set (rx_all r s (0, []))"
    by (force simp: regex_match_def find_None_iff)
  then show ?thesis by (simp add: rx_all_lang)
qed

lemma rx_all_Nil: "k \<le> length s \<Longrightarrow> rx_all r s (k, c) = [] \<longleftrightarrow> (\<forall>j. \<not> rx_lang r s k j)"
proof -
  assume k: "k \<le> length s"
  have "rx_all r s (k, c) = [] \<longleftrightarrow> fst ` set (rx_all r s (k, c)) = {}" by simp
  then show ?thesis by (simp add: rx_all_lang [OF k] Collect_empty_eq)
qed

lemma search_from_Some:
  "search_from r s k = Some (i, j, cs) \<Longrightarrow> k \<le> i \<and> i \<le> length s \<and> rx_lang r s i j \<and> (\<forall>h. k \<le> h \<and> h < i \<longrightarrow> (\<forall>l. \<not> rx_lang r s h l))"
proof (induction r s k rule: search_from.induct)
  case (1 r s k)
  have k: "k \<le> length s" using 1(2) by (subst (asm) search_from.simps) (auto split: if_splits)
  show ?case
  proof (cases "rx_all r s (k, [])")
    case Nil
    then have "search_from r s (Suc k) = Some (i, j, cs)" using 1(2) k by (subst (asm) search_from.simps) simp
    with 1(1) k Nil have "Suc k \<le> i \<and> i \<le> length s \<and> rx_lang r s i j \<and> (\<forall>h. Suc k \<le> h \<and> h < i \<longrightarrow> (\<forall>l. \<not> rx_lang r s h l))" by simp
    moreover have "\<forall>l. \<not> rx_lang r s k l" using Nil rx_all_Nil [OF k] by blast
    ultimately show ?thesis by (metis Suc_leI Suc_leD le_neq_implies_less)
  next
    case (Cons u us)
    then have e: "i = k" "j = fst u" using 1(2) k by (subst (asm) search_from.simps, simp)+
    have "fst u \<in> fst ` set (rx_all r s (k, []))" using Cons by simp
    then have "rx_lang r s k (fst u)" by (simp add: rx_all_lang [OF k])
    then show ?thesis using e k by auto
  qed
qed

lemma search_from_None:
  "search_from r s k = None \<Longrightarrow> k \<le> i \<Longrightarrow> i \<le> length s \<Longrightarrow> \<not> rx_lang r s i j"
proof (induction r s k rule: search_from.induct)
  case (1 r s k)
  have k: "k \<le> length s" using 1 by simp
  show ?case
  proof (cases "rx_all r s (k, [])")
    case Nil
    then have n: "search_from r s (Suc k) = None" using 1(2) k by (subst (asm) search_from.simps) simp
    show ?thesis
    proof (cases "i = k")
      case True
      then show ?thesis using Nil rx_all_Nil [OF k] by blast
    next
      case False
      with 1 n Nil k show ?thesis by simp
    qed
  next
    case (Cons u us)
    then have False using 1(2) k by (subst (asm) search_from.simps) simp
    then show ?thesis ..
  qed
qed

text \<open>\<open>std::sregex_iterator\<close>, for expressions that match no empty text.\<close>

function all_matches :: "rx \<Rightarrow> string \<Rightarrow> nat \<Rightarrow> (nat \<times> nat \<times> caps) list" where
  "all_matches r s k =
     (case search_from r s k of
        Some (i, j, cs) \<Rightarrow> if k < j then (i, j, cs) # all_matches r s j else []
      | None \<Rightarrow> [])"
  by pat_completeness auto
termination
proof (relation "measure (\<lambda>(r, s, k). length s - k)")
  fix r s k x i y j cs
  assume "search_from r s k = Some x" "(i, y) = x" "(j, cs) = y" "k < j"
  then have "rx_lang r s i j" "i \<le> length s" using search_from_Some by blast+
  then have "j \<le> length s" using rx_lang_bounds by blast
  with \<open>k < j\<close> show "((r, s, j), r, s, k) \<in> measure (\<lambda>(r, s, k). length s - k)" by simp
qed simp

declare all_matches.simps [simp del]

text \<open>\<open>std::regex_replace\<close> with a text without references to groups.\<close>

fun replace_spans :: "string \<Rightarrow> string \<Rightarrow> nat \<Rightarrow> (nat \<times> nat \<times> caps) list \<Rightarrow> string" where
  "replace_spans s new k [] = drop k s"
| "replace_spans s new k ((i, j, cs) # ms) = slice_of s k i @ new @ replace_spans s new j ms"

definition regex_replace :: "rx \<Rightarrow> string \<Rightarrow> string \<Rightarrow> string" where
  "regex_replace r new s = replace_spans s new 0 (all_matches r s 0)"

text \<open>A greedy run of one class takes as many characters as there are and then gives back.\<close>

primrec run_down :: "caps \<Rightarrow> nat \<Rightarrow> nat \<Rightarrow> (nat \<times> caps) list" where
  "run_down c i 0 = [(i, c)]"
| "run_down c i (Suc n) = (i + Suc n, c) # run_down c i n"

lemma run_down_snoc: "run_down c i (Suc n) = run_down c (Suc i) n @ [(i, c)]"
  by (induction n) simp_all

lemma takeWhile_drop_Suc:
  "i < length s \<Longrightarrow> p (s ! i) \<Longrightarrow> length (takeWhile p (drop i s)) = Suc (length (takeWhile p (drop (Suc i) s)))"
  by (simp add: Cons_nth_drop_Suc [symmetric])

lemma takeWhile_drop_0: "\<not> (i < length s \<and> p (s ! i)) \<Longrightarrow> takeWhile p (drop i s) = []"
  by (cases "i < length s") (auto simp: Cons_nth_drop_Suc [symmetric])

lemma rep_sym:
  assumes "length (takeWhile p (drop i s)) \<le> n"
  shows "rep_all (rx_all (Sym p) s) n (i, c) = run_down c i (length (takeWhile p (drop i s)))"
  using assms
proof (induction n arbitrary: i)
  case 0
  then show ?case by simp
next
  case (Suc n)
  show ?case
  proof (cases "i < length s \<and> p (s ! i)")
    case True
    then have l: "length (takeWhile p (drop i s)) = Suc (length (takeWhile p (drop (Suc i) s)))"
      by (simp add: takeWhile_drop_Suc)
    then have "rep_all (rx_all (Sym p) s) n (Suc i, c) = run_down c (Suc i) (length (takeWhile p (drop (Suc i) s)))"
      using Suc.prems by (intro Suc.IH) simp
    moreover have "rep_all f (Suc n) (i, c) = rep_all f n (Suc i, c) @ [(i, c)]" if "f (i, c) = [(Suc i, c)]" for f
      using that by simp
    moreover have "rx_all (Sym p) s (i, c) = [(Suc i, c)]" using True by simp
    ultimately show ?thesis using l by (metis run_down_snoc)
  next
    case False
    then show ?thesis using takeWhile_drop_0 [of i s p] by auto
  qed
qed

lemma rx_rep_sym:
  "rx_all (Rep (Sym p)) s (i, c) = run_down c i (length (takeWhile p (drop i s)))"
proof -
  have "length (takeWhile p (drop i s)) \<le> length s - i" by (metis length_drop length_takeWhile_le)
  then show ?thesis using rep_sym [of p i s "length s - i" c] by simp
qed

lemma rx_some_sym:
  "rx_all (some_of (Sym p)) s (i, c) =
   (if i < length s \<and> p (s ! i) then run_down c (Suc i) (length (takeWhile p (drop (Suc i) s))) else [])"
  by (auto simp: some_of_def rx_rep_sym simp del: rx_all.simps(5))

text \<open>Texts and fixed numbers of characters match in one way.\<close>

lemma take_drop_Suc:
  "take (Suc n) (drop i s) = (if i < length s then s ! i # take n (drop (Suc i) s) else [])"
  by (auto simp: Cons_nth_drop_Suc [symmetric])

lemma rx_exactly_sym:
  "rx_all (exactly n (Sym p)) s (i, c) =
   (if length (take n (drop i s)) = n \<and> list_all p (take n (drop i s)) then [(i + n, c)] else [])"
proof (induction n arbitrary: i)
  case 0
  then show ?case by (simp add: exactly_def)
next
  case (Suc n)
  have step: "rx_all (exactly (Suc n) (Sym p)) s (i, c) = (if i < length s \<and> p (s ! i) then rx_all (exactly n (Sym p)) s (Suc i, c) else [])"
    by (cases n) (auto simp: exactly_def)
  show ?case unfolding step Suc.IH take_drop_Suc by auto
qed

lemma rx_lit:
  "rx_all (lit t) s (i, c) = (if take (length t) (drop i s) = t then [(i + length t, c)] else [])"
proof (induction t arbitrary: i)
  case Nil
  then show ?case by (simp add: lit_def)
next
  case (Cons x t)
  have step: "rx_all (lit (x # t)) s (i, c) = (if i < length s \<and> x = s ! i then rx_all (lit t) s (Suc i, c) else [])"
    by (cases t) (auto simp: lit_def)
  show ?case unfolding step Cons.IH length_Cons take_drop_Suc by auto
qed

lemma rx_lit_first: "rx_lang (icase (lit (x # t))) s i j \<Longrightarrow> i < length s \<and> (x = to_lower (s ! i) \<or> x = to_upper (s ! i))"
  by (cases t) (auto simp: lit_def relcompp_apply)

lemma rx_lit_start: "rx_lang (lit (x # t)) s i j \<Longrightarrow> x \<in> set s"
  by (cases t) (auto simp: lit_def relcompp_apply)

lemma rx_some_first: "rx_lang (icase (some_of (Sym p))) s i j \<Longrightarrow> i < length s \<and> (p (to_lower (s ! i)) \<or> p (to_upper (s ! i)))"
  by (auto simp: some_of_def relcompp_apply)

text \<open>
  Matching does not look at the groups captured so far, nor, without \<open>^\<close>, at the text before
  the position.
\<close>

primrec no_begin :: "rx \<Rightarrow> bool" where
  "no_begin Eps = True"
| "no_begin (Sym p) = True"
| "no_begin (Cat r q) = (no_begin r \<and> no_begin q)"
| "no_begin (Alt r q) = (no_begin r \<and> no_begin q)"
| "no_begin (Rep r) = no_begin r"
| "no_begin (Lazy r) = no_begin r"
| "no_begin (Group k r) = no_begin r"
| "no_begin At_begin = False"
| "no_begin At_end = True"

definition moved :: "nat \<Rightarrow> caps \<Rightarrow> nat \<times> caps \<Rightarrow> nat \<times> caps" where
  "moved m c u = (m + fst u, map (\<lambda>(k, a, b). (k, m + a, m + b)) (snd u) @ c)"

lemma moved_all:
  assumes "\<And>u. f (moved m c u) = map (moved m c) (g u)"
  shows "rep_all f n (moved m c u) = map (moved m c) (rep_all g n u)"
    and "lazy_all f n (moved m c u) = map (moved m c) (lazy_all g n u)"
proof -
  have flt: "filter (\<lambda>v. fst (moved m c u) < fst v) (map (moved m c) vs) = map (moved m c) (filter (\<lambda>v. fst u < fst v) vs)" for u vs
    by (induction vs) (simp_all add: moved_def)
  show "rep_all f n (moved m c u) = map (moved m c) (rep_all g n u)"
  proof (induction n arbitrary: u)
    case (Suc n)
    then show ?case by (simp add: assms flt map_concat comp_def)
  qed simp
  show "lazy_all f n (moved m c u) = map (moved m c) (lazy_all g n u)"
  proof (induction n arbitrary: u)
    case (Suc n)
    then show ?case by (simp add: assms flt map_concat comp_def)
  qed simp
qed

lemma rx_moved:
  "no_begin r \<Longrightarrow> rx_all r (ds @ t) (moved (length ds) c u) = map (moved (length ds) c) (rx_all r t u)"
proof (induction r arbitrary: u)
  case (Sym p)
  then show ?case by (simp add: moved_def nth_append)
next
  case (Cat r q)
  then show ?case by (simp add: map_concat comp_def)
next
  case (Rep r)
  have "length (ds @ t) - fst (moved (length ds) c u) = length t - fst u" by (simp add: moved_def)
  then show ?case using moved_all(1) [of "rx_all r (ds @ t)" "length ds" c "rx_all r t"] Rep by simp
next
  case (Lazy r)
  have "length (ds @ t) - fst (moved (length ds) c u) = length t - fst u" by (simp add: moved_def)
  then show ?case using moved_all(2) [of "rx_all r (ds @ t)" "length ds" c "rx_all r t"] Lazy by simp
next
  case (Group k r)
  then show ?case by (simp add: comp_def) (simp add: moved_def)
qed (simp_all add: moved_def)

lemma run_down_hd: "run_down c i n = (i + n, c) # tl (run_down c i n)"
  by (cases n) simp_all

text \<open>
  The engine decides the language of an expression.  A full match exists exactly when the whole
  text is in the language; a search finds the leftmost position from which some text is in the
  language, reports a text of the language there, and fails only when there is none anywhere.
\<close>

theorem regex_engine_correct:
  "(regex_match r s \<noteq> None \<longleftrightarrow> rx_lang r s 0 (length s)) \<and>
   (case regex_search r s of
      Some (i, j, cs) \<Rightarrow> i \<le> j \<and> j \<le> length s \<and> rx_lang r s i j \<and> (\<nexists>h l. h < i \<and> rx_lang r s h l)
    | None \<Rightarrow> \<nexists>h l. h \<le> length s \<and> rx_lang r s h l)"
proof (cases "regex_search r s")
  case None
  then show ?thesis using regex_match_lang search_from_None [of r s 0] by (auto simp: regex_search_def)
next
  case (Some x)
  obtain i j cs where x: "x = (i, j, cs)" by (cases x)
  have "i \<le> length s \<and> rx_lang r s i j \<and> (\<forall>h. 0 \<le> h \<and> h < i \<longrightarrow> (\<forall>l. \<not> rx_lang r s h l))"
    using search_from_Some [of r s 0 i j cs] Some x by (simp add: regex_search_def)
  with Some x rx_lang_bounds [of r s i j] show ?thesis using regex_match_lang by auto
qed

section \<open>Texts without a character\<close>

text \<open>A character that occurs in every text of the language.\<close>

primrec must :: "char \<Rightarrow> rx \<Rightarrow> bool" where
  "must x Eps = False"
| "must x (Sym p) = (\<forall>c. p c \<longrightarrow> c = x)"
| "must x (Cat r q) = (must x r \<or> must x q)"
| "must x (Alt r q) = (must x r \<and> must x q)"
| "must x (Rep r) = False"
| "must x (Lazy r) = False"
| "must x (Group k r) = must x r"
| "must x At_begin = False"
| "must x At_end = False"

lemma must_lang: "rx_lang r s i j \<Longrightarrow> must x r \<Longrightarrow> x \<in> set s"
  by (induction r arbitrary: i j) (auto simp: in_set_conv_nth)

lemma must_cats: "must x (cats rs) \<longleftrightarrow> (\<exists>r\<in>set rs. must x r)"
  by (induction rs rule: cats.induct) auto

lemma must_lit: "x \<in> set t \<Longrightarrow> must x (lit t)"
  by (auto simp: lit_def must_cats)

lemma must_search:
  assumes "must x r" "x \<notin> set s"
  shows "regex_search r s = None" "regex_match r s = None" "all_matches r s k = []" "regex_replace r new s = s"
proof -
  have no: "\<not> rx_lang r s i j" for i j using must_lang assms by blast
  have "search_from r s k = None" for k
    using search_from_Some [of r s k] no by (metis option.exhaust surj_pair)
  then show "regex_search r s = None" and m: "all_matches r s k = []" for k
    by (simp_all add: regex_search_def all_matches.simps)
  show "regex_match r s = None" using regex_match_lang [of r s] no by blast
  show "regex_replace r new s = s" using m by (simp add: regex_replace_def)
qed

lemma contains_iff: "contains s t \<longleftrightarrow> (\<exists>u v. s = u @ t @ v)"
proof
  assume "contains s t"
  then obtain i j cs where "regex_search (lit t) s = Some (i, j, cs)"
    unfolding contains_def matches_def by (metis option.exhaust surj_pair)
  then have "i \<le> length s" "rx_lang (lit t) s i j" using search_from_Some by (auto simp: regex_search_def)
  then have "rx_all (lit t) s (i, []) \<noteq> []" using rx_all_Nil by blast
  then have "take (length t) (drop i s) = t" by (auto simp: rx_lit split: if_splits)
  then show "\<exists>u v. s = u @ t @ v" by (metis append_take_drop_id)
next
  assume "\<exists>u v. s = u @ t @ v"
  then obtain u v where s: "s = u @ t @ v" by blast
  then have "rx_all (lit t) s (length u, []) \<noteq> []" by (simp add: rx_lit)
  then obtain j where "rx_lang (lit t) s (length u) j" using rx_all_Nil [of "length u" s "lit t"] s by auto
  then show "contains s t"
    using search_from_None [of "lit t" s 0 "length u" j] s by (auto simp: contains_def matches_def regex_search_def simp del: not_None_eq)
qed

lemma contains_append: "contains (u @ t @ v) t"
  by (auto simp: contains_iff)

end
