(* ===== verification/Temporal.thy ===== *)
theory Temporal
  imports Regex_Engine
begin

text \<open>
  Dates in annotations of facts (\<open>temporal.cpp\<close>): absolute dates in four formats and expressions
  relative to a context date, to milliseconds since the epoch and back.  \<open>gmtime\<close> and
  \<open>timegm\<close> are the proleptic Gregorian calendar.  Parameter: how \<open>%Y\<close> prints a year outside
  1000 to 9999.  An uncaught \<open>std::out_of_range\<close> of \<open>std::stoi\<close> and the comparison of a text
  with a null pointer, which ends the process, are error values; arithmetic on \<open>int64_t\<close>
  wraps around.
\<close>

datatype date_error = Stoi_range | Null_name

type_synonym 'a dres = "date_error + 'a"

section \<open>The calendar\<close>

definition leap_year :: "int \<Rightarrow> bool" where
  "leap_year y = (y mod 4 = 0 \<and> (y mod 100 \<noteq> 0 \<or> y mod 400 = 0))"

text \<open>The days from the first of January of year 1 to that of year \<open>y\<close>, and within a year to a month.\<close>

definition days_to_year :: "int \<Rightarrow> int" where
  "days_to_year y = 365 * (y - 1) + (y - 1) div 4 - (y - 1) div 100 + (y - 1) div 400"

definition days_to_month :: "bool \<Rightarrow> nat \<Rightarrow> int" where
  "days_to_month lp m = [0, 31, 59, 90, 120, 151, 181, 212, 243, 273, 304, 334] ! m + (if lp \<and> m \<ge> 2 then 1 else 0)"

definition epoch_day :: int where
  "epoch_day = 719162"

record tm =
  tm_year :: int
  tm_mon :: int
  tm_mday :: int

text \<open>\<open>timegm\<close> on a date at midnight: months outside the year and days outside the month carry over.\<close>

definition timegm :: "tm \<Rightarrow> int" where
  "timegm t =
     (let y = tm_year t + 1900 + tm_mon t div 12; m = nat (tm_mon t mod 12)
      in 86400 * (days_to_year y + days_to_month (leap_year y) m + tm_mday t - 1 - epoch_day))"

definition year_of_day :: "int \<Rightarrow> int" where
  "year_of_day n = (let y = 400 * n div 146097 + 1 in if days_to_year (y + 1) \<le> n then y + 1 else y)"

definition month_of_day :: "bool \<Rightarrow> int \<Rightarrow> nat" where
  "month_of_day lp d = length (takeWhile (\<lambda>m. days_to_month lp m \<le> d) [1..<12])"

definition gmtime :: "int \<Rightarrow> tm" where
  "gmtime t =
     (let n = t div 86400 + epoch_day; y = year_of_day n; d = n - days_to_year y; m = month_of_day (leap_year y) d
      in \<lparr>tm_year = y - 1900, tm_mon = int m, tm_mday = d - days_to_month (leap_year y) m + 1\<rparr>)"

section \<open>Printing a date\<close>

text \<open>Two digits with a leading zero, and a year of four digits.\<close>

definition two :: "int \<Rightarrow> string" where
  "two n = [decd (nat (n div 10 mod 10)), decd (nat (n mod 10))]"

definition put_date :: "(int \<Rightarrow> string) \<Rightarrow> tm \<Rightarrow> string" where
  "put_date year_text t =
     (let y = tm_year t + 1900
      in (if 1000 \<le> y \<and> y \<le> 9999 then two (y div 100) @ two (y mod 100) else year_text y)
         @ ''-'' @ two (tm_mon t + 1) @ ''-'' @ two (tm_mday t))"

definition tquot :: "int \<Rightarrow> int \<Rightarrow> int" where
  "tquot a b = (if a < 0 then - (- a div b) else a div b)"

definition format_iso_date :: "(int \<Rightarrow> string) \<Rightarrow> int \<Rightarrow> string" where
  "format_iso_date year_text timestamp_ms = put_date year_text (gmtime (tquot timestamp_ms 1000))"

section \<open>Absolute dates\<close>

definition month_names :: "(string \<times> int) list" where
  "month_names =
     [(''january'', 0), (''jan'', 0), (''february'', 1), (''feb'', 1), (''march'', 2), (''mar'', 2),
      (''april'', 3), (''apr'', 3), (''may'', 4), (''june'', 5), (''jun'', 5), (''july'', 6), (''jul'', 6),
      (''august'', 7), (''aug'', 7), (''september'', 8), (''sep'', 8), (''october'', 9), (''oct'', 9),
      (''november'', 10), (''nov'', 10), (''december'', 11), (''dec'', 11)]"

text \<open>
  The table is declared with 24 entries and has 23: the last name is null, and a name found
  nowhere before it is compared with it.
\<close>

definition month_name_to_index :: "string \<Rightarrow> int dres" where
  "month_name_to_index month = (case map_of month_names (map to_lower month) of Some i \<Rightarrow> Inr i | None \<Rightarrow> Inl Null_name)"

definition digits :: "nat \<Rightarrow> nat \<Rightarrow> rx" where
  "digits m n = between m n (Sym is_digit)"

definition iso_pattern :: rx where
  "iso_pattern = cats [digits 4 4, lit ''-'', digits 2 2, lit ''-'', digits 2 2]"

definition dmy_pattern :: rx where
  "dmy_pattern =
     cats [Group 1 (digits 1 2), Sym (\<lambda>c. c = CHR ''-'' \<or> c = CHR ''/''), Group 2 (some_of (Sym word_char)),
           Sym (\<lambda>c. c = CHR ''-'' \<or> c = CHR ''/''), Group 3 (digits 4 4)]"

definition mdy_pattern :: rx where
  "mdy_pattern =
     cats [Group 1 (some_of (Sym word_char)), some_of (Sym is_space), Group 2 (digits 1 2), opt (lit '',''),
           Rep (Sym is_space), Group 3 (digits 4 4)]"

text \<open>\<open>std::get_time\<close> with \<open>%Y-%m-%d\<close> on a text of that shape: months 1 to 12 and days 1 to 31.\<close>

definition get_time_ymd :: "string \<Rightarrow> tm option" where
  "get_time_ymd s =
     (let y = decnum (take 4 s); m = decnum (take 2 (drop 5 s)); d = decnum (take 2 (drop 8 s))
      in if 1 \<le> m \<and> m \<le> 12 \<and> 1 \<le> d \<and> d \<le> 31
         then Some \<lparr>tm_year = int y - 1900, tm_mon = int m - 1, tm_mday = int d\<rparr> else None)"

text \<open>A group of digits as a number; \<open>std::stoi\<close> throws when it does not fit.\<close>

definition group_int :: "string \<Rightarrow> caps \<Rightarrow> nat \<Rightarrow> int dres" where
  "group_int s cs k = (case stoi (group_str s cs k) of Some v \<Rightarrow> Inr v | None \<Rightarrow> Inl Stoi_range)"

definition named_date :: "string \<Rightarrow> caps \<Rightarrow> nat \<Rightarrow> nat \<Rightarrow> nat \<Rightarrow> tm option dres" where
  "named_date s cs kd km ky =
     rbind (group_int s cs kd) (\<lambda>day. rbind (month_name_to_index (group_str s cs km)) (\<lambda>month.
     rbind (group_int s cs ky) (\<lambda>year.
       Inr (if month \<ge> 0 then Some \<lparr>tm_year = year - 1900, tm_mon = month, tm_mday = day\<rparr> else None))))"

definition parse_compact :: "string \<Rightarrow> tm option" where
  "parse_compact s =
     (if length s = 8 \<and> list_all is_digit s
      then Some \<lparr>tm_year = int (decnum (take 4 s)) - 1900, tm_mon = int (decnum (take 2 (drop 4 s))) - 1,
                 tm_mday = int (decnum (take 2 (drop 6 s)))\<rparr>
      else None)"

text \<open>The formats in the order in which they are tried; one that does not apply leaves the next.\<close>

definition or_try :: "'a option dres \<Rightarrow> 'a option dres \<Rightarrow> 'a option dres" where
  "or_try a b = rbind a (\<lambda>r. case r of Some x \<Rightarrow> Inr (Some x) | None \<Rightarrow> b)"

definition parse_to_tm :: "string \<Rightarrow> tm option dres" where
  "parse_to_tm s =
     or_try (Inr (if regex_match iso_pattern s \<noteq> None then get_time_ymd s else None))
     (or_try (case regex_match dmy_pattern s of Some cs \<Rightarrow> named_date s cs 1 2 3 | None \<Rightarrow> Inr None)
     (or_try (case regex_match mdy_pattern s of Some cs \<Rightarrow> named_date s cs 2 1 3 | None \<Rightarrow> Inr None)
     (Inr (parse_compact s))))"

definition to_int64 :: "int \<Rightarrow> int" where
  "to_int64 i = sint (word_of_int i :: u64)"

definition tm_to_ms :: "tm \<Rightarrow> int" where
  "tm_to_ms t = to_int64 (timegm t * 1000)"

definition parse_absolute_date :: "string \<Rightarrow> int option dres" where
  "parse_absolute_date s = rbind (parse_to_tm s) (\<lambda>r. Inr (map_option tm_to_ms r))"

section \<open>Relative dates\<close>

record resolved_date =
  timestamp_ms :: int
  date_str :: string
  is_approximate :: bool
  range_end_ms :: "int option"

definition unit_rx :: rx where
  "unit_rx = alts [lit ''day'', lit ''week'', lit ''month'', lit ''year'']"

definition relative_pattern :: rx where
  "relative_pattern =
     icase (alts [lit ''yesterday'', lit ''today'', cats [lit ''last'', some_of (Sym is_space), some_of (Sym word_char)],
       cats [some_of (Sym is_digit), some_of (Sym is_space), Group 1 unit_rx, opt (lit ''s''), some_of (Sym is_space), lit ''ago'']])"

definition is_relative_expression :: "string \<Rightarrow> bool" where
  "is_relative_expression s = matches s relative_pattern"

definition last_n_pattern :: rx where
  "last_n_pattern =
     cats [lit ''last'', some_of (Sym is_space), Group 1 (some_of (Sym is_digit)), some_of (Sym is_space), Group 2 unit_rx, opt (lit ''s'')]"

definition last_unit_pattern :: rx where
  "last_unit_pattern =
     cats [lit ''last'', some_of (Sym is_space), Group 1 (alts [lit ''week'', lit ''month'', lit ''year''])]"

definition ago_pattern :: rx where
  "ago_pattern =
     cats [Group 1 (some_of (Sym is_digit)), some_of (Sym is_space), Group 2 unit_rx, opt (lit ''s''), some_of (Sym is_space), lit ''ago'']"

definition day_ms :: int where
  "day_ms = 86400000"

definition unit_days :: "string \<Rightarrow> int" where
  "unit_days u =
     (if u = ''day'' then 1 else if u = ''week'' then 7 else if u = ''month'' then 30 else if u = ''year'' then 365 else 0)"

text \<open>
  The products are formed in \<open>int64_t\<close>.  From about 292 million years on they overflow, which
  is undefined in C++; the model takes the two's complement result.
\<close>

definition offset_of :: "int \<Rightarrow> string \<Rightarrow> int" where
  "offset_of n u = to_int64 (to_int64 (n * unit_days u) * day_ms)"

definition resolved :: "(int \<Rightarrow> string) \<Rightarrow> int \<Rightarrow> bool \<Rightarrow> int option \<Rightarrow> resolved_date" where
  "resolved yt ts approx range_end =
     \<lparr>timestamp_ms = ts, date_str = format_iso_date yt ts, is_approximate = approx, range_end_ms = range_end\<rparr>"

definition parse_relative :: "(int \<Rightarrow> string) \<Rightarrow> string \<Rightarrow> int \<Rightarrow> resolved_date option dres" where
  "parse_relative yt expr ctx =
     (let lower = map to_lower expr in
      if lower = ''yesterday'' then Inr (Some (resolved yt (to_int64 (ctx - day_ms)) True None))
      else if lower = ''today'' then Inr (Some (resolved yt ctx False None))
      else case regex_search last_n_pattern lower of
        Some (i, j, cs) \<Rightarrow>
          rbind (group_int lower cs 1) (\<lambda>n.
            Inr (Some (resolved yt (to_int64 (ctx - offset_of n (group_str lower cs 2))) True (Some ctx))))
      | None \<Rightarrow>
        (case regex_search last_unit_pattern lower of
           Some (i, j, cs) \<Rightarrow>
             Inr (Some (resolved yt (to_int64 (ctx - offset_of 1 (group_str lower cs 1))) True (Some ctx)))
         | None \<Rightarrow>
           (case regex_search ago_pattern lower of
              Some (i, j, cs) \<Rightarrow>
                rbind (group_int lower cs 1) (\<lambda>n.
                  Inr (Some (resolved yt (to_int64 (ctx - offset_of n (group_str lower cs 2))) True None)))
            | None \<Rightarrow> Inr None)))"

section \<open>Resolving an expression\<close>

definition strip_spaces :: "string \<Rightarrow> string" where
  "strip_spaces s = rev (dropWhile is_space (rev (dropWhile is_space s)))"

definition resolve :: "(int \<Rightarrow> string) \<Rightarrow> string \<Rightarrow> int \<Rightarrow> resolved_date option dres" where
  "resolve yt expression ctx =
     (let expr = strip_spaces expression in
      if expr = [] then Inr None
      else if is_relative_expression expr then parse_relative yt expr ctx
      else rbind (parse_to_tm expr) (\<lambda>r. Inr (map_option (\<lambda>t. resolved yt (tm_to_ms t) False None) r)))"

definition annotation_pattern :: rx where
  "annotation_pattern =
     icase (Cat (lit ''@'') (Group 1 (alts [cats [digits 4 4, lit ''-'', digits 2 2, lit ''-'', digits 2 2],
       lit ''yesterday'', lit ''today'',
       cats [lit ''last'', some_of (Sym is_space), Rep (Sym is_digit), Rep (Sym is_space), unit_rx, opt (lit ''s'')],
       cats [some_of (Sym is_digit), some_of (Sym is_space), unit_rx, opt (lit ''s''), some_of (Sym is_space), lit ''ago'']])))"

definition extract_date_annotation :: "string \<Rightarrow> string option" where
  "extract_date_annotation text =
     map_option (\<lambda>(i, j, cs). group_str text cs 1) (regex_search annotation_pattern text)"

section \<open>The calendar is right\<close>

lemma div_bounds:
  fixes q :: int
  assumes "0 < k"
  shows "k * (q div k) \<le> q" "q < k * (q div k) + k"
  using assms by (simp_all add: mult_div_mod_eq [symmetric] minus_mod_eq_mult_div [symmetric])

lemma year_low: "146097 * q \<le> 400 * n \<Longrightarrow> 4 * a \<le> q \<Longrightarrow> q < 100 * b + 100 \<Longrightarrow> 400 * c \<le> q \<Longrightarrow> 365 * q + a - b + c \<le> (n :: int)"
  by linarith

lemma year_high:
  "400 * n + 1 \<le> 146097 * q + 146097 \<Longrightarrow> q + 2 + 1 \<le> 4 * a + 4 \<Longrightarrow> 100 * b \<le> q + 2 \<Longrightarrow> q + 2 + 1 \<le> 400 * c + 400 \<Longrightarrow>
   n + 1 \<le> 365 * q + 730 + a - b + (c :: int)"
  by linarith

lemma year_of_day:
  "days_to_year (year_of_day n) \<le> n \<and> n < days_to_year (year_of_day n + 1)"
proof -
  define q where "q = 400 * n div 146097"
  have q: "146097 * q \<le> 400 * n" "400 * n < 146097 * q + 146097"
    using div_bounds [of 146097 "400 * n"] by (simp_all add: q_def)
  have b: "k * (x div k) \<le> x" "x < k * (x div k) + k" if "0 < k" for k x :: int
    using div_bounds that by blast+
  have "365 * q + q div 4 - q div 100 + q div 400 \<le> n" by (rule year_low [OF q(1) b(1) b(2) b(1)]) simp_all
  then have y1: "days_to_year (q + 1) \<le> n" by (simp only: days_to_year_def add_diff_cancel_right')
  have "n + 1 \<le> 365 * q + 730 + (q + 2) div 4 - (q + 2) div 100 + (q + 2) div 400"
    by (rule year_high [OF zless_imp_add1_zle [OF q(2)] zless_imp_add1_zle [OF b(2)] b(1) zless_imp_add1_zle [OF b(2)]]) simp_all
  then have "n < 365 * (q + 2) + (q + 2) div 4 - (q + 2) div 100 + (q + 2) div 400"
    by (simp add: add1_zle_eq distrib_left)
  moreover have "q + 3 - 1 = q + 2" by simp
  ultimately have y3: "n < days_to_year (q + 3)" unfolding days_to_year_def by (simp only:)
  show ?thesis
  proof (cases "days_to_year (q + 1 + 1) \<le> n")
    case True
    then have "year_of_day n = q + 1 + 1" unfolding year_of_day_def q_def [symmetric] Let_def by (rule if_P)
    moreover have "q + 1 + 1 + 1 = q + 3" by simp
    ultimately show ?thesis using True y3 by metis
  next
    case False
    then have "year_of_day n = q + 1" unfolding year_of_day_def q_def [symmetric] Let_def by (rule if_not_P)
    with False y1 show ?thesis by (metis not_le)
  qed
qed

lemma div_pred:
  fixes y k :: int
  assumes "0 < k"
  shows "y div k = (y - 1) div k + (if y mod k = 0 then 1 else 0)"
proof (cases "y mod k = 0")
  case True
  then have "y - 1 = k * (y div k - 1) + (k - 1)" using mult_div_mod_eq [of k y] by (simp add: right_diff_distrib)
  then have "(y - 1) div k = y div k - 1"
    using assms int_div_pos_eq [of "y - 1" k "y div k - 1" "k - 1"] by simp
  with True show ?thesis by simp
next
  case False
  then have "1 \<le> y mod k" "y mod k < k" using assms pos_mod_bound [of k y] pos_mod_sign [of k y] by linarith+
  moreover have "y - 1 = k * (y div k) + (y mod k - 1)" by (simp add: mult_div_mod_eq)
  ultimately have "(y - 1) div k = y div k"
    using int_div_pos_eq [of "y - 1" k "y div k" "y mod k - 1"] by linarith
  with False show ?thesis by simp
qed

lemma mod_dvd_0: "(y :: int) mod 400 = 0 \<Longrightarrow> y mod 100 = 0" "y mod 100 = 0 \<Longrightarrow> y mod 4 = 0"
  by (simp_all add: mod_eq_0_iff_dvd) (rule dvd_trans [of _ 400], simp_all, rule dvd_trans [of _ 100], simp_all)

lemma year_length: "days_to_year (y + 1) = days_to_year y + (if leap_year y then 366 else 365)"
proof -
  define c where "c k = (if y mod k = 0 then 1 else 0 :: int)" for k
  have "y div 4 = (y - 1) div 4 + c 4" "y div 100 = (y - 1) div 100 + c 100" "y div 400 = (y - 1) div 400 + c 400"
    unfolding c_def by (rule div_pred, simp)+
  moreover have "365 * y + a - b + d = 365 * (y - 1) + p4 - p100 + p400 + (365 + c4 - c100 + c400)"
    if "a = p4 + c4" "b = p100 + c100" "d = p400 + c400" for a b d p4 p100 p400 c4 c100 c400 :: int
    using that by simp
  ultimately have "days_to_year (y + 1) = days_to_year y + (365 + c 4 - c 100 + c 400)"
    unfolding days_to_year_def add_diff_cancel_right' by blast
  moreover have "365 + c 4 - c 100 + c 400 = (if leap_year y then 366 else 365)"
  proof (cases "y mod 100 = 0")
    case True
    then have "y mod 4 = 0" by (rule mod_dvd_0(2))
    then show ?thesis using True unfolding c_def leap_year_def by (simp only: if_True refl) simp
  next
    case False
    then have "y mod 400 \<noteq> 0" by (rule contrapos_nn) (rule mod_dvd_0(1))
    then show ?thesis using False unfolding c_def leap_year_def by (simp only: if_False) simp
  qed
  ultimately show ?thesis by simp
qed

lemma month_of_day:
  assumes "0 \<le> d" "d < (if lp then 366 else 365)"
  shows "month_of_day lp d < 12 \<and> days_to_month lp (month_of_day lp d) \<le> d \<and> d < days_to_month lp (month_of_day lp d) + 31"
proof -
  let ?P = "\<lambda>m. days_to_month lp m \<le> d"
  let ?m = "month_of_day lp d"
  have len: "?m \<le> 11" using length_takeWhile_le [of ?P "[1..<12]"] by (simp add: month_of_day_def)
  have lo: "?P ?m"
  proof (cases "?m = 0")
    case True
    then show ?thesis using assms(1) by (simp add: days_to_month_def)
  next
    case False
    then have "?m - 1 < length (takeWhile ?P [1..<12])" by (simp add: month_of_day_def)
    then have "?P (takeWhile ?P [1..<12] ! (?m - 1))" using nth_mem set_takeWhileD by fast
    moreover have "takeWhile ?P [1..<12] ! (?m - 1) = ?m"
      using False len takeWhile_nth [of "?m - 1" ?P "[1..<12]"] by (simp add: month_of_day_def)
    ultimately show ?thesis by simp
  qed
  have hi: "?m < 11 \<Longrightarrow> \<not> ?P (Suc ?m)"
    using nth_length_takeWhile [of ?P "[1..<12]"] len by (simp add: month_of_day_def)
  have "?m = 0 \<or> ?m = 1 \<or> ?m = 2 \<or> ?m = 3 \<or> ?m = 4 \<or> ?m = 5 \<or> ?m = 6 \<or> ?m = 7 \<or> ?m = 8 \<or> ?m = 9 \<or> ?m = 10 \<or> ?m = 11"
    using len by arith
  then have "d < days_to_month lp ?m + 31"
    using hi assms(2) by (elim disjE) (simp_all add: days_to_month_def split: if_splits)
  with lo len show ?thesis by simp
qed

lemma timegm_gmtime: "timegm (gmtime t) = 86400 * (t div 86400)"
proof -
  have "month_of_day lp d < 12" for lp d
    using length_takeWhile_le [of "\<lambda>m. days_to_month lp m \<le> d" "[1..<12]"] by (simp add: month_of_day_def)
  then show ?thesis by (simp add: timegm_def gmtime_def Let_def)
qed

lemma gmtime_fields:
  "0 \<le> tm_mon (gmtime t) \<and> tm_mon (gmtime t) < 12 \<and> 1 \<le> tm_mday (gmtime t) \<and> tm_mday (gmtime t) \<le> 31"
proof -
  define n where "n = t div 86400 + epoch_day"
  define y where "y = year_of_day n"
  define d where "d = n - days_to_year y"
  have "0 \<le> d" "d < (if leap_year y then 366 else 365)"
    using year_of_day [of n] year_length [of y] by (auto simp: d_def y_def)
  from month_of_day [OF this] show ?thesis
    by (simp add: gmtime_def Let_def n_def [symmetric] y_def [symmetric] d_def [symmetric])
qed

section \<open>Printed dates read back\<close>

text \<open>A text of digits and hyphens is not a relative expression.\<close>

definition date_char :: "char \<Rightarrow> bool" where
  "date_char c = (is_digit c \<or> c = CHR ''-'')"

lemma not_date_char:
  assumes "date_char c"
  shows "to_lower c = c" "to_upper c = c" "\<not> is_space c" "c \<noteq> CHR ''y''" "c \<noteq> CHR ''t''" "c \<noteq> CHR ''l''"
proof -
  have "48 \<le> (of_char c :: nat) \<and> (of_char c :: nat) \<le> 57 \<or> (of_char c :: nat) = 45"
    using assms by (auto simp: date_char_def is_digit_def)
  then show "to_lower c = c" "to_upper c = c" "\<not> is_space c" "c \<noteq> CHR ''y''" "c \<noteq> CHR ''t''" "c \<noteq> CHR ''l''"
    by (auto simp: to_lower_def to_upper_def is_upper_def is_lower_def is_space_def)
qed

lemma rep_sym_start: "(rx_lang (Sym p) s)\<^sup>*\<^sup>* i j \<Longrightarrow> i = j \<or> i < length s \<and> p (s ! i)"
  by (erule converse_rtranclpE) auto

lemma dates_not_relative:
  assumes "\<forall>c\<in>set s. date_char c"
  shows "\<not> is_relative_expression s"
proof
  assume "is_relative_expression s"
  then obtain i j where l: "rx_lang relative_pattern s i j"
    using regex_engine_correct [of relative_pattern s] by (auto simp: is_relative_expression_def matches_def)
  have n: "to_lower (s ! k) = s ! k \<and> to_upper (s ! k) = s ! k \<and> \<not> is_space (s ! k) \<and> CHR ''y'' \<noteq> s ! k \<and>
      CHR ''t'' \<noteq> s ! k \<and> CHR ''l'' \<noteq> s ! k" if "k < length s" for k
    using not_date_char [of "s ! k"] assms that by auto
  from l consider "rx_lang (icase (lit ''yesterday'')) s i j" | "rx_lang (icase (lit ''today'')) s i j"
    | k where "rx_lang (icase (lit ''last'')) s i k" | k m where "rx_lang (icase (some_of (Sym is_space))) s k m"
    by (auto simp: relative_pattern_def relcompp_apply)
  then show False
    by cases (auto dest!: rx_lit_first rx_some_first simp: n)
qed

lemma decd_digit [simp]: "n < 10 \<Longrightarrow> is_digit (decd n)"
  by (simp add: decd_plain)

lemma decnum_two: "a < 10 \<Longrightarrow> b < 10 \<Longrightarrow> decnum [decd a, decd b] = 10 * a + b"
  using decd_plain [of a] decd_plain [of b] by (simp add: decnum_def)

lemma decnum_four:
  "a < 10 \<Longrightarrow> b < 10 \<Longrightarrow> c < 10 \<Longrightarrow> d < 10 \<Longrightarrow> decnum [decd a, decd b, decd c, decd d] = 1000 * a + 100 * b + 10 * c + d"
  using decd_plain [of a] decd_plain [of b] decd_plain [of c] decd_plain [of d] by (simp add: decnum_def)

lemma iso_match:
  assumes "list_all is_digit [a, b, c, d, e, f, g, h]"
  shows "regex_match iso_pattern [a, b, c, d, CHR ''-'', e, f, CHR ''-'', g, h] \<noteq> None"
  using assms
  by (simp add: regex_match_def iso_pattern_def digits_def between_def rx_exactly_sym rx_lit)

lemma two_digits: "0 \<le> n \<Longrightarrow> n < 100 \<Longrightarrow> n = 10 * (n div 10 mod 10) + n mod (10 :: int)"
proof -
  assume n: "0 \<le> n" "n < 100"
  then have "n div 10 \<le> 99 div 10" by (intro zdiv_mono1) simp_all
  then have "n div 10 mod 10 = n div 10" using n by (intro mod_pos_pos_trivial) (simp_all add: pos_imp_zdiv_nonneg_iff)
  then show ?thesis by simp
qed

lemma four_digits: "y = 100 * p + r \<Longrightarrow> p = 10 * a + b \<Longrightarrow> r = 10 * c + d \<Longrightarrow> 1000 * a + 100 * b + 10 * c + d = (y :: int)"
  by simp

lemma parse_put_date:
  assumes "1000 \<le> tm_year t + 1900" "tm_year t + 1900 \<le> 9999" "0 \<le> tm_mon t" "tm_mon t < 12" "1 \<le> tm_mday t" "tm_mday t \<le> 31"
  shows "parse_to_tm (put_date yt t) = Inr (Some t)" "\<forall>c\<in>set (put_date yt t). date_char c" "put_date yt t \<noteq> []"
proof -
  define y where "y = tm_year t + 1900"
  define v where "v n = nat (n mod 10)" for n :: int
  have v: "v n < 10" "int (v n) = n mod 10" for n by (simp_all add: v_def)
  let ?a = "v (y div 100 div 10)" let ?b = "v (y div 100)" let ?c = "v (y mod 100 div 10)" let ?d = "v (y mod 100)"
  let ?e = "v ((tm_mon t + 1) div 10)" let ?f = "v (tm_mon t + 1)" let ?g = "v (tm_mday t div 10)" let ?h = "v (tm_mday t)"
  have p: "put_date yt t = [decd ?a, decd ?b, decd ?c, decd ?d, CHR ''-'', decd ?e, decd ?f, CHR ''-'', decd ?g, decd ?h]"
    using assms by (simp add: put_date_def two_def v_def y_def Let_def)
  have yr: "int (1000 * ?a + 100 * ?b + 10 * ?c + ?d) = y"
  proof -
    have "y div 100 \<le> 9999 div 100" using assms by (intro zdiv_mono1) (simp_all add: y_def)
    moreover have "0 \<le> y div 100" using assms by (simp add: y_def pos_imp_zdiv_nonneg_iff)
    ultimately have "1000 * (y div 100 div 10 mod 10) + 100 * (y div 100 mod 10) + 10 * (y mod 100 div 10 mod 10) + y mod 100 mod 10 = y"
      by (intro four_digits [OF _ two_digits two_digits]) simp_all
    then show ?thesis unfolding of_nat_add of_nat_mult of_nat_numeral v .
  qed
  have mo: "int (10 * ?e + ?f) = tm_mon t + 1" using two_digits [of "tm_mon t + 1"] assms by (simp add: v)
  have da: "int (10 * ?g + ?h) = tm_mday t" using two_digits [of "tm_mday t"] assms by (simp add: v)
  have m: "regex_match iso_pattern (put_date yt t) \<noteq> None" unfolding p by (rule iso_match) (simp add: v)
  have nums: "decnum (take 4 (put_date yt t)) = 1000 * ?a + 100 * ?b + 10 * ?c + ?d"
    "decnum (take 2 (drop 5 (put_date yt t))) = 10 * ?e + ?f" "decnum (take 2 (drop 8 (put_date yt t))) = 10 * ?g + ?h"
    by (simp_all add: p decnum_four decnum_two v(1))
  have bnd: "1 \<le> 10 * ?e + ?f" "10 * ?e + ?f \<le> 12" "1 \<le> 10 * ?g + ?h" "10 * ?g + ?h \<le> 31" using mo da assms by linarith+
  have "get_time_ymd (put_date yt t) = Some \<lparr>tm_year = int (1000 * ?a + 100 * ?b + 10 * ?c + ?d) - 1900,
      tm_mon = int (10 * ?e + ?f) - 1, tm_mday = int (10 * ?g + ?h)\<rparr>"
    unfolding get_time_ymd_def nums Let_def using bnd by simp
  also have "\<dots> = Some t" unfolding yr mo da by (simp add: y_def)
  finally have "get_time_ymd (put_date yt t) = Some t" .
  with m show "parse_to_tm (put_date yt t) = Inr (Some t)" by (simp add: parse_to_tm_def or_try_def)
  show "\<forall>c\<in>set (put_date yt t). date_char c" "put_date yt t \<noteq> []" unfolding p by (simp_all add: date_char_def v)
qed

lemma to_int64_id: "- (2 ^ 63) \<le> i \<Longrightarrow> i < 2 ^ 63 \<Longrightarrow> to_int64 i = i"
  by (simp add: to_int64_def signed_of_int signed_take_bit_int_eq_self)

lemma strip_date: "\<forall>c\<in>set s. date_char c \<Longrightarrow> strip_spaces s = s"
proof -
  assume s: "\<forall>c\<in>set s. date_char c"
  have d: "dropWhile is_space r = r" if "\<forall>c\<in>set r. date_char c" for r
    using that not_date_char(3) by (cases r) auto
  show ?thesis using d [of s] d [of "rev s"] s by (simp add: strip_spaces_def)
qed

lemma tquot_day: "tquot (86400000 * k) 1000 div 86400 = k"
  by (cases "k < 0") (simp_all add: tquot_def)

lemma gmtime_day: "s div 86400 = t div 86400 \<Longrightarrow> gmtime s = gmtime t"
  by (simp add: gmtime_def)

text \<open>
  C35: Printing a timestamp as a date and resolving the text gives the start of the day, printed the
  same way.  For every timestamp of the years 1000 to 9999 (whose milliseconds fit) the text
  is read as an absolute date, never as a relative one, and whatever the context date.
\<close>

theorem date_roundtrip:
  assumes "1000 \<le> tm_year (gmtime (tquot ts 1000)) + 1900" "tm_year (gmtime (tquot ts 1000)) + 1900 \<le> 9999"
    "\<bar>tquot ts 1000 div 86400\<bar> < 10 ^ 10"
  shows "resolve yt (format_iso_date yt ts) ctx =
    Inr (Some \<lparr>timestamp_ms = 86400000 * (tquot ts 1000 div 86400), date_str = format_iso_date yt ts,
               is_approximate = False, range_end_ms = None\<rparr>) \<and>
    parse_absolute_date (format_iso_date yt ts) = Inr (Some (86400000 * (tquot ts 1000 div 86400)))"
proof -
  let ?t = "gmtime (tquot ts 1000)" let ?k = "tquot ts 1000 div 86400"
  note f = gmtime_fields [of "tquot ts 1000"]
  note p = parse_put_date [of ?t yt, OF assms(1,2)]
  have parse: "parse_to_tm (format_iso_date yt ts) = Inr (Some ?t)" and chars: "\<forall>c\<in>set (format_iso_date yt ts). date_char c"
    and ne: "format_iso_date yt ts \<noteq> []" using p f by (simp_all add: format_iso_date_def)
  have "- (2 ^ 63) \<le> 86400000 * ?k" "86400000 * ?k < 2 ^ 63" using assms(3) by (auto simp: abs_less_iff)
  moreover have "timegm ?t * 1000 = 86400000 * ?k" by (simp add: timegm_gmtime)
  ultimately have ms: "tm_to_ms ?t = 86400000 * ?k" unfolding tm_to_ms_def by (simp only: to_int64_id)
  have "format_iso_date yt (86400000 * ?k) = format_iso_date yt ts"
    using gmtime_day [OF tquot_day [of ?k]] by (simp add: format_iso_date_def)
  with parse ms dates_not_relative [OF chars] strip_date [OF chars] ne
  have "resolve yt (format_iso_date yt ts) ctx =
      Inr (Some \<lparr>timestamp_ms = 86400000 * ?k, date_str = format_iso_date yt ts, is_approximate = False, range_end_ms = None\<rparr>)"
    by (simp add: resolve_def resolved_def)
  moreover have "parse_absolute_date (format_iso_date yt ts) = Inr (Some (86400000 * ?k))"
    using parse ms by (simp add: parse_absolute_date_def)
  ultimately show ?thesis ..
qed

theorem date_roundtrip_witness:
  "resolve (\<lambda>y. []) (format_iso_date (\<lambda>y. []) 1700000000000) 0 =
     Inr (Some \<lparr>timestamp_ms = 1699920000000, date_str = ''2023-11-14'', is_approximate = False, range_end_ms = None\<rparr>)"
proof -
  have "1000 \<le> tm_year (gmtime (tquot 1700000000000 1000)) + 1900 \<and> tm_year (gmtime (tquot 1700000000000 1000)) + 1900 \<le> 9999 \<and>
      \<bar>tquot 1700000000000 1000 div 86400\<bar> < 10 ^ 10 \<and> 86400000 * (tquot 1700000000000 1000 div 86400) = 1699920000000 \<and>
      format_iso_date (\<lambda>y. []) 1700000000000 = ''2023-11-14''"
    by code_simp
  then show ?thesis using date_roundtrip [of 1700000000000 "\<lambda>y. []" 0] by simp
qed

section \<open>Relative expressions\<close>

lemma digits_run:
  assumes "\<forall>c\<in>set ds. is_digit c" "t = [] \<or> \<not> is_digit (hd t)" "ds \<noteq> []"
  shows "rx_all (some_of (Sym is_digit)) (ds @ t) (0, c) = (length ds, c) # tl (run_down c 1 (length ds - 1))"
proof -
  obtain d es where ds: "ds = d # es" using assms(3) by (cases ds) auto
  have "takeWhile is_digit (es @ t) = es"
    using assms(1,2) ds by (cases t) (auto simp: takeWhile_append)
  then show ?thesis using assms(1) run_down_hd [of c 1 "length es"] by (simp add: rx_some_sym ds)
qed

text \<open>What follows the number in an expression such as \<open>12 days ago\<close>.\<close>

definition ago_tail :: "string \<Rightarrow> string" where
  "ago_tail u = '' '' @ u @ ''s ago''"

definition time_units :: "string list" where
  "time_units = [''day'', ''week'', ''month'', ''year'']"

lemma no_letter_l:
  assumes "u \<in> set time_units" "\<forall>c\<in>set ds. is_digit c"
  shows "\<forall>c\<in>set (ds @ ago_tail u). CHR ''l'' \<noteq> c \<and> to_lower c = c"
proof -
  have "\<forall>c\<in>set ds. date_char c" using assms(2) by (simp add: date_char_def)
  then have "\<forall>c\<in>set ds. CHR ''l'' \<noteq> c \<and> to_lower c = c"
    using not_date_char by metis
  moreover have "list_all (\<lambda>u. list_all (\<lambda>c. CHR ''l'' \<noteq> c \<and> to_lower c = c) (ago_tail u)) time_units"
    by code_simp
  ultimately show ?thesis using assms(1) by (auto simp: list_all_iff)
qed

lemma lit_l_absent:
  assumes "CHR ''l'' \<notin> set s"
  shows "regex_search (Cat (lit (CHR ''l'' # t)) r) s = None"
proof -
  have "\<not> rx_lang (Cat (lit (CHR ''l'' # t)) r) s i j" for i j
    using assms rx_lit_start [of "CHR ''l''" t s] by (auto simp: relcompp_apply)
  then show ?thesis using regex_engine_correct [of "Cat (lit (CHR ''l'' # t)) r" s]
    by (cases "regex_search (Cat (lit (CHR ''l'' # t)) r) s") auto
qed

definition ago_rest :: rx where
  "ago_rest = cats [some_of (Sym is_space), Group 2 unit_rx, opt (lit ''s''), some_of (Sym is_space), lit ''ago'']"

lemma ago_rest_tail:
  assumes "u \<in> set time_units"
  shows "\<exists>more. rx_all ago_rest (ago_tail u) (0, []) = (length (ago_tail u), [(2, 1, 1 + length u)]) # more"
proof -
  have "list_all (\<lambda>u. case rx_all ago_rest (ago_tail u) (0, []) of
      [] \<Rightarrow> False | v # vs \<Rightarrow> v = (length (ago_tail u), [(2, 1, 1 + length u)])) time_units"
    by code_simp
  then have "case rx_all ago_rest (ago_tail u) (0, []) of
      [] \<Rightarrow> False | v # vs \<Rightarrow> v = (length (ago_tail u), [(2, 1, 1 + length u)])"
    using assms by (simp only: list_all_iff)
  then show ?thesis by (cases "rx_all ago_rest (ago_tail u) (0, [])") simp_all
qed

lemma ago_patterns:
  assumes "u \<in> set time_units" "\<forall>c\<in>set ds. is_digit c" "ds \<noteq> []"
  shows "\<exists>more. rx_all ago_pattern (ds @ ago_tail u) (0, []) =
    (length (ds @ ago_tail u), [(2, length ds + 1, length ds + (1 + length u)), (1, 0, length ds)]) # more"
proof -
  have hd: "ago_tail u = [] \<or> \<not> is_digit (hd (ago_tail u))" by (simp add: ago_tail_def is_digit_def)
  have pat: "ago_pattern = Cat (Group 1 (some_of (Sym is_digit))) ago_rest" by (simp add: ago_pattern_def ago_rest_def)
  have nb: "no_begin ago_rest" by (simp add: ago_rest_def some_of_def unit_rx_def opt_def lit_def)
  obtain more where "rx_all ago_rest (ago_tail u) (0, []) = (length (ago_tail u), [(2, 1, 1 + length u)]) # more"
    using ago_rest_tail [OF assms(1)] by blast
  then have "\<exists>more. rx_all ago_rest (ds @ ago_tail u) (length ds, [(1, 0, length ds)]) =
      (length (ds @ ago_tail u), [(2, length ds + 1, length ds + (1 + length u)), (1, 0, length ds)]) # more"
    using rx_moved [OF nb, of ds "ago_tail u" "[(1, 0, length ds)]" "(0, [])"] by (simp add: moved_def)
  then show ?thesis using digits_run [OF assms(2) hd assms(3), of "[]"] by (auto simp: pat)
qed

lemma stoi_dec_cases: "stoi (dec_of v) = (if v < 2 ^ 31 then Some (int v) else None)"
proof (cases "v < 2 ^ 31")
  case True
  then show ?thesis by (simp add: stoi_dec_of)
next
  case False
  have all: "\<forall>c \<in> set (dec_of v). is_digit c \<and> \<not> is_space c \<and> c \<noteq> nul" using dec_of_plain by blast
  obtain c s where cs: "dec_of v = c # s" by (cases "dec_of v") auto
  have c: "c \<noteq> CHR ''-''" "c \<noteq> CHR ''+''" "\<not> is_space c" using dec_of_plain [of c v] cs by auto
  have "c_str (dec_of v) = dec_of v" "takeWhile is_digit (dec_of v) = dec_of v"
    using all by (simp_all add: c_str_def takeWhile_eq_all_conv)
  moreover have "decnum (c # s) = v" using decnum_dec_of [of v] by (simp only: cs)
  ultimately show ?thesis using c False by (simp add: stoi_def Let_def cs)
qed

lemma rx_lang_icase:
  assumes "rx_lang r s i j" "map to_lower s = s"
  shows "rx_lang (icase r) s i j"
  using assms(1)
proof (induction r arbitrary: i j)
  case (Sym p)
  have "to_lower (s ! i) = s ! i" if "i < length s" using assms(2) that by (metis nth_map)
  with Sym show ?case by auto
next
  case (Cat r q)
  then show ?case by (simp add: relcompp_apply) blast
next
  case (Rep r)
  then show ?case using rtranclp_mono [of "rx_lang r s" "rx_lang (icase r) s"] by auto
next
  case (Lazy r)
  then show ?case using rtranclp_mono [of "rx_lang r s" "rx_lang (icase r) s"] by auto
qed (auto simp: relcompp_apply)

text \<open>The largest count of years \<open>std::stoi\<close> accepts does not fit the product.\<close>

lemma years_overflow: "offset_of 2147483647 ''year'' \<noteq> 2147483647 * 365 * day_ms"
  by code_simp

text \<open>
  C36: An expression such as \<open>12 days ago\<close> resolves to the context date minus that many units of 1, 7,
  30 or 365 days, in the arithmetic of \<open>int64_t\<close> (wrapping where C++ leaves an overflow
  undefined); a number that does not fit an \<open>int\<close>
  leaves the function as an exception.
\<close>

theorem ago_resolves:
  assumes "u \<in> set time_units"
  shows "resolve yt (dec_of n @ ago_tail u) ctx =
    (if n < 2 ^ 31 then Inr (Some (resolved yt (to_int64 (ctx - offset_of (int n) u)) True None)) else Inl Stoi_range)"
proof -
  let ?s = "dec_of n @ ago_tail u"
  have dig: "\<forall>c\<in>set (dec_of n). is_digit c" using dec_of_plain by blast
  note nl = no_letter_l [OF assms dig]
  have low: "map to_lower ?s = ?s" using nl by (intro map_idI) simp
  obtain c ds where cs: "dec_of n = c # ds" by (cases "dec_of n") auto
  have st: "strip_spaces ?s = ?s"
  proof -
    have "\<not> is_space c" using dec_of_plain [of c n] cs by simp
    then show ?thesis by (simp add: strip_spaces_def cs ago_tail_def is_space_def)
  qed
  define K :: caps where "K = [(2, length (dec_of n) + 1, length (dec_of n) + (1 + length u)), (1, 0, length (dec_of n))]"
  obtain more where m: "rx_all ago_pattern ?s (0, []) =
      (length ?s, K) # more"
    using ago_patterns [OF assms dig] by (auto simp: K_def)
  have search: "regex_search ago_pattern ?s =
      Some (0, length ?s, K)"
    by (simp add: regex_search_def search_from.simps [of _ _ 0] m)
  have c: "is_digit c" using dig cs by simp
  have "\<exists>j. rx_lang relative_pattern ?s 0 j"
  proof -
    have "rx_lang ago_pattern ?s 0 (length ?s)" using regex_engine_correct [of ago_pattern ?s] search by simp
    then have "rx_lang (icase ago_pattern) ?s 0 (length ?s)" using low by (rule rx_lang_icase)
    then have "\<exists>j. rx_lang (icase (cats [some_of (Sym is_digit), some_of (Sym is_space), Group 1 unit_rx, opt (lit ''s''),
        some_of (Sym is_space), lit ''ago''])) ?s 0 j"
      by (intro exI [of _ "length ?s"]) (simp add: ago_pattern_def)
    then show ?thesis by (simp add: relative_pattern_def) blast
  qed
  then have rel: "is_relative_expression ?s"
    using regex_engine_correct [of relative_pattern ?s] by (auto simp: is_relative_expression_def matches_def split: option.splits)
  have l: "CHR ''l'' \<notin> set ?s" using nl by blast
  have none: "regex_search last_n_pattern ?s = None" "regex_search last_unit_pattern ?s = None"
    unfolding last_n_pattern_def last_unit_pattern_def cats.simps by (rule lit_l_absent [OF l])+
  have g: "group_str ?s K 1 = dec_of n"
    "group_str ?s K 2 = u"
    by (simp_all add: group_str_def slice_of_def ago_tail_def K_def)
  have ne: "?s \<noteq> ''yesterday''" "?s \<noteq> ''today''" using c by (auto simp: cs is_digit_def)
  have "group_int ?s K 1 =
      (if n < 2 ^ 31 then Inr (int n) else Inl Stoi_range)"
    unfolding group_int_def g stoi_dec_cases by simp
  then have "parse_relative yt ?s ctx =
      (if n < 2 ^ 31 then Inr (Some (resolved yt (to_int64 (ctx - offset_of (int n) u)) True None)) else Inl Stoi_range)"
    unfolding parse_relative_def Let_def low by (simp add: ne none search g)
  then show ?thesis using rel st by (simp add: resolve_def cs)
qed

theorem ago_resolves_witness:
  "resolve (\<lambda>y. []) (dec_of 3 @ ago_tail ''week'') 1700000000000 = Inr (Some (resolved (\<lambda>y. []) 1698185600000 True None)) \<and>
   resolve (\<lambda>y. []) (dec_of 3000000000 @ ago_tail ''day'') 1700000000000 = Inl Stoi_range"
proof -
  have "to_int64 (1700000000000 - offset_of (int 3) ''week'') = 1698185600000" by code_simp
  then show ?thesis
    using ago_resolves [of "''week''" "\<lambda>y. []" 3 1700000000000] ago_resolves [of "''day''" "\<lambda>y. []" 3000000000 1700000000000]
    by (simp add: time_units_def)
qed

section \<open>What the formats disagree on\<close>

text \<open>
  The thirteenth month is refused with hyphens and carried into the next year without them; a
  millisecond before the epoch prints as the day after it.
\<close>

lemma compact_date_carries:
  "parse_absolute_date ''2024-13-45'' = Inr None \<and> parse_absolute_date ''20241345'' = Inr (Some 1739491200000)"
  by code_simp

text \<open>A numeric date with the day first is looked up by the name of its month.\<close>

lemma unknown_month_null: "parse_absolute_date ''05-12-2024'' = Inl Null_name"
  by code_simp

lemma negative_truncates: "format_iso_date yt (- 1) = ''1970-01-01''"
  by code_simp

end
