(* ===== verification/Prompt_Admission.thy ===== *)
theory Prompt_Admission
  imports Regex_Engine Float_Arith
begin

text \<open>
  Prompt admission (\<open>prompt_policy.hpp\<close>): which of the recalled memory lines a prompt carries.
  Each line with a confidence goes through a sequence of gates; what passes becomes a candidate
  of its lane, and a round robin over the lanes takes at most three.  Parameters: the digest of
  a text as hexadecimal digits (or its failure), dumping a document, and \<open>exp\<close> and
  \<open>log\<close> of the C library.
\<close>

section \<open>Words and tokens\<close>

function ws_words :: "string \<Rightarrow> string list" where
  "ws_words s =
     (let t = dropWhile is_space s
      in if t = [] then [] else takeWhile (\<lambda>c. \<not> is_space c) t # ws_words (dropWhile (\<lambda>c. \<not> is_space c) t))"
  by pat_completeness auto
termination
proof (relation "measure length")
  fix s t :: string
  assume t: "t = dropWhile is_space s" "t \<noteq> []"
  then have "\<not> is_space (hd t)" by (simp add: hd_dropWhile)
  then have "length (dropWhile (\<lambda>c. \<not> is_space c) t) < length t"
    using t(2) length_dropWhile_le [of "\<lambda>c. \<not> is_space c" "tl t"] by (cases t) auto
  also have "length t \<le> length s" using t(1) by (simp add: length_dropWhile_le)
  finally show "(dropWhile (\<lambda>c. \<not> is_space c) t, s) \<in> measure length" by simp
qed simp

declare ws_words.simps [simp del]

definition words :: "string \<Rightarrow> string list" where
  "words s = remdups (ws_words s)"

definition token_head :: "char \<Rightarrow> bool" where
  "token_head c = (is_lower c \<or> is_digit c)"

definition token_tail :: "char \<Rightarrow> bool" where
  "token_tail c = (token_head c \<or> c = CHR ''_'' \<or> c = CHR ''>'' \<or> c = CHR ''/'' \<or> c = CHR ''-'')"

definition token_pattern :: rx where
  "token_pattern = cats [Sym token_head, exactly 3 (Sym token_tail), Rep (Sym token_tail)]"

definition tokens :: "string \<Rightarrow> string list" where
  "tokens text =
     (let s = map to_lower text in remdups (map (\<lambda>(i, j, cs). slice_of s i j) (all_matches token_pattern s 0)))"

definition shares :: "string list \<Rightarrow> string list \<Rightarrow> bool" where
  "shares a b = (\<exists>w\<in>set a. w \<in> set b)"

section \<open>The patterns\<close>

definition confidence :: rx where
  "confidence = cats [lit ''['', Group 1 number_rx, lit ''%]'']"

definition negation_pattern :: rx where
  "negation_pattern =
     icase (Alt
       (cats [Alt At_begin (Sym is_space), alts [lit ''is'', lit ''are'', lit ''was'', lit ''were''], spaces, lit ''not'',
              Alt (Sym is_space) At_end])
       (cats [At_begin, Alt (lit ''no'') (lit ''not''), Alt (Sym (\<lambda>c. is_punct c \<or> is_space c)) At_end]))"

definition thinking_pattern :: rx where
  "thinking_pattern = cats [lit ''[episode]'', Rep any_char, lit ''[thinking'', any_char, lit ''block:'']"

definition session_pattern :: rx where
  "session_pattern =
     icase (Alt
       (cats [lit ''[session:'', some_of (Sym (\<lambda>c. c \<noteq> CHR '']'')), lit '']'', spaces,
              alts [lit ''working'', lit ''complete'', lit ''completed'', lit ''failed'', lit ''blocked''],
              lit [CHR 0xE2, CHR 0x86, CHR 0x92], number_rx, spaces, lit ''turns''])
       (lit ''[cache:break]''))"

definition compact_pattern :: rx where
  "compact_pattern = icase (Alt (cats [lit ''pre-compact'', spaces, lit ''context:'']) (lit ''[pre-compact:''))"

definition stars :: rx where
  "stars = opt (between 0 2 (lit ''*''))"

definition agent_pattern :: rx where
  "agent_pattern =
     icase (cats [lit ''you are '', stars, Alt (lit ''claude'') (lit ''codex''),
       opt (Cat (lit '':'') (some_of (Sym (\<lambda>c. c \<noteq> CHR '' '' \<and> c \<noteq> CHR '','' \<and> c \<noteq> CHR ''*'')))), stars,
       Rep any_char, lit ''multi-agent discussion''])"

definition is_lower_hex :: "char \<Rightarrow> bool" where
  "is_lower_hex c = (is_digit c \<or> c \<in> set ''abcdef'')"

definition shipped_pattern :: rx where
  "shipped_pattern =
     cats [alts [lit ''DONE'', lit ''complete'', lit ''completed'', lit ''launched'', lit ''shipped''], Rep any_char, lit ''Fable '',
       exactly 6 (Sym is_lower_hex), Rep (Sym is_lower_hex)]"

definition citation_pattern :: rx where
  "citation_pattern =
     cats [Sym is_upper, some_of (Sym is_lower), lit ''_et_al_'', exactly 4 (Sym is_digit), lit ''_'', some_of (Sym is_alnum)]"

text \<open>Lines about the machinery rather than the subject.\<close>

definition is_meta :: "string \<Rightarrow> bool" where
  "is_meta line =
     (matches line thinking_pattern \<or> contains line ''[thought]'' \<or> matches line session_pattern \<or>
      matches line compact_pattern \<or> matches line agent_pattern \<or>
      (CHR ''?'' \<notin> set line \<and> matches line shipped_pattern) \<or>
      (char_prefix line 89 = line \<and> matches line citation_pattern))"

section \<open>Lanes, reasons and candidates\<close>

datatype lane = Sem | Ctx | Hyb | Kw | Corr | Xr

fun lane_name :: "lane \<Rightarrow> string" where
  "lane_name Sem = ''sem''"
| "lane_name Ctx = ''ctx''"
| "lane_name Hyb = ''hyb''"
| "lane_name Kw = ''kw''"
| "lane_name Corr = ''corr''"
| "lane_name Xr = ''xr''"

definition lanes :: "lane list" where
  "lanes = [Sem, Ctx, Hyb, Kw, Corr, Xr]"

definition lane_tag :: "lane \<Rightarrow> string" where
  "lane_tag l = ''['' @ lane_name l @ '']''"

text \<open>The lane a line is tagged with, and the line without the tag.\<close>

definition split_lane :: "string \<Rightarrow> lane \<times> string" where
  "split_lane line =
     (case List.find (\<lambda>l. l \<noteq> Sem \<and> starts_with (lane_tag l) line) lanes of
        Some l \<Rightarrow> (l, drop (length (lane_tag l)) line) | None \<Rightarrow> (Sem, line))"

datatype reason = Conf | Dup | Meta | Cap | Unk

fun reason_name :: "reason \<Rightarrow> string" where
  "reason_name Conf = ''conf''"
| "reason_name Dup = ''dup''"
| "reason_name Meta = ''meta''"
| "reason_name Cap = ''cap''"
| "reason_name Unk = ''unk''"

definition reasons :: "reason list" where
  "reasons = [Conf, Dup, Meta, Cap, Unk]"

record candidate =
  c_lane :: lane
  c_line :: string
  c_key :: string

section \<open>Reading the state\<close>

record plib =
  digest :: "string \<Rightarrow> string option"
  pdump :: "json \<Rightarrow> string"
  exp_d :: "flt \<Rightarrow> flt"
  log_d :: "flt \<Rightarrow> flt"

text \<open>\<open>std::stoi\<close> with the two exceptions it throws.\<close>

definition stoi_res :: "string \<Rightarrow> int res" where
  "stoi_res s =
     (case stoi s of
        Some v \<Rightarrow> Inr v
      | None \<Rightarrow>
          (let t = dropWhile is_space (c_str s); u = (if t \<noteq> [] \<and> (hd t = CHR ''-'' \<or> hd t = CHR ''+'') then tl t else t)
           in if u \<noteq> [] \<and> is_digit (hd u) then Inl Out_of_range else Inl (Invalid_argument ''stoi'')))"

record prompt_state =
  doc :: json
  query :: string
  qt :: "string list"
  distinct_words :: "string list"
  ctx_words :: "string list"
  seen :: string
  sid :: string
  measured :: bool
  c2 :: int
  small :: bool
  unknown :: bool
  persist :: bool
  negation :: bool

definition read_state :: "json \<Rightarrow> prompt_state res" where
  "read_state state =
     rbind (jvalue_str state ''query'' []) (\<lambda>q.
     rbind (jvalue_str state ''query_tokens'' []) (\<lambda>qts.
     rbind (jvalue_str state ''distinct_tokens'' []) (\<lambda>ds.
     rbind (jvalue_str state ''context_tokens'' []) (\<lambda>cs.
     rbind (jvalue_str state ''seen_hashes'' []) (\<lambda>se.
     rbind (jvalue_str state ''session_id'' ''unknown'') (\<lambda>si.
     rbind (jvalue_str state ''c2_pct'' []) (\<lambda>c2t.
     rbind (if c2t \<noteq> [] then stoi_res c2t else Inr 0) (\<lambda>c2v.
     rbind (jvalue_bool state ''small_realm'' False) (\<lambda>sm.
     rbind (jvalue_bool state ''unknown_silence'' True) (\<lambda>us.
       Inr \<lparr>doc = state, query = q, qt = words qts, distinct_words = words ds, ctx_words = words cs, seen = se, sid = si,
            measured = (c2t \<noteq> []), c2 = c2v, small = sm, unknown = (us \<and> c2t \<noteq> [] \<and> c2v < 81),
            persist = (si \<noteq> [] \<and> si \<noteq> ''unknown''),
            negation = (length (ws_words q) \<le> 8 \<and> matches q negation_pattern)\<rparr>))))))))))"

section \<open>The gates\<close>

definition hash :: "plib \<Rightarrow> string \<Rightarrow> string res" where
  "hash lib line =
     (case digest lib (char_prefix line 80) of
        Some h \<Rightarrow> Inr h | None \<Rightarrow> Inl (Runtime_error ''prompt content hash failed''))"

definition flag :: "bool \<Rightarrow> string" where
  "flag b = (if b then ''1'' else ''0'')"

definition debug_line :: "prompt_state \<Rightarrow> lane \<Rightarrow> int \<Rightarrow> string \<Rightarrow> string" where
  "debug_line st l conf line =
     ''[admit-debug] lane='' @ lane_name l @ '' conf='' @ dec_of_int conf
     @ '' c2='' @ (if measured st then dec_of_int (c2 st) else ''none'')
     @ '' qtok='' @ dec_of (length (qt st)) @ '' sr='' @ flag (small st) @ '' | '' @ char_prefix line 90 @ [lf]"

definition silenced :: "prompt_state \<Rightarrow> lane \<Rightarrow> string list \<Rightarrow> bool" where
  "silenced st l toks =
     (let shared = shares (distinct_words st) toks
      in ((l = Sem \<or> l = Ctx) \<and> \<not> (small st \<and> shared)) \<or> l = Corr \<or> ((l = Kw \<or> l = Hyb \<or> l = Xr) \<and> \<not> shared))"

definition shadow_row :: "prompt_state \<Rightarrow> lane \<Rightarrow> int \<Rightarrow> string \<Rightarrow> string list \<Rightarrow> json" where
  "shadow_row st l conf key toks =
     jobj [(''h'', JStr key), (''conf'', JInt conf), (''shares'', JInt (if shares (qt st) toks then 1 else 0)),
           (''sctx'', JInt (if shares (ctx_words st) toks then 1 else 0)), (''lane'', JStr (lane_name l)),
           (''qn'', JInt (int (length (qt st)))), (''s'', JStr (sid st))]"

datatype verdict = Dropped reason | Candidate candidate

record line_outcome =
  verdict :: verdict
  debug_text :: string
  shadow :: "json option"

definition drop_line :: "reason \<Rightarrow> string \<Rightarrow> line_outcome" where
  "drop_line r dbg = \<lparr>verdict = Dropped r, debug_text = dbg, shadow = None\<rparr>"

text \<open>
  What happens to one line that shows a confidence, gate by gate in the order of the code; the
  options of a gate are read from the document when the gate is reached.
\<close>

definition anchored_out :: "prompt_state \<Rightarrow> lane \<Rightarrow> string list \<Rightarrow> bool res" where
  "anchored_out st l toks =
     (if l \<noteq> Sem then Inr False
      else rbind (jvalue_bool (doc st) ''anchor_enforce'' False) (\<lambda>enforce.
        Inr (enforce \<and> \<not> shares (qt st) toks \<and> length (qt st) \<ge> 3 \<and> length (qt st) \<le> 50)))"

definition late_gates :: "plib \<Rightarrow> prompt_state \<Rightarrow> lane \<Rightarrow> int \<Rightarrow> string \<Rightarrow> string list \<Rightarrow> string \<Rightarrow> line_outcome res" where
  "late_gates lib st l conf line toks dbg =
     rbind (hash lib line) (\<lambda>key.
     if persist st \<and> contains (seen st) key then Inr (drop_line Dup dbg)
     else
       let cand = Candidate \<lparr>c_lane = l, c_line = line, c_key = key\<rparr>
       in if (l = Sem \<or> l = Ctx) \<and> qt st \<noteq> [] then
            rbind (anchored_out st l toks) (\<lambda>out.
              Inr \<lparr>verdict = (if out then Dropped Meta else cand), debug_text = dbg,
                   shadow = Some (shadow_row st l conf key toks)\<rparr>)
          else Inr \<lparr>verdict = cand, debug_text = dbg, shadow = None\<rparr>)"

definition weak_keyword :: "prompt_state \<Rightarrow> lane \<Rightarrow> int \<Rightarrow> bool res" where
  "weak_keyword st l conf =
     (if l = Kw \<and> length (distinct_words st) < 2
      then rbind (jvalue_int (doc st) ''kw_single_token_min'' 60) (\<lambda>least. Inr (conf < least))
      else Inr False)"

definition gates :: "plib \<Rightarrow> prompt_state \<Rightarrow> lane \<Rightarrow> string \<Rightarrow> int \<Rightarrow> string \<Rightarrow> line_outcome res" where
  "gates lib st l line conf dbg =
     (let toks = tokens line
      in if conf < (if l = Hyb \<or> l = Kw then 1 else 30) then Inr (drop_line Conf dbg)
         else if unknown st \<and> silenced st l toks then Inr (drop_line Unk dbg)
         else rbind (weak_keyword st l conf) (\<lambda>weak.
           if weak then Inr (drop_line Conf dbg)
           else if is_meta line then Inr (drop_line Meta dbg)
           else late_gates lib st l conf line toks dbg))"

definition line_confidence :: "string \<Rightarrow> int res" where
  "line_confidence line =
     stoi_res (case regex_search confidence line of Some (i, j, cs) \<Rightarrow> group_str line cs 1 | None \<Rightarrow> [])"

definition gate_line :: "plib \<Rightarrow> prompt_state \<Rightarrow> string \<Rightarrow> line_outcome res" where
  "gate_line lib st raw =
     (let (l, line) = split_lane raw
      in if negation st then Inr (drop_line Unk [])
         else rbind (line_confidence line) (\<lambda>conf.
           rbind (jvalue_bool (doc st) ''debug'' False) (\<lambda>debug.
             gates lib st l line conf (if debug then debug_line st l conf line else []))))"

text \<open>The lines of the memories that show a confidence, with what happened to each.\<close>

definition gated :: "plib \<Rightarrow> prompt_state \<Rightarrow> string \<Rightarrow> line_outcome list res" where
  "gated lib st memories = res_map (gate_line lib st) (filter (\<lambda>line. matches line confidence) (getlines memories))"

definition candidates_of :: "line_outcome list \<Rightarrow> candidate list" where
  "candidates_of os = List.map_filter (\<lambda>v. case verdict v of Candidate c \<Rightarrow> Some c | Dropped r \<Rightarrow> None) os"

definition drops_of :: "line_outcome list \<Rightarrow> reason list" where
  "drops_of os = List.map_filter (\<lambda>v. case verdict v of Dropped r \<Rightarrow> Some r | Candidate c \<Rightarrow> None) os"

section \<open>The round robin\<close>

definition turn_order :: "lane list" where
  "turn_order = [Corr, Kw, Sem, Ctx, Hyb, Xr]"

text \<open>One pass over the lanes: each takes its first candidate that is left, until there are three.\<close>

fun take_turn :: "lane list \<Rightarrow> candidate list \<Rightarrow> candidate list \<Rightarrow> candidate list \<times> candidate list" where
  "take_turn [] sel rest = (sel, rest)"
| "take_turn (l # ls) sel rest =
     (case List.find (\<lambda>c. c_lane c = l) rest of
        None \<Rightarrow> take_turn ls sel rest
      | Some c \<Rightarrow>
          let sel' = sel @ [c]; rest' = remove1 c rest
          in if length sel' = 3 then (sel', rest') else take_turn ls sel' rest')"

function select_lines :: "candidate list \<Rightarrow> candidate list \<Rightarrow> candidate list" where
  "select_lines sel rest =
     (if length sel < 3
      then let r = take_turn turn_order sel rest
           in if length (snd r) < length rest then select_lines (fst r) (snd r) else fst r
      else sel)"
  by pat_completeness auto
termination by (relation "measure (\<lambda>p. length (snd p))") auto

declare select_lines.simps [simp del]

definition render :: "candidate \<Rightarrow> string" where
  "render c = lane_tag (c_lane c) @ char_prefix (c_line c) 150 @ [lf]"

section \<open>The result\<close>

record admission =
  block :: string
  selected :: "candidate list"
  admitted :: "lane \<Rightarrow> nat"
  dropped :: "reason \<Rightarrow> nat"
  hashes :: "string list"
  shadows :: "json list"
  debug_out :: string
  terse :: bool

definition admission_of :: "prompt_state \<Rightarrow> line_outcome list \<Rightarrow> admission" where
  "admission_of st os =
     (let cands = candidates_of os; sel = select_lines [] cands
      in \<lparr>block = concat (map render sel), selected = sel,
          admitted = (\<lambda>l. length (filter (\<lambda>c. c_lane c = l) sel)),
          dropped = (\<lambda>r. if r = Cap then length cands - length sel else length (filter ((=) r) (drops_of os))),
          hashes = (if persist st then map c_key sel else []),
          shadows = List.map_filter shadow os, debug_out = concat (map debug_text os), terse = negation st\<rparr>)"

definition admit_lines :: "plib \<Rightarrow> prompt_state \<Rightarrow> string \<Rightarrow> admission res" where
  "admit_lines lib st memories = rbind (gated lib st memories) (\<lambda>os. Inr (admission_of st os))"

text \<open>The calibrated probability in percent: a logistic function of the log odds of the signal.\<close>

definition calibrate :: "plib \<Rightarrow> int \<Rightarrow> int" where
  "calibrate lib v =
     (let d = double;
          p = fclamp (fdiv d (Fin (of_int v)) (flit d 100)) (flit d (1 / 1000)) (flit d (999 / 1000));
          odds = fdiv d p (fsub d (flit d 1) p);
          z = fsub d (fmul d (flit d (18029 / 10000)) (log_d lib odds)) (flit d (29263 / 10000));
          q = fdiv d (flit d 1) (fadd d (flit d 1) (exp_d lib (fneg z)))
      in int (fto_nat (fadd d (fmul d q (flit d 100)) (flit d (1 / 2)))))"

definition em_dash :: string where
  "em_dash = [CHR 0xE2, CHR 0x80, CHR 0x94]"

definition signal_tag :: "prompt_state \<Rightarrow> string" where
  "signal_tag st = (if \<not> measured st then [] else if c2 st \<ge> 81 then ''KNOWN'' else ''UNKNOWN'')"

definition signal_phrase :: "prompt_state \<Rightarrow> string" where
  "signal_phrase st =
     (if \<not> measured st then []
      else if c2 st \<ge> 81
        then '' | relevant memory present '' @ em_dash @ '' verify before fully trusting; recall() more if it matters''
        else '' | boundary of known memory '' @ em_dash @ '' do not lean on this; ask or recall explicitly'')"

definition signal_percent :: "plib \<Rightarrow> prompt_state \<Rightarrow> string" where
  "signal_percent lib st = (if measured st then dec_of_int (calibrate lib (c2 st)) else [])"

definition admitted_text :: "admission \<Rightarrow> string" where
  "admitted_text a =
     concat (map (\<lambda>l. if admitted a l > 0 then '' '' @ lane_name l @ '':'' @ dec_of (admitted a l) else []) lanes)"

definition dropped_text :: "admission \<Rightarrow> string" where
  "dropped_text a =
     concat (map (\<lambda>r. if dropped a r > 0 then '' '' @ reason_name r @ '':'' @ dec_of (dropped a r) else []) reasons)"

definition summary :: "plib \<Rightarrow> prompt_state \<Rightarrow> admission \<Rightarrow> string res" where
  "summary lib st a =
     (if selected a \<noteq> [] \<or> dropped_text a \<noteq> [] then
        rbind (jvalue_str (doc st) ''ablated'' []) (\<lambda>ablated.
          Inr (''[admit]'' @ (if ablated = [] then [] else '' abl:'' @ ablated)
            @ (if measured st then '' C2:'' @ signal_tag st @ ''('' @ signal_percent lib st @ ''%)'' else [])
            @ (if small st then '' sr:on'' else []) @ (if admitted_text a = [] then '' none'' else admitted_text a)
            @ '' | drop'' @ (if dropped_text a = [] then '' none'' else dropped_text a)))
      else Inr [])"

definition timed_lanes :: "string list" where
  "timed_lanes = [''sem'', ''ctx'', ''hyb'', ''kw'', ''corr'', ''corrk'', ''xr'']"

definition timing :: "plib \<Rightarrow> json \<Rightarrow> string res" where
  "timing lib state =
     rbind (jvalue state ''lane_ms'' (jobj [])) (\<lambda>ms.
     rbind (jvalue state ''lane_timeout'' (jobj [])) (\<lambda>timeouts.
       res_fold (\<lambda>l acc.
         case jfind ms l of
           None \<Rightarrow> Inr acc
         | Some v \<Rightarrow>
             rbind (jvalue_bool timeouts l False) (\<lambda>late.
               Inr (acc @ (if acc = [] then [] else '','') @ l @ ''='' @ pdump lib v @ (if late then ''!'' else []))))
         timed_lanes []))"

definition admission_json :: "plib \<Rightarrow> prompt_state \<Rightarrow> admission \<Rightarrow> string \<Rightarrow> string \<Rightarrow> json" where
  "admission_json lib st a line tim =
     jobj [(''fused_block'', JStr (block a)), (''count'', JInt (int (length (selected a)))), (''admit_line'', JStr line),
           (''c2_tag'', JStr (signal_tag st)), (''c2_cal'', JStr (signal_percent lib st)), (''c2_phrase'', JStr (signal_phrase st)),
           (''admitted'', jobj (map (\<lambda>l. (lane_name l, JInt (int (admitted a l)))) lanes)),
           (''dropped'', jobj (map (\<lambda>r. (reason_name r, JInt (int (dropped a r)))) reasons)),
           (''hashes'', JArr (map JStr (hashes a))), (''shadow'', JArr (shadows a)), (''debug_text'', JStr (debug_out a)),
           (''terse_negation'', JBool (terse a)), (''timing_field'', JStr tim),
           (''admit_tail'', JStr ('' | t:'' @ tim @ (if tim = [] then [] else '','') @ ''total=@HOOK_MS@'' @ signal_phrase st))]"

definition admit_prompt :: "plib \<Rightarrow> json \<Rightarrow> json res" where
  "admit_prompt lib state =
     rbind (read_state state) (\<lambda>st.
     rbind (jvalue_str state ''memories'' []) (\<lambda>memories.
     rbind (admit_lines lib st memories) (\<lambda>a.
     rbind (summary lib st a) (\<lambda>line.
     rbind (timing lib state) (\<lambda>tim.
       Inr (admission_json lib st a line tim))))))"

section \<open>Every line is accounted for\<close>

lemma partition_length: "length (candidates_of os) + length (drops_of os) = length os"
  by (induction os) (auto simp: candidates_of_def drops_of_def List.map_filter_simps split: verdict.splits)

lemma candidates_of_mem: "c \<in> set (candidates_of os) \<longleftrightarrow> (\<exists>v\<in>set os. verdict v = Candidate c)"
  by (induction os) (auto simp: candidates_of_def List.map_filter_simps split: verdict.splits)

lemma find_Some_mem: "List.find P xs = Some x \<Longrightarrow> x \<in> set xs \<and> P x"
  by (auto simp: find_Some_iff)

lemma take_turn_mset:
  "take_turn ls sel rest = (sel', rest') \<Longrightarrow> mset sel' + mset rest' = mset sel + mset rest"
proof (induction ls sel rest rule: take_turn.induct)
  case (2 l ls sel rest)
  show ?case
  proof (cases "List.find (\<lambda>c. c_lane c = l) rest")
    case None
    with 2 show ?thesis by simp
  next
    case (Some c)
    have "c \<in> set rest" using find_Some_mem [OF Some] by simp
    then have "mset (sel @ [c]) + mset (remove1 c rest) = mset sel + mset rest" by (simp add: multiset_eq_iff)
    with 2 Some show ?thesis by (auto simp: Let_def split: if_splits)
  qed
qed simp

lemma take_turn_length: "take_turn ls sel rest = (sel', rest') \<Longrightarrow> length sel < 3 \<Longrightarrow> length sel' \<le> 3"
proof (induction ls sel rest rule: take_turn.induct)
  case (2 l ls sel rest)
  then show ?case by (auto simp: Let_def split: option.splits if_splits)
qed simp

lemma take_turn_prefix: "take_turn ls sel rest = (sel', rest') \<Longrightarrow> \<exists>more. sel' = sel @ more"
proof (induction ls sel rest rule: take_turn.induct)
  case (2 l ls sel rest)
  then show ?case by (fastforce simp: Let_def split: option.splits if_splits)
qed simp

lemma take_turn_moves:
  assumes "take_turn ls sel rest = (sel', rest')" "c \<in> set rest" "c_lane c \<in> set ls"
  shows "length rest' < length rest"
  using assms
proof (induction ls sel rest rule: take_turn.induct)
  case (2 l ls sel rest)
  show ?case
  proof (cases "List.find (\<lambda>c. c_lane c = l) rest")
    case None
    then have "c_lane c \<noteq> l" using 2(4) by (auto simp: find_None_iff)
    with 2 None show ?thesis by auto
  next
    case (Some d)
    have m: "mset sel' + mset rest' = mset sel + mset rest" by (rule take_turn_mset [OF 2(3)])
    have "\<exists>more. sel' = (sel @ [d]) @ more"
      using 2(3) Some by (auto simp: Let_def dest: take_turn_prefix split: if_splits)
    then have "length sel < length sel'" by auto
    moreover have "length sel' + length rest' = length sel + length rest" using m by (metis size_mset size_union)
    ultimately show ?thesis by simp
  qed
qed simp

lemma all_lanes: "l \<in> set turn_order"
  by (cases l) (simp_all add: turn_order_def)

lemma select_lines_spec:
  "length sel \<le> 3 \<Longrightarrow>
   mset (select_lines sel rest) \<subseteq># mset sel + mset rest \<and> length (select_lines sel rest) = min 3 (length sel + length rest)"
proof (induction sel rest rule: select_lines.induct)
  case (1 sel rest)
  show ?case
  proof (cases "length sel < 3")
    case False
    with 1(2) have "length sel = 3" "select_lines sel rest = sel" by (simp_all add: select_lines.simps)
    then show ?thesis by simp
  next
    case lt: True
    obtain sel' rest' where t: "take_turn turn_order sel rest = (sel', rest')" by fastforce
    note m = take_turn_mset [OF t]
    have len: "length sel' + length rest' = length sel + length rest" using m by (metis size_mset size_union)
    show ?thesis
    proof (cases "length rest' < length rest")
      case True
      have e: "select_lines sel rest = select_lines sel' rest'" using lt t True by (simp add: select_lines.simps [of sel] Let_def)
      have "mset (select_lines sel' rest') \<subseteq># mset sel' + mset rest' \<and>
          length (select_lines sel' rest') = min 3 (length sel' + length rest')"
        using 1(1) [OF lt refl] t True take_turn_length [OF t lt] by simp
      then show ?thesis using e m len by simp
    next
      case False
      then have e: "select_lines sel rest = sel'" using lt t by (simp add: select_lines.simps [of sel] Let_def)
      have "rest = []"
      proof (rule ccontr)
        assume "rest \<noteq> []"
        then have "hd rest \<in> set rest" by simp
        with False show False using take_turn_moves [OF t _ all_lanes] by blast
      qed
      then have "sel' = sel" using t by (simp add: turn_order_def)
      with e lt \<open>rest = []\<close> show ?thesis by simp
    qed
  qed
qed

definition confident_lines :: "string \<Rightarrow> string list" where
  "confident_lines memories = filter (\<lambda>line. matches line confidence) (getlines memories)"

text \<open>
  What a line has passed that became a candidate: confidence enough for its lane, and for a
  prompt of few words; not silenced at the boundary of the known; nothing about the machinery;
  no key of an earlier prompt; and, where anchors are enforced, a word of the prompt.
\<close>

definition strong_enough :: "prompt_state \<Rightarrow> lane \<Rightarrow> int \<Rightarrow> bool" where
  "strong_enough st l conf =
     ((if l = Hyb \<or> l = Kw then 1 else 30) \<le> conf
      \<and> (l = Kw \<and> length (distinct_words st) < 2 \<longrightarrow>
           (\<exists>least. jvalue_int (doc st) ''kw_single_token_min'' 60 = Inr least \<and> least \<le> conf)))"

definition anchored :: "prompt_state \<Rightarrow> lane \<Rightarrow> string list \<Rightarrow> bool" where
  "anchored st l toks =
     (l = Sem \<and> 3 \<le> length (qt st) \<and> length (qt st) \<le> 50 \<and> \<not> shares (qt st) toks \<longrightarrow>
        jvalue_bool (doc st) ''anchor_enforce'' False = Inr False)"

definition heard :: "prompt_state \<Rightarrow> lane \<Rightarrow> string list \<Rightarrow> bool" where
  "heard st l toks =
     (unknown st \<longrightarrow> shares (distinct_words st) toks \<and> (l \<in> {Kw, Hyb, Xr} \<or> l \<in> {Sem, Ctx} \<and> small st))"

lemma heard_eq: "heard st l toks \<longleftrightarrow> \<not> (unknown st \<and> silenced st l toks)"
  by (cases l) (auto simp: heard_def silenced_def Let_def)

definition passed :: "plib \<Rightarrow> prompt_state \<Rightarrow> string \<Rightarrow> candidate \<Rightarrow> bool" where
  "passed lib st raw c =
     (split_lane raw = (c_lane c, c_line c) \<and> \<not> negation st
      \<and> (\<exists>conf. line_confidence (c_line c) = Inr conf \<and> strong_enough st (c_lane c) conf)
      \<and> heard st (c_lane c) (tokens (c_line c)) \<and> \<not> is_meta (c_line c)
      \<and> hash lib (c_line c) = Inr (c_key c) \<and> \<not> (persist st \<and> contains (seen st) (c_key c))
      \<and> anchored st (c_lane c) (tokens (c_line c)))"

lemma candidate_eq: "c = \<lparr>c_lane = l, c_line = line, c_key = key\<rparr> \<longleftrightarrow> c_lane c = l \<and> c_line c = line \<and> c_key c = key"
  by (cases c) auto

lemma anchored_out_Inr: "anchored_out st l toks = Inr out \<Longrightarrow> anchored st l toks \<longleftrightarrow> \<not> out"
  by (auto simp: anchored_out_def anchored_def rbind_eq_Inr split: if_splits)

lemma late_gates_exact:
  assumes "late_gates lib st l conf line toks dbg = Inr v"
  shows "verdict v \<noteq> Dropped Cap \<and> (verdict v = Candidate c \<longleftrightarrow>
    c_lane c = l \<and> c_line c = line \<and> hash lib line = Inr (c_key c) \<and> \<not> (persist st \<and> contains (seen st) (c_key c))
    \<and> anchored st l toks)"
proof -
  obtain key where k: "hash lib line = Inr key" using assms by (auto simp: late_gates_def rbind_eq_Inr)
  consider (dup) "persist st \<and> contains (seen st) key"
    | (shadowed) "\<not> (persist st \<and> contains (seen st) key)" "(l = Sem \<or> l = Ctx) \<and> qt st \<noteq> []"
    | (plain) "\<not> (persist st \<and> contains (seen st) key)" "\<not> ((l = Sem \<or> l = Ctx) \<and> qt st \<noteq> [])" by blast
  then show ?thesis
  proof cases
    case dup
    then show ?thesis using assms k by (auto simp: late_gates_def drop_line_def)
  next
    case shadowed
    then obtain out where out: "anchored_out st l toks = Inr out"
      "verdict v = (if out then Dropped Meta else Candidate \<lparr>c_lane = l, c_line = line, c_key = key\<rparr>)"
      using assms k by (auto simp: late_gates_def rbind_eq_Inr Let_def)
    then show ?thesis using anchored_out_Inr [OF out(1)] k shadowed(1) by (auto simp: candidate_eq)
  next
    case plain
    then have "anchored st l toks" by (auto simp: anchored_def)
    moreover have "verdict v = Candidate \<lparr>c_lane = l, c_line = line, c_key = key\<rparr>"
      using assms k plain by (auto simp: late_gates_def Let_def)
    ultimately show ?thesis using k plain(1) by (auto simp: candidate_eq)
  qed
qed

lemma weak_keyword_Inr:
  "weak_keyword st l conf = Inr weak \<Longrightarrow> \<not> conf < (if l = Hyb \<or> l = Kw then 1 else 30) \<Longrightarrow> strong_enough st l conf \<longleftrightarrow> \<not> weak"
  by (auto simp: weak_keyword_def strong_enough_def rbind_eq_Inr split: if_splits)

lemma gates_exact:
  assumes "gates lib st l line conf dbg = Inr v"
  shows "verdict v \<noteq> Dropped Cap \<and> (verdict v = Candidate c \<longleftrightarrow>
    strong_enough st l conf \<and> \<not> (unknown st \<and> silenced st l (tokens line)) \<and> \<not> is_meta line
    \<and> c_lane c = l \<and> c_line c = line \<and> hash lib line = Inr (c_key c) \<and> \<not> (persist st \<and> contains (seen st) (c_key c))
    \<and> anchored st l (tokens line))"
proof -
  consider (conf) "conf < (if l = Hyb \<or> l = Kw then 1 else 30)"
    | (unk) "\<not> conf < (if l = Hyb \<or> l = Kw then 1 else 30)" "unknown st \<and> silenced st l (tokens line)"
    | (rest) "\<not> conf < (if l = Hyb \<or> l = Kw then 1 else 30)" "\<not> (unknown st \<and> silenced st l (tokens line))" by blast
  then show ?thesis
  proof cases
    case conf
    then have "\<not> strong_enough st l conf" by (simp add: strong_enough_def not_le)
    moreover have "verdict v = Dropped Conf" using assms conf by (auto simp: gates_def drop_line_def)
    ultimately show ?thesis by simp
  next
    case unk
    then have "verdict v = Dropped Unk" using assms by (auto simp: gates_def drop_line_def)
    with unk(2) show ?thesis by simp
  next
    case rest
    then obtain weak where w: "weak_keyword st l conf = Inr weak"
      "(if weak then Inr (drop_line Conf dbg) else if is_meta line then Inr (drop_line Meta dbg)
        else late_gates lib st l conf line (tokens line) dbg) = Inr v"
      using assms by (simp only: gates_def Let_def if_False) (auto simp: rbind_eq_Inr)
    show ?thesis using late_gates_exact [of lib st l conf line "tokens line" dbg v c] weak_keyword_Inr [OF w(1) rest(1)] w(2) rest(2)
      by (cases weak; cases "is_meta line") (auto simp: drop_line_def)
  qed
qed

lemma gate_line_exact:
  assumes "gate_line lib st raw = Inr v"
  shows "verdict v \<noteq> Dropped Cap" "verdict v = Candidate c \<longleftrightarrow> passed lib st raw c"
proof -
  obtain l line where sp: "split_lane raw = (l, line)" by fastforce
  have "verdict v \<noteq> Dropped Cap \<and> (verdict v = Candidate c \<longleftrightarrow> passed lib st raw c)"
  proof (cases "negation st")
    case True
    then show ?thesis using assms sp by (auto simp: gate_line_def drop_line_def passed_def)
  next
    case False
    then obtain conf dbg where g: "line_confidence line = Inr conf" "gates lib st l line conf dbg = Inr v"
      using assms sp by (auto simp: gate_line_def rbind_eq_Inr)
    show ?thesis using gates_exact [OF g(2), of c] g(1) sp False by (auto simp: passed_def heard_eq)
  qed
  then show "verdict v \<noteq> Dropped Cap" "verdict v = Candidate c \<longleftrightarrow> passed lib st raw c" by blast+
qed

lemmas gate_line_no_cap = gate_line_exact(1)

lemma admit_lines_fields:
  assumes "admit_lines lib st memories = Inr a"
  obtains os where "gated lib st memories = Inr os" "selected a = select_lines [] (candidates_of os)"
    "admitted a = (\<lambda>l. length (filter (\<lambda>c. c_lane c = l) (selected a)))"
    "dropped a = (\<lambda>r. if r = Cap then length (candidates_of os) - length (selected a) else length (filter ((=) r) (drops_of os)))"
proof -
  obtain os where os: "gated lib st memories = Inr os" and a: "a = admission_of st os"
    using assms by (auto simp: admit_lines_def rbind_eq_Inr)
  have "selected a = select_lines [] (candidates_of os)" by (simp add: a admission_of_def Let_def)
  moreover from this have "admitted a = (\<lambda>l. length (filter (\<lambda>c. c_lane c = l) (selected a)))"
    by (simp add: a admission_of_def Let_def)
  moreover from calculation(1) have
    "dropped a = (\<lambda>r. if r = Cap then length (candidates_of os) - length (selected a) else length (filter ((=) r) (drops_of os)))"
    by (simp only:) (simp add: a admission_of_def Let_def cong: if_cong)
  ultimately show thesis by (rule that [OF os])
qed

text \<open>
  C27: Every line that shows a confidence is accounted for: as many lines are admitted over the lanes as
  are selected, at most three; admitted and dropped lines together are all lines with a confidence;
  and the cap drops lines only when three are selected.  Every selected line is one of the memories
  that passed every gate: no terse negation, at least 30 percent (1 for the hybrid and keyword
  lanes, and the configured minimum for a keyword of a prompt of one word), not silenced at the
  boundary of the known, nothing about the machinery, no key of an earlier prompt, and anchored
  where that is enforced.  When fewer than three are selected, every line that passed the gates is.
\<close>

theorem admission_accounts:
  assumes "admit_lines lib st memories = Inr a"
  shows "sum_list (map (admitted a) lanes) = length (selected a) \<and> length (selected a) \<le> 3 \<and>
    sum_list (map (admitted a) lanes) + sum_list (map (dropped a) reasons) = length (confident_lines memories) \<and>
    (dropped a Cap > 0 \<longrightarrow> length (selected a) = 3) \<and>
    (\<forall>c\<in>set (selected a). \<exists>raw\<in>set (confident_lines memories). passed lib st raw c) \<and>
    (length (selected a) < 3 \<longrightarrow>
       (\<forall>raw\<in>set (confident_lines memories). \<forall>c. passed lib st raw c \<longrightarrow> c \<in> set (selected a)))"
proof -
  obtain os where os: "gated lib st memories = Inr os" and a: "selected a = select_lines [] (candidates_of os)"
    "admitted a = (\<lambda>l. length (filter (\<lambda>c. c_lane c = l) (selected a)))"
    "dropped a = (\<lambda>r. if r = Cap then length (candidates_of os) - length (selected a) else length (filter ((=) r) (drops_of os)))"
    by (rule admit_lines_fields [OF assms])
  let ?cands = "candidates_of os"
  have sel: "mset (selected a) \<subseteq># mset ?cands" "length (selected a) = min 3 (length ?cands)"
    using select_lines_spec [of "[]" ?cands] by (simp_all add: a(1))
  have all2: "list_all2 (\<lambda>line v. gate_line lib st line = Inr v) (confident_lines memories) os"
    using os by (simp add: gated_def confident_lines_def res_map_Inr_iff)
  have origin: "\<forall>v\<in>set os. \<exists>raw\<in>set (confident_lines memories). gate_line lib st raw = Inr v"
    using all2 by (fastforce simp: list_all2_conv_all_nth in_set_conv_nth)
  have lanes: "sum_list (map (\<lambda>l. length (filter (\<lambda>c. c_lane c = l) cs)) lanes) = length cs" for cs
  proof (induction cs)
    case (Cons c cs)
    then show ?case by (cases "c_lane c") (simp_all add: lanes_def)
  qed (simp add: lanes_def)
  have nocap: "Cap \<notin> set (drops_of os)"
  proof -
    have "\<forall>v\<in>set os. verdict v \<noteq> Dropped Cap"
    proof
      fix v assume "v \<in> set os"
      with origin obtain line where "gate_line lib st line = Inr v" by blast
      then show "verdict v \<noteq> Dropped Cap" by (rule gate_line_no_cap)
    qed
    then show ?thesis by (induction os) (auto simp: drops_of_def List.map_filter_simps split: verdict.splits)
  qed
  have rs: "Cap \<notin> set rs \<Longrightarrow> sum_list (map (\<lambda>r. if r = Cap then k else length (filter ((=) r) rs)) reasons) = k + length rs" for rs k
  proof (induction rs)
    case (Cons r rs)
    then show ?case by (cases r) (simp_all add: reasons_def)
  qed (simp add: reasons_def)
  have "sum_list (map (dropped a) reasons) = length ?cands - length (selected a) + length (drops_of os)"
    unfolding a(3) by (rule rs [OF nocap])
  moreover have "sum_list (map (admitted a) lanes) = length (selected a)" unfolding a(2) by (rule lanes)
  moreover have "length os = length (confident_lines memories)" using all2 by (simp add: list_all2_lengthD)
  moreover have "\<forall>c\<in>set (selected a). \<exists>raw\<in>set (confident_lines memories). passed lib st raw c"
  proof
    fix c assume "c \<in> set (selected a)"
    then have "c \<in> set ?cands" using sel(1) by (metis set_mset_mono set_mset_mset subsetD)
    then obtain v where v: "v \<in> set os" "verdict v = Candidate c" by (auto simp: candidates_of_mem)
    with origin obtain raw where "raw \<in> set (confident_lines memories)" "gate_line lib st raw = Inr v" by blast
    then show "\<exists>raw\<in>set (confident_lines memories). passed lib st raw c" using gate_line_exact(2) v(2) by blast
  qed
  moreover have "c \<in> set (selected a)"
    if few: "length (selected a) < 3" and raw: "raw \<in> set (confident_lines memories)" and p: "passed lib st raw c" for raw c
  proof -
    obtain v where v: "v \<in> set os" "gate_line lib st raw = Inr v"
      using all2 raw by (fastforce simp: list_all2_conv_all_nth in_set_conv_nth)
    then have "c \<in> set ?cands" using gate_line_exact(2) [OF v(2)] p by (auto simp: candidates_of_mem)
    moreover have "mset (selected a) = mset ?cands"
    proof (rule ccontr)
      assume "mset (selected a) \<noteq> mset ?cands"
      with sel(1) have "mset (selected a) \<subset># mset ?cands" by (simp add: subset_mset.less_le)
      then have "length (selected a) < length ?cands" by (metis mset_subset_size size_mset)
      with sel(2) few show False by simp
    qed
    ultimately show ?thesis by (metis set_mset_mset)
  qed
  ultimately show ?thesis using sel(2) partition_length [of os] by (simp add: a(3))
qed

definition sample_lib :: plib where
  "sample_lib = \<lparr>digest = Some, pdump = (\<lambda>v. []), exp_d = (\<lambda>x. x), log_d = (\<lambda>x. x)\<rparr>"

definition sample_state :: prompt_state where
  "sample_state =
     \<lparr>doc = jobj [], query = [], qt = [], distinct_words = [], ctx_words = [], seen = [], sid = ''s'', measured = False,
      c2 = 0, small = False, unknown = False, persist = True, negation = False\<rparr>"

definition sample_memories :: string where
  "sample_memories = ''[45%] a'' @ [lf] @ ''[corr][9%] b'' @ [lf] @ ''c''"

lemmas run_rx = matches_def regex_search_def search_from.simps lit_def some_of_def opt_def exactly_def between_def
  spaces_def any_char_def number_rx_def stars_def is_space_def is_lower_def is_upper_def is_digit_def is_alpha_def
  is_alnum_def to_lower_def to_upper_def is_punct_def

lemma sample_not_meta: "\<not> is_meta ''[45%] a''"
proof -
  have "\<not> matches ''[45%] a'' thinking_pattern" "\<not> matches ''[45%] a'' (lit ''[thought]'')"
    "\<not> matches ''[45%] a'' session_pattern" "\<not> matches ''[45%] a'' compact_pattern" "\<not> matches ''[45%] a'' agent_pattern"
    "\<not> matches ''[45%] a'' shipped_pattern" "\<not> matches ''[45%] a'' citation_pattern"
    by (simp_all add: run_rx thinking_pattern_def session_pattern_def compact_pattern_def agent_pattern_def
      shipped_pattern_def citation_pattern_def)
  then show ?thesis by (simp add: is_meta_def contains_def)
qed

lemma sample_lines:
  "confident_lines sample_memories = [''[45%] a'', ''[corr][9%] b'']"
  by code_simp

lemma sample_first: "gate_line sample_lib sample_state ''[45%] a'' =
    Inr \<lparr>verdict = Candidate \<lparr>c_lane = Sem, c_line = ''[45%] a'', c_key = ''[45%] a''\<rparr>, debug_text = [], shadow = None\<rparr>"
proof -
  have "split_lane ''[45%] a'' = (Sem, ''[45%] a'')" "line_confidence ''[45%] a'' = Inr 45"
    "char_prefix ''[45%] a'' 80 = ''[45%] a''" "jvalue_bool (jobj []) ''debug'' False = Inr False"
    "\<not> contains [] ''[45%] a''" by code_simp+
  then show ?thesis
    using sample_not_meta
    by (simp add: gate_line_def gates_def late_gates_def weak_keyword_def hash_def sample_lib_def sample_state_def rbind_def Let_def)
qed

lemma sample_second: "gate_line sample_lib sample_state ''[corr][9%] b'' = Inr (drop_line Conf [])"
  by code_simp

lemma sample_admission:
  "admit_lines sample_lib sample_state sample_memories =
     Inr (admission_of sample_state [\<lparr>verdict = Candidate \<lparr>c_lane = Sem, c_line = ''[45%] a'', c_key = ''[45%] a''\<rparr>,
       debug_text = [], shadow = None\<rparr>, drop_line Conf []])"
  using sample_lines sample_first sample_second by (simp add: admit_lines_def gated_def confident_lines_def rbind_def)

theorem admission_accounts_witness:
  "\<exists>a. admit_lines sample_lib sample_state sample_memories = Inr a \<and>
    sum_list (map (admitted a) lanes) + sum_list (map (dropped a) reasons) = length (confident_lines sample_memories) \<and>
    length (confident_lines sample_memories) = 2 \<and>
    (\<forall>c\<in>set (selected a). \<exists>raw\<in>set (confident_lines sample_memories). passed sample_lib sample_state raw c)"
  using admission_accounts [OF sample_admission] sample_admission by (simp add: sample_lines)

text \<open>
  The duplicate gate looks only at the keys of earlier prompts: a line that two lanes recall is
  admitted twice within one prompt.
\<close>

lemma take_turn_twice:
  "select_lines [] [\<lparr>c_lane = Sem, c_line = x, c_key = k\<rparr>, \<lparr>c_lane = Ctx, c_line = x, c_key = k\<rparr>] =
     [\<lparr>c_lane = Sem, c_line = x, c_key = k\<rparr>, \<lparr>c_lane = Ctx, c_line = x, c_key = k\<rparr>]"
  by (simp add: select_lines.simps [of "[]"] select_lines.simps [of "[_, _]"] turn_order_def)

lemma sample_both_lanes:
  "gate_line sample_lib sample_state ''[ctx][45%] a'' =
     Inr \<lparr>verdict = Candidate \<lparr>c_lane = Ctx, c_line = ''[45%] a'', c_key = ''[45%] a''\<rparr>, debug_text = [], shadow = None\<rparr>"
proof -
  have "split_lane ''[ctx][45%] a'' = (Ctx, ''[45%] a'')" "line_confidence ''[45%] a'' = Inr 45"
    "char_prefix ''[45%] a'' 80 = ''[45%] a''" "jvalue_bool (jobj []) ''debug'' False = Inr False"
    "\<not> contains [] ''[45%] a''" by code_simp+
  then show ?thesis
    using sample_not_meta
    by (simp add: gate_line_def gates_def late_gates_def weak_keyword_def hash_def sample_lib_def sample_state_def rbind_def Let_def)
qed

lemma same_line_twice:
  "\<exists>a. admit_lines sample_lib sample_state (''[45%] a'' @ [lf] @ ''[ctx][45%] a'') = Inr a \<and> hashes a = [''[45%] a'', ''[45%] a'']"
proof -
  have "confident_lines (''[45%] a'' @ [lf] @ ''[ctx][45%] a'') = [''[45%] a'', ''[ctx][45%] a'']" by code_simp
  then show ?thesis
    using sample_first sample_both_lanes
    by (simp add: admit_lines_def gated_def confident_lines_def rbind_def admission_of_def candidates_of_def
        List.map_filter_simps Let_def take_turn_twice) (simp add: sample_state_def)
qed

end
