(* ===== verification/SSL_Parser.thy ===== *)
theory SSL_Parser
  imports Temporal Float_Arith
begin

text \<open>
  The parser of distilled notes (\<open>ssl_parser.cpp\<close>): the lines of a model's answer become typed
  learnings with citations, affect, flags and references, and triplets, from explicit lines and
  from chains of entities joined by arrows.  The parser is a state machine over the lines.
\<close>

section \<open>Notes, citations and triplets\<close>

record citation =
  cite_file :: string
  cite_line :: int
  cite_context :: string

record learning =
  l_type :: string
  l_content :: string
  l_title :: string
  l_category :: string
  l_citations :: "citation list"
  l_valence :: flt
  l_arousal :: flt
  l_flags :: "string list"
  l_refs :: "string list"

record triplet =
  t_subject :: string
  t_predicate :: string
  t_object :: string
  t_date :: string
  valid_from_ms :: int

definition rarrow :: string where
  "rarrow = [CHR 0xE2, CHR 0x86, CHR 0x92]"

definition epsilon_tag :: string where
  "epsilon_tag = ''['' @ [CHR 0xCE, CHR 0xB5] @ '']''"

definition type_to_category :: "string \<Rightarrow> string" where
  "type_to_category ty =
     (if ty = ''SOLUTION'' then ''solution'' else if ty = ''GOTCHA'' then ''gotcha''
      else if ty = ''DECISION'' then ''decision'' else if ty = ''PATTERN'' then ''pattern''
      else if ty = ''PREFERENCE'' then ''preference'' else if ty = ''BELIEF'' then ''belief''
      else if ty = ''FAILURE'' then ''failure'' else if ty = ''AFFECT'' then ''affect''
      else if ty = ''CORRECTION'' then ''correction'' else if ty = ''EVENT'' then ''event''
      else if ty = ''OPERATIONAL'' then ''operational'' else ''wisdom'')"

section \<open>Annotations\<close>

definition trim_end :: "string \<Rightarrow> string" where
  "trim_end s = rev (dropWhile is_space (rev s))"

text \<open>The date at the end of an object.\<close>

definition date_suffix_pattern :: rx where
  "date_suffix_pattern =
     icase (cats [Group 1 (Lazy any_char), Rep (Sym is_space), lit ''@'',
       Group 2 (alts [cats [digits 4 4, lit ''-'', digits 2 2, lit ''-'', digits 2 2], lit ''yesterday'', lit ''today'',
         cats [lit ''last'', spaces, Rep (Sym is_digit), Rep (Sym is_space), unit_rx, opt (lit ''s'')]])])"

definition extract_date_from_object :: "string \<Rightarrow> string \<times> string" where
  "extract_date_from_object obj =
     (case regex_match date_suffix_pattern obj of
        Some cs \<Rightarrow> (trim_end (group_str obj cs 1), group_str obj cs 2)
      | None \<Rightarrow> (obj, []))"

text \<open>A decimal number with a sign and a fraction as written in an affect annotation.\<close>

definition sign_rx :: rx where
  "sign_rx = opt (Sym (\<lambda>c. c = CHR ''+'' \<or> c = CHR ''-''))"

definition amount_rx :: rx where
  "amount_rx = cats [number_rx, opt (lit ''.''), Rep (Sym is_digit)]"

definition v03_pattern :: rx where
  "v03_pattern = cats [lit ''A:'', Group 1 (Cat sign_rx amount_rx), lit '','', Group 2 amount_rx]"

definition legacy_pattern :: rx where
  "legacy_pattern =
     cats [lit ''valence:'', Rep (Sym is_space), Group 1 (Cat sign_rx amount_rx), Rep (Sym is_space), lit '','',
       Rep (Sym is_space), lit ''arousal:'', Rep (Sym is_space), Group 2 amount_rx]"

definition decimal_value :: "string \<Rightarrow> rat" where
  "decimal_value s =
     (let neg = (s \<noteq> [] \<and> hd s = CHR ''-''); u = (if s \<noteq> [] \<and> (hd s = CHR ''-'' \<or> hd s = CHR ''+'') then tl s else s);
          whole = takeWhile is_digit u; frac = takeWhile is_digit (drop (length whole + 1) u);
          v = of_nat (decnum (whole @ frac)) / 10 ^ length frac
      in if neg then - v else v)"

text \<open>
  \<open>std::stof\<close> on such a text: \<open>None\<close> stands for \<open>std::out_of_range\<close>, thrown when the number
  overflows the format or when it is tiny (below the normal range after rounding) and inexact.
\<close>

definition stof :: "string \<Rightarrow> flt option" where
  "stof s =
     (let q = decimal_value s; f = fround single q
      in case f of
           Fin x \<Rightarrow> if \<bar>q\<bar> < pow2 (-126) - pow2 (-151) \<and> x \<noteq> q then None else Some f
         | _ \<Rightarrow> None)"

text \<open>\<open>std::max(lo, std::min(1.0f, x))\<close>.\<close>

definition clamp_upto_one :: "rat \<Rightarrow> flt \<Rightarrow> flt" where
  "clamp_upto_one lo x = fmax (Fin lo) (if fless x (Fin 1) then x else Fin 1)"

text \<open>One pattern: what was assigned so far, and whether both numbers were read.\<close>

definition read_affect :: "rx \<Rightarrow> string \<Rightarrow> flt \<times> flt \<Rightarrow> (flt \<times> flt) \<times> bool" where
  "read_affect r s va =
     (case regex_search r s of
        None \<Rightarrow> (va, False)
      | Some (i, j, cs) \<Rightarrow>
          (case stof (group_str s cs 1) of
             None \<Rightarrow> (va, False)
           | Some v \<Rightarrow>
               (case stof (group_str s cs 2) of
                  None \<Rightarrow> ((v, snd va), False)
                | Some a \<Rightarrow> ((clamp_upto_one (-1) v, clamp_upto_one 0 a), True))))"

definition parse_affect_values :: "string \<Rightarrow> flt \<times> flt" where
  "parse_affect_values s =
     (let (va, done) = read_affect v03_pattern s (Fin 0, Fin 0)
      in if done then va else fst (read_affect legacy_pattern s va))"

definition flag_chars :: rx where
  "flag_chars = some_of (Sym (\<lambda>c. is_upper c \<or> c = CHR ''_'' \<or> c = CHR '',''))"

text \<open>\<open>std::getline\<close> with a delimiter: no part after a final delimiter.\<close>

fun getparts :: "char \<Rightarrow> string \<Rightarrow> string list" where
  "getparts d [] = []"
| "getparts d (c # s) =
     (if c = d then [] # getparts d s
      else case s of
             [] \<Rightarrow> [[c]]
           | e # t \<Rightarrow> if e = d then [c] # getparts d t else (c # hd (getparts d s)) # tl (getparts d s))"

definition parse_flags :: "string \<Rightarrow> string list" where
  "parse_flags s =
     (case regex_search (Cat (lit ''F:'') (Group 1 flag_chars)) s of
        None \<Rightarrow> []
      | Some (i, j, cs) \<Rightarrow> filter (\<lambda>f. f \<noteq> []) (getparts (CHR '','') (group_str s cs 1)))"

definition ref_name :: rx where
  "ref_name = some_of (Sym (\<lambda>c. word_char c \<or> c = CHR ''-''))"

definition parse_refs :: "string \<Rightarrow> string list" where
  "parse_refs s =
     map (\<lambda>(i, j, cs). group_str s cs 1) (all_matches (cats [lit rarrow, lit ''@'', Group 1 ref_name]) s 0)"

definition strip_annotations :: "string \<Rightarrow> string" where
  "strip_annotations s =
     (let s1 = regex_replace (cats [Rep (Sym is_space), lit ''A:'', sign_rx, amount_rx, lit '','', amount_rx]) [] s;
          s2 = regex_replace (cats [Rep (Sym is_space), lit ''F:'', flag_chars]) [] s1;
          s3 = regex_replace (cats [Rep (Sym is_space), lit rarrow, lit ''@'', ref_name]) [] s2
      in trim_end s3)"

section \<open>Citations\<close>

definition path_rx :: rx where
  "path_rx =
     Cat (some_of (Sym (\<lambda>c. word_char c \<or> c = CHR ''.'' \<or> c = CHR ''/'' \<or> c = CHR ''-'')))
       (opt (Cat (lit ''.'') (some_of (Sym word_char))))"

definition cite_pattern :: rx where
  "cite_pattern = cats [lit ''@'', Group 1 path_rx, opt (lit '':''), Group 2 (Rep (Sym is_digit))]"

definition cite_number :: "string \<Rightarrow> int" where
  "cite_number s = (if s = [] then 0 else case stoi s of Some v \<Rightarrow> v | None \<Rightarrow> 0)"

definition extract_inline_citations :: "string \<Rightarrow> citation list" where
  "extract_inline_citations s =
     map (\<lambda>(i, j, cs). \<lparr>cite_file = group_str s cs 1, cite_line = cite_number (group_str s cs 2), cite_context = []\<rparr>)
       (all_matches cite_pattern s 0)"

definition cite_line_pattern :: rx where
  "cite_line_pattern =
     cats [lit ''[CITE]'', spaces, Group 1 path_rx, opt (lit '':''), Group 2 (Rep (Sym is_digit)), Rep (Sym is_space),
       opt (Group 3 (Rep any_char))]"

definition parse_cite_line :: "string \<Rightarrow> citation" where
  "parse_cite_line line =
     (case regex_match cite_line_pattern line of
        None \<Rightarrow> \<lparr>cite_file = [], cite_line = 0, cite_context = []\<rparr>
      | Some cs \<Rightarrow> \<lparr>cite_file = group_str line cs 1, cite_line = cite_number (group_str line cs 2),
                   cite_context = trim_end (group_str line cs 3)\<rparr>)"

section \<open>Chains of entities\<close>

fun replace_pair :: "char \<Rightarrow> char \<Rightarrow> string \<Rightarrow> string \<Rightarrow> string" where
  "replace_pair x y new (a # b # s) =
     (if a = x \<and> b = y then new @ replace_pair x y new s else a # replace_pair x y new (b # s))"
| "replace_pair x y new s = s"

definition latex_pattern :: rx where
  "latex_pattern =
     cats [opt (lit ''$''), Rep (Sym is_space), lit (CHR 0x5C # ''rightarrow''), Rep (Sym is_space), opt (lit ''$'')]"

definition normalize_arrows :: "string \<Rightarrow> string" where
  "normalize_arrows text =
     replace_pair (CHR ''='') (CHR ''>'') rarrow
       (replace_pair (CHR ''-'') (CHR ''>'') rarrow (regex_replace latex_pattern rarrow text))"

definition entity_blank :: "char \<Rightarrow> bool" where
  "entity_blank c = (c \<in> set [CHR '' '', CHR 0x09, CHR 0x0D, CHR 0x0A])"

definition trim_entity :: "string \<Rightarrow> string" where
  "trim_entity s = rev (dropWhile entity_blank (rev (dropWhile entity_blank s)))"

text \<open>One node of a chain: an entity, or a set of them in braces; no entity when it is malformed.\<close>

definition chain_entities :: "string \<Rightarrow> string list" where
  "chain_entities part =
     (let value = trim_entity part
      in if value = [] then []
         else if hd value \<noteq> CHR ''{'' then [value]
         else if last value \<noteq> CHR ''}'' then []
         else let members = map trim_entity (getparts (CHR '','') (take (length value - 2) (tl value)))
              in if [] \<in> set members then [] else members)"

text \<open>The parts of a chain between its arrows.\<close>

fun arrow_parts :: "string \<Rightarrow> string list" where
  "arrow_parts (a # b # c # s) =
     (if [a, b, c] = rarrow then [] # arrow_parts s
      else (a # hd (arrow_parts (b # c # s))) # tl (arrow_parts (b # c # s)))"
| "arrow_parts s = [s]"

definition make_triplet :: "string \<Rightarrow> string \<Rightarrow> string \<Rightarrow> triplet list" where
  "make_triplet pred subj obj =
     (let (clean, date) = extract_date_from_object obj
      in if clean = [] then []
         else [\<lparr>t_subject = subj, t_predicate = pred, t_object = clean, t_date = date, valid_from_ms = 0\<rparr>])"

definition link_nodes :: "string \<Rightarrow> string list \<Rightarrow> string list \<Rightarrow> triplet list" where
  "link_nodes pred subjects objects = concat (map (\<lambda>x. concat (map (make_triplet pred x) objects)) subjects)"

fun link_chain :: "string \<Rightarrow> string list list \<Rightarrow> triplet list" where
  "link_chain pred (n # m # ns) = link_nodes pred n m @ link_chain pred (m # ns)"
| "link_chain pred ns = []"

text \<open>A leading domain in brackets scopes the note and is no part of the first entity.\<close>

definition drop_domain :: "string \<Rightarrow> string" where
  "drop_domain chain =
     (if chain \<noteq> [] \<and> hd chain = CHR ''['' \<and> CHR '']'' \<in> set chain
      then trim_entity (tl (dropWhile (\<lambda>c. c \<noteq> CHR '']'') chain)) else chain)"

definition clean_chain :: "string \<Rightarrow> string" where
  "clean_chain line = drop_domain (trim_entity (strip_annotations (normalize_arrows line)))"

definition has_arrow :: "string \<Rightarrow> bool" where
  "has_arrow s = contains s rarrow"

text \<open>The chosen alternative of a decision: up to the first bar, with \<open>>\<close> as its arrow if it has none.\<close>

definition choice_chain :: "string \<Rightarrow> string" where
  "choice_chain chain =
     (let c = takeWhile (\<lambda>x. x \<noteq> CHR ''|'') chain
      in if has_arrow c \<or> CHR ''>'' \<notin> set c then c
         else takeWhile (\<lambda>x. x \<noteq> CHR ''>'') c @ rarrow @ tl (dropWhile (\<lambda>x. x \<noteq> CHR ''>'') c))"

definition chain_triplets :: "string \<Rightarrow> string \<Rightarrow> triplet list" where
  "chain_triplets ty line0 =
     (let line = trim_entity line0
      in if starts_with epsilon_tag line then []
         else
           let chain = clean_chain line; choice = (ty = ''DECISION'' \<and> CHR ''|'' \<in> set chain);
               pred = (if choice then ''chosen_over'' else if ty = ''GOTCHA'' then ''causes'' else ''leads_to'');
               chain' = (if choice then choice_chain chain else chain)
           in if \<not> has_arrow chain' then []
              else let nodes = map chain_entities (arrow_parts chain')
                   in if [] \<in> set nodes then [] else link_chain pred nodes)"

section \<open>The state machine\<close>

record ssl_state =
  cur_type :: string
  cur_content :: string
  cur_cites :: "citation list"
  learnings :: "learning list"
  triplets :: "triplet list"

text \<open>Inline citations are added unless a citation of the same file and line is already there.\<close>

definition add_citation :: "citation \<Rightarrow> citation list \<Rightarrow> citation list" where
  "add_citation c cs = (if \<exists>e\<in>set cs. cite_file e = cite_file c \<and> cite_line e = cite_line c then cs else cs @ [c])"

definition make_learning :: "string \<Rightarrow> string \<Rightarrow> citation list \<Rightarrow> learning" where
  "make_learning ty content cites =
     (let clean = strip_annotations content; va = parse_affect_values content
      in \<lparr>l_type = ty, l_content = clean, l_title = take 100 (takeWhile (\<lambda>c. c \<noteq> lf) clean),
          l_category = type_to_category ty, l_citations = fold add_citation (extract_inline_citations content) cites,
          l_valence = fst va, l_arousal = snd va, l_flags = parse_flags content, l_refs = parse_refs content\<rparr>)"

definition store_current :: "ssl_state \<Rightarrow> ssl_state" where
  "store_current st =
     (if cur_type st = [] \<or> cur_content st = [] then st
      else st\<lparr>cur_type := [], cur_content := [], cur_cites := [],
              learnings := learnings st @ [make_learning (cur_type st) (cur_content st) (cur_cites st)],
              triplets := triplets st @ concat (map (chain_triplets (cur_type st)) (getlines (cur_content st)))\<rparr>)"

definition note_types :: "string list" where
  "note_types =
     [''SOLUTION'', ''GOTCHA'', ''DECISION'', ''PATTERN'', ''PREFERENCE'', ''BELIEF'', ''INSIGHT'', ''FAILURE'', ''AFFECT'',
      ''CORRECTION'', ''EVENT'', ''OPERATIONAL'']"

definition type_pattern :: rx where
  "type_pattern = cats [lit ''['', Group 1 (alts (map lit note_types)), lit '']'', spaces, Group 2 (Rep any_char)]"

definition not_space_rx :: rx where
  "not_space_rx = some_of (Sym (\<lambda>c. \<not> is_space c))"

definition triplet_pattern :: rx where
  "triplet_pattern =
     cats [lit ''[TRIPLET]'', spaces, Group 1 not_space_rx, spaces, Group 2 not_space_rx, spaces, Group 3 (some_of any_char)]"

definition add_triplet :: "string \<Rightarrow> caps \<Rightarrow> ssl_state \<Rightarrow> ssl_state" where
  "add_triplet line cs st =
     (let subj = group_str line cs 1; pred = group_str line cs 2;
          (obj, date) = extract_date_from_object (trim_end (strip_annotations (group_str line cs 3)))
      in if subj \<noteq> [] \<and> pred \<noteq> [] \<and> obj \<noteq> []
         then st\<lparr>triplets := triplets st @ [\<lparr>t_subject = subj, t_predicate = pred, t_object = obj, t_date = date, valid_from_ms = 0\<rparr>]\<rparr>
         else st)"

definition is_cite_line :: "string \<Rightarrow> bool" where
  "is_cite_line line = matches line (cats [At_begin, lit ''[CITE]'', spaces])"

definition parse_line :: "string \<Rightarrow> ssl_state \<Rightarrow> ssl_state" where
  "parse_line line st =
     (if line = [] \<or> take 3 line = ''```'' \<or> line = ''---'' then st
      else case regex_match type_pattern line of
        Some cs \<Rightarrow> (store_current st)\<lparr>cur_type := group_str line cs 1, cur_content := group_str line cs 2\<rparr>
      | None \<Rightarrow>
          if starts_with epsilon_tag line \<and> cur_type st \<noteq> [] then st\<lparr>cur_content := cur_content st @ [lf] @ line\<rparr>
          else if is_cite_line line \<and> cur_type st \<noteq> [] then
            (let c = parse_cite_line line in if cite_file c \<noteq> [] then st\<lparr>cur_cites := cur_cites st @ [c]\<rparr> else st)
          else case regex_match triplet_pattern line of
            Some cs \<Rightarrow> add_triplet line cs (store_current st)
          | None \<Rightarrow>
              if cur_type st \<noteq> [] \<and> hd line \<noteq> CHR ''['' then st\<lparr>cur_content := cur_content st @ [lf] @ line\<rparr> else st)"

definition init_ssl :: ssl_state where
  "init_ssl = \<lparr>cur_type = [], cur_content = [], cur_cites = [], learnings = [], triplets = []\<rparr>"

definition ssl_parse :: "string \<Rightarrow> learning list \<times> triplet list" where
  "ssl_parse output =
     (let st = store_current (fold parse_line (getlines output) init_ssl) in (learnings st, triplets st))"

text \<open>Dates in annotations are resolved against a context date; an exception of the resolver is not caught.\<close>

definition date_triplet :: "(int \<Rightarrow> string) \<Rightarrow> int \<Rightarrow> triplet \<Rightarrow> triplet dres" where
  "date_triplet yt ctx t =
     (if t_date t = [] then Inr t
      else rbind (resolve yt (t_date t) ctx) (\<lambda>r.
        Inr (case r of None \<Rightarrow> t | Some d \<Rightarrow> t\<lparr>valid_from_ms := timestamp_ms d\<rparr>)))"

definition parse_with_context :: "(int \<Rightarrow> string) \<Rightarrow> string \<Rightarrow> int \<Rightarrow> (learning list \<times> triplet list) dres" where
  "parse_with_context yt output ctx =
     (let (ls, ts) = ssl_parse output
      in if ctx > 0 then rbind (res_map (date_triplet yt ctx) ts) (\<lambda>ts'. Inr (ls, ts')) else Inr (ls, ts))"

end
