(* ===== verification/SSL_Facts.thy ===== *)
theory SSL_Facts
  imports SSL_Parser
begin

text \<open>
  Properties of the parser of notes: a chain of entities that is written out is read back as the
  pairs of its neighbours; what the parser returns is well formed; the notes of two texts are
  read independently of each other; and cases in which the code does not do what it means to.
\<close>

section \<open>Chains that are written out\<close>

definition entity_char :: "char \<Rightarrow> bool" where
  "entity_char c = (word_char c \<or> c = CHR '' '')"

definition entity :: "string \<Rightarrow> bool" where
  "entity e = (e \<noteq> [] \<and> list_all entity_char e \<and> hd e \<noteq> CHR '' '' \<and> last e \<noteq> CHR '' '')"

fun chain_text :: "string \<Rightarrow> string list \<Rightarrow> string" where
  "chain_text sep [] = []"
| "chain_text sep [e] = e"
| "chain_text sep (e # es) = e @ sep @ chain_text sep es"

definition arrows :: "string list" where
  "arrows = [rarrow, ''->'', ''=>'']"

definition reserved :: string where
  "reserved = ''@:|{}[],<>=-$'' @ [CHR 0x5C, CHR 0x60, CHR 0xE2, lf, CHR 0x0D, CHR 0x09]"

lemma entity_chars:
  assumes "entity_char c"
  shows "c \<notin> set reserved"
  using assms
  by (auto simp: reserved_def entity_char_def word_char_def is_alnum_def is_alpha_def is_upper_def is_lower_def is_digit_def lf_def)

lemma chain_text_set: "set (chain_text sep es) \<subseteq> \<Union> (set ` set es) \<union> set sep"
  by (induction sep es rule: chain_text.induct) auto

lemma chain_text_Cons: "es \<noteq> [] \<Longrightarrow> chain_text sep (e # es) = e @ sep @ chain_text sep es"
  by (cases es) simp_all

lemma entity_not: "entity e \<Longrightarrow> c \<in> set reserved \<Longrightarrow> c \<notin> set e"
  using entity_chars by (auto simp: entity_def list_all_iff)

lemma chain_text_not:
  assumes "\<forall>e\<in>set es. entity e" "c \<in> set reserved" "c \<notin> set sep"
  shows "c \<notin> set (chain_text sep es)"
  using chain_text_set [of sep es] entity_not assms by blast

lemma replace_pair_free: "x \<notin> set s \<Longrightarrow> replace_pair x y new s = s"
  by (induction x y new s rule: replace_pair.induct) auto

lemma replace_pair_append: "x \<notin> set e \<Longrightarrow> replace_pair x y new (e @ s) = e @ replace_pair x y new s"
proof (induction e)
  case (Cons c e)
  then show ?case by (cases "e @ s") auto
qed simp

lemma replace_pair_chain:
  assumes "\<forall>e\<in>set es. x \<notin> set e" "x \<notin> set pad"
  shows "replace_pair x y new (chain_text (pad @ [x, y] @ pad) es) = chain_text (pad @ new @ pad) es"
  using assms(1)
proof (induction es)
  case (Cons e es)
  show ?case
  proof (cases "es = []")
    case True
    with Cons.prems show ?thesis by (simp add: replace_pair_free)
  next
    case False
    have "replace_pair x y new (e @ (pad @ (x # y # (pad @ s)))) = e @ pad @ new @ pad @ replace_pair x y new s" for s
      using Cons.prems assms(2) by (simp add: replace_pair_append)
    with False Cons show ?thesis by (simp add: chain_text_Cons)
  qed
qed simp

lemma normalize_chain:
  assumes "\<forall>e\<in>set es. entity e" "a \<in> set arrows" "set pad \<subseteq> {CHR '' ''}"
  shows "normalize_arrows (chain_text (pad @ a @ pad) es) = chain_text (pad @ rarrow @ pad) es"
proof -
  have free: "c \<notin> set (chain_text (pad @ b @ pad) es)" if "c \<in> set reserved" "c \<notin> set b" for c b
    using chain_text_not [OF assms(1), of c "pad @ b @ pad"] that assms(3) by (auto simp: reserved_def lf_def)
  have "must (CHR 0x5C) latex_pattern" by (simp add: latex_pattern_def lit_def)
  moreover have "CHR 0x5C \<notin> set (chain_text (pad @ a @ pad) es)"
    by (rule free) (use assms(2) in \<open>auto simp: reserved_def arrows_def rarrow_def\<close>)
  ultimately have l: "regex_replace latex_pattern rarrow (chain_text (pad @ a @ pad) es) = chain_text (pad @ a @ pad) es"
    by (rule must_search(4))
  have e: "\<forall>e\<in>set es. CHR ''-'' \<notin> set e \<and> CHR ''='' \<notin> set e" using assms(1) entity_not by (simp add: reserved_def)
  have p: "CHR ''-'' \<notin> set pad" "CHR ''='' \<notin> set pad" using assms(3) by auto
  have r: "CHR ''-'' \<notin> set rarrow" "CHR ''='' \<notin> set rarrow" by (simp_all add: rarrow_def)
  consider "a = rarrow" | "a = ''->''" | "a = ''=>''" using assms(2) by (auto simp: arrows_def)
  then show ?thesis
  proof cases
    case 1
    have "CHR ''-'' \<notin> set (chain_text (pad @ a @ pad) es)" "CHR ''='' \<notin> set (chain_text (pad @ a @ pad) es)"
      using free r 1 by (simp_all add: reserved_def)
    with 1 l show ?thesis by (simp add: normalize_arrows_def replace_pair_free del: append_assoc)
  next
    case 2
    have "replace_pair (CHR ''-'') (CHR ''>'') rarrow (chain_text (pad @ ''->'' @ pad) es) = chain_text (pad @ rarrow @ pad) es"
      by (rule replace_pair_chain) (use e p in simp_all)
    moreover have "CHR ''='' \<notin> set (chain_text (pad @ rarrow @ pad) es)" using free r by (simp add: reserved_def)
    ultimately show ?thesis using l 2 by (simp add: normalize_arrows_def replace_pair_free del: append_assoc)
  next
    case 3
    have "replace_pair (CHR ''='') (CHR ''>'') rarrow (chain_text (pad @ ''=>'' @ pad) es) = chain_text (pad @ rarrow @ pad) es"
      by (rule replace_pair_chain) (use e p in simp_all)
    moreover have "CHR ''-'' \<notin> set (chain_text (pad @ ''=>'' @ pad) es)" by (rule free) (simp_all add: reserved_def)
    ultimately show ?thesis using l 3 by (simp add: normalize_arrows_def replace_pair_free del: append_assoc)
  qed
qed

lemma strip_annotations_free:
  assumes "CHR '':'' \<notin> set s" "CHR ''@'' \<notin> set s"
  shows "strip_annotations s = trim_end s"
proof -
  have "must (CHR '':'') (cats [Rep (Sym is_space), lit ''A:'', sign_rx, amount_rx, lit '','', amount_rx])"
    "must (CHR '':'') (cats [Rep (Sym is_space), lit ''F:'', flag_chars])"
    "must (CHR ''@'') (cats [Rep (Sym is_space), lit rarrow, lit ''@'', ref_name])"
    by (simp_all add: lit_def)
  then show ?thesis using assms by (simp add: strip_annotations_def must_search(4) del: must.simps cats.simps)
qed

lemma dropWhile_hd: "s = [] \<or> \<not> p (hd s) \<Longrightarrow> dropWhile p s = s"
  by (cases s) auto

lemma trim_end_id: "s \<noteq> [] \<Longrightarrow> \<not> is_space (last s) \<Longrightarrow> trim_end s = s"
  by (simp add: trim_end_def dropWhile_hd hd_rev)

lemma trim_entity_id: "s \<noteq> [] \<Longrightarrow> \<not> entity_blank (hd s) \<Longrightarrow> \<not> entity_blank (last s) \<Longrightarrow> trim_entity s = s"
  by (simp add: trim_entity_def dropWhile_hd hd_rev)

lemma trim_entity_pad:
  assumes "\<forall>c\<in>set p. entity_blank c" "\<forall>c\<in>set q. entity_blank c" "s \<noteq> []" "\<not> entity_blank (hd s)" "\<not> entity_blank (last s)"
  shows "trim_entity (p @ s @ q) = s"
proof -
  have "dropWhile entity_blank (p @ s @ q) = s @ q" using assms(1,3,4) by (cases s) (simp_all add: dropWhile_append2)
  moreover have "dropWhile entity_blank (rev q @ rev s) = rev s"
    by (subst dropWhile_append2) (use assms(2,3,5) in \<open>simp_all add: dropWhile_hd hd_rev\<close>)
  ultimately show ?thesis by (simp add: trim_entity_def)
qed

lemma entity_ends:
  assumes "entity e"
  shows "\<not> is_space (hd e)" "\<not> is_space (last e)" "\<not> entity_blank (hd e)" "\<not> entity_blank (last e)" "e \<noteq> []"
    "hd e \<noteq> CHR ''{''" "hd e \<noteq> CHR ''[''" "hd e \<noteq> CHR 0xE2" "hd e \<notin> set reserved"
proof -
  have m: "hd e \<in> set e" "last e \<in> set e" and ne: "e \<noteq> []" using assms by (simp_all add: entity_def)
  then have c: "entity_char (hd e)" "entity_char (last e)" "hd e \<noteq> CHR '' ''" "last e \<noteq> CHR '' ''"
    using assms by (simp_all add: entity_def list_all_iff)
  have sp: "entity_char c \<Longrightarrow> c \<noteq> CHR '' '' \<Longrightarrow> \<not> is_space c" for c
    by (auto simp: entity_char_def word_char_def is_alnum_def is_alpha_def is_upper_def is_lower_def is_digit_def is_space_def)
  have bl: "entity_blank c \<Longrightarrow> is_space c" for c by (auto simp: entity_blank_def is_space_def)
  show "\<not> is_space (hd e)" "\<not> is_space (last e)" "\<not> entity_blank (hd e)" "\<not> entity_blank (last e)" "e \<noteq> []"
    using sp c bl ne by blast+
  show r: "hd e \<notin> set reserved" using entity_chars c(1) by simp
  then show "hd e \<noteq> CHR ''{''" "hd e \<noteq> CHR ''[''" "hd e \<noteq> CHR 0xE2" by (auto simp: reserved_def)
qed

lemma chain_text_ends:
  assumes "es \<noteq> []" "\<forall>e\<in>set es. entity e"
  shows "chain_text sep es \<noteq> []" "hd (chain_text sep es) = hd (hd es)" "last (chain_text sep es) = last (last es)"
proof -
  have ne: "chain_text sep es \<noteq> []" if "es \<noteq> []" "\<forall>e\<in>set es. entity e" for es
    using that entity_ends(5) by (induction sep es rule: chain_text.induct) auto
  show "chain_text sep es \<noteq> []" using ne assms by blast
  show "hd (chain_text sep es) = hd (hd es)" using assms entity_ends(5)
    by (induction sep es rule: chain_text.induct) auto
  show "last (chain_text sep es) = last (last es)" using assms
  proof (induction es)
    case (Cons e es)
    then show ?case using ne [of es] by (cases "es = []") (simp_all add: chain_text_Cons)
  qed simp
qed

lemma arrow_parts_free: "CHR 0xE2 \<notin> set s \<Longrightarrow> arrow_parts s = [s]"
  by (induction s rule: arrow_parts.induct) (auto simp: rarrow_def)

lemma arrow_parts_append: "CHR 0xE2 \<notin> set e \<Longrightarrow> arrow_parts (e @ rarrow @ s) = e # arrow_parts s"
proof (induction e)
  case (Cons c e)
  obtain a b t where t: "e @ rarrow @ s = a # b # t" by (cases e) (auto simp: rarrow_def, metis append_Cons append_Nil neq_Nil_conv)
  then show ?case using Cons by (auto simp: rarrow_def)
qed (simp add: rarrow_def)

lemma chain_nodes:
  assumes "es \<noteq> []" "\<forall>e\<in>set es. entity e" "set pad \<subseteq> {CHR '' ''}" "set q \<subseteq> {CHR '' ''}"
  shows "map chain_entities (arrow_parts (q @ chain_text (pad @ rarrow @ pad) es)) = map (\<lambda>e. [e]) es"
  using assms(1,2,4)
proof (induction es arbitrary: q)
  case (Cons e es)
  have e: "entity e" using Cons.prems by simp
  have free: "CHR 0xE2 \<notin> set (q @ e @ r)" if "set r \<subseteq> {CHR '' ''}" for r
    using entity_not [OF e, of "CHR 0xE2"] Cons.prems(3) that by (auto simp: reserved_def)
  have one: "chain_entities (q @ e @ r) = [e]" if "set r \<subseteq> {CHR '' ''}" for r
  proof -
    have "trim_entity (q @ e @ r) = e"
      by (rule trim_entity_pad) (use that Cons.prems(3) entity_ends [OF e] in \<open>auto simp: entity_blank_def\<close>)
    then show ?thesis using entity_ends [OF e] by (simp add: chain_entities_def)
  qed
  show ?case
  proof (cases "es = []")
    case True
    then show ?thesis using free [of "[]"] one [of "[]"] by (simp add: arrow_parts_free)
  next
    case False
    have "arrow_parts (q @ e @ pad @ rarrow @ pad @ chain_text (pad @ rarrow @ pad) es) =
        (q @ e @ pad) # arrow_parts (pad @ chain_text (pad @ rarrow @ pad) es)"
      using arrow_parts_append [of "q @ e @ pad" "pad @ chain_text (pad @ rarrow @ pad) es"] free [OF assms(3)] by simp
    then show ?thesis using False Cons.IH [of pad] Cons.prems one [OF assms(3)] assms(3) by (simp add: chain_text_Cons)
  qed
qed simp

lemma at_case: "to_lower c = CHR ''@'' \<or> to_upper c = CHR ''@'' \<longleftrightarrow> c = CHR ''@''"
proof
  assume a: "to_lower c = CHR ''@'' \<or> to_upper c = CHR ''@''"
  then have n: "(of_char (to_lower c) :: nat) = 64 \<or> (of_char (to_upper c) :: nat) = 64" by auto
  have "\<not> is_upper c \<or> (of_char (to_lower c) :: nat) \<noteq> 64"
    by (auto simp: to_lower_def is_upper_def of_char_cc)
  moreover have "\<not> is_lower c \<or> (of_char (to_upper c) :: nat) \<noteq> 64"
    by (auto simp: to_upper_def is_lower_def of_char_cc)
  moreover have "\<not> (is_upper c \<and> is_lower c)" by (auto simp: is_upper_def is_lower_def)
  moreover have "c = CHR ''@''" if "(of_char c :: nat) = 64"
  proof -
    have "(of_char c :: nat) = of_char (CHR ''@'')" using that by simp
    then show ?thesis by (simp only: of_char_eq_iff)
  qed
  ultimately show "c = CHR ''@''" using n by (auto simp: to_lower_def to_upper_def split: if_splits)
qed (simp add: to_lower_def is_upper_def)

lemma no_date: "CHR ''@'' \<notin> set s \<Longrightarrow> extract_date_from_object s = (s, [])"
proof -
  assume s: "CHR ''@'' \<notin> set s"
  have "must (CHR ''@'') date_suffix_pattern"
    using at_case by (simp add: date_suffix_pattern_def lit_def eq_commute [of "CHR ''@''"])
  then show ?thesis using must_search(2) s by (simp add: extract_date_from_object_def)
qed

lemma link_pairs:
  assumes "\<forall>e\<in>set es. entity e"
  shows "link_chain pred (map (\<lambda>e. [e]) es) =
    map2 (\<lambda>x y. \<lparr>t_subject = x, t_predicate = pred, t_object = y, t_date = [], valid_from_ms = 0\<rparr>) es (tl es)"
  using assms
proof (induction es)
  case (Cons e es)
  then show ?case
  proof (cases es)
    case (Cons f fs)
    have "CHR ''@'' \<notin> set f" "f \<noteq> []" using Cons.prems Cons entity_not [of f] entity_ends(5) by (auto simp: reserved_def)
    then have "link_nodes pred [e] [f] = [\<lparr>t_subject = e, t_predicate = pred, t_object = f, t_date = [], valid_from_ms = 0\<rparr>]"
      by (simp add: link_nodes_def make_triplet_def no_date)
    with Cons Cons.IH Cons.prems show ?thesis by simp
  qed simp
qed simp

text \<open>The facts about a chain that is written out, for every component that reads it.\<close>

lemma chain_facts:
  assumes "es \<noteq> []" "\<forall>e\<in>set es. entity e" "a \<in> set arrows" "set pad \<subseteq> {CHR '' ''}"
  defines "t \<equiv> chain_text (pad @ a @ pad) es"
  shows "t \<noteq> []" "\<not> is_space (hd t)" "\<not> is_space (last t)" "trim_entity t = t" "trim_end t = t" "hd t \<notin> set reserved"
    "\<forall>c\<in>set ''@:|[]'' \<union> {lf, CHR 0x0D}. c \<notin> set t"
proof -
  have ends: "t \<noteq> []" "hd t = hd (hd es)" "last t = last (last es)" using chain_text_ends assms by simp_all
  have e: "entity (hd es)" "entity (last es)" using assms(1,2) by simp_all
  show "t \<noteq> []" "\<not> is_space (hd t)" "\<not> is_space (last t)" "hd t \<notin> set reserved"
    using ends entity_ends [OF e(1)] entity_ends [OF e(2)] by simp_all
  show "trim_entity t = t" "trim_end t = t"
    using ends entity_ends [OF e(1)] entity_ends [OF e(2)] by (simp_all add: trim_entity_id trim_end_id)
  show "\<forall>c\<in>set ''@:|[]'' \<union> {lf, CHR 0x0D}. c \<notin> set t"
  proof
    fix c assume c: "c \<in> set ''@:|[]'' \<union> {lf, CHR 0x0D}"
    have "set (pad @ a @ pad) \<subseteq> {CHR '' ''} \<union> \<Union> (set ` set arrows)" using assms(3,4) by auto
    moreover have "c \<notin> {CHR '' ''} \<union> \<Union> (set ` set arrows)" using c by (auto simp: arrows_def rarrow_def lf_def)
    ultimately have "c \<notin> set (pad @ a @ pad)" by blast
    then show "c \<notin> set t" unfolding t_def by (intro chain_text_not) (use assms(2) c in \<open>auto simp: reserved_def\<close>)
  qed
qed

lemma chain_triplets_pairs:
  assumes "length es \<ge> 2" "\<forall>e\<in>set es. entity e" "a \<in> set arrows" "set pad \<subseteq> {CHR '' ''}"
  shows "chain_triplets ty (chain_text (pad @ a @ pad) es) =
    map2 (\<lambda>x y. \<lparr>t_subject = x, t_predicate = (if ty = ''GOTCHA'' then ''causes'' else ''leads_to''), t_object = y,
                 t_date = [], valid_from_ms = 0\<rparr>) es (tl es)"
proof -
  let ?t = "chain_text (pad @ a @ pad) es" and ?u = "chain_text (pad @ rarrow @ pad) es"
  have ne: "es \<noteq> []" using assms(1) by auto
  note t = chain_facts [OF ne assms(2,3,4)]
  have u: "?u \<noteq> []" "trim_entity ?u = ?u" "trim_end ?u = ?u" "hd ?u \<notin> set reserved" "\<forall>c\<in>set ''@:|[]'' \<union> {lf, CHR 0x0D}. c \<notin> set ?u"
    using chain_facts [OF ne assms(2) _ assms(4), of rarrow] by (auto simp: arrows_def)
  have "clean_chain ?t = ?u"
  proof -
    have "strip_annotations ?u = ?u" using u(3,5) by (simp add: strip_annotations_free)
    moreover have "hd ?u \<noteq> CHR ''[''" using u(4) by (auto simp: reserved_def)
    ultimately show ?thesis using normalize_chain [OF assms(2-4)] u(2) by (simp add: clean_chain_def drop_domain_def)
  qed
  moreover have "\<not> starts_with epsilon_tag ?t"
  proof -
    have "hd ?t \<noteq> CHR ''[''" using t(6) by (auto simp: reserved_def)
    then show ?thesis using t(1) by (cases ?t) (auto simp: starts_with_def epsilon_tag_def)
  qed
  moreover have "CHR ''|'' \<notin> set ?u" using u(5) by simp
  moreover have "has_arrow ?u"
  proof -
    obtain e f fs where es: "es = e # f # fs" using assms(1) by (metis Suc_le_length_iff numeral_2_eq_2)
    have "?u = (e @ pad) @ rarrow @ (pad @ chain_text (pad @ rarrow @ pad) (f # fs))" by (simp add: es)
    then show ?thesis unfolding has_arrow_def by (metis contains_append)
  qed
  moreover have "map chain_entities (arrow_parts ?u) = map (\<lambda>e. [e]) es"
    using chain_nodes [OF ne assms(2,4), of "[]"] by simp
  ultimately show ?thesis using t(4) link_pairs [OF assms(2)] by (auto simp: chain_triplets_def Let_def)
qed

section \<open>A note with a chain\<close>

lemma takeWhile_whole: "(\<And>c. c \<in> set s \<Longrightarrow> p c) \<Longrightarrow> takeWhile p s = s"
  by (simp add: takeWhile_eq_all_conv)

lemma rx_lits:
  "ts \<noteq> [] \<Longrightarrow> rx_all (alts (map lit ts)) s (i, c) =
     map (\<lambda>t. (i + length t, c)) (filter (\<lambda>t. take (length t) (drop i s) = t) ts)"
  by (induction ts rule: induct_list012) (simp_all add: rx_lit)

lemma note_types_prefix_free:
  "\<forall>t\<in>set note_types. \<forall>u\<in>set note_types. take (length t) u = t \<longrightarrow> t = u" "\<forall>t\<in>set note_types. CHR '']'' \<notin> set t \<and> t \<noteq> []"
  by (simp_all add: note_types_def)

lemma filter_single: "distinct xs \<Longrightarrow> x \<in> set xs \<Longrightarrow> filter (\<lambda>y. y = x) xs = [x]"
  by (induction xs) (auto simp: filter_empty_conv)

lemma note_type_first:
  assumes "ty \<in> set note_types"
  shows "filter (\<lambda>t. take (length t) (ty @ CHR '']'' # s) = t) note_types = [ty]"
proof -
  have "take (length t) (ty @ CHR '']'' # s) = t \<longleftrightarrow> t = ty" if t: "t \<in> set note_types" for t
  proof
    assume e: "take (length t) (ty @ CHR '']'' # s) = t"
    show "t = ty"
    proof (cases "length t \<le> length ty")
      case True
      then show ?thesis using e note_types_prefix_free(1) t assms by simp
    next
      case False
      then obtain k where "length t - length ty = Suc k" by (metis Suc_diff_Suc not_le)
      then have "CHR '']'' \<in> set (take (length t) (ty @ CHR '']'' # s))" using False by simp
      then have "CHR '']'' \<in> set t" unfolding e .
      then show ?thesis using note_types_prefix_free(2) t by simp
    qed
  qed simp
  then have "filter (\<lambda>t. take (length t) (ty @ CHR '']'' # s) = t) note_types = filter (\<lambda>t. t = ty) note_types"
    by (intro filter_cong) simp_all
  also have "\<dots> = [ty]" by (rule filter_single) (use assms in \<open>simp_all add: note_types_def\<close>)
  finally show ?thesis .
qed

text \<open>The type line of a note: its type and the rest of the line without the leading space.\<close>

lemma type_line:
  assumes "ty \<in> set note_types" "t \<noteq> []" "\<not> is_space (hd t)" "lf \<notin> set t" "CHR 0x0D \<notin> set t"
  defines "line \<equiv> ''['' @ ty @ '']'' @ '' '' @ t"
  obtains cs where "regex_match type_pattern line = Some cs" "group_str line cs 1 = ty" "group_str line cs 2 = t"
proof -
  let ?n = "length ty" and ?m = "length line"
  have alt: "rx_all (alts (map lit note_types)) line (1, []) = [(1 + ?n, [])]"
    by (subst rx_lits) (use note_type_first [OF assms(1)] in \<open>simp_all add: line_def note_types_def\<close>)
  have sp: "rx_all spaces line (2 + ?n, c) = [(3 + ?n, c)]" for c
    using assms(2,3) by (cases t) (simp_all add: spaces_def rx_some_sym line_def is_space_def nth_append)
  have "takeWhile (\<lambda>c. c \<noteq> CHR 0x0A \<and> c \<noteq> CHR 0x0D) t = t"
    using assms(4,5) by (intro takeWhile_whole) (auto simp: lf_def)
  moreover have dt: "drop (3 + ?n) line = t" by (simp add: line_def numeral_3_eq_3)
  ultimately have "takeWhile (\<lambda>c. c \<noteq> CHR 0x0A \<and> c \<noteq> CHR 0x0D) (drop (3 + ?n) line) = t" by (simp only:)
  then have rest: "rx_all (Rep any_char) line (3 + ?n, c) = run_down c (3 + ?n) (length t)" for c
    unfolding any_char_def rx_rep_sym by (simp only:)
  have m: "?m = 3 + ?n + length t" by (simp add: line_def)
  have open_close: "rx_all (lit ''['') line (0, c) = [(1, c)]" "rx_all (lit '']'') line (1 + ?n, c) = [(2 + ?n, c)]" for c
    by (simp_all add: rx_lit line_def)
  let ?cs = "[(2, 3 + ?n, ?m), (1, 1, 1 + ?n)]"
  have "rx_all type_pattern line (0, []) =
      map (\<lambda>u. (fst u, (2, 3 + ?n, fst u) # snd u)) (run_down [(1, 1, 1 + ?n)] (3 + ?n) (length t))"
    using open_close alt sp rest by (simp add: type_pattern_def del: rx_all.simps(5))
  then obtain us where us: "rx_all type_pattern line (0, []) = (?m, ?cs) # us"
    using m by (subst (asm) run_down_hd) simp
  have "regex_match type_pattern line = Some ?cs" by (simp add: regex_match_def us)
  moreover have "group_str line ?cs 1 = ty" by (simp add: group_str_def slice_of_def line_def)
  moreover have "group_str line ?cs 2 = t" by (simp add: group_str_def slice_of_def m dt)
  ultimately show thesis by (rule that)
qed

lemma getlines_one: "s \<noteq> [] \<Longrightarrow> lf \<notin> set s \<Longrightarrow> getlines s = [s]"
proof -
  assume "s \<noteq> []" "lf \<notin> set s"
  then have "takeWhile (\<lambda>x. x \<noteq> lf) s = s" "dropWhile (\<lambda>x. x \<noteq> lf) s = []" by (auto simp: takeWhile_eq_all_conv)
  then show ?thesis using \<open>s \<noteq> []\<close> by (cases s) simp_all
qed

lemma no_annotations:
  assumes "CHR '':'' \<notin> set s" "CHR ''@'' \<notin> set s"
  shows "parse_affect_values s = (Fin 0, Fin 0)" "parse_flags s = []" "parse_refs s = []" "extract_inline_citations s = []"
proof -
  have "must (CHR '':'') v03_pattern" "must (CHR '':'') legacy_pattern" "must (CHR '':'') (Cat (lit ''F:'') (Group 1 flag_chars))"
    "must (CHR ''@'') (cats [lit rarrow, lit ''@'', Group 1 ref_name])" "must (CHR ''@'') cite_pattern"
    by (simp_all add: v03_pattern_def legacy_pattern_def cite_pattern_def lit_def)
  then show "parse_affect_values s = (Fin 0, Fin 0)" "parse_flags s = []" "parse_refs s = []" "extract_inline_citations s = []"
    using must_search(1,3) assms
    by (simp_all add: parse_affect_values_def read_affect_def parse_flags_def parse_refs_def extract_inline_citations_def
        del: cats.simps must.simps)
qed

text \<open>
  C32: A note whose content is a chain of entities joined by an arrow, in any of three spellings and
  with or without spaces around it, is read back: one learning of that type with the content as it
  was written and no annotation, and one triplet for every pair of neighbours.
\<close>

theorem ssl_chain_roundtrip:
  assumes "ty \<in> set note_types" "length es \<ge> 2" "\<forall>e\<in>set es. entity e" "a \<in> set arrows" "set pad \<subseteq> {CHR '' ''}"
  defines "t \<equiv> chain_text (pad @ a @ pad) es"
  shows "ssl_parse (''['' @ ty @ '']'' @ '' '' @ t) =
    ([\<lparr>l_type = ty, l_content = t, l_title = take 100 t, l_category = type_to_category ty, l_citations = [],
       l_valence = Fin 0, l_arousal = Fin 0, l_flags = [], l_refs = []\<rparr>],
     map2 (\<lambda>x y. \<lparr>t_subject = x, t_predicate = (if ty = ''GOTCHA'' then ''causes'' else ''leads_to''), t_object = y,
                  t_date = [], valid_from_ms = 0\<rparr>) es (tl es))"
proof -
  have ne: "es \<noteq> []" using assms(2) by auto
  note t = chain_facts [OF ne assms(3,4,5), folded t_def]
  have ty: "ty \<noteq> []" "lf \<notin> set ty" using assms(1) by (auto simp: note_types_def lf_def)
  define line where "line = ''['' @ ty @ '']'' @ '' '' @ t"
  obtain cs where cs: "regex_match type_pattern line = Some cs" "group_str line cs 1 = ty" "group_str line cs 2 = t"
    using type_line [OF assms(1) t(1,2)] t(7) unfolding line_def by auto
  have "lf \<notin> set line" "line \<noteq> []" "lf \<notin> set t" using t(7) ty(2) by (auto simp: line_def lf_def)
  then have lines: "getlines line = [line]" "getlines t = [t]" using t(1) getlines_one by blast+
  have plain: "take 3 line \<noteq> ''```''" "line \<noteq> ''---''" by (simp_all add: line_def)
  have "parse_line line init_ssl = init_ssl\<lparr>cur_type := ty, cur_content := t\<rparr>"
    using cs plain \<open>line \<noteq> []\<close> by (simp add: parse_line_def store_current_def init_ssl_def)
  moreover have "strip_annotations t = t" using t(5,7) by (simp add: strip_annotations_free)
  moreover have "takeWhile (\<lambda>c. c \<noteq> lf) t = t" using \<open>lf \<notin> set t\<close> by (auto simp: takeWhile_eq_all_conv)
  ultimately show ?thesis
    using ty(1) t(1,7) lines no_annotations [of t] chain_triplets_pairs [OF assms(2-5), folded t_def]
    unfolding line_def [symmetric] by (simp add: ssl_parse_def store_current_def init_ssl_def make_learning_def Let_def takeWhile_whole)
qed

theorem ssl_chain_roundtrip_witness:
  "ssl_parse (''[GOTCHA] '' @ ''fd leak -> crash'') =
    ([\<lparr>l_type = ''GOTCHA'', l_content = ''fd leak -> crash'', l_title = ''fd leak -> crash'', l_category = ''gotcha'',
       l_citations = [], l_valence = Fin 0, l_arousal = Fin 0, l_flags = [], l_refs = []\<rparr>],
     [\<lparr>t_subject = ''fd leak'', t_predicate = ''causes'', t_object = ''crash'', t_date = [], valid_from_ms = 0\<rparr>])"
proof -
  have "\<forall>e\<in>set [''fd leak'', ''crash'']. entity e"
    by (simp add: entity_def entity_char_def word_char_def is_alnum_def is_alpha_def is_upper_def is_lower_def is_digit_def)
  then show ?thesis
    using ssl_chain_roundtrip [of "''GOTCHA''" "[''fd leak'', ''crash'']" "''->''" "'' ''"]
    by (simp add: note_types_def arrows_def type_to_category_def)
qed

section \<open>Notes are read independently\<close>

text \<open>What was read before only stands in front of the results.\<close>

definition prepend :: "learning list \<Rightarrow> triplet list \<Rightarrow> ssl_state \<Rightarrow> ssl_state" where
  "prepend ls ts st = st\<lparr>learnings := ls @ learnings st, triplets := ts @ triplets st\<rparr>"

lemma store_prepend: "store_current (prepend ls ts st) = prepend ls ts (store_current st)"
  by (simp add: store_current_def prepend_def)

lemma add_triplet_prepend: "add_triplet line cs (prepend ls ts st) = prepend ls ts (add_triplet line cs st)"
  by (simp add: add_triplet_def prepend_def Let_def split: prod.split)

lemma prepend_fields:
  "cur_type (prepend ls ts st) = cur_type st" "cur_content (prepend ls ts st) = cur_content st"
  "cur_cites (prepend ls ts st) = cur_cites st"
  "(prepend ls ts st)\<lparr>cur_type := x, cur_content := y\<rparr> = prepend ls ts (st\<lparr>cur_type := x, cur_content := y\<rparr>)"
  "(prepend ls ts st)\<lparr>cur_content := y\<rparr> = prepend ls ts (st\<lparr>cur_content := y\<rparr>)"
  "(prepend ls ts st)\<lparr>cur_cites := z\<rparr> = prepend ls ts (st\<lparr>cur_cites := z\<rparr>)"
  by (simp_all add: prepend_def)

lemma parse_line_prepend: "parse_line line (prepend ls ts st) = prepend ls ts (parse_line line st)"
  unfolding parse_line_def
  by (simp add: store_prepend add_triplet_prepend prepend_fields Let_def split: option.split)

lemma fold_prepend: "fold parse_line lines (prepend ls ts st) = prepend ls ts (fold parse_line lines st)"
  by (induction lines arbitrary: st) (simp_all add: parse_line_prepend)

lemma fold_skip: "fold parse_line (filter (\<lambda>l. l \<noteq> []) lines) st = fold parse_line lines st"
  by (induction lines arbitrary: st) (simp_all add: parse_line_def)

lemma getlines_first: "lf \<notin> set u \<Longrightarrow> getlines (u @ lf # r) = u # getlines r"
proof -
  assume "lf \<notin> set u"
  then have "takeWhile (\<lambda>x. x \<noteq> lf) (u @ lf # r) = u" "dropWhile (\<lambda>x. x \<noteq> lf) (u @ lf # r) = lf # r"
    by (induction u) auto
  then show ?thesis by (cases u) simp_all
qed

lemma getlines_append:
  "filter (\<lambda>l. l \<noteq> []) (getlines (a @ lf # b)) = filter (\<lambda>l. l \<noteq> []) (getlines a) @ filter (\<lambda>l. l \<noteq> []) (getlines b)"
proof (induction a rule: getlines.induct)
  case 1
  show ?case by simp
next
  case (2 c s)
  show ?case
  proof (cases "lf \<in> set (c # s)")
    case True
    then obtain u v where u: "c # s = u @ lf # v" "lf \<notin> set u" by (meson split_list_first)
    have w: "(c # s) @ lf # b = u @ lf # v @ lf # b" using u(1) by simp
    have "drop 1 (dropWhile (\<lambda>x. x \<noteq> lf) (c # s)) = v" unfolding u(1) using u(2) by (induction u) auto
    then show ?thesis using 2 getlines_first [OF u(2)] unfolding w u(1) by simp
  next
    case False
    then have "getlines ((c # s) @ lf # b) = (c # s) # getlines b" "getlines (c # s) = [c # s]"
      using getlines_first [of "c # s" b] getlines_one [of "c # s"] by blast+
    then show ?thesis by (simp only: filter.simps append.simps) simp
  qed
qed

text \<open>The state after the lines of a text, and whether its last note can be followed by another.\<close>

definition ssl_after :: "string \<Rightarrow> ssl_state" where
  "ssl_after output = fold parse_line (getlines output) init_ssl"

definition closed_notes :: "string \<Rightarrow> bool" where
  "closed_notes output = (cur_content (ssl_after output) \<noteq> [] \<or> cur_cites (ssl_after output) = [])"

lemma ssl_parse_after: "ssl_parse output = (learnings (store_current (ssl_after output)), triplets (store_current (ssl_after output)))"
  by (simp add: ssl_parse_def ssl_after_def Let_def)

lemma after_append: "ssl_after (a @ lf # b) = fold parse_line (getlines b) (ssl_after a)"
proof -
  have "ssl_after (a @ lf # b) = fold parse_line (filter (\<lambda>l. l \<noteq> []) (getlines (a @ lf # b))) init_ssl"
    by (simp add: ssl_after_def fold_skip)
  also have "\<dots> = fold parse_line (filter (\<lambda>l. l \<noteq> []) (getlines b)) (fold parse_line (filter (\<lambda>l. l \<noteq> []) (getlines a)) init_ssl)"
    by (simp only: getlines_append fold_append o_apply)
  finally show ?thesis by (simp add: fold_skip ssl_after_def)
qed

lemma store_clears: "cur_content st \<noteq> [] \<or> cur_cites st = [] \<Longrightarrow> cur_type st \<noteq> [] \<or> cur_cites st = [] \<Longrightarrow> cur_cites (store_current st) = []"
  by (auto simp: store_current_def)

lemma init_store [simp]:
  "store_current init_ssl = init_ssl" "learnings init_ssl = []" "triplets init_ssl = []" "cur_cites init_ssl = []"
  "cur_type init_ssl = []" "cur_content init_ssl = []"
  by (simp_all add: store_current_def init_ssl_def)

lemma type_line_starts:
  assumes "regex_match type_pattern line = Some cs" "cur_cites (store_current st) = []"
  shows "parse_line line st = prepend (learnings (store_current st)) (triplets (store_current st)) (parse_line line init_ssl)"
proof -
  have "rx_lang type_pattern line 0 (length line)" using assms(1) regex_match_lang [of type_pattern line] by simp
  then have "CHR ''['' \<in> set line \<and> hd line = CHR ''[''"
    by (cases line) (auto simp: type_pattern_def lit_def relcompp_apply)
  then have l: "\<not> (line = [] \<or> take 3 line = ''```'' \<or> line = ''---'')" by (cases line) auto
  then have e: "parse_line line st = (store_current st)\<lparr>cur_type := group_str line cs 1, cur_content := group_str line cs 2\<rparr>" for st
    using assms(1) by (simp add: parse_line_def)
  show ?thesis using assms(2) unfolding e by (simp add: prepend_def)
qed

lemma run_down_caps: "u \<in> set (run_down c i n) \<Longrightarrow> snd u = c"
  by (induction n) auto

lemma type_caps:
  assumes "regex_match type_pattern line = Some cs"
  shows "group_str line cs 1 \<in> set note_types"
proof -
  obtain u where u: "u \<in> set (rx_all type_pattern line (0, []))" "snd u = cs"
    using assms by (auto simp: regex_match_def find_Some_iff) (metis nth_mem snd_conv)
  have ne: "note_types \<noteq> []" by (simp add: note_types_def)
  have sp: "snd v = c" if "v \<in> set (rx_all spaces line (i, c))" for v i c
    using that by (auto simp: spaces_def rx_some_sym dest: run_down_caps split: if_splits)
  have an: "snd w = snd v" if "w \<in> set (rx_all (Rep any_char) line v)" for v w
    using that by (cases v) (auto dest: run_down_caps simp: any_char_def rx_rep_sym simp del: rx_all.simps(5))
  from u(1) obtain t v w x where v: "take 1 line = ''[''" "t \<in> set note_types" "take (length t) (drop 1 line) = t"
      "v \<in> set (rx_all spaces line (2 + length t, [(1, 1, 1 + length t)]))"
      "w \<in> set (rx_all (Rep any_char) line v)" "snd u = (2, x) # snd w"
    by (auto simp: type_pattern_def rx_lit rx_lits [OF ne] simp del: rx_all.simps(5) split: if_splits)
  have "snd u = [(2, x), (1, 1, 1 + length t)]"
    unfolding v(6) an [OF v(5)] sp [OF v(4)] by (rule refl)
  then show ?thesis using v(2,3) u(2) by (auto simp: group_str_def slice_of_def)
qed

lemma cites_need_type: "cur_type (ssl_after output) \<noteq> [] \<or> cur_cites (ssl_after output) = []"
proof -
  have step: "cur_type (parse_line line st) \<noteq> [] \<or> cur_cites (parse_line line st) = []"
    if "cur_type st \<noteq> [] \<or> cur_cites st = []" for line st
  proof -
    have store: "cur_type (store_current st) \<noteq> [] \<or> cur_cites (store_current st) = []"
      using that by (auto simp: store_current_def)
    have "cur_type (add_triplet line cs (store_current st)) = cur_type (store_current st)"
      "cur_cites (add_triplet line cs (store_current st)) = cur_cites (store_current st)" for cs
      by (simp_all add: add_triplet_def Let_def split: prod.split)
    moreover have "group_str line cs 1 \<noteq> []" if "regex_match type_pattern line = Some cs" for cs
      using type_caps [OF that] note_types_prefix_free(2) by blast
    ultimately show ?thesis using that store by (auto simp: parse_line_def Let_def split: option.split)
  qed
  have "cur_type (fold parse_line lines st) \<noteq> [] \<or> cur_cites (fold parse_line lines st) = []"
    if "cur_type st \<noteq> [] \<or> cur_cites st = []" for lines st
    using that step by (induction lines arbitrary: st) auto
  then show ?thesis by (simp add: ssl_after_def)
qed

text \<open>
  C33: The notes of two texts are read independently: when the second text starts with the type of a
  note and the last note of the first text has content or no citation, the result of the whole is
  the results of the parts, one after the other.
\<close>

theorem ssl_append:
  assumes "regex_match type_pattern (hd (getlines b)) \<noteq> None" "getlines b \<noteq> []" "closed_notes a"
  shows "ssl_parse (a @ lf # b) = (fst (ssl_parse a) @ fst (ssl_parse b), snd (ssl_parse a) @ snd (ssl_parse b))"
proof -
  obtain l ls cs where l: "getlines b = l # ls" "regex_match type_pattern l = Some cs" using assms(1,2) by (cases "getlines b") auto
  let ?sa = "store_current (ssl_after a)"
  have "cur_cites ?sa = []" using assms(3) cites_need_type [of a] by (intro store_clears) (auto simp: closed_notes_def)
  from type_line_starts [OF l(2) this]
  have "ssl_after (a @ lf # b) = prepend (learnings ?sa) (triplets ?sa) (fold parse_line ls (parse_line l init_ssl))"
    by (simp add: after_append l(1) fold_prepend)
  then have "ssl_after (a @ lf # b) = prepend (learnings ?sa) (triplets ?sa) (ssl_after b)"
    by (simp add: ssl_after_def l(1))
  then show ?thesis by (simp add: ssl_parse_after store_prepend) (simp add: prepend_def)
qed

lemma after_type_line:
  assumes "ty \<in> set note_types" "t \<noteq> []" "\<not> is_space (hd t)" "lf \<notin> set t" "CHR 0x0D \<notin> set t"
  defines "line \<equiv> ''['' @ ty @ '']'' @ '' '' @ t"
  shows "getlines line = [line]" "regex_match type_pattern line \<noteq> None" "cur_content (ssl_after line) = t"
proof -
  obtain cs where cs: "regex_match type_pattern line = Some cs" "group_str line cs 2 = t"
    using type_line [OF assms(1-5)] unfolding line_def by auto
  have "lf \<notin> set ty" using assms(1) by (auto simp: note_types_def lf_def)
  then show l: "getlines line = [line]" using assms(4) by (intro getlines_one) (auto simp: line_def lf_def)
  show "regex_match type_pattern line \<noteq> None" using cs by simp
  have "line \<noteq> []" "take 3 line \<noteq> ''```''" "line \<noteq> ''---''" by (simp_all add: line_def)
  then show "cur_content (ssl_after line) = t" using cs by (simp add: ssl_after_def l parse_line_def)
qed

theorem ssl_append_witness:
  "ssl_parse (''[EVENT] deployed'' @ lf # ''[BELIEF] ok'') =
    (fst (ssl_parse ''[EVENT] deployed'') @ fst (ssl_parse ''[BELIEF] ok''), snd (ssl_parse ''[EVENT] deployed'') @ snd (ssl_parse ''[BELIEF] ok''))"
proof -
  have ev: "cur_content (ssl_after (''['' @ ''EVENT'' @ '']'' @ '' '' @ ''deployed'')) = ''deployed''"
    by (rule after_type_line) (simp_all add: note_types_def is_space_def lf_def)
  have b: "getlines (''['' @ ''BELIEF'' @ '']'' @ '' '' @ ''ok'') = [''['' @ ''BELIEF'' @ '']'' @ '' '' @ ''ok'']"
    "regex_match type_pattern (''['' @ ''BELIEF'' @ '']'' @ '' '' @ ''ok'') \<noteq> None"
    by (rule after_type_line; simp add: note_types_def is_space_def lf_def)+
  show ?thesis
    by (rule ssl_append) (use ev b in \<open>simp_all add: closed_notes_def\<close>)
qed

section \<open>Everything the parser returns is well formed\<close>

definition triplet_ok :: "triplet \<Rightarrow> bool" where
  "triplet_ok t = (t_subject t \<noteq> [] \<and> t_predicate t \<noteq> [] \<and> t_object t \<noteq> [])"

definition learning_ok :: "learning \<Rightarrow> bool" where
  "learning_ok l =
     (l_type l \<in> set note_types \<and> l_category l = type_to_category (l_type l) \<and>
      l_title l = take 100 (takeWhile (\<lambda>c. c \<noteq> lf) (l_content l)) \<and>
      (\<exists>x. l_arousal l = Fin x \<and> 0 \<le> x \<and> x \<le> 1) \<and> [] \<notin> set (l_flags l) \<and>
      (l_content l \<noteq> [] \<longrightarrow> \<not> is_space (last (l_content l))))"

lemma clamp_upto_one_bounds: "lo \<le> 1 \<Longrightarrow> \<exists>x. clamp_upto_one lo (Fin v) = Fin x \<and> lo \<le> x \<and> x \<le> 1"
  by (auto simp: clamp_upto_one_def fmax_def)

lemma stof_Fin: "stof s = Some f \<Longrightarrow> \<exists>x. f = Fin x"
  by (cases f; cases "fround single (decimal_value s)") (simp_all add: stof_def Let_def split: if_splits)

lemma affect_arousal: "\<exists>x. snd (parse_affect_values s) = Fin x \<and> 0 \<le> x \<and> x \<le> 1"
proof -
  have step: "\<exists>x. snd (fst (read_affect r s va)) = Fin x \<and> 0 \<le> x \<and> x \<le> 1" if "\<exists>x. snd va = Fin x \<and> 0 \<le> x \<and> x \<le> 1" for r va
    using that clamp_upto_one_bounds [of 0] by (auto simp: read_affect_def dest!: stof_Fin split: option.splits)
  have "\<exists>x. snd (fst (read_affect v03_pattern s (Fin 0, Fin 0))) = Fin x \<and> 0 \<le> x \<and> x \<le> 1" by (rule step) simp
  moreover from step [OF this]
  have "\<exists>x. snd (fst (read_affect legacy_pattern s (fst (read_affect v03_pattern s (Fin 0, Fin 0))))) = Fin x \<and> 0 \<le> x \<and> x \<le> 1" .
  ultimately show ?thesis by (cases "read_affect v03_pattern s (Fin 0, Fin 0)") (simp add: parse_affect_values_def)
qed

lemma trim_end_last: "trim_end s \<noteq> [] \<Longrightarrow> \<not> is_space (last (trim_end s))"
proof -
  assume "trim_end s \<noteq> []"
  then have "dropWhile is_space (rev s) \<noteq> []" by (simp add: trim_end_def)
  then have "\<not> is_space (hd (dropWhile is_space (rev s)))" by (rule hd_dropWhile)
  then show ?thesis using \<open>dropWhile is_space (rev s) \<noteq> []\<close> by (simp add: trim_end_def last_rev)
qed

lemma make_learning_ok: "ty \<in> set note_types \<Longrightarrow> learning_ok (make_learning ty content cites)"
  using affect_arousal [of content] trim_end_last
  by (auto simp: learning_ok_def make_learning_def Let_def strip_annotations_def parse_flags_def split: option.split)

lemma chain_entities_ne: "[] \<notin> set (chain_entities p)"
  by (auto simp: chain_entities_def Let_def)

lemma link_chain_ok: "pred \<noteq> [] \<Longrightarrow> \<forall>n\<in>set ns. [] \<notin> set n \<Longrightarrow> \<forall>t\<in>set (link_chain pred ns). triplet_ok t"
proof (induction pred ns rule: link_chain.induct)
  case (1 pred n m ns)
  have "\<forall>t\<in>set (link_nodes pred n m). triplet_ok t"
    using 1(2,3) by (auto simp: link_nodes_def make_triplet_def triplet_ok_def split: if_splits prod.splits)
  with 1 show ?case by auto
qed simp_all

lemma chain_triplets_ok: "\<forall>t\<in>set (chain_triplets ty line). triplet_ok t"
proof -
  have link: "list_all triplet_ok (link_chain pred (map chain_entities ps))" if "pred \<noteq> []" for pred ps
    using link_chain_ok [OF that, of "map chain_entities ps"] chain_entities_ne by (simp add: list_all_iff)
  have "list_all triplet_ok (chain_triplets ty line)" unfolding chain_triplets_def Let_def by (simp add: link)
  then show ?thesis by (simp add: list_all_iff)
qed

text \<open>The invariant of the states, kept by every line.\<close>

definition ssl_ok :: "ssl_state \<Rightarrow> bool" where
  "ssl_ok st =
     ((cur_type st = [] \<or> cur_type st \<in> set note_types) \<and> list_all learning_ok (learnings st) \<and> list_all triplet_ok (triplets st))"

lemma store_ok: "ssl_ok st \<Longrightarrow> ssl_ok (store_current st)"
  using make_learning_ok chain_triplets_ok by (auto simp: ssl_ok_def store_current_def list_all_iff)

lemma add_triplet_ok: "ssl_ok st \<Longrightarrow> ssl_ok (add_triplet line cs st)"
  by (auto simp: ssl_ok_def add_triplet_def triplet_ok_def Let_def split: prod.split)

lemma ssl_ok_update:
  "ssl_ok st \<Longrightarrow> ssl_ok (st\<lparr>cur_content := x\<rparr>)" "ssl_ok st \<Longrightarrow> ssl_ok (st\<lparr>cur_cites := z\<rparr>)"
  "ssl_ok st \<Longrightarrow> ty \<in> set note_types \<Longrightarrow> ssl_ok (st\<lparr>cur_type := ty, cur_content := x\<rparr>)"
  by (simp_all add: ssl_ok_def)

lemma parse_line_ok: "ssl_ok st \<Longrightarrow> ssl_ok (parse_line line st)"
  unfolding parse_line_def Let_def
  by (simp add: store_ok add_triplet_ok ssl_ok_update type_caps del: One_nat_def split: option.split)

lemma ssl_after_ok: "ssl_ok (ssl_after t)"
proof -
  have "ssl_ok (fold parse_line lines st)" if "ssl_ok st" for lines st
    using that by (induction lines arbitrary: st) (simp_all add: parse_line_ok)
  then show ?thesis by (simp add: ssl_after_def ssl_ok_def)
qed

text \<open>
  C34: What the parser returns is well formed, whatever the text: the parts of a triplet are not
  empty; the type of a learning is one of the twelve, its title is the first line of its content
  cut at 100 bytes, its arousal lies between 0 and 1, no flag is empty, and its content does not
  end in white space.
\<close>

theorem ssl_well_formed:
  "list_all learning_ok (fst (ssl_parse t)) \<and> list_all triplet_ok (snd (ssl_parse t))"
  using store_ok [OF ssl_after_ok [of t]] by (simp add: ssl_parse_after ssl_ok_def)

section \<open>What the code does not mean to do\<close>

text \<open>
  A citation read while the content of a note is still empty stays behind and is given to the
  next note: the hypothesis of the theorem on two texts cannot be dropped.
\<close>

lemma citation_leaks:
  assumes "cur_content st = []" "cur_cites st = c # cs" "regex_match type_pattern line = Some gs"
    "line \<noteq> []" "take 3 line \<noteq> ''```''" "line \<noteq> ''---''"
  shows "cur_cites (parse_line line st) = c # cs"
  using assms by (simp add: parse_line_def store_current_def)

lemma citation_stays:
  "cur_content (ssl_after (''[EVENT] '' @ lf # ''[CITE] a:1'')) = [] \<and>
   cur_cites (ssl_after (''[EVENT] '' @ lf # ''[CITE] a:1'')) = [\<lparr>cite_file = ''a'', cite_line = 1, cite_context = []\<rparr>]"
  by code_simp

text \<open>A reference to another note is also recorded as a citation of a file.\<close>

lemma reference_is_citation:
  "parse_refs (rarrow @ ''@tag'') = [''tag''] \<and> map cite_file (extract_inline_citations (rarrow @ ''@tag'')) = [''tag'']"
  by code_simp

text \<open>
  When only the second number of an affect annotation is out of range, the valence keeps the
  value that was read and is not brought into its range.
\<close>

lemma valence_unclamped:
  assumes "regex_search v03_pattern s = Some (i, j, cs)" "stof (group_str s cs 1) = Some v" "stof (group_str s cs 2) = None"
    "regex_search legacy_pattern s = None"
  shows "fst (parse_affect_values s) = v"
  using assms by (simp add: parse_affect_values_def read_affect_def)

end
