(* ===== verification/Spec2Isabelle.thy ===== *)
theory Spec2Isabelle
  imports
    Task_Ledger_List Task_Ledger_Lease Output_Cap
    Provenance_Spine Thread_Pool Runtime_Ledger Hook_Saddle Hook_Cards Capsule_Gateway Embed_Queue Context_Compact Trajectory_Compact Soul_Controller
    Temporal Prompt_Admission SSL_Facts
begin

text \<open>
  Chitta is a persistent memory for coding agents: a C++ daemon in front of a Rust store.
  Clients (hooks, command line, RPC) talk JSON-RPC to the daemon; a worker pool runs the
  requests; handlers read and write the store; embeddings of texts are computed on their own
  queue; sessions coordinate through a task ledger; hooks keep a capsule for the next session
  and detect commands that keep failing; queued work is placed in a node-local directory and
  copied to a durable ledger.  The development models the parts of the daemon that are decided
  by its own C++ code.  All paths below are under \<open>src/chitta/include/chitta\<close> unless they name
  a \<open>.cpp\<close> file, which is under \<open>src/chitta/src\<close>.

  \<^bold>\<open>Foundations.\<close>  \<open>Chitta_Base\<close>: machine words, exceptions as the sum type \<open>exn + 'a\<close>, bind and
  traversals.  \<open>Ordered_Map\<close>: \<open>std::map\<close> and \<open>std::set\<close> as sorted association lists.
  \<open>Json_Model\<close>: \<open>nlohmann::json\<close> with the accessors that throw.  \<open>Lexical_Path\<close>:
  \<open>std::filesystem::path\<close> normalization.  \<open>Text_Codec\<close>: printing and scanning of numbers.
  \<open>Float_Arith\<close>: binary floating point, a finite value as a rational rounded to the format.
  \<open>Step_Systems\<close>: the locales \<open>simulation\<close> and \<open>decreasing\<close>, interpreted by every
  component with threads or crashes.  \<open>Unicode_Tables\<close>: \<open>hook_unicode.hpp\<close>.

  \<^bold>\<open>Task ledger\<close> (\<open>task_ledger.hpp\<close>).  \<open>Ledger_Tables\<close> has the five tables with their secondary
  indexes and the validate, persist, publish sequence; \<open>Task_Ledger\<close> one definition per
  operation of \<open>TaskLedger::run\<close>, from the ledger, the arguments and the clock to a result and
  the changed rows.  The mutex makes one operation one step.  \<open>Ledger_Table_Facts\<close>,
  \<open>Task_Ledger_Effect\<close>, \<open>Task_Ledger_Facts\<close> and \<open>Task_Ledger_Reach\<close> show the index invariant,
  that a batch is published whole or not at all and only after it was persisted, that the
  journal rebuilds the ledger and that stored rows stay valid.  \<open>Task_Ledger_Lease\<close> is about
  leases, \<open>Task_Ledger_List\<close> about pages, lineage, reads and retried creations.

  \<^bold>\<open>RPC and text.\<close>  \<open>Core_Types\<close> (\<open>types.hpp\<close>): node identifiers, sparse vectors, atomic file
  replacement.  \<open>Utf8_Text\<close> (\<open>rpc/protocol.hpp\<close>, \<open>text_utils.hpp\<close>, \<open>llm_http.hpp\<close>): the sanitizers,
  truncation and the token estimate.  \<open>Rpc_Protocol\<close>: envelopes, request validation, read limits,
  hit lines.  \<open>Daemon_Support\<close> and \<open>Output_Cap\<close>: the loading responder, sandbox writer, schedule
  jitter, and the output cache (\<open>output_cap.hpp\<close>): a reference a capped answer carries gives the original
  text through later cappings until its lifetime, which may be zero, is over.  \<open>Provenance_Spine\<close> (\<open>provenance.hpp\<close>): records,
  byte format, save and load.

  \<^bold>\<open>Threads.\<close>  \<open>Thread_Pool\<close> (\<open>rpc/thread_pool.hpp\<close>), \<open>Embed_Cache\<close> and \<open>Embed_Queue\<close>
  (\<open>embed_queue.hpp\<close>): every critical section or atomic access is one step of an inductive
  relation, and a run is any interleaving of such steps.  The pool refines a dispatcher that
  hands every accepted task to one worker; the cache refines a recency list; a promise of the
  embedding queue is open exactly while its job is pending.  Progress is a measure that every
  worker step decreases, so no fuel is needed.

  \<^bold>\<open>Leader election.\<close>  \<open>Soul_Controller\<close> (\<open>soul_controller.cpp\<close>): instances that elect a leader
  through a directory on a shared file system.  One step is one system call or one access to
  an atomic; every call may fail and an instance may die between two calls.  The files are an
  explicit store of inodes, since two instances can hold the same temporary file.

  \<^bold>\<open>Files that survive crashes.\<close>  \<open>Runtime_Ledger\<close> (\<open>queue_path.hpp\<close>): a flush is the list of the
  states it goes through, and a crash is any prefix of it; the durable ledger receives the local
  tail exactly once.

  \<^bold>\<open>Hooks.\<close>  \<open>Hook_Base\<close>, \<open>Hook_Ledger\<close> and \<open>Hook_Cards\<close> (\<open>hook_ledger_policy.hpp\<close>): repository
  identity, capsules, saving under a revision check, cards.  \<open>Capsule_Gateway\<close>
  (\<open>handlers/field_task_ledger.cpp\<close>) composes it with the task ledger: \<open>capsule_save\<close> and
  \<open>session_bind\<close> list the sessions of a repository page by page, compare the revision of the latest
  capsule and bind the accepted one to its session; its theorem says that the next writer who
  expects the old revision is refused.  \<open>Hook_Saddle\<close>
  (\<open>hook_saddle_policy.hpp\<close>): command shapes, similarity and detection of repeated failures.

  \<^bold>\<open>Text policies.\<close>  \<open>Regex_Engine\<close> is \<open>std::regex\<close> in its default grammar: the matches in the order of
  the backtracking executor, with captured groups; the theorem \<open>regex_engine_correct\<close> says that they are
  exactly those of the language of the expression.  \<open>Temporal\<close> (\<open>temporal.cpp\<close>) reads dates and
  relative expressions.  \<open>Prompt_Admission\<close> (\<open>prompt_policy.hpp\<close>) decides which recalled lines a
  prompt carries: the gates line by line, the round robin over the lanes, and the account of every line.
  \<open>SSL_Parser\<close> (\<open>ssl_parser.cpp\<close>) is the parser of distilled notes, a state machine over lines;
  \<open>SSL_Facts\<close> shows that written-out chains are read back, that the notes of two texts are read
  independently and that results are well formed.

  \<^bold>\<open>Handlers over transcripts.\<close>  \<open>Transcript_Parser\<close> (\<open>transcript_parser.cpp\<close>), \<open>Compact_Base\<close>,
  \<open>Context_Compact\<close> (\<open>handlers/compact.cpp\<close>) and \<open>Trajectory_Compact\<close>
  (\<open>handlers/trajectory_compact.cpp\<close>): lines to turns, and turns to a selection within a budget,
  with scores in IEEE single precision.

  \<^bold>\<open>Conventions.\<close>  Code outside the repository (JSON parsing, digests, embedding models, the file
  system's answers, the store) is an argument of the definitions, often a field of a library
  record; what is relied on is a named hypothesis of the theorem and its witness instantiates
  it.  Machine integers are words, or integers with the wrap-around written out.  Loops are
  structural recursion or a \<open>function\<close> with a measure; where fuel occurs it is the length of the
  input, or the number of session rows and one more for the pages of a listing, and the theorem
  shows that this is enough.

  \<^bold>\<open>Not modelled.\<close>  The store bindings (\<open>field_store.hpp\<close>) only marshal calls into Rust, and the
  handlers for recall, memory, sessions and system (\<open>handlers/field_*.cpp\<close>) are mostly calls of that
  store with JSON assembled around the answers.  Sockets, processes and terminals
  (\<open>socket_server.cpp\<close>, \<open>socket_client.cpp\<close>, \<open>simple_cli.cpp\<close>, \<open>daemon_lifecycle.cpp\<close>,
  \<open>rpc_server.cpp\<close>, \<open>http_viz.hpp\<close>) are input and output.  Code intelligence (\<open>code_intel.cpp\<close>,
  \<open>code_navigation.cpp\<close>) walks trees of the tree-sitter library.  Of the policies decided by regular
  expressions, \<open>hook_pretool_policy.hpp\<close>, \<open>hook_prompt_policy.hpp\<close>, \<open>query_intent.cpp\<close> and
  \<open>subconscious.cpp\<close> are long lists of patterns without state of their own and are left out.  Agents and language-model back ends
  (\<open>sadhana/\<close>, \<open>vak_*.hpp\<close>, \<open>native_distiller.cpp\<close>) run other programs.  \<open>httplib.h\<close> is vendored.
\<close>

end
